(* ===== verification/Js_Runtime.thy ===== *)
theory Js_Runtime
  imports
    Main
    "HOL-Library.Char_ord"
    "HOL-Library.List_Lexorder"
    "HOL-Library.Product_Lexorder"
    "HOL-Library.AList"
    "HOL-Library.Multiset"
begin

text \<open>
  The prelude of the development: what the modelled TypeScript uses of its language and
  standard library, and the lemmas the component theories share.

  \<^item> A JavaScript string is a \<open>string\<close>; one \<open>char\<close> stands for one UTF-16 code unit, so the
    strings of the model range over the code units below 256. The operators \<open><\<close> and \<open>>\<close> on
    strings compare code units lexicographically, which is the order that \<open>Char_ord\<close> and
    \<open>List_Lexorder\<close> give.
  \<^item> \<open>Array.prototype.sort\<close> is stable; \<open>js_sort\<close> takes the comparator as the code passes it.
  \<^item> A \<open>Map\<close> iterates in insertion order and an update of a present key keeps its place: it is
    an association list with \<open>AList.update\<close> as \<open>set\<close> and \<open>map_of\<close> as \<open>get\<close>.
  \<^item> A \<open>Set\<close> is a list without repetitions in insertion order.
  \<^item> A thrown exception is the \<open>Inl\<close> of a sum.
\<close>

named_theorems codec_inj \<open>injectivity of the string encodings\<close>
named_theorems result_simps \<open>rewriting of the error monad\<close>

section \<open>Exceptions\<close>

type_synonym ('e, 'a) result = "'e + 'a"

definition bind_result :: "('e, 'a) result \<Rightarrow> ('a \<Rightarrow> ('e, 'b) result) \<Rightarrow> ('e, 'b) result" where
  "bind_result m f = (case m of Inl e \<Rightarrow> Inl e | Inr a \<Rightarrow> f a)"

lemma bind_result_simps [simp, result_simps]:
  "bind_result (Inl e) f = Inl e"
  "bind_result (Inr a) f = f a"
  by (simp_all add: bind_result_def)

lemma bind_result_Inr_iff [result_simps]:
  "bind_result m f = Inr b \<longleftrightarrow> (\<exists>a. m = Inr a \<and> f a = Inr b)"
  by (cases m) simp_all

lemma bind_result_Inl_iff:
  "bind_result m f = Inl e \<longleftrightarrow> m = Inl e \<or> (\<exists>a. m = Inr a \<and> f a = Inl e)"
  by (cases m) simp_all

text \<open>\<open>xs.map(f)\<close> for an \<open>f\<close> that may throw: the first exception escapes.\<close>

fun map_result :: "('a \<Rightarrow> ('e, 'b) result) \<Rightarrow> 'a list \<Rightarrow> ('e, 'b list) result" where
  "map_result f [] = Inr []"
| "map_result f (x # xs) =
     bind_result (f x) (\<lambda>y. bind_result (map_result f xs) (\<lambda>ys. Inr (y # ys)))"

lemma map_result_Inr_iff:
  "map_result f xs = Inr ys \<longleftrightarrow> list_all2 (\<lambda>x y. f x = Inr y) xs ys"
  by (induction xs arbitrary: ys) (auto simp: bind_result_Inr_iff list_all2_Cons1)

lemma map_result_all_Inr:
  "(\<And>x. x \<in> set xs \<Longrightarrow> f x = Inr (g x)) \<Longrightarrow> map_result f xs = Inr (map g xs)"
  by (induction xs) simp_all

section \<open>Stable sorting by a comparator\<close>

fun js_insert :: "('a \<Rightarrow> 'a \<Rightarrow> int) \<Rightarrow> 'a \<Rightarrow> 'a list \<Rightarrow> 'a list" where
  "js_insert cmp x [] = [x]"
| "js_insert cmp x (y # ys) =
     (if cmp x y \<le> 0 then x # y # ys else y # js_insert cmp x ys)"

definition js_sort :: "('a \<Rightarrow> 'a \<Rightarrow> int) \<Rightarrow> 'a list \<Rightarrow> 'a list" where
  "js_sort cmp xs = foldr (js_insert cmp) xs []"

text \<open>
  A comparator that decides by a key: what every comparator of the modelled code does. The
  clients below need only that the sorted list is the one \<open>sort_key\<close> gives.
\<close>

locale keyed_comparator =
  fixes cmp :: "'a \<Rightarrow> 'a \<Rightarrow> int"
    and key :: "'a \<Rightarrow> 'k::linorder"
  assumes cmp_le_iff: "cmp x y \<le> 0 \<longleftrightarrow> key x \<le> key y"
    and cmp_eq_iff: "cmp x y = 0 \<longleftrightarrow> key x = key y"
begin

lemma js_insert_eq: "js_insert cmp x ys = insort_key key x ys"
  by (induction ys) (simp_all add: cmp_le_iff)

lemma js_sort_eq: "js_sort cmp xs = sort_key key xs"
  by (induction xs) (simp_all add: js_sort_def js_insert_eq)

lemma mset_js_sort: "mset (js_sort cmp xs) = mset xs"
  by (simp add: js_sort_eq)

lemma set_js_sort: "set (js_sort cmp xs) = set xs"
  by (simp add: js_sort_eq)

lemma sorted_js_sort: "sorted (map key (js_sort cmp xs))"
  by (simp add: js_sort_eq)

lemma length_js_sort: "length (js_sort cmp xs) = length xs"
  by (simp add: js_sort_eq)

end

text \<open>Sorting by a key that is injective on the elements forgets their order.\<close>

lemma filter_eq_replicate: "filter ((=) k) zs = replicate (count (mset zs) k) k"
  by (induction zs) auto

lemma sort_key_inj_perm:
  fixes key :: "'a \<Rightarrow> 'k::linorder"
  assumes "mset xs = mset ys" and "inj_on key (set xs)"
  shows "sort_key key xs = sort_key key ys"
proof (rule properties_for_sort_key)
  show "mset (sort_key key ys) = mset xs" using assms(1) by simp
  show "sorted (map key (sort_key key ys))" by simp
  fix k
  assume "k \<in> set (sort_key key ys)"
  have sets: "set xs = set ys" using assms(1) by (rule mset_eq_setD)
  then have k: "k \<in> set xs" using \<open>k \<in> set (sort_key key ys)\<close> by simp
  have same: "filter (\<lambda>x. key k = key x) zs = replicate (count (mset zs) k) k"
    if "set zs = set xs" for zs
  proof -
    have "filter (\<lambda>x. key k = key x) zs = filter ((=) k) zs"
      using assms(2) k that by (auto intro!: filter_cong simp: inj_on_def)
    then show ?thesis by (simp add: filter_eq_replicate)
  qed
  show "filter (\<lambda>x. key k = key x) (sort_key key ys) = filter (\<lambda>x. key k = key x) xs"
    using same [of "sort_key key ys"] same [of xs] assms(1) sets by simp
qed

text \<open>The iteration order of a \<open>Set\<close> built from a list: first occurrences.\<close>

definition insertion_order :: "'a list \<Rightarrow> 'a list" where
  "insertion_order xs = rev (remdups (rev xs))"

lemma set_insertion_order [simp]: "set (insertion_order xs) = set xs"
  by (simp add: insertion_order_def)

section \<open>Code-unit string order\<close>

definition compareCodeUnitStrings :: "string \<Rightarrow> string \<Rightarrow> int" where
  "compareCodeUnitStrings left right =
     (if left < right then -1 else if left > right then 1 else 0)"

lemma compareCodeUnitStrings_iff:
  "compareCodeUnitStrings a b < 0 \<longleftrightarrow> a < b"
  "compareCodeUnitStrings a b > 0 \<longleftrightarrow> b < a"
  "compareCodeUnitStrings a b = 0 \<longleftrightarrow> a = b"
  "compareCodeUnitStrings a b \<le> 0 \<longleftrightarrow> a \<le> b"
  by (auto simp: compareCodeUnitStrings_def)

interpretation code_unit_order: keyed_comparator compareCodeUnitStrings "\<lambda>s. s"
  by unfold_locales (auto simp: compareCodeUnitStrings_iff)

text \<open>\<open>a || b\<close> on comparator results: the second decides where the first is 0.\<close>

definition cmp_or :: "int \<Rightarrow> int \<Rightarrow> int" where
  "cmp_or a b = (if a \<noteq> 0 then a else b)"

section \<open>Strings\<close>

definition startsWith :: "string \<Rightarrow> string \<Rightarrow> bool" where
  "startsWith s p \<longleftrightarrow> take (length p) s = p"

fun str_includes :: "string \<Rightarrow> string \<Rightarrow> bool" where
  "str_includes [] p \<longleftrightarrow> p = []"
| "str_includes (c # s) p \<longleftrightarrow> startsWith (c # s) p \<or> str_includes s p"

definition padStart :: "nat \<Rightarrow> char \<Rightarrow> string \<Rightarrow> string" where
  "padStart w c s = replicate (w - length s) c @ s"

definition padEnd :: "nat \<Rightarrow> char \<Rightarrow> string \<Rightarrow> string" where
  "padEnd w c s = s @ replicate (w - length s) c"

fun joinWith :: "string \<Rightarrow> string list \<Rightarrow> string" where
  "joinWith sep [] = []"
| "joinWith sep [x] = x"
| "joinWith sep (x # y # xs) = x @ sep @ joinWith sep (y # xs)"

lemma joinWith_Cons:
  "joinWith sep (x # xs) = x @ (if xs = [] then [] else sep @ joinWith sep xs)"
  by (cases xs) simp_all

text \<open>\<open>toLowerCase\<close> on the code units below 256: the ASCII letters and the Latin-1 ones.\<close>

definition lower_char :: "char \<Rightarrow> char" where
  "lower_char c =
     (let n = of_char c :: nat
      in if (65 \<le> n \<and> n \<le> 90) \<or> (192 \<le> n \<and> n \<le> 222 \<and> n \<noteq> 215)
         then char_of (n + 32) else c)"

definition toLowerCase :: "string \<Rightarrow> string" where
  "toLowerCase s = map lower_char s"

lemma of_char_less_256 [simp]: "(of_char c :: nat) < 256"
  by (cases c) (simp add: of_char_def horner_sum_simps split: if_splits)

lemma of_char_char_of_nat [simp]: "n < 256 \<Longrightarrow> (of_char (char_of n :: char) :: nat) = n"
  by (simp add: of_char_of)

lemma lower_char_idem [simp]: "lower_char (lower_char c) = lower_char c"
  by (auto simp: lower_char_def Let_def)

lemma toLowerCase_idem [simp]: "toLowerCase (toLowerCase s) = toLowerCase s"
  by (simp add: toLowerCase_def)

lemma length_toLowerCase [simp]: "length (toLowerCase s) = length s"
  by (simp add: toLowerCase_def)

text \<open>
  Joining on a separator that no component contains is injective. The dedupe keys of the
  repository (source and id, source/entry/announcement, task and bucket) are such joins.
\<close>

lemma sep_append_inj [codec_inj]:
  assumes "sep \<notin> set a" and "sep \<notin> set b"
  shows "a @ sep # r = b @ sep # q \<longleftrightarrow> a = b \<and> r = q"
  using assms
proof (induction a arbitrary: b)
  case Nil
  then show ?case by (cases b) auto
next
  case (Cons x a)
  then show ?case by (cases b) auto
qed

lemma joinWith_inj:
  assumes "\<forall>x \<in> set xs. sep \<notin> set x" and "\<forall>y \<in> set ys. sep \<notin> set y"
    and "length xs = length ys" and "joinWith [sep] xs = joinWith [sep] ys"
  shows "xs = ys"
  using assms(3,1,2,4)
proof (induction xs ys rule: list_induct2)
  case Nil
  then show ?case by simp
next
  case (Cons x xs y ys)
  then show ?case
    by (cases xs; cases ys) (auto simp: sep_append_inj)
qed

section \<open>Decimal integers\<close>

abbreviation is_digit :: "char \<Rightarrow> bool" where
  "is_digit c \<equiv> (48::nat) \<le> of_char c \<and> (of_char c :: nat) \<le> 57"

definition digit_char :: "nat \<Rightarrow> char" where
  "digit_char n = char_of (48 + n)"

definition digit_val :: "char \<Rightarrow> nat" where
  "digit_val c = of_char c - 48"

lemma digit_val_digit_char [simp]: "n < 10 \<Longrightarrow> digit_val (digit_char n) = n"
  by (simp add: digit_val_def digit_char_def)

lemma digit_char_digit_val [simp]: "is_digit c \<Longrightarrow> digit_char (digit_val c) = c"
  by (simp add: digit_val_def digit_char_def)

lemma is_digit_digit_char [simp]: "n < 10 \<Longrightarrow> is_digit (digit_char n)"
  by (simp add: digit_char_def)

lemma digit_val_less [simp]: "is_digit c \<Longrightarrow> digit_val c < 10"
  unfolding digit_val_def by linarith

text \<open>\<open>n.toString()\<close> of a non-negative integer.\<close>

fun dec :: "nat \<Rightarrow> string" where
  "dec n = (if n < 10 then [digit_char n] else dec (n div 10) @ [digit_char (n mod 10)])"

declare dec.simps [simp del]

definition dec_int :: "int \<Rightarrow> string" where
  "dec_int i = (if i < 0 then CHR ''-'' # dec (nat (- i)) else dec (nat i))"

definition nat_of_digits :: "string \<Rightarrow> nat" where
  "nat_of_digits s = foldl (\<lambda>a c. 10 * a + digit_val c) 0 s"

lemma foldl_digits:
  "foldl (\<lambda>a c. 10 * a + digit_val c) k s = k * 10 ^ length s + nat_of_digits s"
proof (induction s rule: rev_induct)
  case Nil
  then show ?case by (simp add: nat_of_digits_def)
next
  case (snoc c s)
  then show ?case by (simp add: nat_of_digits_def algebra_simps)
qed

lemma nat_of_digits_simps [simp]:
  "nat_of_digits [] = 0"
  "nat_of_digits (c # s) = digit_val c * 10 ^ length s + nat_of_digits s"
  using foldl_digits [of "digit_val c" s] by (simp_all add: nat_of_digits_def)

lemma nat_of_digits_append:
  "nat_of_digits (s @ t) = nat_of_digits s * 10 ^ length t + nat_of_digits t"
  by (induction s) (simp_all add: algebra_simps power_add)

lemma nat_of_digits_dec [simp]: "nat_of_digits (dec n) = n"
proof (induction n rule: dec.induct)
  case (1 n)
  then show ?case by (subst dec.simps) (simp add: nat_of_digits_append)
qed

lemma dec_digits: "\<forall>c \<in> set (dec n). is_digit c"
proof (induction n rule: dec.induct)
  case (1 n)
  show ?case
  proof (cases "n < 10")
    case True
    then show ?thesis by (subst dec.simps) simp
  next
    case False
    with "1.IH" have "\<forall>c \<in> set (dec (n div 10)). is_digit c" by simp
    with False show ?thesis by (subst dec.simps) auto
  qed
qed

lemma dec_not_Nil [simp]: "dec n \<noteq> []"
  by (subst dec.simps) simp

lemma dec_inj [codec_inj]: "dec m = dec n \<longleftrightarrow> m = n"
  by (metis nat_of_digits_dec)

lemma length_dec_le: "0 < k \<Longrightarrow> n < 10 ^ k \<Longrightarrow> length (dec n) \<le> k"
proof (induction n arbitrary: k rule: dec.induct)
  case (1 n)
  show ?case
  proof (cases "n < 10")
    case True
    with "1.prems" show ?thesis by (subst dec.simps) simp
  next
    case False
    have "k \<noteq> 1" using False "1.prems" by auto
    with "1.prems" obtain j where k: "k = Suc j" "0 < j" by (cases k) auto
    from "1.prems" k have "n div 10 < 10 ^ j" by (simp add: less_mult_imp_div_less mult.commute)
    with False k "1.IH" [of j] show ?thesis by (subst dec.simps) simp
  qed
qed

lemma nat_of_digits_less: "\<forall>c \<in> set s. is_digit c \<Longrightarrow> nat_of_digits s < 10 ^ length s"
proof (induction s)
  case Nil
  then show ?case by simp
next
  case (Cons c s)
  then have "digit_val c < 10" "nat_of_digits s < 10 ^ length s" by simp_all
  then have "digit_val c * 10 ^ length s + nat_of_digits s < Suc (digit_val c) * 10 ^ length s"
    by simp
  also have "\<dots> \<le> 10 * 10 ^ length s" using \<open>digit_val c < 10\<close> by (intro mult_right_mono) simp_all
  finally show ?case by simp
qed

lemma nat_of_digits_padStart [simp]:
  "nat_of_digits (padStart w CHR ''0'' s) = nat_of_digits s"
proof -
  have "nat_of_digits (replicate k CHR ''0'' @ s) = nat_of_digits s" for k
    by (induction k) (simp_all add: digit_val_def)
  then show ?thesis by (simp add: padStart_def)
qed

lemma length_padStart [simp]: "length (padStart w c s) = max w (length s)"
  by (simp add: padStart_def)

lemma set_padStart: "set (padStart w c s) \<subseteq> insert c (set s)"
  by (auto simp: padStart_def)

text \<open>
  On digit strings of one length, code-unit order is numeric order. This is what lets the code
  compare zero-padded sequence numbers as strings.
\<close>

lemma char_less_iff: "c < d \<longleftrightarrow> (of_char c :: nat) < of_char d"
  by (simp add: less_char_def)

lemma digits_less_iff:
  assumes "length s = length t" and "\<forall>c \<in> set s. is_digit c" and "\<forall>c \<in> set t. is_digit c"
  shows "s < t \<longleftrightarrow> nat_of_digits s < nat_of_digits t"
  using assms
proof (induction s t rule: list_induct2)
  case Nil
  then show ?case by simp
next
  case (Cons c s d t)
  let ?p = "10 ^ length s :: nat"
  have bounds: "nat_of_digits s < ?p" "nat_of_digits t < ?p"
    using nat_of_digits_less [of s] nat_of_digits_less [of t] Cons.prems Cons.hyps by simp_all
  have IH: "s < t \<longleftrightarrow> nat_of_digits s < nat_of_digits t" using Cons by simp
  have dig: "is_digit c" "is_digit d" using Cons.prems by simp_all
  have cd: "c < d \<longleftrightarrow> digit_val c < digit_val d"
    using dig unfolding char_less_iff digit_val_def by linarith
  have cd_eq: "c = d \<longleftrightarrow> digit_val c = digit_val d"
    using digit_char_digit_val [OF dig(1)] digit_char_digit_val [OF dig(2)] by metis
  have step: "a * ?p + x < b * ?p + y" if "a < b" "x < ?p" for a b x y :: nat
  proof -
    have "a * ?p + x < Suc a * ?p" using that(2) by simp
    also have "\<dots> \<le> b * ?p" using that(1) by (intro mult_right_mono) simp_all
    finally show ?thesis by simp
  qed
  consider "digit_val c < digit_val d" | "digit_val c = digit_val d" | "digit_val d < digit_val c"
    by linarith
  then show ?case
  proof cases
    case 1
    with step [OF 1 bounds(1)] cd Cons.hyps show ?thesis by simp
  next
    case 2
    with cd cd_eq IH Cons.hyps show ?thesis by simp
  next
    case 3
    with step [OF 3 bounds(2), of "nat_of_digits s"] cd cd_eq Cons.hyps show ?thesis by simp
  qed
qed

lemma digits_eq_iff:
  assumes "length s = length t" and "\<forall>c \<in> set s. is_digit c" and "\<forall>c \<in> set t. is_digit c"
  shows "s = t \<longleftrightarrow> nat_of_digits s = nat_of_digits t"
  using digits_less_iff [OF assms] digits_less_iff [of t s] assms
  by (metis less_irrefl linorder_neqE)

end
