(* ===== verification/Js_Json.thy ===== *)
theory Js_Json
  imports Js_Runtime
begin

text \<open>
  JSON values as the modelled code sees them, and their canonical text.

  \<^item> A finite number is represented by the text that \<open>Number::toString\<close> prints for it. That
    text determines the number, is what \<open>JSON.stringify\<close> emits, and is what the code itself
    works on wherever it must not lose precision.
  \<^item> An object is the list of its own properties in \<open>Object.keys\<close> order.
  \<^item> \<open>JUndef\<close> is \<open>undefined\<close>, which may occur as a property or an array element.

  \<open>canonicalText\<close> is the iterative printer of task-execution/protocol/src/fold.ts (an explicit
  stack, because the values have no depth bound). The lemmas show that it computes the
  recursive text \<open>canon\<close>, and that this text is a canonical form: two values have the same text
  exactly when they agree up to key order and \<open>undefined\<close> properties.
\<close>

section \<open>Values\<close>

datatype json =
    JUndef
  | JNull
  | JBool bool
  | JNum string
  | JStr string
  | JArr "json list"
  | JObj "(string \<times> json) list"

text \<open>\<open>value[key]\<close> on an object; a missing property reads as \<open>undefined\<close>.\<close>

fun get_field :: "json \<Rightarrow> string \<Rightarrow> json" where
  "get_field (JObj kvs) k = (case map_of kvs k of Some v \<Rightarrow> v | None \<Rightarrow> JUndef)"
| "get_field _ k = JUndef"

fun json_string :: "json \<Rightarrow> string option" where
  "json_string (JStr s) = Some s"
| "json_string _ = None"

abbreviation get_string :: "json \<Rightarrow> string \<Rightarrow> string option" where
  "get_string v k \<equiv> json_string (get_field v k)"

section \<open>JSON.stringify on strings\<close>

definition hex_digit :: "nat \<Rightarrow> char" where
  "hex_digit n = (if n < 10 then char_of (48 + n) else char_of (87 + n))"

definition esc_char :: "char \<Rightarrow> string" where
  "esc_char c =
     (let n = of_char c :: nat
      in if n = 34 then [CHR 0x5C, CHR 0x22]
         else if n = 92 then [CHR 0x5C, CHR 0x5C]
         else if n = 8 then [CHR 0x5C, CHR ''b'']
         else if n = 9 then [CHR 0x5C, CHR ''t'']
         else if n = 10 then [CHR 0x5C, CHR ''n'']
         else if n = 12 then [CHR 0x5C, CHR ''f'']
         else if n = 13 then [CHR 0x5C, CHR ''r'']
         else if n < 32 then [CHR 0x5C, CHR ''u'', CHR ''0'', CHR ''0'', hex_digit (n div 16), hex_digit (n mod 16)]
         else [c])"

definition json_quote :: "string \<Rightarrow> string" where
  "json_quote s = CHR 0x22 # concat (map esc_char s) @ [CHR 0x22]"

lemma hex_digit_inj: "m < 16 \<Longrightarrow> n < 16 \<Longrightarrow> hex_digit m = hex_digit n \<longleftrightarrow> m = n"
  by (auto simp: hex_digit_def split: if_splits dest: arg_cong [of _ _ "of_char :: char \<Rightarrow> nat"])

definition esc_width :: "string \<Rightarrow> nat" where
  "esc_width s = (if hd s \<noteq> CHR 0x5C then 1 else if s ! 1 = CHR ''u'' then 6 else 2)"

lemma char_eq_iff: "c = d \<longleftrightarrow> (of_char c :: nat) = of_char d"
  by (simp add: of_char_eq_iff)

lemma esc_width_esc_char: "esc_width (esc_char c @ r) = length (esc_char c)"
  by (auto simp: esc_char_def esc_width_def Let_def)

definition hex_val :: "char \<Rightarrow> nat" where
  "hex_val c = (let n = of_char c :: nat in if n < 58 then n - 48 else n - 87)"

lemma hex_val_hex_digit [simp]: "n < 16 \<Longrightarrow> hex_val (hex_digit n) = n"
  by (simp add: hex_val_def hex_digit_def)

text \<open>The reader of one escaped character, which shows that the escapes are unambiguous.\<close>

definition unesc :: "string \<Rightarrow> char" where
  "unesc s =
     (if hd s \<noteq> CHR 0x5C then hd s
      else if s ! 1 = CHR ''b'' then CHR 0x08
      else if s ! 1 = CHR ''t'' then CHR 0x09
      else if s ! 1 = CHR ''n'' then CHR 0x0A
      else if s ! 1 = CHR ''f'' then CHR 0x0C
      else if s ! 1 = CHR ''r'' then CHR 0x0D
      else if s ! 1 = CHR ''u'' then char_of (16 * hex_val (s ! 4) + hex_val (s ! 5))
      else s ! 1)"

lemma unesc_esc_char [simp]: "unesc (esc_char c) = c"
proof -
  have hex: "16 * hex_val (hex_digit (of_char c div 16)) + hex_val (hex_digit (of_char c mod 16)) = of_char c"
    if "(of_char c :: nat) < 32" using that by simp
  have char: "d = c" if "of_char c = (of_char d :: nat)" for d
    using that by (simp add: of_char_eq_iff)
  show ?thesis
    by (simp add: esc_char_def unesc_def Let_def hex del: hex_val_hex_digit)
      (auto intro: char)
qed

lemma esc_char_inj: "esc_char c = esc_char d \<Longrightarrow> c = d"
  by (metis unesc_esc_char)

lemma esc_char_prefix:
  assumes "esc_char c @ r = esc_char d @ q"
  shows "c = d \<and> r = q"
proof -
  have "length (esc_char c) = length (esc_char d)"
    using esc_width_esc_char [of c r] esc_width_esc_char [of d q] assms by simp
  with assms have "esc_char c = esc_char d" "r = q" by simp_all
  then show ?thesis by (simp add: esc_char_inj)
qed

lemma esc_char_hd: "esc_char c @ r \<noteq> CHR 0x22 # q"
  by (auto simp: esc_char_def Let_def)

lemma json_quote_prefix [codec_inj]:
  "json_quote s @ r = json_quote t @ q \<longleftrightarrow> s = t \<and> r = q"
proof
  show "s = t \<and> r = q \<Longrightarrow> json_quote s @ r = json_quote t @ q" by simp
  have main: "concat (map esc_char s) @ CHR 0x22 # r = concat (map esc_char t) @ CHR 0x22 # q
      \<Longrightarrow> s = t \<and> r = q" for s t
  proof (induction s arbitrary: t)
    case Nil
    show ?case
    proof (cases t)
      case Nil
      with Nil.prems show ?thesis by simp
    next
      case (Cons d u)
      with Nil.prems show ?thesis using esc_char_hd [of d "concat (map esc_char u) @ CHR 0x22 # q" r]
        by simp
    qed
  next
    case (Cons c s)
    show ?case
    proof (cases t)
      case Nil
      with Cons.prems show ?thesis using esc_char_hd [of c "concat (map esc_char s) @ CHR 0x22 # r" q]
        by simp
    next
      case (Cons d u)
      with Cons.prems esc_char_prefix [of c _ d]
      have "c = d" "concat (map esc_char s) @ CHR 0x22 # r = concat (map esc_char u) @ CHR 0x22 # q"
        by simp_all
      with Cons Cons.IH show ?thesis by simp
    qed
  qed
  show "json_quote s @ r = json_quote t @ q \<Longrightarrow> s = t \<and> r = q"
    by (rule main) (simp add: json_quote_def)
qed

section \<open>The canonical text\<close>

text \<open>\<open>String(JSON.stringify(v))\<close> of a value that is neither an array nor an object.\<close>

fun scalar_text :: "json \<Rightarrow> string" where
  "scalar_text JUndef = ''undefined''"
| "scalar_text JNull = ''null''"
| "scalar_text (JBool b) = (if b then ''true'' else ''false'')"
| "scalar_text (JNum t) = t"
| "scalar_text (JStr s) = json_quote s"
| "scalar_text (JArr _) = []"
| "scalar_text (JObj _) = []"

text \<open>The keys whose value is not \<open>undefined\<close>, in code-unit order.\<close>

definition compareKeyed :: "(string \<times> json) \<Rightarrow> (string \<times> json) \<Rightarrow> int" where
  "compareKeyed a b = compareCodeUnitStrings (fst a) (fst b)"

interpretation keyed_props: keyed_comparator compareKeyed fst
  by unfold_locales (auto simp: compareKeyed_def compareCodeUnitStrings_iff)

definition present_sorted :: "(string \<times> json) list \<Rightarrow> (string \<times> json) list" where
  "present_sorted kvs = js_sort compareKeyed (filter (\<lambda>kv. snd kv \<noteq> JUndef) kvs)"

lemma set_present_sorted: "set (present_sorted kvs) = {kv \<in> set kvs. snd kv \<noteq> JUndef}"
  by (auto simp: present_sorted_def keyed_props.set_js_sort)

datatype step = Text string | Value json

text \<open>
  The steps pushed for an array and for an object, top of the stack first: the code pushes the
  closing bracket first and the opening bracket last.
\<close>

fun item_steps :: "json list \<Rightarrow> step list" where
  "item_steps [] = []"
| "item_steps [x] = [Value x]"
| "item_steps (x # y # xs) = Value x # Text '','' # item_steps (y # xs)"

fun key_steps :: "bool \<Rightarrow> (string \<times> json) list \<Rightarrow> step list" where
  "key_steps first [] = []"
| "key_steps first ((k, v) # kvs) =
     Text ((if first then [] else '','') @ json_quote k @ '':'') # Value v # key_steps False kvs"

fun json_weight :: "json \<Rightarrow> nat" where
  "json_weight (JArr xs) = 3 + sum_list (map (\<lambda>x. json_weight x + 1) xs)"
| "json_weight (JObj kvs) = 3 + sum_list (map (\<lambda>kv. json_weight (snd kv) + 1) kvs)"
| "json_weight _ = 1"

fun step_weight :: "step \<Rightarrow> nat" where
  "step_weight (Text t) = 1"
| "step_weight (Value v) = json_weight v"

lemma item_steps_weight:
  "sum_list (map step_weight (item_steps xs)) \<le> sum_list (map (\<lambda>x. json_weight x + 1) xs)"
  by (induction xs rule: item_steps.induct) simp_all

lemma key_steps_weight:
  "sum_list (map step_weight (key_steps b kvs)) = sum_list (map (\<lambda>kv. json_weight (snd kv) + 1) kvs)"
  by (induction b kvs rule: key_steps.induct) simp_all

lemma sum_list_filter_le: "sum_list (map (f :: _ \<Rightarrow> nat) (filter P xs)) \<le> sum_list (map f xs)"
  by (induction xs) simp_all

lemma present_sorted_weight:
  "sum_list (map (f :: _ \<Rightarrow> nat) (present_sorted kvs)) \<le> sum_list (map f kvs)"
proof -
  have "sum_list (map f (present_sorted kvs)) = sum_list (map f (filter (\<lambda>kv. snd kv \<noteq> JUndef) kvs))"
    using arg_cong [OF keyed_props.mset_js_sort [of "filter (\<lambda>kv. snd kv \<noteq> JUndef) kvs"],
        of "\<lambda>m. sum_mset (image_mset f m)"]
    by (simp add: present_sorted_def flip: mset_filter mset_map sum_mset_sum_list)
  then show ?thesis by (simp add: sum_list_filter_le)
qed

function canonicalLoop :: "step list \<Rightarrow> string \<Rightarrow> string" where
  "canonicalLoop [] parts = parts"
| "canonicalLoop (Text t # pending) parts = canonicalLoop pending (parts @ t)"
| "canonicalLoop (Value (JArr xs) # pending) parts =
     canonicalLoop (Text ''['' # item_steps xs @ Text '']'' # pending) parts"
| "canonicalLoop (Value (JObj kvs) # pending) parts =
     canonicalLoop (Text ''{'' # key_steps True (present_sorted kvs) @ Text ''}'' # pending) parts"
| "canonicalLoop (Value JUndef # pending) parts = canonicalLoop pending (parts @ scalar_text JUndef)"
| "canonicalLoop (Value JNull # pending) parts = canonicalLoop pending (parts @ scalar_text JNull)"
| "canonicalLoop (Value (JBool b) # pending) parts = canonicalLoop pending (parts @ scalar_text (JBool b))"
| "canonicalLoop (Value (JNum n) # pending) parts = canonicalLoop pending (parts @ scalar_text (JNum n))"
| "canonicalLoop (Value (JStr s) # pending) parts = canonicalLoop pending (parts @ scalar_text (JStr s))"
  by pat_completeness auto
termination
proof (relation "measure (\<lambda>(pending, parts). sum_list (map step_weight pending))", goal_cases)
  case (3 xs pending parts)
  then show ?case using item_steps_weight [of xs] by simp
next
  case (4 kvs pending parts)
  then show ?case
    using present_sorted_weight [of "\<lambda>kv. json_weight (snd kv) + 1" kvs]
    by (simp add: key_steps_weight)
qed simp_all

definition canonicalText :: "json \<Rightarrow> string" where
  "canonicalText root = canonicalLoop [Value root] []"

section \<open>The recursive text and the normal form\<close>

text \<open>
  The normal form of a value: \<open>undefined\<close> properties dropped and the others in code-unit
  order, at every depth. \<open>json_text\<close> prints a value as it stands.
\<close>

lemma size_present_sorted [termination_simp]:
  "kv \<in> set (present_sorted kvs) \<Longrightarrow> size (snd kv) < Suc (size_list (size_prod (\<lambda>_. 0) size) kvs)"
proof -
  assume "kv \<in> set (present_sorted kvs)"
  then have "kv \<in> set kvs" by (simp add: set_present_sorted)
  then have "size_prod (\<lambda>_. 0) size kv \<le> size_list (size_prod (\<lambda>_. 0) size) kvs"
    by (metis order_refl size_list_estimation')
  then show ?thesis by (cases kv) simp
qed

function norm_json :: "json \<Rightarrow> json" where
  "norm_json (JArr xs) = JArr (map norm_json xs)"
| "norm_json (JObj kvs) = JObj (map (\<lambda>kv. (fst kv, norm_json (snd kv))) (present_sorted kvs))"
| "norm_json JUndef = JUndef"
| "norm_json JNull = JNull"
| "norm_json (JBool b) = JBool b"
| "norm_json (JNum t) = JNum t"
| "norm_json (JStr s) = JStr s"
  by pat_completeness auto
termination
  by (relation "measure size") (auto simp: size_present_sorted le_imp_less_Suc size_list_estimation')

fun json_text :: "json \<Rightarrow> string" where
  "json_text (JArr xs) = ''['' @ joinWith '','' (map json_text xs) @ '']''"
| "json_text (JObj kvs) =
     ''{'' @ joinWith '','' (map (\<lambda>(k, v). json_quote k @ CHR '':'' # json_text v) kvs) @ ''}''"
| "json_text v = scalar_text v"

abbreviation canon :: "json \<Rightarrow> string" where
  "canon v \<equiv> json_text (norm_json v)"

lemma loop_items:
  assumes "\<And>x pending parts. x \<in> set xs \<Longrightarrow>
      canonicalLoop (Value x # pending) parts = canonicalLoop pending (parts @ canon x)"
  shows "canonicalLoop (item_steps xs @ pending) parts =
    canonicalLoop pending (parts @ joinWith '','' (map canon xs))"
  using assms by (induction xs arbitrary: parts rule: item_steps.induct) simp_all

lemma loop_keys:
  assumes "\<And>kv pending parts. kv \<in> set kvs \<Longrightarrow>
      canonicalLoop (Value (snd kv) # pending) parts = canonicalLoop pending (parts @ canon (snd kv))"
  shows "canonicalLoop (key_steps first kvs @ pending) parts =
    canonicalLoop pending (parts @ (if first \<or> kvs = [] then [] else '','') @
      joinWith '','' (map (\<lambda>kv. json_quote (fst kv) @ '':'' @ canon (snd kv)) kvs))"
  using assms
proof (induction first kvs arbitrary: parts rule: key_steps.induct)
  case (1 first)
  then show ?case by simp
next
  case (2 first k v kvs)
  have v: "canonicalLoop (Value v # pending) parts = canonicalLoop pending (parts @ canon v)"
    for pending parts using "2.prems" [of "(k, v)"] by simp
  have IH: "canonicalLoop (key_steps False kvs @ pending) parts =
    canonicalLoop pending (parts @ (if kvs = [] then [] else '','') @
      joinWith '','' (map (\<lambda>kv. json_quote (fst kv) @ '':'' @ canon (snd kv)) kvs))" for parts
    using "2.IH" "2.prems" by simp
  show ?case by (simp add: v IH joinWith_Cons)
qed

lemma canonicalLoop_Value:
  "canonicalLoop (Value v # pending) parts = canonicalLoop pending (parts @ canon v)"
proof (induction v arbitrary: pending parts)
  case (JArr xs)
  then show ?case by (simp add: loop_items o_def)
next
  case (JObj kvs)
  have "canonicalLoop (Value (snd kv) # pending) parts = canonicalLoop pending (parts @ canon (snd kv))"
    if "kv \<in> set (present_sorted kvs)" for kv pending parts
  proof -
    from that have "kv \<in> set kvs" by (simp add: set_present_sorted)
    moreover have "snd kv \<in> Basic_BNFs.snds kv" by (cases kv) simp
    ultimately show ?thesis by (rule JObj.IH)
  qed
  from loop_keys [where kvs = "present_sorted kvs" and first = True, OF this]
  show ?case by (simp add: o_def split_def)
qed simp_all

text \<open>The iterative printer terminates and computes the recursive text.\<close>

lemma canonicalText_eq: "canonicalText v = canon v"
  by (simp add: canonicalText_def canonicalLoop_Value)

section \<open>The text is canonical\<close>

definition num_char :: "char \<Rightarrow> bool" where
  "num_char c \<longleftrightarrow> is_digit c \<or> c \<in> {CHR ''-'', CHR ''+'', CHR ''.'', CHR ''e''}"

definition num_text :: "string \<Rightarrow> bool" where
  "num_text t \<longleftrightarrow> t \<noteq> [] \<and> (\<forall>c \<in> set t. num_char c) \<and> (is_digit (hd t) \<or> hd t = CHR ''-'')"

text \<open>Well-formed values: numbers as \<open>Number::toString\<close> prints them, no property twice.\<close>

fun json_ok :: "json \<Rightarrow> bool" where
  "json_ok (JNum t) \<longleftrightarrow> num_text t"
| "json_ok (JArr xs) \<longleftrightarrow> list_all json_ok xs"
| "json_ok (JObj kvs) \<longleftrightarrow> distinct (map fst kvs) \<and> list_all (\<lambda>kv. json_ok (snd kv)) kvs"
| "json_ok _ \<longleftrightarrow> True"

definition delimited :: "string \<Rightarrow> bool" where
  "delimited r \<longleftrightarrow> r = [] \<or> hd r \<in> {CHR '','', CHR '']'', CHR ''}''}"

lemma delimited_simps [simp]:
  "delimited []"
  "delimited (CHR '','' # r)"
  "delimited (CHR '']'' # r)"
  "delimited (CHR ''}'' # r)"
  by (simp_all add: delimited_def)

lemma num_char_not_delim: "num_char c \<Longrightarrow> c \<noteq> CHR '','' \<and> c \<noteq> CHR '']'' \<and> c \<noteq> CHR ''}''"
  by (auto simp: num_char_def)

lemma num_prefix:
  assumes "\<forall>c \<in> set t. num_char c" and "\<forall>c \<in> set u. num_char c"
    and "delimited r" and "delimited q" and "t @ r = u @ q"
  shows "t = u \<and> r = q"
  using assms
proof (induction t arbitrary: u)
  case Nil
  then show ?case by (cases u) (auto simp: delimited_def dest: num_char_not_delim)
next
  case (Cons c t)
  then show ?case by (cases u) (auto simp: delimited_def dest: num_char_not_delim)
qed

text \<open>The first character tells the kind of a value.\<close>

datatype json_kind = KUndef | KNull | KTrue | KFalse | KNum | KStr | KArr | KObj

definition kind_of_char :: "char \<Rightarrow> json_kind" where
  "kind_of_char c =
     (if c = CHR ''u'' then KUndef else if c = CHR ''n'' then KNull else if c = CHR ''t'' then KTrue
      else if c = CHR ''f'' then KFalse else if c = CHR 0x22 then KStr else if c = CHR ''['' then KArr
      else if c = CHR ''{'' then KObj else KNum)"

fun kind_of :: "json \<Rightarrow> json_kind" where
  "kind_of JUndef = KUndef"
| "kind_of JNull = KNull"
| "kind_of (JBool b) = (if b then KTrue else KFalse)"
| "kind_of (JNum t) = KNum"
| "kind_of (JStr s) = KStr"
| "kind_of (JArr xs) = KArr"
| "kind_of (JObj kvs) = KObj"

lemma json_text_hd:
  assumes "json_ok v"
  shows "json_text v \<noteq> [] \<and> kind_of_char (hd (json_text v)) = kind_of v \<and> hd (json_text v) \<noteq> CHR '']''"
  using assms
  by (cases v) (auto simp: kind_of_char_def json_quote_def num_text_def)

lemma json_text_kind:
  assumes "json_ok v" and "json_ok w" and "json_text v @ r = json_text w @ q"
  shows "kind_of v = kind_of w"
proof -
  have "hd (json_text v) = hd (json_text w)"
    using assms json_text_hd [OF assms(1)] json_text_hd [OF assms(2)] by (metis hd_append2)
  then show ?thesis using json_text_hd [OF assms(1)] json_text_hd [OF assms(2)] by metis
qed

lemma kind_of_iff:
  "kind_of w = KUndef \<longleftrightarrow> w = JUndef"
  "kind_of w = KNull \<longleftrightarrow> w = JNull"
  "kind_of w = KTrue \<longleftrightarrow> w = JBool True"
  "kind_of w = KFalse \<longleftrightarrow> w = JBool False"
  "kind_of w = KNum \<longleftrightarrow> (\<exists>t. w = JNum t)"
  "kind_of w = KStr \<longleftrightarrow> (\<exists>s. w = JStr s)"
  "kind_of w = KArr \<longleftrightarrow> (\<exists>xs. w = JArr xs)"
  "kind_of w = KObj \<longleftrightarrow> (\<exists>kvs. w = JObj kvs)"
  by (cases w; simp)+

lemma json_text_not_close: "json_ok v \<Longrightarrow> json_text v @ r \<noteq> CHR '']'' # q"
  using json_text_hd [of v] by (metis hd_append2 list.sel(1))

text \<open>
  Reading one value off the front of a text is unambiguous: by induction on the value, over any
  two continuations that start with a delimiter.
\<close>

definition text_prefix_free :: "json \<Rightarrow> bool" where
  "text_prefix_free v \<longleftrightarrow> (\<forall>w r q. json_ok v \<longrightarrow> json_ok w \<longrightarrow> delimited r \<longrightarrow> delimited q \<longrightarrow>
     json_text v @ r = json_text w @ q \<longrightarrow> v = w \<and> r = q)"

lemma text_prefix_freeD:
  "text_prefix_free v \<Longrightarrow> json_ok v \<Longrightarrow> json_ok w \<Longrightarrow> delimited r \<Longrightarrow> delimited q \<Longrightarrow>
    json_text v @ r = json_text w @ q \<Longrightarrow> v = w \<and> r = q"
  by (simp add: text_prefix_free_def)

lemma delimited_tail:
  "delimited ((if P then [] else '','' @ joinWith '','' zs) @ CHR '']'' # r)"
  "delimited ((if P then [] else '','' @ joinWith '','' zs) @ CHR ''}'' # r)"
  by simp_all

lemma items_prefix:
  assumes "\<forall>x \<in> set xs. text_prefix_free x" and "list_all json_ok xs" and "list_all json_ok ys"
    and "joinWith '','' (map json_text xs) @ CHR '']'' # r = joinWith '','' (map json_text ys) @ CHR '']'' # q"
  shows "xs = ys \<and> r = q"
  using assms
proof (induction xs arbitrary: ys)
  case Nil
  then show ?case
    by (cases ys) (auto simp: joinWith_Cons json_text_not_close [symmetric] split del: if_split)
next
  case (Cons x xs)
  show ?case
  proof (cases ys)
    case Nil
    with Cons.prems show ?thesis
      by (auto simp: joinWith_Cons json_text_not_close split del: if_split)
  next
    case (Cons y zs)
    have "x = y \<and> (if xs = [] then [] else '','' @ joinWith '','' (map json_text xs)) @ CHR '']'' # r =
        (if zs = [] then [] else '','' @ joinWith '','' (map json_text zs)) @ CHR '']'' # q"
      by (rule text_prefix_freeD) (use Cons.prems Cons in \<open>auto simp: joinWith_Cons\<close>)
    then show ?thesis
      using Cons.IH [of zs] Cons.prems Cons by (auto split: if_splits)
  qed
qed

lemma members_prefix:
  assumes "\<forall>kv \<in> set kvs. text_prefix_free (snd kv)"
    and "list_all (\<lambda>kv. json_ok (snd kv)) kvs" and "list_all (\<lambda>kv. json_ok (snd kv)) lws"
    and "joinWith '','' (map (\<lambda>(k, v). json_quote k @ CHR '':'' # json_text v) kvs) @ CHR ''}'' # r =
      joinWith '','' (map (\<lambda>(k, v). json_quote k @ CHR '':'' # json_text v) lws) @ CHR ''}'' # q"
  shows "kvs = lws \<and> r = q"
  using assms
proof (induction kvs arbitrary: lws)
  case Nil
  then show ?case by (cases lws) (auto simp: joinWith_Cons json_quote_def split_def)
next
  case (Cons kv kvs)
  obtain k v where kv: "kv = (k, v)" by (cases kv)
  show ?case
  proof (cases lws)
    case Nil
    with Cons.prems kv show ?thesis by (auto simp: joinWith_Cons json_quote_def)
  next
    case (Cons lw lws')
    obtain l w where lw: "lw = (l, w)" by (cases lw)
    let ?tail = "\<lambda>ms. if ms = [] then [] else '','' @ joinWith '','' (map (\<lambda>(k, v). json_quote k @ CHR '':'' # json_text v) ms)"
    have eq: "json_quote k @ CHR '':'' # json_text v @ ?tail kvs @ CHR ''}'' # r =
        json_quote l @ CHR '':'' # json_text w @ ?tail lws' @ CHR ''}'' # q"
      using Cons.prems(4) Cons kv lw by (simp add: joinWith_Cons split del: if_split)
    then have "k = l" and eq': "json_text v @ ?tail kvs @ CHR ''}'' # r = json_text w @ ?tail lws' @ CHR ''}'' # q"
      unfolding json_quote_prefix by simp_all
    have "v = w \<and> ?tail kvs @ CHR ''}'' # r = ?tail lws' @ CHR ''}'' # q"
      by (rule text_prefix_freeD [OF _ _ _ _ _ eq']) (use Cons.prems Cons kv lw in auto)
    then show ?thesis
      using \<open>k = l\<close> kv lw Cons.IH [of lws'] Cons.prems Cons by (auto split: if_splits)
  qed
qed

lemma text_prefix_freeI:
  assumes "\<And>w r q. json_ok v \<Longrightarrow> json_ok w \<Longrightarrow> delimited r \<Longrightarrow> delimited q \<Longrightarrow>
    kind_of w = kind_of v \<Longrightarrow> json_text v @ r = json_text w @ q \<Longrightarrow> v = w \<and> r = q"
  shows "text_prefix_free v"
  unfolding text_prefix_free_def
proof (intro allI impI)
  fix w r q
  assume *: "json_ok v" "json_ok w" "delimited r" "delimited q" "json_text v @ r = json_text w @ q"
  then have "kind_of w = kind_of v" using json_text_kind by metis
  with * show "v = w \<and> r = q" using assms by blast
qed

lemma text_prefix_free_all: "text_prefix_free v"
proof (induction v)
  case (JNum t)
  show ?case
  proof (rule text_prefix_freeI)
    fix w r q
    assume *: "json_ok (JNum t)" "json_ok w" "delimited r" "delimited q"
      "kind_of w = kind_of (JNum t)" "json_text (JNum t) @ r = json_text w @ q"
    then obtain u where "w = JNum u" by (auto simp: kind_of_iff)
    with * show "JNum t = w \<and> r = q" using num_prefix [of t u r q] by (simp add: num_text_def)
  qed
next
  case (JStr s)
  show ?case
    by (rule text_prefix_freeI) (auto simp: kind_of_iff json_quote_prefix)
next
  case (JArr xs)
  show ?case
  proof (rule text_prefix_freeI)
    fix w r q
    assume *: "json_ok (JArr xs)" "json_ok w" "kind_of w = kind_of (JArr xs)"
      "json_text (JArr xs) @ r = json_text w @ q"
    then obtain ys where "w = JArr ys" by (auto simp: kind_of_iff)
    with * JArr show "JArr xs = w \<and> r = q" using items_prefix [of xs ys r q] by simp
  qed
next
  case (JObj kvs)
  have free: "\<forall>kv \<in> set kvs. text_prefix_free (snd kv)"
  proof
    fix kv
    assume "kv \<in> set kvs"
    moreover have "snd kv \<in> Basic_BNFs.snds kv" by (cases kv) simp
    ultimately show "text_prefix_free (snd kv)" by (rule JObj.IH)
  qed
  show ?case
  proof (rule text_prefix_freeI)
    fix w r q
    assume *: "json_ok (JObj kvs)" "json_ok w" "kind_of w = kind_of (JObj kvs)"
      "json_text (JObj kvs) @ r = json_text w @ q"
    then obtain lws where "w = JObj lws" by (auto simp: kind_of_iff)
    with * free show "JObj kvs = w \<and> r = q" using members_prefix [of kvs lws r q] by simp
  qed
next
  case (JBool b)
  show ?case by (cases b) (rule text_prefix_freeI, simp add: kind_of_iff)+
qed (rule text_prefix_freeI, simp add: kind_of_iff)+

lemma json_text_inj [codec_inj]:
  "json_ok v \<Longrightarrow> json_ok w \<Longrightarrow> json_text v = json_text w \<longleftrightarrow> v = w"
  using text_prefix_freeD [OF text_prefix_free_all, of v w "[]" "[]"] by auto

lemma distinct_present_sorted:
  assumes "distinct (map fst kvs)"
  shows "distinct (map fst (present_sorted kvs))"
proof -
  have "distinct (map fst (filter (\<lambda>kv. snd kv \<noteq> JUndef) kvs))"
    using assms by (rule distinct_map_filter)
  then show ?thesis
    by (auto simp: present_sorted_def keyed_props.js_sort_eq distinct_map inj_on_def)
qed

lemma norm_json_ok: "json_ok v \<Longrightarrow> json_ok (norm_json v)"
proof (induction v rule: norm_json.induct)
  case (1 xs)
  then show ?case by (simp add: list_all_iff)
next
  case (2 kvs)
  then show ?case
    by (auto simp: list_all_iff o_def distinct_present_sorted set_present_sorted)
qed simp_all

lemma norm_json_undef_iff [simp]: "norm_json v = JUndef \<longleftrightarrow> v = JUndef"
  by (cases v) simp_all

text \<open>The canonical form theorem, in the shape the clients use.\<close>

lemma canonicalText_eq_iff:
  "json_ok v \<Longrightarrow> json_ok w \<Longrightarrow> canonicalText v = canonicalText w \<longleftrightarrow> norm_json v = norm_json w"
  by (simp add: canonicalText_eq json_text_inj norm_json_ok)

lemma map_of_present_sorted:
  assumes "distinct (map fst kvs)"
  shows "map_of (present_sorted kvs) k = (case map_of kvs k of Some v \<Rightarrow> if v = JUndef then None else Some v | None \<Rightarrow> None)"
proof (cases "map_of (present_sorted kvs) k")
  case None
  then have "v = JUndef" if "(k, v) \<in> set kvs" for v
    using that by (force simp: map_of_eq_None_iff set_present_sorted)
  with None show ?thesis by (auto split: option.splits dest: map_of_SomeD)
next
  case (Some v)
  then have "(k, v) \<in> set kvs" "v \<noteq> JUndef"
    using map_of_SomeD [OF Some] by (auto simp: set_present_sorted)
  then show ?thesis using Some assms by simp
qed

lemma norm_get_field:
  assumes "json_ok v"
  shows "get_field (norm_json v) k = norm_json (get_field v k)"
proof (cases v)
  case (JObj kvs)
  have "map_of (map (\<lambda>kv. (fst kv, norm_json (snd kv))) ms) k = map_option norm_json (map_of ms k)" for ms
    by (induction ms) auto
  then show ?thesis using assms JObj
    by (auto simp: map_of_present_sorted split: option.splits)
qed simp_all

lemma json_string_norm [simp]: "json_string (norm_json v) = json_string v"
  by (cases v) simp_all

text \<open>Values with the same canonical text read alike, property by property.\<close>

lemma canonicalText_get_string:
  assumes "json_ok v" and "json_ok w" and "canonicalText v = canonicalText w"
  shows "get_string v k = get_string w k"
proof -
  have "get_field (norm_json v) k = get_field (norm_json w) k"
    using assms by (simp add: canonicalText_eq_iff)
  then have "norm_json (get_field v k) = norm_json (get_field w k)"
    using assms by (simp add: norm_get_field)
  then show ?thesis by (metis json_string_norm)
qed


section \<open>Properties\<close>

text \<open>
  C29: The iterative \<open>canonicalText\<close> equals the recursive printing of the normal form (properties
  that are \<open>undefined\<close> dropped, keys in code-unit order at every depth), and it is canonical: two
  well-formed values have the same text exactly when their normal forms are equal, so key order and
  explicit \<open>undefined\<close> are all it forgets.
\<close>

theorem canonicalText_canonical:
  assumes "json_ok v" and "json_ok w"
  shows "canonicalText v = json_text (norm_json v)
    \<and> (canonicalText v = canonicalText w \<longleftrightarrow> norm_json v = norm_json w)"
  using canonicalText_eq [of v] canonicalText_eq_iff [OF assms] by simp

theorem canonicalText_canonical_witness:
  "canonicalText (JObj [(''b'', JNum ''1''), (''a'', JArr [JNull, JUndef]), (''c'', JUndef)])
     = canonicalText (JObj [(''a'', JArr [JNull, JUndef]), (''b'', JNum ''1'')])"
proof -
  have ok: "json_ok (JObj [(''b'', JNum ''1''), (''a'', JArr [JNull, JUndef]), (''c'', JUndef)])"
    "json_ok (JObj [(''a'', JArr [JNull, JUndef]), (''b'', JNum ''1'')])"
    "norm_json (JObj [(''b'', JNum ''1''), (''a'', JArr [JNull, JUndef]), (''c'', JUndef)])
      = norm_json (JObj [(''a'', JArr [JNull, JUndef]), (''b'', JNum ''1'')])"
    by code_simp+
  show ?thesis using canonicalText_canonical [OF ok(1,2)] ok(3) by blast
qed

end
