(* ===== verification/Calendar_Time.thy ===== *)
theory Calendar_Time
  imports Js_Runtime
begin

text \<open>
  Instants: the calendar-strict RFC 3339 reader of trust/core/src/rfc3339.ts, the head
  timestamps of discovery/protocol/src/timestamps.ts, and \<open>Date.parse\<close> on the date-time strings
  with an offset, which is the only form the modelled code hands to it (sub-millisecond digits
  truncated, a day up to 31 rolled over into the next month, out-of-range fields refused).

  The lemmas: the day index is the proleptic Gregorian calendar (every valid date has the index
  of its predecessor plus one, so the index orders dates); the exact comparison is a total
  preorder on the valid strings; a head timestamp has a millisecond value exactly when it is
  calendar-strict, and the millisecond value never contradicts the exact order.
\<close>

section \<open>The grammar\<close>

fun tpl_match :: "string \<Rightarrow> string \<Rightarrow> bool" where
  "tpl_match [] [] \<longleftrightarrow> True"
| "tpl_match (t # ts) (c # cs) \<longleftrightarrow> (if t = CHR ''d'' then is_digit c else c = t) \<and> tpl_match ts cs"
| "tpl_match _ _ \<longleftrightarrow> False"

definition num_at :: "nat \<Rightarrow> nat \<Rightarrow> string \<Rightarrow> nat" where
  "num_at i n s = nat_of_digits (take n (drop i s))"

definition offset_ok :: "string \<Rightarrow> bool" where
  "offset_ok s \<longleftrightarrow> s = ''Z'' \<or> tpl_match ''+dd:dd'' s \<or> tpl_match ''-dd:dd'' s"

text \<open>The three parts the patterns capture: up to the seconds, the fraction digits, the offset.\<close>

definition rfc_split :: "string \<Rightarrow> (string \<times> string option \<times> string) option" where
  "rfc_split s =
     (let head = take 19 s; rest = drop 19 s
      in if \<not> tpl_match ''dddd-dd-ddTdd:dd:dd'' head then None
         else case rest of
           [] \<Rightarrow> None
         | c # r \<Rightarrow>
             if c = CHR ''.''
             then (let f = takeWhile is_digit r; off = dropWhile is_digit r
                   in if f \<noteq> [] \<and> offset_ok off then Some (head, Some f, off) else None)
             else if offset_ok rest then Some (head, None, rest) else None)"

record ParsedRfc3339 =
  p_year :: int
  p_month :: int
  p_day :: int
  p_hour :: int
  p_minute :: int
  p_second :: int
  p_fraction :: "string option"
  p_offsetSign :: "char option"
  p_offsetHour :: int
  p_offsetMinute :: int

section \<open>Calendar arithmetic\<close>

text \<open>BigInt division truncates towards zero; the code corrects it to the floor.\<close>

definition tdiv :: "int \<Rightarrow> int \<Rightarrow> int" where
  "tdiv a b = sgn a * sgn b * (\<bar>a\<bar> div \<bar>b\<bar>)"

definition tmod :: "int \<Rightarrow> int \<Rightarrow> int" where
  "tmod a b = a - tdiv a b * b"

definition floorDiv :: "int \<Rightarrow> int \<Rightarrow> int" where
  "floorDiv dividend divisor =
     (let quotient = tdiv dividend divisor
      in if tmod dividend divisor < 0 then quotient - 1 else quotient)"

definition positiveModulo :: "int \<Rightarrow> int \<Rightarrow> int" where
  "positiveModulo dividend divisor =
     (let remainder = tmod dividend divisor
      in if remainder < 0 then remainder + divisor else remainder)"

abbreviation SECONDS_PER_DAY :: int where
  "SECONDS_PER_DAY \<equiv> 86400"

definition isLeapYear :: "int \<Rightarrow> bool" where
  "isLeapYear y \<longleftrightarrow> y mod 4 = 0 \<and> (y mod 100 \<noteq> 0 \<or> y mod 400 = 0)"

definition daysInMonth :: "int \<Rightarrow> int \<Rightarrow> int" where
  "daysInMonth y m =
     (if m = 2 then (if isLeapYear y then 29 else 28)
      else if m \<in> {4, 6, 9, 11} then 30 else 31)"

definition daysBeforeYear :: "int \<Rightarrow> int" where
  "daysBeforeYear y =
     (let preceding = y - 1
      in 365 * preceding + floorDiv preceding 4 - floorDiv preceding 100 + floorDiv preceding 400)"

definition daysBeforeMonth :: "int \<Rightarrow> int" where
  "daysBeforeMonth m = [0, 31, 59, 90, 120, 151, 181, 212, 243, 273, 304, 334] ! nat (m - 1)"

definition dayIndex :: "int \<Rightarrow> int \<Rightarrow> int \<Rightarrow> int" where
  "dayIndex y m d =
     daysBeforeYear y + (daysBeforeMonth m + (if m > 2 \<and> isLeapYear y then 1 else 0) + d - 1)"

definition localSecondAt :: "ParsedRfc3339 \<Rightarrow> int \<Rightarrow> int" where
  "localSecondAt p s =
     (let offsetMinutes = (case p_offsetSign p of
            None \<Rightarrow> 0
          | Some c \<Rightarrow> (p_offsetHour p * 60 + p_offsetMinute p) * (if c = CHR ''+'' then 1 else -1))
      in dayIndex (p_year p) (p_month p) (p_day p) * SECONDS_PER_DAY
         + (p_hour p * 3600 + p_minute p * 60 + s - offsetMinutes * 60))"

definition isLeapSecondBoundary :: "ParsedRfc3339 \<Rightarrow> bool" where
  "isLeapSecondBoundary p =
     (let preceding = localSecondAt p 59
      in if positiveModulo preceding SECONDS_PER_DAY \<noteq> 86399 then False
         else let utcDay = floorDiv preceding SECONDS_PER_DAY
              in list_ex (\<lambda>y. utcDay = dayIndex y 6 30 \<or> utcDay = dayIndex y 12 31)
                   [p_year p - 1, p_year p, p_year p + 1])"

definition parseCalendarStrictRfc3339 :: "string \<Rightarrow> ParsedRfc3339 option" where
  "parseCalendarStrictRfc3339 s =
     (case rfc_split s of
        None \<Rightarrow> None
      | Some (h, f, off) \<Rightarrow>
          (let y = int (num_at 0 4 h); mo = int (num_at 5 2 h); d = int (num_at 8 2 h);
               hh = int (num_at 11 2 h); mi = int (num_at 14 2 h); ss = int (num_at 17 2 h);
               oh = (if off = ''Z'' then 0 else int (num_at 1 2 off));
               om = (if off = ''Z'' then 0 else int (num_at 4 2 off))
           in if y < 1 \<or> mo < 1 \<or> mo > 12 \<or> d < 1 \<or> d > daysInMonth y mo
                \<or> hh > 23 \<or> mi > 59 \<or> ss > 60 \<or> oh > 23 \<or> om > 59
              then None
              else let p = \<lparr>p_year = y, p_month = mo, p_day = d, p_hour = hh, p_minute = mi, p_second = ss,
                            p_fraction = f, p_offsetSign = (if off = ''Z'' then None else Some (hd off)),
                            p_offsetHour = oh, p_offsetMinute = om\<rparr>
                   in if ss = 60 \<and> \<not> isLeapSecondBoundary p then None else Some p))"

definition isCalendarStrictRfc3339 :: "string \<Rightarrow> bool" where
  "isCalendarStrictRfc3339 s \<longleftrightarrow> parseCalendarStrictRfc3339 s \<noteq> None"

definition compareFractions :: "string option \<Rightarrow> string option \<Rightarrow> int" where
  "compareFractions left right =
     (let l = (case left of None \<Rightarrow> [] | Some x \<Rightarrow> x);
          r = (case right of None \<Rightarrow> [] | Some x \<Rightarrow> x);
          width = max (length l) (length r);
          a = padEnd width CHR ''0'' l; b = padEnd width CHR ''0'' r
      in if a < b then -1 else if a > b then 1 else 0)"

definition exactSecond :: "ParsedRfc3339 \<Rightarrow> int" where
  "exactSecond p = localSecondAt p (min (p_second p) 59) + (if p_second p = 60 then 1 else 0)"

definition compareParsed :: "ParsedRfc3339 \<Rightarrow> ParsedRfc3339 \<Rightarrow> int" where
  "compareParsed a b =
     (let aLeap = (p_second a = 60); bLeap = (p_second b = 60)
      in if exactSecond a \<noteq> exactSecond b then (if exactSecond a < exactSecond b then -1 else 1)
         else if aLeap \<noteq> bLeap then (if aLeap then -1 else 1)
         else compareFractions (p_fraction a) (p_fraction b))"

definition compareCalendarStrictRfc3339Instants :: "string \<Rightarrow> string \<Rightarrow> int option" where
  "compareCalendarStrictRfc3339Instants left right =
     (case (parseCalendarStrictRfc3339 left, parseCalendarStrictRfc3339 right) of
        (Some a, Some b) \<Rightarrow> Some (compareParsed a b)
      | _ \<Rightarrow> None)"

section \<open>Date.parse and head timestamps\<close>

text \<open>ECMAScript \<open>MakeDay\<close> (21.4.1), relative to 1970-01-01.\<close>

definition epoch_day :: "int \<Rightarrow> int \<Rightarrow> int \<Rightarrow> int" where
  "epoch_day y m d =
     365 * (y - 1970) + (y - 1969) div 4 - (y - 1901) div 100 + (y - 1601) div 400
     + (daysBeforeMonth m + (if m > 2 \<and> isLeapYear y then 1 else 0) + d - 1)"

definition fraction_ms :: "string option \<Rightarrow> int" where
  "fraction_ms f = int (nat_of_digits (padEnd 3 CHR ''0'' (take 3 (case f of None \<Rightarrow> [] | Some x \<Rightarrow> x))))"

definition Date_parse :: "string \<Rightarrow> int option" where
  "Date_parse s =
     (case rfc_split s of
        None \<Rightarrow> None
      | Some (h, f, off) \<Rightarrow>
          (let y = int (num_at 0 4 h); mo = int (num_at 5 2 h); d = int (num_at 8 2 h);
               hh = int (num_at 11 2 h); mi = int (num_at 14 2 h); ss = int (num_at 17 2 h);
               oh = (if off = ''Z'' then 0 else int (num_at 1 2 off));
               om = (if off = ''Z'' then 0 else int (num_at 4 2 off));
               sg = (if off = ''Z'' then 0 else if hd off = CHR ''+'' then 1 else -1)
           in if mo < 1 \<or> mo > 12 \<or> d < 1 \<or> d > 31
                \<or> (hh > 23 \<and> \<not> (hh = 24 \<and> mi = 0 \<and> ss = 0 \<and> fraction_ms f = 0))
                \<or> mi > 59 \<or> ss > 59 \<or> oh > 23 \<or> om > 59
              then None
              else Some ((epoch_day y mo d * SECONDS_PER_DAY + hh * 3600 + mi * 60 + ss
                          - sg * (oh * 60 + om) * 60) * 1000 + fraction_ms f)))"

definition parseHeadTimestamp :: "string \<Rightarrow> int option" where
  "parseHeadTimestamp value =
     (if \<not> isCalendarStrictRfc3339 value then None
      else case rfc_split value of
        None \<Rightarrow> None
      | Some (h, fraction, offset) \<Rightarrow>
          (let upToSeconds = take 17 h; second = drop 17 h;
               isLeapSecond = (second = ''60'');
               milliseconds = (if isLeapSecond then ''999''
                 else padEnd 3 CHR ''0'' (take 3 (case fraction of None \<Rightarrow> [] | Some f \<Rightarrow> f)))
           in Date_parse (upToSeconds @ (if isLeapSecond then ''59'' else second) @ ''.''
                          @ milliseconds @ offset)))"

definition isHeadTimestamp :: "string \<Rightarrow> bool" where
  "isHeadTimestamp value \<longleftrightarrow> parseHeadTimestamp value \<noteq> None"

section \<open>The calendar\<close>

lemma tdiv_nonneg: "0 < b \<Longrightarrow> 0 \<le> a \<Longrightarrow> tdiv a b = a div b"
  by (cases "a = 0") (simp_all add: tdiv_def)

lemma tdiv_neg: "0 < b \<Longrightarrow> a < 0 \<Longrightarrow> tdiv a b = - ((- a) div b)"
  by (simp add: tdiv_def)

lemma tmod_nonneg: "0 < b \<Longrightarrow> 0 \<le> a \<Longrightarrow> tmod a b = a mod b"
  by (simp add: tmod_def tdiv_nonneg minus_div_mult_eq_mod)

lemma tmod_neg: "0 < b \<Longrightarrow> a < 0 \<Longrightarrow> tmod a b = - ((- a) mod b)"
  by (simp add: tmod_def tdiv_neg minus_div_mult_eq_mod [symmetric])

lemma floorDiv_eq:
  assumes "0 < b"
  shows "floorDiv a b = a div b"
proof (cases "0 \<le> a")
  case True
  then show ?thesis using assms pos_mod_sign [OF assms, of a]
    by (auto simp: floorDiv_def tdiv_nonneg tmod_nonneg Let_def not_less)
next
  case False
  moreover have "(- a) mod b = 0 \<or> 0 < (- a) mod b" using pos_mod_sign [OF assms, of "- a"] by linarith
  ultimately show ?thesis
    using assms zdiv_zminus1_eq_if [of b "- a"]
    by (auto simp: floorDiv_def tdiv_neg tmod_neg Let_def)
qed

lemma positiveModulo_eq:
  assumes "0 < b"
  shows "positiveModulo a b = a mod b"
proof (cases "0 \<le> a")
  case True
  then show ?thesis using assms pos_mod_sign [OF assms, of a]
    by (auto simp: positiveModulo_def tmod_nonneg Let_def not_less)
next
  case False
  moreover have "(- a) mod b = 0 \<or> 0 < (- a) mod b" using pos_mod_sign [OF assms, of "- a"] by linarith
  ultimately show ?thesis
    using assms zmod_zminus1_eq_if [of "- a" b]
    by (auto simp: positiveModulo_def tmod_neg Let_def)
qed

definition year_length :: "int \<Rightarrow> int" where
  "year_length y = (if isLeapYear y then 366 else 365)"

definition month_start :: "int \<Rightarrow> int \<Rightarrow> int" where
  "month_start y m = daysBeforeMonth m + (if m > 2 \<and> isLeapYear y then 1 else 0)"

definition valid_date :: "int \<Rightarrow> int \<Rightarrow> int \<Rightarrow> bool" where
  "valid_date y m d \<longleftrightarrow> 1 \<le> m \<and> m \<le> 12 \<and> 1 \<le> d \<and> d \<le> daysInMonth y m"

lemma dayIndex_month_start: "dayIndex y m d = daysBeforeYear y + month_start y m + d - 1"
  by (simp add: dayIndex_def month_start_def)

lemma div_step:
  fixes y k :: int
  assumes "0 < k"
  shows "y div k = (y - 1) div k + (if y mod k = 0 then 1 else 0)"
proof -
  have y: "y = k * (y div k) + y mod k" and r: "0 \<le> y mod k" "y mod k < k"
    using assms by simp_all
  show ?thesis
  proof (cases "y mod k = 0")
    case True
    with y have "y - 1 = k * (y div k - 1) + (k - 1)" by (simp add: algebra_simps)
    then have "(y - 1) div k = y div k - 1" by (rule int_div_pos_eq) (use assms in auto)
    with True show ?thesis by simp
  next
    case False
    from y have "y - 1 = k * (y div k) + (y mod k - 1)" by simp
    then have "(y - 1) div k = y div k" by (rule int_div_pos_eq) (use r False in auto)
    with False show ?thesis by simp
  qed
qed

lemma daysBeforeYear_eq:
  "daysBeforeYear y = 365 * (y - 1) + (y - 1) div 4 - (y - 1) div 100 + (y - 1) div 400"
  by (simp add: daysBeforeYear_def floorDiv_eq Let_def)

lemma year_length_eq:
  "year_length y = 365 + (if y mod 4 = 0 then 1 else 0) - (if y mod 100 = 0 then 1 else 0)
     + (if y mod 400 = 0 then 1 else 0)"
proof -
  have "4 dvd y" if "100 dvd y" using that by (rule dvd_trans [rotated]) simp
  moreover have "100 dvd y" if "400 dvd y" using that by (rule dvd_trans [rotated]) simp
  ultimately show ?thesis
    by (cases "400 dvd y"; cases "100 dvd y"; cases "4 dvd y")
      (simp_all add: year_length_def isLeapYear_def mod_eq_0_iff_dvd)
qed

lemma daysBeforeYear_Suc: "daysBeforeYear (y + 1) = daysBeforeYear y + year_length y"
  by (simp add: daysBeforeYear_eq year_length_eq div_step [of 4 y] div_step [of 100 y] div_step [of 400 y]
      del: One_nat_def split del: if_split)

lemma year_length_pos: "365 \<le> year_length y"
  by (simp add: year_length_def)

lemma daysBeforeYear_mono:
  assumes "y < z"
  shows "daysBeforeYear y + year_length y \<le> daysBeforeYear z"
proof -
  have "daysBeforeYear y + year_length y \<le> daysBeforeYear z" if "y + 1 \<le> z" for z
    using that
  proof (induction z rule: int_ge_induct)
    case base
    then show ?case by (simp add: daysBeforeYear_Suc)
  next
    case (step z)
    then show ?case using daysBeforeYear_Suc [of z] year_length_pos [of z] by linarith
  qed
  with assms show ?thesis by simp
qed

lemma month_mem:
  "1 \<le> m \<Longrightarrow> m \<le> 12 \<Longrightarrow> m \<in> {1, 2, 3, 4, 5, 6, 7, 8, 9, 10, 11, 12 :: int}"
  by (simp, presburger)

lemma month_start_Suc:
  assumes "1 \<le> m" "m < 12"
  shows "month_start y (m + 1) = month_start y m + daysInMonth y m"
proof -
  from assms have "m \<in> {1, 2, 3, 4, 5, 6, 7, 8, 9, 10, 11}" using month_mem [of m] by auto
  then show ?thesis
    by (elim insertE emptyE)
      (simp_all add: month_start_def daysBeforeMonth_def daysInMonth_def)
qed

lemma daysInMonth_pos: "28 \<le> daysInMonth y m"
  by (simp add: daysInMonth_def)

lemma month_start_mono:
  assumes "1 \<le> m" "m < n" "n \<le> 12"
  shows "month_start y m + daysInMonth y m \<le> month_start y n"
proof -
  have "n \<le> 12 \<longrightarrow> month_start y m + daysInMonth y m \<le> month_start y n" if "m + 1 \<le> n" for n
    using that
  proof (induction n rule: int_ge_induct)
    case base
    then show ?case using assms by (auto simp: month_start_Suc)
  next
    case (step n)
    then show ?case
      using month_start_Suc [of n y] daysInMonth_pos [of y n] assms by auto
  qed
  with assms show ?thesis by simp
qed

lemma month_start_bounds:
  assumes "1 \<le> m" "m \<le> 12"
  shows "0 \<le> month_start y m" and "month_start y m + daysInMonth y m \<le> year_length y"
proof -
  from assms have "m \<in> {1, 2, 3, 4, 5, 6, 7, 8, 9, 10, 11, 12}" by (rule month_mem)
  then show "0 \<le> month_start y m" and "month_start y m + daysInMonth y m \<le> year_length y"
    by (elim insertE emptyE;
        simp add: month_start_def daysBeforeMonth_def daysInMonth_def year_length_def)+
qed

text \<open>The day after a date, as a calendar has it.\<close>

definition next_date :: "int \<times> int \<times> int \<Rightarrow> int \<times> int \<times> int" where
  "next_date = (\<lambda>(y, m, d).
     if d < daysInMonth y m then (y, m, d + 1)
     else if m < 12 then (y, m + 1, 1) else (y + 1, 1, 1))"

lemma dayIndex_next_date:
  assumes "valid_date y m d" and "next_date (y, m, d) = (y', m', d')"
  shows "dayIndex y' m' d' = dayIndex y m d + 1 \<and> valid_date y' m' d'"
proof -
  consider "d < daysInMonth y m" | "d = daysInMonth y m" "m < 12" | "d = daysInMonth y m" "m = 12"
    using assms(1) by (auto simp: valid_date_def order_le_less)
  then show ?thesis
  proof cases
    case 1
    then show ?thesis using assms
      by (auto simp: next_date_def dayIndex_month_start valid_date_def)
  next
    case 2
    then show ?thesis using assms daysInMonth_pos [of y "m + 1"]
      by (auto simp: next_date_def dayIndex_month_start valid_date_def month_start_Suc)
  next
    case 3
    then show ?thesis using assms daysInMonth_pos [of "y + 1" 1]
      by (auto simp: next_date_def dayIndex_month_start valid_date_def daysBeforeYear_Suc
          month_start_def daysBeforeMonth_def daysInMonth_def year_length_def)
  qed
qed

lemma dayIndex_less:
  assumes "valid_date y m d" and "valid_date y' m' d'" and "(y, m, d) < (y', m', d')"
  shows "dayIndex y m d < dayIndex y' m' d'"
proof -
  note v = assms(1,2) [unfolded valid_date_def]
  consider "y < y'" | "y = y'" "m < m'" | "y = y'" "m = m'" "d < d'"
    using assms(3) by (auto simp: order_le_less)
  then show ?thesis
  proof cases
    case 1
    then show ?thesis
      using v daysBeforeYear_mono [OF 1] month_start_bounds(2) [of m y] month_start_bounds(1) [of m' y']
      by (simp add: dayIndex_month_start)
  next
    case 2
    then show ?thesis using v month_start_mono [of m m' y] by (simp add: dayIndex_month_start)
  next
    case 3
    then show ?thesis by (simp add: dayIndex_month_start)
  qed
qed

lemma epoch_day_eq: "epoch_day y m d = dayIndex y m d - 719162"
proof -
  have "(y - 1969) div 4 = (y - 1) div 4 - 492" "(y - 1901) div 100 = (y - 1) div 100 - 19"
    "(y - 1601) div 400 = (y - 1) div 400 - 4"
    using div_mult_self1 [of 4 "y - 1" "- 492"] div_mult_self1 [of 100 "y - 1" "- 19"]
      div_mult_self1 [of 400 "y - 1" "- 4"] by simp_all
  then show ?thesis by (simp add: epoch_day_def dayIndex_def daysBeforeYear_eq)
qed

section \<open>The exact comparison is a total preorder\<close>

lemma lex_append_same: "length a = length b \<Longrightarrow> a @ z < b @ z \<longleftrightarrow> a < (b :: string)"
  by (induction a b rule: list_induct2) auto

lemma padEnd_padEnd: "length s \<le> w \<Longrightarrow> w \<le> v \<Longrightarrow> padEnd v c s = padEnd w c s @ replicate (v - w) c"
  by (simp add: padEnd_def flip: replicate_add)

lemma length_padEnd [simp]: "length (padEnd w c s) = max w (length s)"
  by (simp add: padEnd_def)

definition frac_digits :: "string option \<Rightarrow> string" where
  "frac_digits f = (case f of None \<Rightarrow> [] | Some x \<Rightarrow> x)"

text \<open>Padding to any common width gives the same comparison.\<close>

lemma compareFractions_wide:
  assumes "length (frac_digits l) \<le> w" and "length (frac_digits r) \<le> w"
  shows "compareFractions l r =
    compareCodeUnitStrings (padEnd w CHR ''0'' (frac_digits l)) (padEnd w CHR ''0'' (frac_digits r))"
proof -
  let ?v = "max (length (frac_digits l)) (length (frac_digits r))"
  have less: "padEnd w CHR ''0'' a < padEnd w CHR ''0'' b \<longleftrightarrow> padEnd ?v CHR ''0'' a < padEnd ?v CHR ''0'' b"
    if "length a \<le> ?v" "length b \<le> ?v" for a b
    using that assms by (simp add: padEnd_padEnd [of _ ?v w] lex_append_same)
  show ?thesis
    using less [of "frac_digits l" "frac_digits r"] less [of "frac_digits r" "frac_digits l"]
    by (simp add: compareFractions_def compareCodeUnitStrings_def Let_def flip: frac_digits_def)
qed

definition fraction_width :: "ParsedRfc3339 list \<Rightarrow> nat" where
  "fraction_width ps = Max (insert 0 (set (map (length \<circ> frac_digits \<circ> p_fraction) ps)))"

lemma fraction_width_ge: "p \<in> set ps \<Longrightarrow> length (frac_digits (p_fraction p)) \<le> fraction_width ps"
  unfolding fraction_width_def by (rule Max_ge) auto

text \<open>The key by which instants are ordered: a leap second sorts before the second after it.\<close>

definition instant_key :: "nat \<Rightarrow> ParsedRfc3339 \<Rightarrow> int \<times> bool \<times> string" where
  "instant_key w p = (exactSecond p, p_second p \<noteq> 60, padEnd w CHR ''0'' (frac_digits (p_fraction p)))"

lemma compareParsed_key:
  assumes "length (frac_digits (p_fraction a)) \<le> w" and "length (frac_digits (p_fraction b)) \<le> w"
  shows "compareParsed a b < 0 \<longleftrightarrow> instant_key w a < instant_key w b"
    and "compareParsed a b = 0 \<longleftrightarrow> instant_key w a = instant_key w b"
    and "compareParsed a b \<le> 0 \<longleftrightarrow> instant_key w a \<le> instant_key w b"
proof -
  show lt: "compareParsed a b < 0 \<longleftrightarrow> instant_key w a < instant_key w b"
    and eq: "compareParsed a b = 0 \<longleftrightarrow> instant_key w a = instant_key w b"
    by (auto simp: compareParsed_def instant_key_def compareFractions_wide [OF assms]
        compareCodeUnitStrings_iff Let_def less_le)
  show "compareParsed a b \<le> 0 \<longleftrightarrow> instant_key w a \<le> instant_key w b"
    using lt eq by (metis order_le_less)
qed

lemma compareParsed_antisym: "compareParsed a b = - compareParsed b a"
  by (auto simp: compareParsed_def compareFractions_def Let_def max.commute)

lemma compareParsed_trans:
  assumes "compareParsed a b \<le> 0" and "compareParsed b c \<le> 0"
  shows "compareParsed a c \<le> 0"
proof -
  let ?w = "fraction_width [a, b, c]"
  have w: "length (frac_digits (p_fraction p)) \<le> ?w" if "p \<in> {a, b, c}" for p
    using that by (intro fraction_width_ge) auto
  show ?thesis
    using assms compareParsed_key(3) [OF w w, of a b] compareParsed_key(3) [OF w w, of b c]
      compareParsed_key(3) [OF w w, of a c] by (auto intro: order_trans)
qed

lemma compareParsed_refl: "compareParsed a a = 0"
  using compareParsed_antisym [of a a] by simp

section \<open>Head timestamps\<close>

lemma tpl_match_length: "tpl_match t s \<Longrightarrow> length s = length t"
  by (induction t s rule: tpl_match.induct) auto

lemma tpl_match_append:
  "length a = length s \<Longrightarrow> tpl_match (a @ b) (s @ t) \<longleftrightarrow> tpl_match a s \<and> tpl_match b t"
  by (induction a s rule: list_induct2) auto

lemma offset_ok_hd: "offset_ok s \<Longrightarrow> \<exists>c r. s = c # r \<and> \<not> is_digit c \<and> c \<noteq> CHR ''.''"
  by (cases s) (auto simp: offset_ok_def)

lemma rfc_split_Some:
  assumes "rfc_split s = Some (h, f, off)"
  shows "tpl_match ''dddd-dd-ddTdd:dd:dd'' h" and "length h = 19" and "offset_ok off"
    and "\<forall>c \<in> set (frac_digits f). is_digit c"
  using assms tpl_match_length
  by (auto simp: rfc_split_def Let_def frac_digits_def dest!: set_takeWhileD
      split: if_splits list.splits)

lemma rfc_split_fraction:
  assumes "tpl_match ''dddd-dd-ddTdd:dd:dd'' h" and "f \<noteq> []" and "\<forall>c \<in> set f. is_digit c" and "offset_ok off"
  shows "rfc_split (h @ ''.'' @ f @ off) = Some (h, Some f, off)"
proof -
  have len: "length h = 19" using tpl_match_length [OF assms(1)] by simp
  obtain c r where off: "off = c # r" "\<not> is_digit c" using offset_ok_hd [OF assms(4)] by blast
  have "takeWhile is_digit (f @ off) = f" "dropWhile is_digit (f @ off) = off"
    using assms(3) off by (auto simp: takeWhile_append2 dropWhile_append2)
  then show ?thesis using assms len by (simp add: rfc_split_def)
qed

lemma num_at_take: "i + n \<le> k \<Longrightarrow> k \<le> length h \<Longrightarrow> num_at i n (take k h @ t) = num_at i n h"
  by (simp add: num_at_def drop_take min_absorb1)

lemma head_seconds:
  assumes "tpl_match ''dddd-dd-ddTdd:dd:dd'' h"
  shows "drop 17 h = ''60'' \<longleftrightarrow> num_at 17 2 h = 60" and "\<forall>c \<in> set (drop 17 h). is_digit c"
    and "tpl_match ''dddd-dd-ddTdd:dd:'' (take 17 h)" and "length h = 19" and "tpl_match ''dd'' (drop 17 h)"
proof -
  show len: "length h = 19" using tpl_match_length [OF assms] by simp
  have split: "tpl_match (''dddd-dd-ddTdd:dd:'' @ ''dd'') (take 17 h @ drop 17 h)" using assms by simp
  then have m: "tpl_match ''dddd-dd-ddTdd:dd:'' (take 17 h)" "tpl_match ''dd'' (drop 17 h)"
    using len by (subst (asm) tpl_match_append; simp)+
  then show "tpl_match ''dddd-dd-ddTdd:dd:'' (take 17 h)" "tpl_match ''dd'' (drop 17 h)" by simp_all
  obtain a b where ab: "drop 17 h = [a, b]" "is_digit a" "is_digit b"
    using m(2) tpl_match_length [OF m(2)] by (cases "drop 17 h" rule: remdups_adj.cases) auto
  then show "\<forall>c \<in> set (drop 17 h). is_digit c" by simp
  show "drop 17 h = ''60'' \<longleftrightarrow> num_at 17 2 h = 60"
    using digits_eq_iff [of "drop 17 h" "''60''"] ab by (simp add: num_at_def digit_val_def)
qed

text \<open>What a successful parse says of the fields.\<close>

lemma parse_Some:
  assumes "parseCalendarStrictRfc3339 s = Some p" and "rfc_split s = Some (h, f, off)"
  shows "p_year p = int (num_at 0 4 h)" "p_month p = int (num_at 5 2 h)" "p_day p = int (num_at 8 2 h)"
    "p_hour p = int (num_at 11 2 h)" "p_minute p = int (num_at 14 2 h)" "p_second p = int (num_at 17 2 h)"
    "p_fraction p = f" "p_offsetSign p = (if off = ''Z'' then None else Some (hd off))"
    "p_offsetHour p = (if off = ''Z'' then 0 else int (num_at 1 2 off))"
    "p_offsetMinute p = (if off = ''Z'' then 0 else int (num_at 4 2 off))"
    "valid_date (p_year p) (p_month p) (p_day p)" "1 \<le> p_year p" "p_hour p \<le> 23" "p_minute p \<le> 59"
    "p_second p \<le> 60" "p_offsetHour p \<le> 23" "p_offsetMinute p \<le> 59"
  using assms
  by (auto simp: parseCalendarStrictRfc3339_def Let_def valid_date_def split: if_splits)

lemma parse_split:
  assumes "parseCalendarStrictRfc3339 s = Some p"
  obtains h f off where "rfc_split s = Some (h, f, off)"
  using assms by (auto simp: parseCalendarStrictRfc3339_def split: option.splits prod.splits)

definition head_ms :: "ParsedRfc3339 \<Rightarrow> int" where
  "head_ms p = (localSecondAt p (min (p_second p) 59) - 719162 * SECONDS_PER_DAY) * 1000
     + (if p_second p = 60 then 999 else fraction_ms (p_fraction p))"

lemma fraction_ms_idem:
  "fraction_ms (Some (padEnd 3 CHR ''0'' (take 3 (frac_digits f)))) = fraction_ms f"
  by (simp add: fraction_ms_def padEnd_def frac_digits_def)

lemma digits_padEnd: "\<forall>c \<in> set s. is_digit c \<Longrightarrow> \<forall>c \<in> set (padEnd w CHR ''0'' s). is_digit c"
  by (auto simp: padEnd_def)

lemma Date_parse_head:
  assumes p: "parseCalendarStrictRfc3339 s = Some p" and sp: "rfc_split s = Some (h, f, off)"
    and sec: "sec = (if num_at 17 2 h = 60 then ''59'' else drop 17 h)"
    and ms: "\<forall>c \<in> set ms. is_digit c" "ms \<noteq> []"
  shows "Date_parse (take 17 h @ sec @ ''.'' @ ms @ off) =
    Some ((localSecondAt p (min (p_second p) 59) - 719162 * SECONDS_PER_DAY) * 1000 + fraction_ms (Some ms))"
proof -
  note t = rfc_split_Some [OF sp] and hs = head_seconds [OF rfc_split_Some(1) [OF sp]]
  note fields = parse_Some [OF p sp]
  let ?h = "take 17 h @ sec"
  have len_sec: "length sec = 2" using hs(4) by (simp add: sec)
  have "tpl_match ''dd'' sec"
    using hs(5) by (simp add: sec)
  then have "tpl_match (''dddd-dd-ddTdd:dd:'' @ ''dd'') ?h"
    using hs(3,4) by (subst tpl_match_append) simp_all
  then have split: "rfc_split (?h @ ''.'' @ ms @ off) = Some (?h, Some ms, off)"
    using rfc_split_fraction [of ?h ms off] ms t(3) by simp
  have same: "num_at i n ?h = num_at i n h" if "i + n \<le> 17" for i n
    using that hs(4) by (intro num_at_take) simp_all
  have secv: "int (num_at 17 2 ?h) = min (p_second p) 59"
    using hs(4) len_sec fields(6,15)
    by (auto simp: num_at_def sec digit_val_def min_def split: if_splits)
  have days: "daysInMonth (p_year p) (p_month p) \<le> 31" by (simp add: daysInMonth_def)
  show ?thesis
    using fields days secv split
    by (simp add: Date_parse_def same epoch_day_eq valid_date_def localSecondAt_def Let_def)
qed

lemma parseHeadTimestamp_eq:
  "parseHeadTimestamp s = map_option head_ms (parseCalendarStrictRfc3339 s)"
proof (cases "parseCalendarStrictRfc3339 s")
  case None
  then show ?thesis by (simp add: parseHeadTimestamp_def isCalendarStrictRfc3339_def)
next
  case (Some p)
  then obtain h f off where sp: "rfc_split s = Some (h, f, off)" by (rule parse_split)
  note hs = head_seconds [OF rfc_split_Some(1) [OF sp]]
  let ?ms = "if num_at 17 2 h = 60 then ''999'' else padEnd 3 CHR ''0'' (take 3 (frac_digits f))"
  have "\<forall>c \<in> set (take 3 (frac_digits f)). is_digit c"
    using rfc_split_Some(4) [OF sp] by (meson in_set_takeD)
  from digits_padEnd [OF this, of 3] have ms: "\<forall>c \<in> set ?ms. is_digit c" by simp
  have ne3: "xs \<noteq> []" if "length xs = 3" for xs :: string using that by auto
  have ne: "?ms \<noteq> []" by (rule ne3) simp
  have nines: "fraction_ms (Some ''999'') = 999" by (simp add: fraction_ms_def digit_val_def padEnd_def)
  have "fraction_ms (Some ?ms) = (if p_second p = 60 then 999 else fraction_ms (p_fraction p))"
    using parse_Some(6,7) [OF Some sp] fraction_ms_idem [of f] nines by simp
  moreover have "parseHeadTimestamp s =
      Date_parse (take 17 h @ (if num_at 17 2 h = 60 then ''59'' else drop 17 h) @ ''.'' @ ?ms @ off)"
    using Some sp hs(1)
    by (simp add: parseHeadTimestamp_def isCalendarStrictRfc3339_def Let_def flip: frac_digits_def)
  ultimately show ?thesis
    using Date_parse_head [OF Some sp refl ms ne] Some by (simp add: head_ms_def split del: if_split)
qed

lemma fraction_ms_bounds:
  assumes "\<forall>c \<in> set (frac_digits f). is_digit c"
  shows "0 \<le> fraction_ms f" and "fraction_ms f \<le> 999"
proof -
  let ?d = "padEnd 3 CHR ''0'' (take 3 (frac_digits f))"
  have "\<forall>c \<in> set (take 3 (frac_digits f)). is_digit c" using assms by (meson in_set_takeD)
  from digits_padEnd [OF this, of 3] have "nat_of_digits ?d < 10 ^ length ?d" by (rule nat_of_digits_less)
  then show "fraction_ms f \<le> 999" by (simp add: fraction_ms_def flip: frac_digits_def)
  show "0 \<le> fraction_ms f" by (simp add: fraction_ms_def)
qed

lemma lex_take_mono: "length a = length b \<Longrightarrow> a \<le> b \<Longrightarrow> take n a \<le> take n (b :: string)"
proof (induction a b arbitrary: n rule: list_induct2)
  case (Cons x xs y ys)
  then show ?case by (cases n) auto
qed simp

lemma take_padEnd: "n \<le> w \<Longrightarrow> take n (padEnd w c s) = padEnd n c (take n s)"
  by (cases "length s \<le> n") (simp_all add: padEnd_def min_def)

lemma fraction_ms_mono:
  assumes "\<forall>c \<in> set (frac_digits f). is_digit c" and "\<forall>c \<in> set (frac_digits g). is_digit c"
    and "padEnd w CHR ''0'' (frac_digits f) \<le> padEnd w CHR ''0'' (frac_digits g)"
    and "length (frac_digits f) \<le> w" and "length (frac_digits g) \<le> w" and "3 \<le> w"
  shows "fraction_ms f \<le> fraction_ms g"
proof -
  let ?t = "\<lambda>f. padEnd 3 CHR ''0'' (take 3 (frac_digits f))"
  have dig: "\<forall>c \<in> set (?t f). is_digit c" "\<forall>c \<in> set (?t g). is_digit c"
    using assms(1,2) by (meson in_set_takeD digits_padEnd)+
  have "take 3 (padEnd w CHR ''0'' (frac_digits f)) \<le> take 3 (padEnd w CHR ''0'' (frac_digits g))"
    using assms by (intro lex_take_mono) simp_all
  then have "?t f \<le> ?t g" using assms(6) by (simp add: take_padEnd)
  then have "\<not> ?t g < ?t f" by simp
  then have "nat_of_digits (?t f) \<le> nat_of_digits (?t g)"
    using digits_less_iff [of "?t g" "?t f"] dig by (simp add: not_less)
  then show ?thesis by (simp add: fraction_ms_def flip: frac_digits_def)
qed

text \<open>The millisecond value is a monotone coarsening of the exact order.\<close>

lemma head_ms_mono:
  assumes "\<forall>c \<in> set (frac_digits (p_fraction a)). is_digit c" "\<forall>c \<in> set (frac_digits (p_fraction b)). is_digit c"
    and "p_second a \<le> 60" "p_second b \<le> 60" and "compareParsed a b \<le> 0"
  shows "head_ms a \<le> head_ms b"
proof -
  define w where "w = max 3 (max (length (frac_digits (p_fraction a))) (length (frac_digits (p_fraction b))))"
  have w: "length (frac_digits (p_fraction a)) \<le> w" "length (frac_digits (p_fraction b)) \<le> w" "3 \<le> w"
    by (simp_all add: w_def)
  have key: "instant_key w a \<le> instant_key w b" using compareParsed_key(3) [OF w(1,2)] assms(5) by simp
  note ba = fraction_ms_bounds [OF assms(1)] and bb = fraction_ms_bounds [OF assms(2)]
  show ?thesis
  proof (cases "p_second a \<noteq> 60 \<and> p_second b \<noteq> 60 \<and> exactSecond a = exactSecond b")
    case True
    then have "fraction_ms (p_fraction a) \<le> fraction_ms (p_fraction b)"
      using key assms(1,2) w by (intro fraction_ms_mono) (auto simp: instant_key_def)
    with True show ?thesis by (auto simp: head_ms_def exactSecond_def)
  next
    case False
    with key ba bb show ?thesis
      by (auto simp: head_ms_def exactSecond_def instant_key_def split: if_splits)
  qed
qed


section \<open>Properties\<close>

text \<open>
  The day index of the strict RFC 3339 parser is the calendar's: it is an order embedding of the
  valid dates, and the day after a valid date is valid and has the next index (leap years included).
\<close>

theorem dayIndex_calendar:
  assumes "valid_date y m d" and "valid_date y' m' d'"
  shows "(dayIndex y m d < dayIndex y' m' d' \<longleftrightarrow> (y, m, d) < (y', m', d'))
    \<and> (case next_date (y, m, d) of (ny, nm, nd) \<Rightarrow> valid_date ny nm nd \<and> dayIndex ny nm nd = dayIndex y m d + 1)"
proof -
  have "dayIndex y m d < dayIndex y' m' d' \<longleftrightarrow> (y, m, d) < (y', m', d')"
    using dayIndex_less [OF assms] dayIndex_less [OF assms(2,1)]
    by (metis linorder_less_linear order_less_asym order_less_irrefl prod.inject)
  then show ?thesis using dayIndex_next_date [OF assms(1)]
    by (cases "next_date (y, m, d)") auto
qed

theorem dayIndex_calendar_witness:
  "dayIndex 2024 2 28 < dayIndex 2024 3 1 \<and> dayIndex 2024 2 29 = dayIndex 2024 2 28 + 1"
proof -
  have "valid_date 2024 2 28" "valid_date 2024 3 1" "next_date (2024, 2, 28) = (2024, 2, 29)"
    by (simp_all add: valid_date_def daysInMonth_def isLeapYear_def next_date_def)
  then show ?thesis using dayIndex_calendar [of 2024 2 28 2024 3 1] by simp
qed

lemma compare_Some_iff:
  "compareCalendarStrictRfc3339Instants a b = Some r \<longleftrightarrow>
     (\<exists>p q. parseCalendarStrictRfc3339 a = Some p \<and> parseCalendarStrictRfc3339 b = Some q \<and> r = compareParsed p q)"
  by (auto simp: compareCalendarStrictRfc3339Instants_def split: option.splits)

text \<open>
  The exact instant comparison is a total preorder on the strict timestamps and undefined
  elsewhere: it answers exactly when both sides parse, it is antisymmetric in sign, and it is
  transitive.
\<close>

theorem compareInstants_preorder:
  shows "(compareCalendarStrictRfc3339Instants a b = None \<longleftrightarrow>
            \<not> isCalendarStrictRfc3339 a \<or> \<not> isCalendarStrictRfc3339 b)
    \<and> compareCalendarStrictRfc3339Instants b a = map_option uminus (compareCalendarStrictRfc3339Instants a b)
    \<and> (compareCalendarStrictRfc3339Instants a b = Some r \<longrightarrow> compareCalendarStrictRfc3339Instants b c = Some q
        \<longrightarrow> r \<le> 0 \<longrightarrow> q \<le> 0 \<longrightarrow> (\<exists>t \<le> 0. compareCalendarStrictRfc3339Instants a c = Some t))"
proof (intro conjI impI)
  show "compareCalendarStrictRfc3339Instants a b = None \<longleftrightarrow>
            \<not> isCalendarStrictRfc3339 a \<or> \<not> isCalendarStrictRfc3339 b"
    by (auto simp: compareCalendarStrictRfc3339Instants_def isCalendarStrictRfc3339_def split: option.splits)
  show "compareCalendarStrictRfc3339Instants b a = map_option uminus (compareCalendarStrictRfc3339Instants a b)"
    by (auto simp: compareCalendarStrictRfc3339Instants_def split: option.splits intro: compareParsed_antisym)
  assume "compareCalendarStrictRfc3339Instants a b = Some r" "compareCalendarStrictRfc3339Instants b c = Some q"
    "r \<le> 0" "q \<le> 0"
  then show "\<exists>t \<le> 0. compareCalendarStrictRfc3339Instants a c = Some t"
    by (auto simp: compare_Some_iff intro: compareParsed_trans)
qed

theorem compareInstants_preorder_witness:
  "\<exists>t \<le> 0. compareCalendarStrictRfc3339Instants ''2016-12-31T23:59:60.5Z'' ''2017-01-01T00:00:01Z'' = Some t"
proof -
  have "compareCalendarStrictRfc3339Instants ''2016-12-31T23:59:60.5Z'' ''2017-01-01T01:00:00+01:00'' = Some (- 1)"
    "compareCalendarStrictRfc3339Instants ''2017-01-01T01:00:00+01:00'' ''2017-01-01T00:00:01Z'' = Some (- 1)"
    by code_simp+
  then show ?thesis
    using compareInstants_preorder [of "''2016-12-31T23:59:60.5Z''" "''2017-01-01T01:00:00+01:00''" "- 1" "''2017-01-01T00:00:01Z''" "- 1"]
    by simp
qed

text \<open>
  C8: A head timestamp is exactly a strict RFC 3339 timestamp, and its epoch milliseconds are a
  monotone coarsening of the exact order: an instant that is not later never reads later, leap
  seconds and sub-millisecond fractions included.
\<close>

theorem parseHeadTimestamp_monotone:
  shows "(isHeadTimestamp a \<longleftrightarrow> isCalendarStrictRfc3339 a)
    \<and> (compareCalendarStrictRfc3339Instants a b = Some r \<longrightarrow> r \<le> 0 \<longrightarrow>
         (\<exists>x y. parseHeadTimestamp a = Some x \<and> parseHeadTimestamp b = Some y \<and> x \<le> y))"
proof (intro conjI impI)
  show "isHeadTimestamp a \<longleftrightarrow> isCalendarStrictRfc3339 a"
    by (auto simp: isHeadTimestamp_def isCalendarStrictRfc3339_def parseHeadTimestamp_eq)
  assume "compareCalendarStrictRfc3339Instants a b = Some r" "r \<le> 0"
  then obtain p q where pq: "parseCalendarStrictRfc3339 a = Some p" "parseCalendarStrictRfc3339 b = Some q"
    "compareParsed p q \<le> 0" by (auto simp: compare_Some_iff)
  have dig: "(\<forall>c \<in> set (frac_digits (p_fraction p)). is_digit c) \<and> p_second p \<le> 60"
    if parsed: "parseCalendarStrictRfc3339 s = Some p" for s p
  proof -
    from parsed obtain h f off where sp: "rfc_split s = Some (h, f, off)" by (rule parse_split)
    show ?thesis using parse_Some(7,15) [OF parsed sp] rfc_split_Some(4) [OF sp] by simp
  qed
  have "head_ms p \<le> head_ms q"
    using dig [OF pq(1)] dig [OF pq(2)] pq(3) by (intro head_ms_mono) simp_all
  with pq show "\<exists>x y. parseHeadTimestamp a = Some x \<and> parseHeadTimestamp b = Some y \<and> x \<le> y"
    by (simp add: parseHeadTimestamp_eq)
qed

theorem parseHeadTimestamp_monotone_witness:
  "\<exists>x y. parseHeadTimestamp ''2016-12-31T23:59:60.5Z'' = Some x
     \<and> parseHeadTimestamp ''2017-01-01T01:00:00+01:00'' = Some y \<and> x \<le> y"
proof -
  have "compareCalendarStrictRfc3339Instants ''2016-12-31T23:59:60.5Z'' ''2017-01-01T01:00:00+01:00'' = Some (- 1)"
    by code_simp
  then show ?thesis
    using parseHeadTimestamp_monotone [of "''2016-12-31T23:59:60.5Z''" "''2017-01-01T01:00:00+01:00''" "- 1"] by simp
qed

end
