(* ===== verification/Attempt_Fold.thy ===== *)
theory Attempt_Fold
  imports Js_Json Calendar_Time
begin

text \<open>
  The Attempt state of the Task Execution Protocol: task-execution/protocol/src/fold.ts (with
  states.ts, events.ts and schemas/observation.ts for its vocabulary). An Attempt has no stored
  state; it is derived by folding its observation log.

  \<^item> \<open>observation\<close> is the CloudEvents envelope with its payload as a JSON value;
  \<^item> \<open>inFoldOrder\<close> sorts by (sequence, dedupe key, reads) and drops exact replays;
  \<^item> \<open>refuseConflicts\<close> throws on two observations of one (source, id) that disagree;
  \<^item> \<open>resolveTerminal\<close> picks the authoritative terminal;
  \<^item> \<open>foldObservations\<close> is the whole projection.

  The theorems: the result depends only on the set of observations (not on their order, nor on
  replays); observations of other producers have no effect; which terminal wins; when the fold
  refuses; and that the dedupe key is ambiguous for producers whose source carries U+001F.
\<close>

section \<open>Vocabulary\<close>

definition TYPE_PREFIX :: string where
  "TYPE_PREFIX = ''network.jinn.task-execution.''"

definition ATTEMPT_ENGAGED :: string where
  "ATTEMPT_ENGAGED = TYPE_PREFIX @ ''attempt-engaged.v1''"

definition ATTEMPT_STARTED :: string where
  "ATTEMPT_STARTED = TYPE_PREFIX @ ''attempt-started.v1''"

definition CANCEL_REQUESTED :: string where
  "CANCEL_REQUESTED = TYPE_PREFIX @ ''cancel-requested.v1''"

definition EXECUTION_OBSERVED :: string where
  "EXECUTION_OBSERVED = TYPE_PREFIX @ ''execution-observed.v1''"

definition DELIVERY_RECORDED :: string where
  "DELIVERY_RECORDED = TYPE_PREFIX @ ''delivery-recorded.v1''"

definition ATTEMPT_TERMINAL :: string where
  "ATTEMPT_TERMINAL = TYPE_PREFIX @ ''attempt-terminal.v1''"

definition SUBMISSION_OBSERVATION_TYPES :: "string list" where
  "SUBMISSION_OBSERVATION_TYPES =
     [TYPE_PREFIX @ ''submission-accepted.v1'', TYPE_PREFIX @ ''submission-rejected.v1'',
      TYPE_PREFIX @ ''submission-closed.v1'']"

definition ATTEMPT_OBSERVATION_TYPES :: "string list" where
  "ATTEMPT_OBSERVATION_TYPES =
     [ATTEMPT_ENGAGED, ATTEMPT_STARTED, TYPE_PREFIX @ ''progress.v1'', CANCEL_REQUESTED,
      TYPE_PREFIX @ ''cancel-acknowledged.v1'', EXECUTION_OBSERVED, DELIVERY_RECORDED, ATTEMPT_TERMINAL]"

definition OBSERVATION_TYPES :: "string list" where
  "OBSERVATION_TYPES = SUBMISSION_OBSERVATION_TYPES @ ATTEMPT_OBSERVATION_TYPES"

lemmas type_defs = TYPE_PREFIX_def ATTEMPT_ENGAGED_def ATTEMPT_STARTED_def CANCEL_REQUESTED_def
  EXECUTION_OBSERVED_def DELIVERY_RECORDED_def ATTEMPT_TERMINAL_def SUBMISSION_OBSERVATION_TYPES_def
  ATTEMPT_OBSERVATION_TYPES_def OBSERVATION_TYPES_def

text \<open>The envelope fields the fold reads. \<open>subject\<close> and \<open>time\<close> are carried and never read.\<close>

record observation =
  o_id :: string
  o_source :: string
  o_subject :: string
  o_time :: string
  o_sequence :: string
  o_type :: string
  o_data :: json

text \<open>The fixed-width decimal encoding of the sequence (events.ts).\<close>

definition MAX_SEQUENCE :: int where
  "MAX_SEQUENCE = 9999999999999999"

datatype range_error = SequenceRange int

definition formatSequence :: "int \<Rightarrow> (range_error, string) result" where
  "formatSequence n =
     (if n < 0 \<or> n > MAX_SEQUENCE then Inl (SequenceRange n)
      else Inr (padStart 16 CHR ''0'' (dec_int n)))"

section \<open>Fold entries\<close>

abbreviation unit_separator :: char where
  "unit_separator \<equiv> CHR 0x1F"

record fold_entry =
  fe_observation :: observation
  fe_dedupeKey :: string
  fe_reads :: string

definition toFoldEntry :: "observation \<Rightarrow> fold_entry" where
  "toFoldEntry obs =
     \<lparr>fe_observation = obs,
      fe_dedupeKey = o_source obs @ unit_separator # o_id obs,
      fe_reads = o_type obs @ unit_separator # canonicalText (o_data obs)\<rparr>"

definition compareFoldEntries :: "fold_entry \<Rightarrow> fold_entry \<Rightarrow> int" where
  "compareFoldEntries a b =
     cmp_or (cmp_or (compareCodeUnitStrings (o_sequence (fe_observation a)) (o_sequence (fe_observation b)))
                    (compareCodeUnitStrings (fe_dedupeKey a) (fe_dedupeKey b)))
            (compareCodeUnitStrings (fe_reads a) (fe_reads b))"

text \<open>The \<open>filter\<close> of \<open>inFoldOrder\<close>: an entry stays unless it equals its predecessor.\<close>

fun keepNew :: "fold_entry \<Rightarrow> fold_entry list \<Rightarrow> fold_entry list" where
  "keepNew prev [] = []"
| "keepNew prev (e # es) = (if compareFoldEntries prev e \<noteq> 0 then e # keepNew e es else keepNew e es)"

definition inFoldOrder :: "observation list \<Rightarrow> fold_entry list" where
  "inFoldOrder observations =
     (case js_sort compareFoldEntries (map toFoldEntry observations) of
        [] \<Rightarrow> []
      | e # es \<Rightarrow> e # keepNew e es)"

section \<open>Conflicts and the authoritative source\<close>

datatype fold_error = ConflictingObservation string string

fun findAuthoritativeSource :: "observation list \<Rightarrow> json option" where
  "findAuthoritativeSource [] = None"
| "findAuthoritativeSource (obs # rest) =
     (if o_type obs = ATTEMPT_ENGAGED then Some (get_field (o_data obs) ''source'')
      else findAuthoritativeSource rest)"

text \<open>\<open>authoritativeSource !== undefined && observation.source !== authoritativeSource\<close>\<close>

definition foreign :: "json option \<Rightarrow> observation \<Rightarrow> bool" where
  "foreign auth obs \<longleftrightarrow> (case auth of None \<Rightarrow> False | Some JUndef \<Rightarrow> False | Some v \<Rightarrow> v \<noteq> JStr (o_source obs))"

fun refuseLoop :: "json option \<Rightarrow> string list \<Rightarrow> string list \<Rightarrow> fold_entry list \<Rightarrow> (fold_error, unit) result" where
  "refuseLoop auth seen engagements [] = Inr ()"
| "refuseLoop auth seen engagements (e # es) =
     (let obs = fe_observation e; key = fe_dedupeKey e;
          engaged = (o_type obs = ATTEMPT_ENGAGED)
      in if engaged \<and> key \<in> set engagements then Inl (ConflictingObservation (o_source obs) (o_id obs))
         else let engagements' = (if engaged then key # engagements else engagements)
              in if foreign auth obs then refuseLoop auth seen engagements' es
                 else if key \<in> set seen then Inl (ConflictingObservation (o_source obs) (o_id obs))
                 else refuseLoop auth (key # seen) engagements' es)"

definition refuseConflicts :: "fold_entry list \<Rightarrow> json option \<Rightarrow> (fold_error, unit) result" where
  "refuseConflicts entries auth = refuseLoop auth [] [] entries"

section \<open>Terminals\<close>

definition isTerminal :: "observation \<Rightarrow> bool" where
  "isTerminal obs \<longleftrightarrow> o_type obs = ATTEMPT_TERMINAL"

abbreviation terminal_state :: "observation \<Rightarrow> json" where
  "terminal_state obs \<equiv> get_field (o_data obs) ''state''"

definition resolveStep :: "observation \<Rightarrow> observation \<times> bool \<Rightarrow> observation \<Rightarrow> observation \<times> bool" where
  "resolveStep first acc t =
     (case acc of (accepted, contradictory) \<Rightarrow>
        if \<not> contradictory \<and> terminal_state accepted = JStr ''lost'' then (t, contradictory)
        else (first, True))"

fun resolveTerminal :: "observation list \<Rightarrow> (observation \<times> bool) option" where
  "resolveTerminal [] = None"
| "resolveTerminal (t # ts) = Some (foldl (resolveStep t) (t, False) ts)"

section \<open>The projection\<close>

record derived_attempt =
  d_state :: json
  d_terminal :: bool
  d_contradictory :: bool
  d_cancelRequested :: bool
  d_blame :: json
  d_executor :: json
  d_effectiveDeadline :: json
  d_executionIds :: "json list"
  d_deliveries :: "json list"

record fold_options =
  opt_now :: "string option"
  opt_effectiveDeadline :: "string option"

text \<open>The local variables of the fold's loop.\<close>

record fold_state =
  f_running :: bool
  f_cancelRequested :: bool
  f_executor :: json
  f_effectiveDeadline :: json
  f_executionIds :: "json list"
  f_deliveries :: "json list"
  f_terminals :: "observation list"

definition fold_init :: fold_state where
  "fold_init = \<lparr>f_running = False, f_cancelRequested = False, f_executor = JUndef,
     f_effectiveDeadline = JUndef, f_executionIds = [], f_deliveries = [], f_terminals = []\<rparr>"

definition set_executor :: "json \<Rightarrow> fold_state \<Rightarrow> fold_state" where
  "set_executor v s = (if v \<noteq> JUndef then s\<lparr>f_executor := v\<rparr> else s)"

definition foldStep :: "json option \<Rightarrow> fold_state \<Rightarrow> observation \<Rightarrow> fold_state" where
  "foldStep auth s obs =
     (if foreign auth obs then s
      else
        let data = o_data obs;
            s' = (if o_type obs = ATTEMPT_ENGAGED then
                    (set_executor (get_field data ''executor'') s)
                      \<lparr>f_effectiveDeadline := get_field data ''effectiveDeadline''\<rparr>
                  else if o_type obs = ATTEMPT_STARTED then
                    set_executor (get_field data ''executor'') (s\<lparr>f_running := True\<rparr>)
                  else if o_type obs = CANCEL_REQUESTED then s\<lparr>f_cancelRequested := True\<rparr>
                  else if o_type obs = EXECUTION_OBSERVED then
                    s\<lparr>f_executionIds := f_executionIds s @ [get_field data ''executionId'']\<rparr>
                  else if o_type obs = DELIVERY_RECORDED then
                    s\<lparr>f_deliveries := f_deliveries s @ [get_field data ''digest'']\<rparr>
                  else s)
        in if isTerminal obs then s'\<lparr>f_terminals := f_terminals s' @ [obs]\<rparr> else s')"

definition pastDeadline :: "fold_options option \<Rightarrow> bool" where
  "pastDeadline opts =
     (case opts of
        None \<Rightarrow> False
      | Some o' \<Rightarrow>
          (case (opt_now o', opt_effectiveDeadline o') of
             (Some n, Some d) \<Rightarrow>
               (case (Date_parse n, Date_parse d) of (Some a, Some b) \<Rightarrow> a > b | _ \<Rightarrow> False)
           | _ \<Rightarrow> False))"

definition deriveAttempt :: "fold_state \<Rightarrow> fold_options option \<Rightarrow> derived_attempt" where
  "deriveAttempt s opts =
     (case resolveTerminal (f_terminals s) of
        Some (accepted, contradictory) \<Rightarrow>
          \<lparr>d_state = terminal_state accepted, d_terminal = True, d_contradictory = contradictory,
           d_cancelRequested = f_cancelRequested s, d_blame = get_field (o_data accepted) ''blame'',
           d_executor = f_executor s, d_effectiveDeadline = f_effectiveDeadline s,
           d_executionIds = f_executionIds s, d_deliveries = f_deliveries s\<rparr>
      | None \<Rightarrow>
          \<lparr>d_state = (if pastDeadline opts then JStr ''expired''
                      else if f_running s then JStr ''running'' else JStr ''pending''),
           d_terminal = pastDeadline opts, d_contradictory = False,
           d_cancelRequested = f_cancelRequested s, d_blame = JUndef,
           d_executor = f_executor s, d_effectiveDeadline = f_effectiveDeadline s,
           d_executionIds = f_executionIds s, d_deliveries = f_deliveries s\<rparr>)"

definition foldEntries :: "fold_entry list \<Rightarrow> fold_options option \<Rightarrow> (fold_error, derived_attempt) result" where
  "foldEntries entries opts =
     (let ordered = map fe_observation entries; auth = findAuthoritativeSource ordered
      in bind_result (refuseConflicts entries auth)
           (\<lambda>_. Inr (deriveAttempt (foldl (foldStep auth) fold_init ordered) opts)))"

definition foldObservations :: "observation list \<Rightarrow> fold_options option \<Rightarrow> (fold_error, derived_attempt) result" where
  "foldObservations observations opts = foldEntries (inFoldOrder observations) opts"


section \<open>The order of the fold\<close>

definition entry_key :: "fold_entry \<Rightarrow> string \<times> string \<times> string" where
  "entry_key e = (o_sequence (fe_observation e), fe_dedupeKey e, fe_reads e)"

interpretation fold_order: keyed_comparator compareFoldEntries entry_key
  by unfold_locales
    (auto simp: compareFoldEntries_def entry_key_def cmp_or_def compareCodeUnitStrings_def less_eq_prod_def)

lemma keepNew_spec:
  assumes "sorted (map entry_key (prev # es))"
  shows "set (map entry_key (keepNew prev es)) = entry_key ` set es - {entry_key prev}
    \<and> sorted_wrt (<) (map entry_key (prev # keepNew prev es)) \<and> set (keepNew prev es) \<subseteq> set es"
  using assms
proof (induction es arbitrary: prev)
  case Nil
  then show ?case by simp
next
  case (Cons e es)
  have IH: "set (map entry_key (keepNew e es)) = entry_key ` set es - {entry_key e}"
    "sorted_wrt (<) (map entry_key (e # keepNew e es))" "set (keepNew e es) \<subseteq> set es"
    using Cons.IH [of e] Cons.prems by auto
  have le: "entry_key prev \<le> entry_key e" "\<forall>k \<in> entry_key ` set es. entry_key e \<le> k"
    using Cons.prems by auto
  show ?case
  proof (cases "entry_key prev = entry_key e")
    case True
    with IH show ?thesis by (auto simp: fold_order.cmp_eq_iff)
  next
    case False
    with le(1) have "entry_key prev < entry_key e" by simp
    with IH le(2) False show ?thesis by (auto simp: fold_order.cmp_eq_iff)
  qed
qed

text \<open>\<open>inFoldOrder\<close> lists the distinct keys in strictly increasing order.\<close>

lemma inFoldOrder_spec:
  "set (map entry_key (inFoldOrder xs)) = entry_key ` toFoldEntry ` set xs
    \<and> sorted_wrt (<) (map entry_key (inFoldOrder xs))
    \<and> set (inFoldOrder xs) \<subseteq> toFoldEntry ` set xs"
proof (cases "js_sort compareFoldEntries (map toFoldEntry xs)")
  case Nil
  then have "toFoldEntry ` set xs = {}" using fold_order.set_js_sort [of "map toFoldEntry xs"] by simp
  with Nil show ?thesis by (simp add: inFoldOrder_def)
next
  case (Cons e es)
  have all: "insert e (set es) = toFoldEntry ` set xs"
    using fold_order.set_js_sort [of "map toFoldEntry xs"] Cons by simp
  have "sorted (map entry_key (e # es))"
    using fold_order.sorted_js_sort [of "map toFoldEntry xs"] Cons by simp
  note spec = keepNew_spec [OF this]
  have "entry_key ` set (keepNew e es) = entry_key ` set es - {entry_key e}" using spec by simp
  then have "insert (entry_key e) (entry_key ` set (keepNew e es)) = insert (entry_key e) (entry_key ` set es)"
    by (simp add: insert_Diff_single)
  then have keys: "set (map entry_key (e # keepNew e es)) = entry_key ` toFoldEntry ` set xs"
    by (simp flip: all)
  have "set (e # keepNew e es) \<subseteq> toFoldEntry ` set xs" unfolding all [symmetric] using spec by auto
  with keys spec Cons show ?thesis by (simp only: inFoldOrder_def list.case)
qed

lemma inFoldOrder_keys_eq:
  assumes "set xs = set ys"
  shows "map entry_key (inFoldOrder xs) = map entry_key (inFoldOrder ys)"
proof (rule sorted_distinct_set_unique)
  show "sorted (map entry_key (inFoldOrder xs))" "sorted (map entry_key (inFoldOrder ys))"
    using inFoldOrder_spec [of xs] inFoldOrder_spec [of ys] by (auto simp: strict_sorted_iff)
  show "distinct (map entry_key (inFoldOrder xs))" "distinct (map entry_key (inFoldOrder ys))"
    using inFoldOrder_spec [of xs] inFoldOrder_spec [of ys] by (auto simp: strict_sorted_iff)
  show "set (map entry_key (inFoldOrder xs)) = set (map entry_key (inFoldOrder ys))"
    using inFoldOrder_spec [of xs] inFoldOrder_spec [of ys] assms by auto
qed

lemma inFoldOrder_entry: "e \<in> set (inFoldOrder xs) \<Longrightarrow> \<exists>x \<in> set xs. e = toFoldEntry x"
  using inFoldOrder_spec [of xs] by auto

section \<open>What the fold reads\<close>

definition read_fields :: "string list" where
  "read_fields = [''source'', ''executor'', ''effectiveDeadline'', ''executionId'', ''digest'', ''state'', ''blame'']"

fun string_or_absent :: "json \<Rightarrow> bool" where
  "string_or_absent (JStr s) = True"
| "string_or_absent JUndef = True"
| "string_or_absent _ = False"

text \<open>
  What the schema of an observation gives (schemas/observation.ts: the type is one of the eleven,
  every field the fold reads is a string or optional), together with the one condition the schema
  does not give: the source carries no U+001F.
\<close>

definition obs_ok :: "observation \<Rightarrow> bool" where
  "obs_ok obs \<longleftrightarrow> o_type obs \<in> set OBSERVATION_TYPES \<and> json_ok (o_data obs)
     \<and> list_all (\<lambda>f. string_or_absent (get_field (o_data obs) f)) read_fields
     \<and> unit_separator \<notin> set (o_source obs)"

definition same_reads :: "observation \<Rightarrow> observation \<Rightarrow> bool" where
  "same_reads a b \<longleftrightarrow> o_source a = o_source b \<and> o_id a = o_id b \<and> o_type a = o_type b
     \<and> (\<forall>f \<in> set read_fields. get_field (o_data a) f = get_field (o_data b) f)"

lemma type_no_separator: "t \<in> set OBSERVATION_TYPES \<Longrightarrow> unit_separator \<notin> set t"
  by (auto simp: type_defs)

lemma string_or_absent_eq:
  "string_or_absent v \<Longrightarrow> string_or_absent w \<Longrightarrow> norm_json v = norm_json w \<Longrightarrow> v = w"
  by (cases v; cases w) auto

lemma entry_key_same_reads:
  assumes "obs_ok a" and "obs_ok b" and "entry_key (toFoldEntry a) = entry_key (toFoldEntry b)"
  shows "same_reads a b"
proof -
  have sep: "unit_separator \<notin> set (o_source a)" "unit_separator \<notin> set (o_source b)"
    "unit_separator \<notin> set (o_type a)" "unit_separator \<notin> set (o_type b)"
    using assms(1,2) type_no_separator by (auto simp: obs_ok_def)
  have keys: "o_source a = o_source b" "o_id a = o_id b" "o_type a = o_type b"
    "canonicalText (o_data a) = canonicalText (o_data b)"
    using assms(3) sep by (simp_all add: entry_key_def toFoldEntry_def sep_append_inj)
  have ok: "json_ok (o_data a)" "json_ok (o_data b)" using assms(1,2) by (simp_all add: obs_ok_def)
  have norm: "norm_json (o_data a) = norm_json (o_data b)"
    using canonicalText_eq_iff [OF ok] keys(4) by simp
  have "get_field (o_data a) f = get_field (o_data b) f" if "f \<in> set read_fields" for f
  proof (rule string_or_absent_eq)
    show "string_or_absent (get_field (o_data a) f)" "string_or_absent (get_field (o_data b) f)"
      using assms(1,2) that by (auto simp: obs_ok_def list_all_iff)
    show "norm_json (get_field (o_data a) f) = norm_json (get_field (o_data b) f)"
      using norm norm_get_field [OF ok(1)] norm_get_field [OF ok(2)] by metis
  qed
  with keys show ?thesis by (simp add: same_reads_def)
qed

text \<open>Every pass of the fold is a function of what it reads.\<close>

definition same_entry :: "fold_entry \<Rightarrow> fold_entry \<Rightarrow> bool" where
  "same_entry e e' \<longleftrightarrow> fe_dedupeKey e = fe_dedupeKey e' \<and> same_reads (fe_observation e) (fe_observation e')"

lemma same_readsD:
  assumes "same_reads a b"
  shows "o_source a = o_source b" "o_id a = o_id b" "o_type a = o_type b"
    "get_field (o_data a) ''source'' = get_field (o_data b) ''source''"
    "get_field (o_data a) ''executor'' = get_field (o_data b) ''executor''"
    "get_field (o_data a) ''effectiveDeadline'' = get_field (o_data b) ''effectiveDeadline''"
    "get_field (o_data a) ''executionId'' = get_field (o_data b) ''executionId''"
    "get_field (o_data a) ''digest'' = get_field (o_data b) ''digest''"
    "get_field (o_data a) ''state'' = get_field (o_data b) ''state''"
    "get_field (o_data a) ''blame'' = get_field (o_data b) ''blame''"
  using assms by (simp_all add: same_reads_def read_fields_def)

lemma inFoldOrder_same:
  assumes "set xs = set ys" and "\<forall>x \<in> set xs. obs_ok x"
  shows "list_all2 same_entry (inFoldOrder xs) (inFoldOrder ys)"
proof -
  have "list_all2 (\<lambda>e e'. entry_key e = entry_key e') (inFoldOrder xs) (inFoldOrder ys)"
    using inFoldOrder_keys_eq [OF assms(1)] by (simp add: list_all2_map1 list_all2_map2 flip: list.rel_eq)
  then show ?thesis
  proof (rule list.rel_mono_strong)
    fix e e'
    assume mem: "e \<in> set (inFoldOrder xs)" "e' \<in> set (inFoldOrder ys)" and key: "entry_key e = entry_key e'"
    obtain a b where ab: "e = toFoldEntry a" "e' = toFoldEntry b" "obs_ok a" "obs_ok b"
      using inFoldOrder_entry [OF mem(1)] inFoldOrder_entry [OF mem(2)] assms by auto
    with entry_key_same_reads [of a b] key show "same_entry e e'"
      by (simp add: same_entry_def toFoldEntry_def entry_key_def)
  qed
qed


lemma foreign_same: "same_reads a b \<Longrightarrow> foreign auth a = foreign auth b"
  by (simp add: foreign_def same_readsD(1) split: option.splits json.splits)

lemma findAuthoritativeSource_same:
  "list_all2 same_reads xs ys \<Longrightarrow> findAuthoritativeSource xs = findAuthoritativeSource ys"
  by (induction xs ys rule: list_all2_induct) (simp_all add: same_readsD)

lemma refuseLoop_same:
  "list_all2 same_entry es es' \<Longrightarrow> refuseLoop auth seen engs es = refuseLoop auth seen engs es'"
proof (induction es es' arbitrary: seen engs rule: list_all2_induct)
  case Nil
  then show ?case by simp
next
  case (Cons e es e' es')
  from Cons.hyps have reads: "same_reads (fe_observation e) (fe_observation e')" and key: "fe_dedupeKey e = fe_dedupeKey e'"
    by (simp_all add: same_entry_def)
  show ?case using Cons.IH foreign_same [OF reads] same_readsD(1-3) [OF reads] key
    by (simp add: Let_def)
qed

definition same_state :: "fold_state \<Rightarrow> fold_state \<Rightarrow> bool" where
  "same_state s t \<longleftrightarrow> list_all2 same_reads (f_terminals s) (f_terminals t)
     \<and> s\<lparr>f_terminals := []\<rparr> = t\<lparr>f_terminals := []\<rparr>"

lemma foldStep_same:
  assumes "same_state s t" and "same_reads a b"
  shows "same_state (foldStep auth s a) (foldStep auth t b)"
proof -
  have "foreign auth a = foreign auth b" using assms(2) by (rule foreign_same)
  with assms same_readsD [OF assms(2)] show ?thesis
    by (cases s; cases t) (simp add: foldStep_def same_state_def set_executor_def isTerminal_def Let_def list_all2_appendI)
qed

lemma foldl_same:
  "list_all2 same_reads xs ys \<Longrightarrow> same_state s t
    \<Longrightarrow> same_state (foldl (foldStep auth) s xs) (foldl (foldStep auth) t ys)"
  by (induction xs ys arbitrary: s t rule: list_all2_induct) (simp_all add: foldStep_same)

lemma resolveTerminal_same:
  assumes "list_all2 same_reads ts us"
  shows "rel_option (rel_prod same_reads (=)) (resolveTerminal ts) (resolveTerminal us)"
proof (cases ts)
  case Nil
  then show ?thesis using assms by simp
next
  case (Cons t ts')
  with assms obtain u us' where us: "us = u # us'" "same_reads t u" "list_all2 same_reads ts' us'"
    by (auto simp: list_all2_Cons1)
  have step: "rel_prod same_reads (=) (resolveStep t a x) (resolveStep u b y)"
    if "rel_prod same_reads (=) a b" "same_reads x y" for a b x y
    using that us(2) by (cases a; cases b) (auto simp: resolveStep_def same_readsD)
  have "rel_prod same_reads (=) (foldl (resolveStep t) a ts') (foldl (resolveStep u) b us')"
    if "rel_prod same_reads (=) a b" for a b
    using us(3) that by (induction ts' us' arbitrary: a b rule: list_all2_induct) (simp_all add: step)
  with us Cons show ?thesis by simp
qed

lemma deriveAttempt_same: "same_state s t \<Longrightarrow> deriveAttempt s opts = deriveAttempt t opts"
proof -
  assume st: "same_state s t"
  then have "rel_option (rel_prod same_reads (=)) (resolveTerminal (f_terminals s)) (resolveTerminal (f_terminals t))"
    by (simp add: same_state_def resolveTerminal_same)
  with st show ?thesis
    by (cases s; cases t; cases "resolveTerminal (f_terminals s)"; cases "resolveTerminal (f_terminals t)")
      (auto simp: deriveAttempt_def same_state_def same_readsD)
qed

lemma foldEntries_same:
  assumes "list_all2 same_entry es es'"
  shows "foldEntries es opts = foldEntries es' opts"
proof -
  have obs: "list_all2 same_reads (map fe_observation es) (map fe_observation es')"
    using assms by (auto simp: list_all2_map1 list_all2_map2 same_entry_def elim: list_all2_mono)
  have "same_state fold_init fold_init" by (simp add: same_state_def fold_init_def)
  then have "deriveAttempt (foldl (foldStep auth) fold_init (map fe_observation es)) opts
    = deriveAttempt (foldl (foldStep auth) fold_init (map fe_observation es')) opts" for auth
    by (intro deriveAttempt_same foldl_same obs)
  then show ?thesis
    by (simp only: foldEntries_def refuseConflicts_def Let_def
        refuseLoop_same [OF assms] findAuthoritativeSource_same [OF obs])
qed


section \<open>Observations of other producers\<close>

text \<open>What the fold can see of a log once \<open>auth\<close> is pinned: every engagement, and everything not foreign.\<close>

definition inside :: "json option \<Rightarrow> observation \<Rightarrow> bool" where
  "inside auth obs \<longleftrightarrow> o_type obs = ATTEMPT_ENGAGED \<or> \<not> foreign auth obs"

definition pinned :: "observation list \<Rightarrow> json option" where
  "pinned xs = findAuthoritativeSource (map fe_observation (inFoldOrder xs))"

lemma findAuthoritativeSource_filter:
  "findAuthoritativeSource (filter (inside auth) xs) = findAuthoritativeSource xs"
  by (induction xs) (simp_all add: inside_def)

lemma refuseLoop_filter:
  "refuseLoop auth seen engs (filter (\<lambda>e. inside auth (fe_observation e)) es) = refuseLoop auth seen engs es"
  by (induction es arbitrary: seen engs) (simp_all add: inside_def Let_def)

lemma foldl_filter:
  "foldl (foldStep auth) s (filter (inside auth) xs) = foldl (foldStep auth) s xs"
  by (induction xs arbitrary: s) (simp_all add: inside_def foldStep_def)

lemma foldEntries_filter:
  assumes "findAuthoritativeSource (map fe_observation es) = auth"
  shows "foldEntries (filter (\<lambda>e. inside auth (fe_observation e)) es) opts = foldEntries es opts"
proof -
  have obs: "map fe_observation (filter (\<lambda>e. inside auth (fe_observation e)) es) = filter (inside auth) (map fe_observation es)"
    by (simp add: filter_map o_def)
  show ?thesis using assms
    by (simp add: foldEntries_def refuseConflicts_def Let_def obs findAuthoritativeSource_filter
        refuseLoop_filter foldl_filter)
qed

lemma inside_same: "same_reads a b \<Longrightarrow> inside auth a = inside auth b"
  by (simp add: inside_def foreign_same same_readsD)

lemma filtered_entries:
  fixes xs auth
  defines "es \<equiv> filter (\<lambda>e. inside auth (fe_observation e)) (inFoldOrder xs)"
  assumes "\<forall>x \<in> set xs. obs_ok x"
  shows "set (map entry_key es) = entry_key ` toFoldEntry ` {x \<in> set xs. inside auth x}"
    and "sorted_wrt (<) (map entry_key es)"
    and "set es \<subseteq> toFoldEntry ` set xs"
proof -
  show "set es \<subseteq> toFoldEntry ` set xs" using inFoldOrder_spec [of xs] by (auto simp: es_def)
  show "sorted_wrt (<) (map entry_key es)"
    using inFoldOrder_spec [of xs] by (simp add: es_def sorted_wrt_map sorted_wrt_filter)
  have "entry_key (toFoldEntry x) \<in> set (map entry_key es)" if x: "x \<in> set xs" "inside auth x" for x
  proof -
    have "entry_key (toFoldEntry x) \<in> set (map entry_key (inFoldOrder xs))"
      using inFoldOrder_spec [of xs] x(1) by simp
    then obtain e where e: "e \<in> set (inFoldOrder xs)" "entry_key e = entry_key (toFoldEntry x)" by auto
    then obtain y where y: "y \<in> set xs" "e = toFoldEntry y" using inFoldOrder_entry by blast
    then have "same_reads y x" using e(2) assms(2) x(1) entry_key_same_reads by simp
    then have "inside auth y" using x(2) inside_same by blast
    with e(1) y(2) have "e \<in> set es" by (simp add: es_def toFoldEntry_def)
    with e(2) show ?thesis by (metis image_eqI image_set)
  qed
  moreover have "entry_key e \<in> entry_key ` toFoldEntry ` {x \<in> set xs. inside auth x}" if "e \<in> set es" for e
  proof -
    from that obtain x where "x \<in> set xs" "e = toFoldEntry x" "inside auth (fe_observation e)"
      using inFoldOrder_entry [of e xs] by (auto simp: es_def)
    then show ?thesis by (auto simp: toFoldEntry_def)
  qed
  ultimately show "set (map entry_key es) = entry_key ` toFoldEntry ` {x \<in> set xs. inside auth x}"
    by auto
qed

lemma filtered_same:
  assumes "\<forall>x \<in> set xs. obs_ok x" and "\<forall>y \<in> set ys. obs_ok y"
    and "{x \<in> set xs. inside auth x} = {y \<in> set ys. inside auth y}"
  shows "list_all2 same_entry (filter (\<lambda>e. inside auth (fe_observation e)) (inFoldOrder xs))
                              (filter (\<lambda>e. inside auth (fe_observation e)) (inFoldOrder ys))"
    (is "list_all2 _ ?es ?es'")
proof -
  have "map entry_key ?es = map entry_key ?es'"
    using filtered_entries(1,2) [OF assms(1), of auth] filtered_entries(1,2) [OF assms(2), of auth] assms(3)
    by (intro sorted_distinct_set_unique) (simp_all only: strict_sorted_iff)
  then have "list_all2 (\<lambda>e e'. entry_key e = entry_key e') ?es ?es'"
    by (simp add: list_all2_map1 list_all2_map2 flip: list.rel_eq)
  then show ?thesis
  proof (rule list.rel_mono_strong)
    fix e e'
    assume mem: "e \<in> set ?es" "e' \<in> set ?es'" and key: "entry_key e = entry_key e'"
    obtain a b where ab: "e = toFoldEntry a" "e' = toFoldEntry b" "obs_ok a" "obs_ok b"
      using filtered_entries(3) [OF assms(1), of auth] filtered_entries(3) [OF assms(2), of auth] mem assms(1,2)
      by blast
    with entry_key_same_reads [of a b] key show "same_entry e e'"
      by (simp add: same_entry_def toFoldEntry_def entry_key_def)
  qed
qed

lemma fold_inside:
  assumes "\<forall>x \<in> set xs. obs_ok x" and "\<forall>y \<in> set ys. obs_ok y"
    and "pinned xs = auth"
    and "{x \<in> set xs. inside auth x} = {y \<in> set ys. inside auth y}"
  shows "foldObservations xs opts = foldObservations ys opts"
proof -
  let ?F = "filter (\<lambda>e. inside auth (fe_observation e))"
  have same: "list_all2 same_entry (?F (inFoldOrder xs)) (?F (inFoldOrder ys))"
    by (rule filtered_same [OF assms(1,2,4)])
  then have "list_all2 same_reads (map fe_observation (?F (inFoldOrder xs))) (map fe_observation (?F (inFoldOrder ys)))"
    by (auto simp: list_all2_map1 list_all2_map2 same_entry_def elim: list_all2_mono)
  then have "findAuthoritativeSource (map fe_observation (?F (inFoldOrder xs)))
    = findAuthoritativeSource (map fe_observation (?F (inFoldOrder ys)))"
    by (rule findAuthoritativeSource_same)
  moreover have "map fe_observation (?F es) = filter (inside auth) (map fe_observation es)" for es
    by (simp add: filter_map o_def)
  ultimately have "pinned ys = auth"
    using assms(3) by (metis findAuthoritativeSource_filter pinned_def)
  with assms(3) foldEntries_same [OF same] show ?thesis
    by (metis foldEntries_filter foldObservations_def pinned_def)
qed

section \<open>Terminal resolution and refusal\<close>

lemma foldl_contradictory: "foldl (resolveStep t) (t, True) us = (t, True)"
  by (induction us) (simp_all add: resolveStep_def)

lemma foldl_resolveStep:
  "foldl (resolveStep t) (a, False) us =
     (if \<forall>x \<in> set (butlast (a # us)). terminal_state x = JStr ''lost'' then (last (a # us), False) else (t, True))"
  by (induction us arbitrary: a) (auto simp: resolveStep_def foldl_contradictory)

definition clash :: "json option \<Rightarrow> fold_entry \<Rightarrow> fold_entry \<Rightarrow> bool" where
  "clash auth e e' \<longleftrightarrow> fe_dedupeKey e = fe_dedupeKey e'
     \<and> (o_type (fe_observation e) = ATTEMPT_ENGAGED \<and> o_type (fe_observation e') = ATTEMPT_ENGAGED
        \<or> \<not> foreign auth (fe_observation e) \<and> \<not> foreign auth (fe_observation e'))"

lemma refuseLoop_iff:
  "refuseLoop auth seen engs es = Inr () \<longleftrightarrow>
     sorted_wrt (\<lambda>e e'. \<not> clash auth e e') es
     \<and> (\<forall>e \<in> set es. (o_type (fe_observation e) = ATTEMPT_ENGAGED \<longrightarrow> fe_dedupeKey e \<notin> set engs)
                   \<and> (\<not> foreign auth (fe_observation e) \<longrightarrow> fe_dedupeKey e \<notin> set seen))"
proof (induction es arbitrary: seen engs)
  case Nil
  then show ?case by simp
next
  case (Cons e es)
  show ?case
    by (cases "o_type (fe_observation e) = ATTEMPT_ENGAGED"; cases "foreign auth (fe_observation e)")
      (auto simp: Let_def Cons.IH clash_def)
qed

lemma refuseConflicts_iff:
  "refuseConflicts es auth = Inr () \<longleftrightarrow> sorted_wrt (\<lambda>e e'. \<not> clash auth e e') es"
  by (simp add: refuseConflicts_def refuseLoop_iff)


lemma sorted_wrt_symmetric:
  assumes "\<And>x y. P x y \<Longrightarrow> P y x" and "distinct (map key xs)"
  shows "sorted_wrt P xs \<longleftrightarrow> (\<forall>x \<in> set xs. \<forall>y \<in> set xs. key x \<noteq> key y \<longrightarrow> P x y)"
  using assms(2)
proof (induction xs)
  case Nil
  then show ?case by simp
next
  case (Cons x xs)
  then have "key x \<noteq> key y" if "y \<in> set xs" for y using that by force
  with Cons assms(1) show ?case by auto
qed

text \<open>Two observations of a log that share (source, id) and are not replays of each other.\<close>

definition disagree :: "observation \<Rightarrow> observation \<Rightarrow> bool" where
  "disagree x y \<longleftrightarrow> o_source x = o_source y \<and> o_id x = o_id y
     \<and> entry_key (toFoldEntry x) \<noteq> entry_key (toFoldEntry y)"

lemma dedupeKey_eq_iff:
  "obs_ok x \<Longrightarrow> obs_ok y \<Longrightarrow>
     fe_dedupeKey (toFoldEntry x) = fe_dedupeKey (toFoldEntry y) \<longleftrightarrow> o_source x = o_source y \<and> o_id x = o_id y"
  by (simp add: toFoldEntry_def obs_ok_def sep_append_inj)

lemma clash_cong:
  assumes "same_reads x x'" and "same_reads y y'"
  shows "clash auth (toFoldEntry x) (toFoldEntry y) = clash auth (toFoldEntry x') (toFoldEntry y')"
  using assms foreign_same [OF assms(1)] foreign_same [OF assms(2)]
  by (simp add: clash_def toFoldEntry_def same_readsD)

lemma refusal_entries:
  assumes "\<forall>x \<in> set xs. obs_ok x"
  shows "refuseConflicts (inFoldOrder xs) auth = Inr () \<longleftrightarrow>
    (\<forall>x \<in> set xs. \<forall>y \<in> set xs. entry_key (toFoldEntry x) \<noteq> entry_key (toFoldEntry y)
        \<longrightarrow> \<not> clash auth (toFoldEntry x) (toFoldEntry y))"
    (is "_ \<longleftrightarrow> ?R")
proof -
  let ?es = "inFoldOrder xs"
  have spec: "set (map entry_key ?es) = entry_key ` toFoldEntry ` set xs" "distinct (map entry_key ?es)"
    "set ?es \<subseteq> toFoldEntry ` set xs"
    using inFoldOrder_spec [of xs] by (simp_all add: strict_sorted_iff)
  have rep: "\<exists>y \<in> set xs. toFoldEntry y \<in> set ?es \<and> entry_key (toFoldEntry y) = entry_key (toFoldEntry x)
      \<and> same_reads x y" if "x \<in> set xs" for x
  proof -
    from that spec(1) obtain e where "e \<in> set ?es" "entry_key e = entry_key (toFoldEntry x)"
      by (metis imageI image_iff image_set)
    moreover from this(1) spec(3) obtain y where "y \<in> set xs" "e = toFoldEntry y" by blast
    ultimately show ?thesis using entry_key_same_reads [of x y] assms that by auto
  qed
  have "refuseConflicts ?es auth = Inr () \<longleftrightarrow>
    (\<forall>e \<in> set ?es. \<forall>e' \<in> set ?es. entry_key e \<noteq> entry_key e' \<longrightarrow> \<not> clash auth e e')"
    unfolding refuseConflicts_iff by (rule sorted_wrt_symmetric [OF _ spec(2)]) (auto simp: clash_def)
  also have "\<dots> \<longleftrightarrow> ?R"
  proof
    assume L: "\<forall>e \<in> set ?es. \<forall>e' \<in> set ?es. entry_key e \<noteq> entry_key e' \<longrightarrow> \<not> clash auth e e'"
    show ?R
    proof (intro ballI impI)
      fix x y
      assume xy: "x \<in> set xs" "y \<in> set xs" "entry_key (toFoldEntry x) \<noteq> entry_key (toFoldEntry y)"
      with rep [of x] rep [of y] L clash_cong show "\<not> clash auth (toFoldEntry x) (toFoldEntry y)" by metis
    qed
  next
    assume ?R
    with spec(3) show "\<forall>e \<in> set ?es. \<forall>e' \<in> set ?es. entry_key e \<noteq> entry_key e' \<longrightarrow> \<not> clash auth e e'" by blast
  qed
  finally show ?thesis .
qed

section \<open>The loop against its summary\<close>

text \<open>
  The loop of the fold in closed form: over the observations that are not foreign, in fold order,
  each output is the obvious comprehension.
\<close>

definition summary :: "observation list \<Rightarrow> fold_state" where
  "summary xs =
     (let named = [get_field (o_data x) ''executor''.
                    x \<leftarrow> xs, o_type x \<in> {ATTEMPT_ENGAGED, ATTEMPT_STARTED} \<and> get_field (o_data x) ''executor'' \<noteq> JUndef];
          engaged = [get_field (o_data x) ''effectiveDeadline''. x \<leftarrow> xs, o_type x = ATTEMPT_ENGAGED]
      in \<lparr>f_running = list_ex (\<lambda>x. o_type x = ATTEMPT_STARTED) xs,
          f_cancelRequested = list_ex (\<lambda>x. o_type x = CANCEL_REQUESTED) xs,
          f_executor = (if named = [] then JUndef else last named),
          f_effectiveDeadline = (if engaged = [] then JUndef else last engaged),
          f_executionIds = [get_field (o_data x) ''executionId''. x \<leftarrow> xs, o_type x = EXECUTION_OBSERVED],
          f_deliveries = [get_field (o_data x) ''digest''. x \<leftarrow> xs, o_type x = DELIVERY_RECORDED],
          f_terminals = filter isTerminal xs\<rparr>)"

lemma type_distinct:
  "distinct [ATTEMPT_ENGAGED, ATTEMPT_STARTED, CANCEL_REQUESTED, EXECUTION_OBSERVED, DELIVERY_RECORDED, ATTEMPT_TERMINAL]"
  by (simp add: type_defs)

lemma foldStep_foreign: "foreign auth x \<Longrightarrow> foldStep auth s x = s"
  by (simp add: foldStep_def)

lemma type_distinct_simps [simp]:
  "ATTEMPT_ENGAGED \<noteq> ATTEMPT_STARTED" "ATTEMPT_ENGAGED \<noteq> CANCEL_REQUESTED"
  "ATTEMPT_ENGAGED \<noteq> EXECUTION_OBSERVED" "ATTEMPT_ENGAGED \<noteq> DELIVERY_RECORDED"
  "ATTEMPT_ENGAGED \<noteq> ATTEMPT_TERMINAL" "ATTEMPT_STARTED \<noteq> CANCEL_REQUESTED"
  "ATTEMPT_STARTED \<noteq> EXECUTION_OBSERVED" "ATTEMPT_STARTED \<noteq> DELIVERY_RECORDED"
  "ATTEMPT_STARTED \<noteq> ATTEMPT_TERMINAL" "CANCEL_REQUESTED \<noteq> EXECUTION_OBSERVED"
  "CANCEL_REQUESTED \<noteq> DELIVERY_RECORDED" "CANCEL_REQUESTED \<noteq> ATTEMPT_TERMINAL"
  "EXECUTION_OBSERVED \<noteq> DELIVERY_RECORDED" "EXECUTION_OBSERVED \<noteq> ATTEMPT_TERMINAL"
  "DELIVERY_RECORDED \<noteq> ATTEMPT_TERMINAL"
  using type_distinct by simp_all

lemmas type_distinct_sym [simp] = type_distinct_simps [symmetric]

lemma summary_snoc:
  assumes "\<not> foreign auth x"
  shows "foldStep auth (summary xs) x = summary (xs @ [x])"
proof -
  consider "o_type x = ATTEMPT_ENGAGED" | "o_type x = ATTEMPT_STARTED" | "o_type x = CANCEL_REQUESTED"
    | "o_type x = EXECUTION_OBSERVED" | "o_type x = DELIVERY_RECORDED" | "o_type x = ATTEMPT_TERMINAL"
    | "o_type x \<notin> {ATTEMPT_ENGAGED, ATTEMPT_STARTED, CANCEL_REQUESTED, EXECUTION_OBSERVED, DELIVERY_RECORDED, ATTEMPT_TERMINAL}"
    by auto
  then show ?thesis using assms
    by cases (simp_all add: foldStep_def summary_def isTerminal_def set_executor_def Let_def)
qed

lemma fold_summary:
  "foldl (foldStep auth) fold_init xs = summary (filter (\<lambda>x. \<not> foreign auth x) xs)"
proof (induction xs rule: rev_induct)
  case Nil
  then show ?case by (simp add: fold_init_def summary_def)
next
  case (snoc x xs)
  then show ?case by (simp add: foldStep_foreign summary_snoc)
qed


section \<open>Properties\<close>

text \<open>A small log: an engagement that pins the source "a", a start, and terminals.\<close>

definition mk_obs :: "string \<Rightarrow> string \<Rightarrow> nat \<Rightarrow> string \<Rightarrow> json \<Rightarrow> observation" where
  "mk_obs src i n t d =
     \<lparr>o_id = i, o_source = src, o_subject = ''s'', o_time = ''t'', o_sequence = padStart 16 CHR ''0'' (dec n),
      o_type = t, o_data = d\<rparr>"

definition ex_engaged :: observation where
  "ex_engaged = mk_obs ''a'' ''e'' 1 ATTEMPT_ENGAGED
     (JObj [(''source'', JStr ''a''), (''effectiveDeadline'', JStr ''2026-01-01T00:00:00Z'')])"

definition ex_started :: observation where
  "ex_started = mk_obs ''a'' ''s'' 2 ATTEMPT_STARTED (JObj [(''executor'', JStr ''x'')])"

definition ex_terminal :: "string \<Rightarrow> string \<Rightarrow> nat \<Rightarrow> string \<Rightarrow> observation" where
  "ex_terminal src i n st = mk_obs src i n ATTEMPT_TERMINAL (JObj [(''state'', JStr st)])"

lemmas ex_defs = mk_obs_def ex_engaged_def ex_started_def ex_terminal_def

lemma ex_obs_ok:
  "obs_ok ex_engaged" "obs_ok ex_started"
  "obs_ok (ex_terminal ''a'' ''l'' 3 ''lost'')" "obs_ok (ex_terminal ''a'' ''d'' 4 ''delivered'')"
  "obs_ok (ex_terminal ''b'' ''f'' 3 ''failed'')"
  by code_simp+

text \<open>
  C4: On observations that are typed by the schema and whose source holds no U+001F (\<open>obs_ok\<close>; the schema does not
  exclude that character, and \<open>fold_order_dependent_on_separator\<close> shows that the condition is needed) the fold is a
  function of the set of observations: for logs with the same members, in any order and with any replays, it gives
  the same derived state or the same refusal ("The result never depends on array order").
\<close>

theorem fold_order_independent:
  assumes "set xs = set ys" and "\<forall>x \<in> set xs. obs_ok x"
  shows "foldObservations xs opts = foldObservations ys opts"
  unfolding foldObservations_def by (rule foldEntries_same [OF inFoldOrder_same [OF assms]])

theorem fold_order_independent_witness:
  "foldObservations [ex_engaged, ex_started, ex_terminal ''a'' ''l'' 3 ''lost''] None
   = foldObservations [ex_terminal ''a'' ''l'' 3 ''lost'', ex_started, ex_engaged, ex_started] None"
  by (rule fold_order_independent) (auto simp: ex_obs_ok)

text \<open>
  The U+001F join of the dedupe key is ambiguous for a producer whose source carries U+001F:
  two observations with different (source, id) pairs get one key, the sort leaves them in array
  order, and the derived state then depends on that order. Only the source restriction of
  \<open>obs_ok\<close> is violated here; the three observations satisfy everything the schema demands.
\<close>

theorem fold_order_dependent_on_separator:
  "let o1 = mk_obs ''a'' (''b'' @ unit_separator # ''c'') 2 ATTEMPT_STARTED (JObj [(''startedAt'', JStr ''2026-01-01T00:00:00Z'')]);
       o2 = mk_obs (''a'' @ unit_separator # ''b'') ''c'' 2 ATTEMPT_STARTED (JObj [(''startedAt'', JStr ''2026-01-01T00:00:00Z'')])
   in map_sum id d_state (foldObservations [ex_engaged, o1, o2] None) = Inr (JStr ''running'')
    \<and> map_sum id d_state (foldObservations [ex_engaged, o2, o1] None) = Inr (JStr ''pending'')"
  by code_simp

text \<open>
  C5: Self-filter, for observations that satisfy \<open>obs_ok\<close> (typed by the schema, no U+001F in the source). Once the
  first engagement in fold order pins the authoritative source, the result is a function of the engagements of every
  producer, foreign ones included, and of the observations of the pinned source: logs that agree on those fold alike,
  whatever else other producers say.
\<close>

theorem fold_ignores_foreign:
  assumes "\<forall>x \<in> set xs. obs_ok x" and "\<forall>y \<in> set ys. obs_ok y"
    and "pinned xs = Some (JStr src)"
    and "{x \<in> set xs. o_type x = ATTEMPT_ENGAGED \<or> o_source x = src}
       = {y \<in> set ys. o_type y = ATTEMPT_ENGAGED \<or> o_source y = src}"
  shows "foldObservations xs opts = foldObservations ys opts"
proof (rule fold_inside [OF assms(1-3)])
  have "inside (Some (JStr src)) x \<longleftrightarrow> o_type x = ATTEMPT_ENGAGED \<or> o_source x = src" for x
    by (auto simp: inside_def foreign_def)
  then show "{x \<in> set xs. inside (Some (JStr src)) x} = {y \<in> set ys. inside (Some (JStr src)) y}"
    using assms(4) by simp
qed

theorem fold_ignores_foreign_witness:
  "foldObservations [ex_terminal ''b'' ''f'' 3 ''failed'', ex_engaged, ex_terminal ''a'' ''d'' 4 ''delivered''] None
   = foldObservations [ex_engaged, ex_terminal ''a'' ''d'' 4 ''delivered''] None"
proof (rule fold_ignores_foreign)
  show "pinned [ex_terminal ''b'' ''f'' 3 ''failed'', ex_engaged, ex_terminal ''a'' ''d'' 4 ''delivered''] = Some (JStr ''a'')"
    by code_simp
  show "{x \<in> set [ex_terminal ''b'' ''f'' 3 ''failed'', ex_engaged, ex_terminal ''a'' ''d'' 4 ''delivered''].
          o_type x = ATTEMPT_ENGAGED \<or> o_source x = ''a''}
      = {y \<in> set [ex_engaged, ex_terminal ''a'' ''d'' 4 ''delivered''].
          o_type y = ATTEMPT_ENGAGED \<or> o_source y = ''a''}"
    by code_simp
qed (auto simp: ex_obs_ok)

text \<open>
  C7: On observations that satisfy \<open>obs_ok\<close> (typed by the schema, no U+001F in the source) the fold refuses exactly
  when the log holds two observations that share (source, id) without being replays of each other, and that are both
  engagements or both not foreign to the pinned source. With U+001F in a source the joined keys of two different
  (source, id) pairs may coincide, and then the fold may refuse as well.
\<close>

theorem fold_refuses_iff:
  assumes "\<forall>x \<in> set xs. obs_ok x"
  shows "(\<exists>e. foldObservations xs opts = Inl e) \<longleftrightarrow>
    (\<exists>x \<in> set xs. \<exists>y \<in> set xs. disagree x y
        \<and> (o_type x = ATTEMPT_ENGAGED \<and> o_type y = ATTEMPT_ENGAGED
           \<or> \<not> foreign (pinned xs) x \<and> \<not> foreign (pinned xs) y))"
proof -
  have "(\<exists>e. foldObservations xs opts = Inl e) \<longleftrightarrow> refuseConflicts (inFoldOrder xs) (pinned xs) \<noteq> Inr ()"
    by (cases "refuseConflicts (inFoldOrder xs) (pinned xs)")
      (auto simp: foldObservations_def foldEntries_def pinned_def Let_def)
  also have "\<dots> \<longleftrightarrow> (\<exists>x \<in> set xs. \<exists>y \<in> set xs. entry_key (toFoldEntry x) \<noteq> entry_key (toFoldEntry y)
        \<and> clash (pinned xs) (toFoldEntry x) (toFoldEntry y))"
    using refusal_entries [OF assms] by blast
  finally show ?thesis using assms dedupeKey_eq_iff
    by (auto simp: clash_def disagree_def toFoldEntry_def)
qed

theorem fold_refuses_iff_witness:
  "\<exists>e. foldObservations [ex_engaged, ex_terminal ''a'' ''l'' 3 ''lost'', ex_terminal ''a'' ''l'' 3 ''failed''] None = Inl e"
proof -
  let ?xs = "[ex_engaged, ex_terminal ''a'' ''l'' 3 ''lost'', ex_terminal ''a'' ''l'' 3 ''failed'']"
  have ok: "\<forall>x \<in> set ?xs. obs_ok x" by code_simp
  have "disagree (ex_terminal ''a'' ''l'' 3 ''lost'') (ex_terminal ''a'' ''l'' 3 ''failed'')"
    "\<not> foreign (pinned ?xs) (ex_terminal ''a'' ''l'' 3 ''lost'')"
    "\<not> foreign (pinned ?xs) (ex_terminal ''a'' ''l'' 3 ''failed'')" by code_simp+
  then show ?thesis unfolding fold_refuses_iff [OF ok] by auto
qed

text \<open>
  Terminal resolution (rules 4 and 6). Of a non-empty list of terminals in fold order the last
  one is accepted without contradiction when every earlier one is \<open>lost\<close>; otherwise the first is
  accepted and the Attempt is contradictory. With no terminal there is none to accept.
\<close>

theorem resolveTerminal_spec:
  "resolveTerminal ts =
     (if ts = [] then None
      else if \<forall>t \<in> set (butlast ts). terminal_state t = JStr ''lost'' then Some (last ts, False)
      else Some (hd ts, True))"
  by (cases ts) (auto simp: foldl_resolveStep)

theorem resolveTerminal_spec_witness:
  "resolveTerminal [ex_terminal ''a'' ''l'' 3 ''lost'', ex_terminal ''a'' ''d'' 4 ''delivered'']
     = Some (ex_terminal ''a'' ''d'' 4 ''delivered'', False)"
  unfolding resolveTerminal_spec by (simp add: ex_defs)

text \<open>
  C6: Refinement. Whenever the fold answers, its answer is the one the declarative summary of the
  pinned source's observations in fold order gives: running iff started, cancelled iff requested,
  the last stated executor, the last engagement's deadline, all executions and deliveries in
  order, and the terminals for \<open>resolveTerminal\<close>.
\<close>

theorem fold_refines_summary:
  "foldObservations xs opts = Inr d \<Longrightarrow>
     d = deriveAttempt (summary (filter (\<lambda>x. \<not> foreign (pinned xs) x) (map fe_observation (inFoldOrder xs)))) opts"
  by (simp add: foldObservations_def foldEntries_def pinned_def Let_def bind_result_Inr_iff fold_summary)

theorem fold_refines_summary_witness:
  "let xs = [ex_started, ex_engaged];
       d = deriveAttempt (summary (filter (\<lambda>x. \<not> foreign (pinned xs) x) (map fe_observation (inFoldOrder xs)))) None
   in foldObservations xs None = Inr d \<and> d_state d = JStr ''running'' \<and> d_executor d = JStr ''x''"
proof -
  have "map_sum id (\<lambda>d. (d_state d, d_executor d)) (foldObservations [ex_started, ex_engaged] None)
    = Inr (JStr ''running'', JStr ''x'')"
    by code_simp
  then obtain d where d: "foldObservations [ex_started, ex_engaged] None = Inr d"
    "d_state d = JStr ''running''" "d_executor d = JStr ''x''"
    by (cases "foldObservations [ex_started, ex_engaged] None") auto
  then show ?thesis using fold_refines_summary [OF d(1)] by (simp only: Let_def)
qed

text \<open>
  The sequence encoding. In range, \<open>formatSequence\<close> gives sixteen digits that read back as the
  number and whose code-unit order is numeric order; out of range it throws.
\<close>

theorem formatSequence_order:
  "case (formatSequence m, formatSequence n) of
     (Inr s, Inr t) \<Rightarrow> length s = 16 \<and> int (nat_of_digits s) = m
        \<and> compareCodeUnitStrings s t = (if m < n then -1 else if m > n then 1 else 0)
   | (Inl e, _) \<Rightarrow> (m < 0 \<or> 10 ^ 16 \<le> m) \<and> e = SequenceRange m
   | (_, Inl e) \<Rightarrow> (n < 0 \<or> 10 ^ 16 \<le> n) \<and> e = SequenceRange n"
proof -
  have enc: "length s = 16 \<and> (\<forall>c \<in> set s. is_digit c) \<and> int (nat_of_digits s) = k"
    if "formatSequence k = Inr s" for k s
  proof -
    from that have k: "0 \<le> k" "k \<le> MAX_SEQUENCE" and s: "s = padStart 16 CHR ''0'' (dec (nat k))"
      by (auto simp: formatSequence_def dec_int_def split: if_splits)
    have "length (dec (nat k)) \<le> 16" by (rule length_dec_le) (use k in \<open>simp_all add: MAX_SEQUENCE_def\<close>)
    moreover have "\<forall>c \<in> set s. is_digit c"
      using set_padStart [of 16 "CHR ''0''" "dec (nat k)"] dec_digits [of "nat k"] s by fastforce
    ultimately show ?thesis using s k by simp
  qed
  show ?thesis
  proof (cases "formatSequence m"; cases "formatSequence n")
    fix s t
    assume st: "formatSequence m = Inr s" "formatSequence n = Inr t"
    have "s < t \<longleftrightarrow> m < n" "t < s \<longleftrightarrow> n < m"
      using digits_less_iff [of s t] digits_less_iff [of t s] enc [OF st(1)] enc [OF st(2)] by auto
    with st enc [OF st(1)] show ?thesis by (simp add: compareCodeUnitStrings_def)
  qed (auto simp: formatSequence_def MAX_SEQUENCE_def split: if_splits)
qed

end
