(* ===== verification/Js_Number.thy ===== *)
theory Js_Number
  imports Complex_Main Js_Json
begin

text \<open>
  The order of JavaScript numbers. A finite number is represented by its \<open>Number::toString\<close> text
  (ECMAScript 6.1.6.1.20): an optional minus sign, decimal digits, an optional fraction and an
  optional exponent. \<open>Number::toString\<close> is strictly monotone, so \<open><=\<close> on numbers is the order of
  the decimal values of the texts, which is decided here on integers.
\<close>

definition take_digits :: "string \<Rightarrow> string" where
  "take_digits s = takeWhile is_digit s"

definition drop_digits :: "string \<Rightarrow> string" where
  "drop_digits s = dropWhile is_digit s"

text \<open>The exponent part: \<open>e+21\<close>, \<open>e-7\<close>, or nothing.\<close>

definition exponent_value :: "string \<Rightarrow> int" where
  "exponent_value s =
     (case s of
        c # d # ds \<Rightarrow> if c = CHR ''e'' then (if d = CHR ''-'' then - int (nat_of_digits ds) else int (nat_of_digits ds)) else 0
      | _ \<Rightarrow> 0)"

text \<open>A text as \<open>(m, e)\<close> with value \<open>m * 10 ^ e\<close>.\<close>

definition num_parts :: "string \<Rightarrow> int \<times> int" where
  "num_parts t =
     (let neg = (t \<noteq> [] \<and> hd t = CHR ''-'');
          u = (if neg then tl t else t);
          ip = take_digits u; r = drop_digits u;
          fp = (if r \<noteq> [] \<and> hd r = CHR ''.'' then take_digits (tl r) else []);
          r' = (if r \<noteq> [] \<and> hd r = CHR ''.'' then drop_digits (tl r) else r);
          m = int (nat_of_digits (ip @ fp))
      in (if neg then - m else m, exponent_value r' - int (length fp)))"

definition scaled_le :: "int \<times> int \<Rightarrow> int \<times> int \<Rightarrow> bool" where
  "scaled_le a b =
     (let l = min (snd a) (snd b)
      in fst a * 10 ^ nat (snd a - l) \<le> fst b * 10 ^ nat (snd b - l))"

definition num_le :: "string \<Rightarrow> string \<Rightarrow> bool" where
  "num_le s t = scaled_le (num_parts s) (num_parts t)"

lemma scaled_le_at:
  assumes "l \<le> snd a" and "l \<le> snd b"
  shows "scaled_le a b \<longleftrightarrow> fst a * 10 ^ nat (snd a - l) \<le> fst b * 10 ^ nat (snd b - l)"
proof -
  let ?k = "min (snd a) (snd b)"
  have split: "(x::int) * 10 ^ nat (e - l) = (x * 10 ^ nat (e - ?k)) * 10 ^ nat (?k - l)" if "?k \<le> e" for e x
  proof -
    have "nat (e - l) = nat (e - ?k) + nat (?k - l)" using that assms by simp
    then show ?thesis by (simp only: power_add mult.assoc)
  qed
  have "fst a * 10 ^ nat (snd a - l) \<le> fst b * 10 ^ nat (snd b - l) \<longleftrightarrow>
    (fst a * 10 ^ nat (snd a - ?k)) * 10 ^ nat (?k - l) \<le> (fst b * 10 ^ nat (snd b - ?k)) * 10 ^ nat (?k - l)"
    by (simp only: split [of "snd a"] split [of "snd b"] min.cobounded1 min.cobounded2)
  also have "\<dots> \<longleftrightarrow> fst a * 10 ^ nat (snd a - ?k) \<le> fst b * 10 ^ nat (snd b - ?k)"
    by (rule mult_le_cancel_right_pos) simp
  finally show ?thesis by (simp add: scaled_le_def Let_def)
qed

lemma scaled_le_refl [simp]: "scaled_le a a"
  by (simp add: scaled_le_def)

lemma scaled_le_trans:
  assumes "scaled_le a b" and "scaled_le b c"
  shows "scaled_le a c"
proof -
  define l where "l = min (snd a) (min (snd b) (snd c))"
  have l: "l \<le> snd a" "l \<le> snd b" "l \<le> snd c" by (simp_all add: l_def)
  show ?thesis
    using assms unfolding scaled_le_at [OF l(1,2)] scaled_le_at [OF l(2,3)] scaled_le_at [OF l(1,3)]
    by (rule order_trans)
qed

lemma scaled_le_total: "scaled_le a b \<or> scaled_le b a"
  by (auto simp: scaled_le_def Let_def min.commute)

text \<open>The value a text denotes, and that the comparison on integers is the order of these values.\<close>

definition num_value :: "string \<Rightarrow> rat" where
  "num_value t = of_int (fst (num_parts t)) * 10 powi snd (num_parts t)"

lemma num_le_value: "num_le s t \<longleftrightarrow> num_value s \<le> num_value t"
proof -
  let ?l = "min (snd (num_parts s)) (snd (num_parts t))"
  have scale: "num_value u = of_int (fst (num_parts u) * 10 ^ nat (snd (num_parts u) - ?l)) * 10 powi ?l"
    if "?l \<le> snd (num_parts u)" for u
  proof -
    have "(10 :: rat) powi snd (num_parts u) = 10 powi (snd (num_parts u) - ?l) * 10 powi ?l"
      by (subst power_int_add [symmetric]) auto
    also have "(10 :: rat) powi (snd (num_parts u) - ?l) = 10 ^ nat (snd (num_parts u) - ?l)"
      using that by (simp add: power_int_def)
    finally show ?thesis by (simp add: num_value_def)
  qed
  have "0 < (10 :: rat) powi ?l" by (simp add: zero_less_power_int)
  then show ?thesis
    unfolding scale [of s, OF min.cobounded1] scale [of t, OF min.cobounded2]
    by (simp only: num_le_def scaled_le_def Let_def mult_le_cancel_right_pos of_int_le_iff)
qed

lemma num_le_refl [simp]: "num_le s s"
  by (simp add: num_le_def)

lemma num_le_trans: "num_le s t \<Longrightarrow> num_le t u \<Longrightarrow> num_le s u"
  by (auto simp: num_le_def intro: scaled_le_trans)

lemma num_le_total: "num_le s t \<or> num_le t s"
  by (simp add: num_le_def scaled_le_total)

end
