(* ===== verification/Requirements_Merge.thy ===== *)
theory Requirements_Merge
  imports Js_Number
begin

text \<open>
  The tighten-only merge of Task and Submission requirements:
  task-execution/protocol/src/requirements.ts.

  A requirement map is an association list in \<open>Object.keys\<close> order. The two lookups of the code that
  go through an object literal, \<open>keyClasses[key]\<close> and \<open>CONSTRAINT_MEMBERSHIP[key]\<close>, differ: a key
  class is only compared against the five class names, so an inherited property reads as no class;
  a membership test is called, so the inherited members of \<open>Object.prototype\<close> are modelled as what
  calling them does.

  The theorems: what a successful merge contains and which key a failed one reports; that a chain
  of merges only tightens, against a reading of the classes that does not mention the code (\<open>tightened\<close>); and that a constraint key named like an inherited function is not tested.
\<close>

section \<open>Structural equality\<close>

fun canonicalStringify :: "json \<Rightarrow> string option" where
  "canonicalStringify JUndef = None"
| "canonicalStringify (JArr xs) =
     Some (''['' @ joinWith '','' (map (\<lambda>x. case canonicalStringify x of None \<Rightarrow> [] | Some s \<Rightarrow> s) xs) @ '']'')"
| "canonicalStringify (JObj kvs) =
     Some (''{'' @ joinWith '',''
       (map (\<lambda>kv. json_quote (fst kv) @ '':'' @ snd kv)
         (js_sort (\<lambda>a b. compareCodeUnitStrings (fst a) (fst b))
           (map (\<lambda>(k, v). (k, case canonicalStringify v of None \<Rightarrow> ''undefined'' | Some s \<Rightarrow> s)) kvs))) @ ''}'')"
| "canonicalStringify v = Some (scalar_text v)"

definition byteEqual :: "json \<Rightarrow> json \<Rightarrow> bool" where
  "byteEqual a b \<longleftrightarrow> canonicalStringify a = canonicalStringify b"

section \<open>Comparison classes\<close>

datatype comparison_class = Exact | Ceiling | Floor | Constraint | Addable

definition EFFORT_TIERS :: "string list" where
  "EFFORT_TIERS = [''low'', ''medium'', ''high'', ''xhigh'', ''max'']"

fun isEffortTier :: "json \<Rightarrow> bool" where
  "isEffortTier (JStr s) = (s \<in> set EFFORT_TIERS)"
| "isEffortTier _ = False"

fun index_of :: "string \<Rightarrow> string list \<Rightarrow> nat" where
  "index_of s [] = 0"
| "index_of s (x # xs) = (if s = x then 0 else Suc (index_of s xs))"

fun EFFORT_RANK :: "json \<Rightarrow> nat" where
  "EFFORT_RANK (JStr s) = index_of s EFFORT_TIERS"
| "EFFORT_RANK _ = 0"

definition MODEL_ID_PROVIDER_PREFIXES :: "(string \<times> string) list" where
  "MODEL_ID_PROVIDER_PREFIXES =
     [(''claude-'', ''anthropic''), (''gpt-'', ''openai''), (''o1-'', ''openai''),
      (''gemini-'', ''google''), (''llama-'', ''meta''), (''mistral-'', ''mistralai'')]"

fun first_prefix :: "string \<Rightarrow> (string \<times> string) list \<Rightarrow> string option" where
  "first_prefix i [] = None"
| "first_prefix i ((p, v) # rest) = (if startsWith i p then Some v else first_prefix i rest)"

definition inferProviderFromModelId :: "string \<Rightarrow> string option" where
  "inferProviderFromModelId i = first_prefix i MODEL_ID_PROVIDER_PREFIXES"

text \<open>\<open>typeof v === "object" && v !== null\<close>\<close>

fun is_object :: "json \<Rightarrow> bool" where
  "is_object (JArr _) = True"
| "is_object (JObj _) = True"
| "is_object _ = False"

definition modelConstraintAdmits :: "json \<Rightarrow> json \<Rightarrow> bool" where
  "modelConstraintAdmits t s =
     (if \<not> is_object t then False
      else if \<not> is_object s then False
      else case get_string t ''provider'' of
        Some p \<Rightarrow>
          (case get_string s ''provider'' of
             Some q \<Rightarrow> q = p
           | None \<Rightarrow>
               (case get_string s ''id'' of
                  Some i \<Rightarrow> inferProviderFromModelId i = Some p
                | None \<Rightarrow> False))
      | None \<Rightarrow>
          (case get_string t ''id'' of
             Some i \<Rightarrow> get_field s ''id'' = JStr i
           | None \<Rightarrow> False))"

text \<open>
  \<open>CONSTRAINT_MEMBERSHIP[key]\<close> applied to the two values. \<open>None\<close>: no such property, the caller
  compares bytes. The members of \<open>Object.prototype\<close> are called without a receiver: \<open>Object(task)\<close>
  and \<open>toString()\<close> give a truthy value, \<open>isPrototypeOf\<close> gives \<open>false\<close> for a primitive argument, and
  everything else throws a \<open>TypeError\<close>.
\<close>

datatype membership = NoTest | Answer bool | Throws

definition OBJECT_PROTOTYPE :: "string list" where
  "OBJECT_PROTOTYPE =
     [''constructor'', ''toString'', ''isPrototypeOf'', ''toLocaleString'', ''valueOf'', ''hasOwnProperty'',
      ''propertyIsEnumerable'', ''__defineGetter__'', ''__defineSetter__'', ''__lookupGetter__'',
      ''__lookupSetter__'', ''__proto__'']"

definition CONSTRAINT_MEMBERSHIP :: "string \<Rightarrow> json \<Rightarrow> json \<Rightarrow> membership" where
  "CONSTRAINT_MEMBERSHIP key t s =
     (if key = ''model'' then Answer (modelConstraintAdmits t s)
      else if key = ''constructor'' \<or> key = ''toString'' then Answer True
      else if key = ''isPrototypeOf'' \<and> \<not> is_object t then Answer False
      else if key \<in> set OBJECT_PROTOTYPE then Throws
      else NoTest)"

section \<open>The merge\<close>

fun num_of :: "json \<Rightarrow> string option" where
  "num_of (JNum t) = Some t"
| "num_of _ = None"

definition num_leq :: "json \<Rightarrow> json \<Rightarrow> bool" where
  "num_leq a b = (case (num_of a, num_of b) of (Some x, Some y) \<Rightarrow> num_le x y | _ \<Rightarrow> False)"

text \<open>The switch of the loop on a key both sides declare: admitted, refused, or an exception.\<close>

definition judge :: "comparison_class option \<Rightarrow> string \<Rightarrow> json \<Rightarrow> json \<Rightarrow> bool option" where
  "judge cls key t s =
     (case cls of
        Some Exact \<Rightarrow> Some (byteEqual t s)
      | Some Ceiling \<Rightarrow> Some (num_leq s t)
      | Some Floor \<Rightarrow>
          (if isEffortTier t \<and> isEffortTier s then Some (EFFORT_RANK s \<ge> EFFORT_RANK t)
           else Some (num_leq t s))
      | Some Constraint \<Rightarrow>
          (case CONSTRAINT_MEMBERSHIP key t s of
             Answer b \<Rightarrow> Some b
           | NoTest \<Rightarrow> Some (byteEqual t s)
           | Throws \<Rightarrow> None)
      | _ \<Rightarrow> Some (byteEqual t s))"

datatype merge_error = InvalidDocument string | MembershipTypeError string

text \<open>
  \<open>effective[key] = v\<close> on an object literal: the accessor \<open>__proto__\<close> takes the assignment, so no
  own property of that name appears.
\<close>

definition put_own :: "string \<Rightarrow> json \<Rightarrow> (string \<times> json) list \<Rightarrow> (string \<times> json) list" where
  "put_own key v effective = (if key = ''__proto__'' then effective else effective @ [(key, v)])"

fun mergeLoop ::
  "(string \<times> json) list \<Rightarrow> (string \<times> json) list \<Rightarrow> (string \<Rightarrow> comparison_class option)
    \<Rightarrow> string list \<Rightarrow> (string \<times> json) list \<Rightarrow> (merge_error, (string \<times> json) list) result" where
  "mergeLoop task submission classes [] effective = Inr effective"
| "mergeLoop task submission classes (key # keys) effective =
     (case (map_of task key, map_of submission key) of
        (Some t, None) \<Rightarrow> mergeLoop task submission classes keys (put_own key t effective)
      | (Some t, Some s) \<Rightarrow>
          (case judge (classes key) key t s of
             Some True \<Rightarrow> mergeLoop task submission classes keys (put_own key s effective)
           | Some False \<Rightarrow> Inl (InvalidDocument key)
           | None \<Rightarrow> Inl (MembershipTypeError key))
      | (None, Some s) \<Rightarrow> mergeLoop task submission classes keys (put_own key s effective)
      | (None, None) \<Rightarrow> mergeLoop task submission classes keys effective)"

definition mergeRequirements ::
  "(string \<times> json) list option \<Rightarrow> (string \<times> json) list option \<Rightarrow> (string \<Rightarrow> comparison_class option)
    \<Rightarrow> (merge_error, (string \<times> json) list) result" where
  "mergeRequirements taskRequirements submissionRequirements classes =
     (let task = (case taskRequirements of None \<Rightarrow> [] | Some t \<Rightarrow> t);
          submission = (case submissionRequirements of None \<Rightarrow> [] | Some s \<Rightarrow> s)
      in mergeLoop task submission classes
           (insertion_order (map fst task @ map fst submission)) [])"


section \<open>Structural equality is equality of normal forms\<close>

fun no_undef :: "json \<Rightarrow> bool" where
  "no_undef JUndef = False"
| "no_undef (JArr xs) = list_all no_undef xs"
| "no_undef (JObj kvs) = list_all (\<lambda>kv. no_undef (snd kv)) kvs"
| "no_undef _ = True"

lemma js_sort_map:
  assumes "\<And>a b. cmp' (f a) (f b) = cmp a b"
  shows "js_sort cmp' (map f xs) = map f (js_sort cmp xs)"
proof -
  have ins: "js_insert cmp' (f x) (map f ys) = map f (js_insert cmp x ys)" for x ys
    by (induction ys) (simp_all add: assms)
  show ?thesis by (induction xs) (simp_all add: js_sort_def ins)
qed

lemma canonicalStringify_eq: "no_undef v \<Longrightarrow> canonicalStringify v = Some (canon v)"
proof (induction v rule: canonicalStringify.induct)
  case (2 xs)
  then have "canonicalStringify x = Some (canon x)" if "x \<in> set xs" for x
    using that by (auto simp: list_all_iff)
  then have "map (\<lambda>x. case canonicalStringify x of None \<Rightarrow> [] | Some s \<Rightarrow> s) xs = map canon xs" by simp
  then have "joinWith '','' (map (\<lambda>x. case canonicalStringify x of None \<Rightarrow> [] | Some s \<Rightarrow> s) xs)
    = joinWith '','' (map canon xs)" by (rule arg_cong)
  then show ?case by (simp add: o_def)
next
  case (3 kvs)
  let ?f = "\<lambda>kv. (fst kv, canon (snd kv))"
  have present: "filter (\<lambda>kv. snd kv \<noteq> JUndef) kvs = kvs"
    using "3.prems" by (auto simp: filter_id_conv list_all_iff)
  have "canonicalStringify (snd kv) = Some (canon (snd kv))" if "kv \<in> set kvs" for kv
    using that "3.IH" [of kv "fst kv" "snd kv"] "3.prems" by (auto simp: list_all_iff)
  then have texts: "map (\<lambda>(k, v). (k, case canonicalStringify v of None \<Rightarrow> ''undefined'' | Some s \<Rightarrow> s)) kvs = map ?f kvs"
    by auto
  have sorted: "js_sort (\<lambda>a b. compareCodeUnitStrings (fst a) (fst b)) (map ?f kvs) = map ?f (js_sort compareKeyed kvs)"
    by (rule js_sort_map) (simp add: compareKeyed_def)
  show ?case
    by (simp only: canonicalStringify.simps texts sorted norm_json.simps json_text.simps present_sorted_def present)
      (simp add: o_def)
qed simp_all

lemma byteEqual_iff:
  assumes "json_ok a" "json_ok b" "no_undef a" "no_undef b"
  shows "byteEqual a b \<longleftrightarrow> norm_json a = norm_json b"
  using assms by (simp add: byteEqual_def canonicalStringify_eq json_text_inj norm_json_ok)

section \<open>The loop\<close>

definition chosen :: "(string \<times> json) list \<Rightarrow> (string \<times> json) list \<Rightarrow> string \<Rightarrow> json option" where
  "chosen task submission k = (case map_of submission k of Some s \<Rightarrow> Some s | None \<Rightarrow> map_of task k)"

text \<open>A key both sides declare and whose class does not admit the Submission's value.\<close>

definition bad_key :: "(string \<times> json) list \<Rightarrow> (string \<times> json) list \<Rightarrow> (string \<Rightarrow> comparison_class option) \<Rightarrow> string \<Rightarrow> bool" where
  "bad_key task submission classes k =
     (case (map_of task k, map_of submission k) of
        (Some t, Some s) \<Rightarrow> judge (classes k) k t s \<noteq> Some True
      | _ \<Rightarrow> False)"

definition key_error :: "(string \<times> json) list \<Rightarrow> (string \<times> json) list \<Rightarrow> (string \<Rightarrow> comparison_class option) \<Rightarrow> string \<Rightarrow> merge_error" where
  "key_error task submission classes k =
     (if judge (classes k) k (the (map_of task k)) (the (map_of submission k)) = None
      then MembershipTypeError k else InvalidDocument k)"

lemma mergeLoop_eq:
  "mergeLoop task submission classes keys effective =
     (case find (bad_key task submission classes) keys of
        Some k \<Rightarrow> Inl (key_error task submission classes k)
      | None \<Rightarrow> Inr (effective @
          [(k, the (chosen task submission k)). k \<leftarrow> keys, k \<noteq> ''__proto__'' \<and> chosen task submission k \<noteq> None]))"
proof (induction keys arbitrary: effective)
  case Nil
  then show ?case by simp
next
  case (Cons k keys)
  show ?case
  proof (cases "map_of task k"; cases "map_of submission k")
    fix t s
    assume ts: "map_of task k = Some t" "map_of submission k = Some s"
    show ?thesis
    proof (cases "judge (classes k) k t s")
      case None
      with ts show ?thesis by (simp add: bad_key_def key_error_def)
    next
      case (Some b)
      with ts Cons.IH show ?thesis
        by (cases b) (simp_all add: bad_key_def key_error_def put_own_def chosen_def split: option.split)
    qed
  qed (simp_all add: Cons.IH bad_key_def put_own_def chosen_def split: option.split)
qed

lemma map_of_keys:
  "map_of [(k, the (g k)). k \<leftarrow> keys, P k \<and> g k \<noteq> None] q = (if q \<in> set keys \<and> P q then g q else None)"
  by (induction keys) auto

lemma chosen_None: "chosen t s k = None \<longleftrightarrow> k \<notin> fst ` set t \<union> fst ` set s"
  by (auto simp: chosen_def map_of_eq_None_iff split: option.splits)
    (metis image_eqI domI domIff dom_map_of_conv_image_fst fst_conv map_of_eq_None_iff option.distinct(1))+

lemma bad_key_mem: "bad_key t s c k \<Longrightarrow> k \<in> set (map fst t @ map fst s)"
  by (auto simp: bad_key_def map_of_eq_None_iff split: option.splits)
    (metis map_of_eq_None_iff option.distinct(1))

lemma mergeRequirements_eq:
  "mergeRequirements (Some t) (Some s) c =
     (case find (bad_key t s c) (insertion_order (map fst t @ map fst s)) of
        Some k \<Rightarrow> Inl (key_error t s c k)
      | None \<Rightarrow> Inr [(k, the (chosen t s k)).
          k \<leftarrow> insertion_order (map fst t @ map fst s), k \<noteq> ''__proto__'' \<and> chosen t s k \<noteq> None])"
  by (simp add: mergeRequirements_def mergeLoop_eq split: option.split)

lemma mergeRequirements_ok:
  assumes "mergeRequirements (Some t) (Some s) c = Inr e"
  shows "map_of e k = (if k = ''__proto__'' then None else chosen t s k)" and "\<not> bad_key t s c k"
proof -
  from assms have none: "find (bad_key t s c) (insertion_order (map fst t @ map fst s)) = None"
    and e: "e = [(k, the (chosen t s k)). k \<leftarrow> insertion_order (map fst t @ map fst s), k \<noteq> ''__proto__'' \<and> chosen t s k \<noteq> None]"
    by (simp_all only: mergeRequirements_eq split: option.splits) simp_all
  show "map_of e k = (if k = ''__proto__'' then None else chosen t s k)"
    unfolding e map_of_keys using chosen_None [of t s k] by auto
  show "\<not> bad_key t s c k"
    using none bad_key_mem [of t s c k] by (auto simp: find_None_iff)
qed

section \<open>What a comparison class promises\<close>

text \<open>
  The relation of a later value \<open>v\<close> to the Task's value \<open>t\<close> that the classes other than \<open>constraint\<close> promise, without
  reference to the code: numbers by their values, effort tiers by their position in the list, everything else by
  equality up to the order of keys.
\<close>

definition tightened :: "comparison_class option \<Rightarrow> json \<Rightarrow> json \<Rightarrow> bool" where
  "tightened cls t v \<longleftrightarrow> v = t \<or>
     (if cls = Some Ceiling then \<exists>x y. t = JNum x \<and> v = JNum y \<and> num_value y \<le> num_value x
      else if cls = Some Floor
      then (\<exists>x y. t = JNum x \<and> v = JNum y \<and> num_value x \<le> num_value y)
         \<or> (\<exists>i j. i \<le> j \<and> j < length EFFORT_TIERS \<and> t = JStr (EFFORT_TIERS ! i) \<and> v = JStr (EFFORT_TIERS ! j))
      else norm_json v = norm_json t)"

text \<open>The values of JSON documents: no repeated keys, nothing \<open>undefined\<close>.\<close>

definition documents :: "(string \<times> json) list \<Rightarrow> bool" where
  "documents r \<longleftrightarrow> (\<forall>v \<in> snd ` set r. json_ok v \<and> no_undef v)"

lemma documentsD: "documents r \<Longrightarrow> map_of r k = Some v \<Longrightarrow> json_ok v \<and> no_undef v"
  by (force simp: documents_def dest: map_of_SomeD)

lemma num_leq_iff: "num_leq a b \<longleftrightarrow> (\<exists>x y. a = JNum x \<and> b = JNum y \<and> num_value x \<le> num_value y)"
  by (cases a; cases b) (simp_all add: num_leq_def num_le_value)

lemma index_of_nth: "s \<in> set xs \<Longrightarrow> index_of s xs < length xs \<and> xs ! index_of s xs = s"
  by (induction xs) auto

lemma tier_position: "isEffortTier v \<Longrightarrow> EFFORT_RANK v < length EFFORT_TIERS \<and> v = JStr (EFFORT_TIERS ! EFFORT_RANK v)"
  by (cases v) (auto simp: index_of_nth)

lemma judge_tightened:
  assumes "judge cls k t v = Some True" and "cls \<noteq> Some Constraint"
    and "json_ok t \<and> no_undef t" and "json_ok v \<and> no_undef v"
  shows "tightened cls t v"
proof -
  have equal: "byteEqual t v \<Longrightarrow> norm_json v = norm_json t" using assms(3,4) by (simp add: byteEqual_iff)
  have tiers: "\<exists>i j. i \<le> j \<and> j < length EFFORT_TIERS \<and> t = JStr (EFFORT_TIERS ! i) \<and> v = JStr (EFFORT_TIERS ! j)"
    if "isEffortTier t" "isEffortTier v" "EFFORT_RANK t \<le> EFFORT_RANK v"
    using tier_position [OF that(1)] tier_position [OF that(2)] that(3) by blast
  show ?thesis using assms(1,2) equal tiers
    by (auto simp: judge_def tightened_def num_leq_iff split: option.splits comparison_class.splits if_splits)
qed

lemma tiers_distinct: "distinct EFFORT_TIERS"
  by (simp add: EFFORT_TIERS_def)

lemma tightened_trans: "tightened cls a b \<Longrightarrow> tightened cls b c \<Longrightarrow> tightened cls a c"
  by (auto simp: tightened_def split: if_splits) (metis nth_eq_iff_index_eq [OF tiers_distinct] order_trans order_le_less_trans)+

section \<open>Chains of merges\<close>

fun merges :: "(string \<Rightarrow> comparison_class option) \<Rightarrow> (string \<times> json) list \<Rightarrow> (string \<times> json) list list
    \<Rightarrow> (merge_error, (string \<times> json) list) result" where
  "merges classes effective [] = Inr effective"
| "merges classes effective (s # ss) =
     bind_result (mergeRequirements (Some effective) (Some s) classes) (\<lambda>e. merges classes e ss)"

lemma merge_documents:
  assumes "mergeRequirements (Some t) (Some s) c = Inr e" and "documents t" and "documents s"
  shows "documents e"
proof -
  have "json_ok v \<and> no_undef v" if "(k, v) \<in> set e" for k v
  proof -
    have "e = [(k, the (chosen t s k)). k \<leftarrow> insertion_order (map fst t @ map fst s), k \<noteq> ''__proto__'' \<and> chosen t s k \<noteq> None]"
      using assms(1) by (simp only: mergeRequirements_eq split: option.splits) simp_all
    with that have "chosen t s k = Some v" by auto
    then show ?thesis using documentsD [OF assms(2), of k v] documentsD [OF assms(3), of k v]
      by (auto simp: chosen_def split: option.splits)
  qed
  then show ?thesis by (auto simp: documents_def)
qed

lemma merge_tightened:
  assumes "mergeRequirements (Some r) (Some s) classes = Inr e" and "documents r" and "documents s"
    and "map_of r k = Some u" and "k \<noteq> ''__proto__''" and "classes k \<noteq> Some Constraint"
  shows "\<exists>v. map_of e k = Some v \<and> tightened (classes k) u v"
proof (cases "map_of s k")
  case None
  then show ?thesis using mergeRequirements_ok(1) [OF assms(1), of k] assms(4,5) by (simp add: chosen_def tightened_def)
next
  case (Some v)
  then have "judge (classes k) k u v = Some True"
    using mergeRequirements_ok(2) [OF assms(1), of k] assms(4) by (simp add: bad_key_def)
  then have "tightened (classes k) u v"
    by (rule judge_tightened [OF _ assms(6) documentsD [OF assms(2,4)] documentsD [OF assms(3) Some]])
  then show ?thesis using mergeRequirements_ok(1) [OF assms(1), of k] Some assms(5) by (simp add: chosen_def)
qed


section \<open>Properties\<close>

text \<open>
  C31: The merge, on every branch. When it succeeds, every key of either side other than \<open>__proto__\<close>
  carries the Submission's value where there is one and the Task's otherwise, nothing else is
  present, and every key both sides declare was admitted by its comparison class. When it fails, the
  reported key is declared by both sides and its class refused it; a \<open>TypeError\<close> escapes only from a
  \<open>constraint\<close> key that names a member of \<open>Object.prototype\<close>.
\<close>

theorem mergeRequirements_spec:
  "case mergeRequirements (Some task) (Some submission) classes of
     Inr effective \<Rightarrow>
       map_of effective = (chosen task submission)(''__proto__'' := None)
       \<and> (\<forall>k. case (map_of task k, map_of submission k) of
              (Some t, Some s) \<Rightarrow> judge (classes k) k t s = Some True | _ \<Rightarrow> True)
   | Inl (InvalidDocument k) \<Rightarrow>
       (\<exists>t s. map_of task k = Some t \<and> map_of submission k = Some s \<and> judge (classes k) k t s = Some False)
   | Inl (MembershipTypeError k) \<Rightarrow> classes k = Some Constraint \<and> k \<in> set OBJECT_PROTOTYPE"
proof (cases "mergeRequirements (Some task) (Some submission) classes")
  case (Inl err)
  then obtain k where k: "find (bad_key task submission classes) (insertion_order (map fst task @ map fst submission)) = Some k"
    "err = key_error task submission classes k"
    by (simp only: mergeRequirements_eq split: option.splits) auto
  then have "bad_key task submission classes k" by (auto simp: find_Some_iff)
  then obtain t s where ts: "map_of task k = Some t" "map_of submission k = Some s" "judge (classes k) k t s \<noteq> Some True"
    by (auto simp: bad_key_def split: option.splits)
  show ?thesis
  proof (cases "judge (classes k) k t s")
    case None
    then have "classes k = Some Constraint \<and> k \<in> set OBJECT_PROTOTYPE"
      by (auto simp: judge_def CONSTRAINT_MEMBERSHIP_def
          split: option.splits comparison_class.splits membership.splits if_splits)
    with None ts k(2) Inl show ?thesis by (simp add: key_error_def)
  next
    case (Some b)
    with ts k(2) Inl show ?thesis by (auto simp: key_error_def)
  qed
next
  case (Inr e)
  have "case (map_of task k, map_of submission k) of
      (Some t, Some s) \<Rightarrow> judge (classes k) k t s = Some True | _ \<Rightarrow> True" for k
    using mergeRequirements_ok(2) [OF Inr, of k] by (auto simp: bad_key_def split: option.splits)
  moreover have "map_of e = (chosen task submission)(''__proto__'' := None)"
    using mergeRequirements_ok(1) [OF Inr] by (simp add: fun_eq_iff)
  ultimately show ?thesis using Inr by simp
qed

text \<open>
  C30: Tighten-only. Through every chain of successful merges of JSON documents, a value the Task declares under a key
  other than \<open>__proto__\<close> and of a class other than \<open>constraint\<close> is still declared at the end, and the final value is the
  Task's own or stands to it as the class promises: under \<open>ceiling\<close> both are numbers and the final one is not larger,
  under \<open>floor\<close> both are numbers and it is not smaller or both are effort tiers and it does not come earlier in the
  list of tiers, and in every other class the two are equal up to the order of keys. Numbers are compared by the
  rational value of their text. The \<open>constraint\<close> class is excluded: its model test is not transitive, and
  keys that name an inherited function are not tested (\<open>constraint_key_constructor_unchecked\<close>). So is \<open>__proto__\<close>, which
  the merge drops.
\<close>

theorem mergeRequirements_tightens:
  assumes "merges classes task submissions = Inr effective"
    and "documents task" and "\<forall>s \<in> set submissions. documents s"
    and "k \<noteq> ''__proto__''" and "classes k \<noteq> Some Constraint" and "map_of task k = Some t"
  shows "\<exists>v. map_of effective k = Some v \<and> tightened (classes k) t v"
  using assms(1,2,3,6)
proof (induction submissions arbitrary: task t)
  case Nil
  then show ?case by (simp add: tightened_def)
next
  case (Cons s ss)
  then obtain e where e: "mergeRequirements (Some task) (Some s) classes = Inr e" "merges classes e ss = Inr effective"
    by (auto simp: bind_result_Inr_iff)
  from Cons.prems have docs: "documents task" "documents s" by simp_all
  obtain u where u: "map_of e k = Some u" "tightened (classes k) t u"
    using merge_tightened [OF e(1) docs Cons.prems(4) assms(4,5)] by blast
  then show ?case using Cons.IH [OF e(2) merge_documents [OF e(1) docs]] Cons.prems(3) tightened_trans by fastforce
qed

theorem mergeRequirements_tightens_witness:
  "\<exists>e v. merges (\<lambda>_. Some Ceiling) [(''max'', JNum ''10'')] [[(''max'', JNum ''2.5'')], [(''max'', JNum ''1e-7'')]] = Inr e
     \<and> map_of e ''max'' = Some v \<and> tightened (Some Ceiling) (JNum ''10'') v"
proof -
  have "merges (\<lambda>_. Some Ceiling) [(''max'', JNum ''10'')] [[(''max'', JNum ''2.5'')], [(''max'', JNum ''1e-7'')]] = Inr [(''max'', JNum ''1e-7'')]"
    by code_simp
  moreover have "documents [(''max'', JNum ''10'')]" "documents [(''max'', JNum ''2.5'')]" "documents [(''max'', JNum ''1e-7'')]"
    unfolding documents_def by code_simp+
  ultimately show ?thesis using mergeRequirements_tightens [where k = "''max''" and t = "JNum ''10''"] by fastforce
qed

text \<open>
  The structural comparison of the \<open>exact\<close>, \<open>addable\<close> and unclassified keys identifies exactly
  the JSON values that agree up to key order.
\<close>

theorem byteEqual_structural:
  assumes "json_ok a" and "json_ok b" and "no_undef a" and "no_undef b"
  shows "byteEqual a b \<longleftrightarrow> norm_json a = norm_json b"
  using byteEqual_iff [OF assms] .

theorem byteEqual_structural_witness:
  "byteEqual (JObj [(''b'', JNull), (''a'', JNum ''1'')]) (JObj [(''a'', JNum ''1''), (''b'', JNull)])"
proof -
  let ?a = "JObj [(''b'', JNull), (''a'', JNum ''1'')]" and ?b = "JObj [(''a'', JNum ''1''), (''b'', JNull)]"
  have "json_ok ?a" "json_ok ?b" "no_undef ?a" "no_undef ?b" "norm_json ?a = norm_json ?b" by code_simp+
  then show ?thesis using byteEqual_structural [of ?a ?b] by blast
qed

text \<open>
  A \<open>constraint\<close> key called \<open>constructor\<close> is not constrained: the membership registry is an
  object literal, the lookup finds the inherited \<open>Object\<close> function, and any Submission value
  replaces the Task's.
\<close>

theorem constraint_key_constructor_unchecked:
  "mergeRequirements (Some [(''constructor'', t)]) (Some [(''constructor'', s)]) (\<lambda>_. Some Constraint)
     = Inr [(''constructor'', s)]"
  by (simp add: mergeRequirements_def insertion_order_def judge_def CONSTRAINT_MEMBERSHIP_def put_own_def)

end
