(* ===== verification/Exact_Decimal.thy ===== *)
theory Exact_Decimal
  imports Complex_Main Js_Runtime "HOL-Library.Word"
begin

text \<open>
  Exact decimal arithmetic of the evaluation profiles:
  task-execution/profiles/src/evaluation-spec/state-predicate/decimal.ts, and the decimal grammar of
  verdict-rule.ts it shares. Quantities are decimal strings compared by scaling to integers.

  The reference is the rational value of a decimal string, \<open>dec_value\<close>; the lemmas show that the
  scaled-integer comparison and the two tolerance tests decide the order and the distance of these
  values, and that the 32-byte words decode as unsigned and two's-complement numbers.
\<close>

section \<open>The decimal grammar\<close>

text \<open>\<open>/^-?\d+(\.\d+)?$/\<close>\<close>

definition DECIMAL_STRING_PATTERN :: "string \<Rightarrow> bool" where
  "DECIMAL_STRING_PATTERN s \<longleftrightarrow>
     (let u = (if startsWith s ''-'' then tl s else s); r = dropWhile is_digit u
      in takeWhile is_digit u \<noteq> []
         \<and> (r = [] \<or> (hd r = CHR ''.'' \<and> tl r \<noteq> [] \<and> list_all is_digit (tl r))))"

record DecimalParts =
  dp_negative :: bool
  dp_intDigits :: string
  dp_fracDigits :: string

definition parseDecimal :: "string \<Rightarrow> DecimalParts option" where
  "parseDecimal operand =
     (if \<not> DECIMAL_STRING_PATTERN operand then None
      else let negative = startsWith operand ''-'';
               unsigned = (if negative then tl operand else operand)
           in Some \<lparr>dp_negative = negative,
                    dp_intDigits = takeWhile (\<lambda>c. c \<noteq> CHR ''.'') unsigned,
                    dp_fracDigits = tl (dropWhile (\<lambda>c. c \<noteq> CHR ''.'') unsigned)\<rparr>)"

definition scaled :: "DecimalParts \<Rightarrow> nat \<Rightarrow> int" where
  "scaled parts scale =
     (let n = int (nat_of_digits (dp_intDigits parts @ padEnd scale CHR ''0'' (dp_fracDigits parts)))
      in if dp_negative parts then - n else n)"

definition alignedPair :: "string \<Rightarrow> string \<Rightarrow> (int \<times> int) option" where
  "alignedPair left right =
     (case (parseDecimal left, parseDecimal right) of
        (Some a, Some b) \<Rightarrow>
          (let scale = max (length (dp_fracDigits a)) (length (dp_fracDigits b))
           in Some (scaled a scale, scaled b scale))
      | _ \<Rightarrow> None)"

definition compareDecimalExact :: "string \<Rightarrow> string \<Rightarrow> int option" where
  "compareDecimalExact left right =
     (case alignedPair left right of
        None \<Rightarrow> None
      | Some (a, b) \<Rightarrow> Some (if a < b then -1 else if a > b then 1 else 0))"

definition withinAbsolute :: "string \<Rightarrow> string \<Rightarrow> string \<Rightarrow> bool option" where
  "withinAbsolute observed expected tolerance =
     (case (parseDecimal observed, parseDecimal expected, parseDecimal tolerance) of
        (Some a, Some b, Some t) \<Rightarrow>
          (let scale = max (max (length (dp_fracDigits a)) (length (dp_fracDigits b))) (length (dp_fracDigits t))
           in Some (\<bar>scaled a scale - scaled b scale\<bar> \<le> \<bar>scaled t scale\<bar>))
      | _ \<Rightarrow> None)"

definition withinRelative :: "string \<Rightarrow> string \<Rightarrow> string \<Rightarrow> bool option" where
  "withinRelative observed expected tolerance =
     (case (parseDecimal observed, parseDecimal expected, parseDecimal tolerance) of
        (Some a, Some b, Some t) \<Rightarrow>
          (let scale = max (length (dp_fracDigits a)) (length (dp_fracDigits b));
               toleranceScale = length (dp_fracDigits t);
               difference = \<bar>scaled a scale - scaled b scale\<bar> * 10 ^ toleranceScale;
               bound = \<bar>scaled b scale\<bar> * \<bar>scaled t toleranceScale\<bar>
           in Some (difference \<le> bound))
      | _ \<Rightarrow> None)"

section \<open>Words\<close>

definition is_hex :: "char \<Rightarrow> bool" where
  "is_hex c \<longleftrightarrow> is_digit c \<or> (97::nat) \<le> of_char c \<and> (of_char c :: nat) \<le> 102"

definition hex_nibble :: "char \<Rightarrow> nat" where
  "hex_nibble c = (if is_digit c then digit_val c else of_char c - 87)"

definition hex_value :: "string \<Rightarrow> nat" where
  "hex_value s = foldl (\<lambda>a c. 16 * a + hex_nibble c) 0 s"

text \<open>\<open>/^0x[0-9a-f]{n}$/\<close>\<close>

definition hex_string :: "nat \<Rightarrow> string \<Rightarrow> bool" where
  "hex_string n s \<longleftrightarrow> startsWith s ''0x'' \<and> length s = n + 2 \<and> list_all is_hex (drop 2 s)"

abbreviation HEX_WORD :: "string \<Rightarrow> bool" where
  "HEX_WORD \<equiv> hex_string 64"

definition decodeUint256 :: "string \<Rightarrow> string option" where
  "decodeUint256 word = (if \<not> HEX_WORD word then None else Some (dec (hex_value (drop 2 word))))"

definition decodeInt256 :: "string \<Rightarrow> string option" where
  "decodeInt256 word =
     (if \<not> HEX_WORD word then None
      else let raw = int (hex_value (drop 2 word)); limit = 2 ^ 255
           in Some (dec_int (if raw \<ge> limit then raw - 2 ^ 256 else raw)))"

definition formatUint :: "nat \<Rightarrow> string" where
  "formatUint value = dec value"

section \<open>The value of a decimal string\<close>

definition parts_value :: "DecimalParts \<Rightarrow> rat" where
  "parts_value p =
     (if dp_negative p then -1 else 1)
     * of_nat (nat_of_digits (dp_intDigits p @ dp_fracDigits p)) / 10 ^ length (dp_fracDigits p)"

definition dec_value :: "string \<Rightarrow> rat option" where
  "dec_value s = map_option parts_value (parseDecimal s)"

lemma nat_of_digits_zeros: "nat_of_digits (s @ replicate k CHR ''0'') = nat_of_digits s * 10 ^ k"
proof -
  have "nat_of_digits (replicate k CHR ''0'') = 0" by (induction k) (simp_all add: digit_val_def)
  then show ?thesis by (simp add: nat_of_digits_append)
qed

lemma scaled_value:
  assumes "length (dp_fracDigits p) \<le> n"
  shows "rat_of_int (scaled p n) = parts_value p * 10 ^ n"
proof -
  let ?f = "length (dp_fracDigits p)"
  have "nat_of_digits (dp_intDigits p @ padEnd n CHR ''0'' (dp_fracDigits p))
    = nat_of_digits (dp_intDigits p @ dp_fracDigits p) * 10 ^ (n - ?f)"
    using nat_of_digits_zeros [of "dp_intDigits p @ dp_fracDigits p" "n - ?f"] by (simp add: padEnd_def)
  moreover have "(10::rat) ^ n = 10 ^ (n - ?f) * 10 ^ ?f" using assms by (simp flip: power_add)
  ultimately show ?thesis by (simp add: scaled_def parts_value_def)
qed

lemma scaled_less_iff:
  assumes "length (dp_fracDigits a) \<le> n" and "length (dp_fracDigits b) \<le> n"
  shows "scaled a n < scaled b n \<longleftrightarrow> parts_value a < parts_value b"
proof -
  have "scaled a n < scaled b n \<longleftrightarrow> rat_of_int (scaled a n) < rat_of_int (scaled b n)" by simp
  also have "\<dots> \<longleftrightarrow> parts_value a * 10 ^ n < parts_value b * 10 ^ n"
    by (simp only: scaled_value [OF assms(1)] scaled_value [OF assms(2)])
  finally show ?thesis by simp
qed

text \<open>Integers printed in decimal read back, with the sign.\<close>

lemma takeWhile_dropWhile_digits:
  assumes "list_all is_digit s"
  shows "takeWhile is_digit s = s" "dropWhile is_digit s = []"
    "takeWhile (\<lambda>c. c \<noteq> CHR ''.'') s = s" "dropWhile (\<lambda>c. c \<noteq> CHR ''.'') s = []"
proof -
  have "c \<noteq> CHR ''.''" if "c \<in> set s" for c
    using assms that by (auto simp: list_all_iff)
  then show "takeWhile is_digit s = s" "dropWhile is_digit s = []"
    "takeWhile (\<lambda>c. c \<noteq> CHR ''.'') s = s" "dropWhile (\<lambda>c. c \<noteq> CHR ''.'') s = []"
    using assms by (auto simp: list_all_iff takeWhile_eq_all_conv dropWhile_eq_Nil_conv)
qed

lemma parseDecimal_dec_int:
  "parseDecimal (dec_int i) = Some \<lparr>dp_negative = i < 0, dp_intDigits = dec (nat \<bar>i\<bar>), dp_fracDigits = []\<rparr>"
proof -
  have dig: "list_all is_digit (dec n)" for n using dec_digits [of n] by (simp add: list_all_iff)
  have nominus: "take (Suc 0) (dec n) \<noteq> ''-''" for n
  proof (cases "dec n")
    case (Cons c cs)
    then show ?thesis using dec_digits [of n] by auto
  qed simp
  show ?thesis
    by (auto simp: parseDecimal_def DECIMAL_STRING_PATTERN_def dec_int_def startsWith_def Let_def
        takeWhile_dropWhile_digits [OF dig] nominus dest: bspec [OF dec_digits])
qed

lemma dec_value_dec_int [simp]: "dec_value (dec_int i) = Some (of_int i)"
  by (simp add: dec_value_def parseDecimal_dec_int parts_value_def)

lemma dec_value_dec [simp]: "dec_value (dec n) = Some (of_nat n)"
  using dec_value_dec_int [of "int n"] by (simp add: dec_int_def)


lemma dec_value_Some_iff: "dec_value s = Some v \<longleftrightarrow> (\<exists>p. parseDecimal s = Some p \<and> v = parts_value p)"
  by (auto simp: dec_value_def)

lemma hex_value_less: "list_all is_hex s \<Longrightarrow> hex_value s < 16 ^ length s"
proof (induction s rule: rev_induct)
  case Nil
  then show ?case by (simp add: hex_value_def)
next
  case (snoc c s)
  then have "hex_value s < 16 ^ length s" "is_hex c" by auto
  moreover have "hex_nibble c < 16" using \<open>is_hex c\<close> by (auto simp: is_hex_def hex_nibble_def digit_val_def)
  ultimately have "16 * hex_value s + hex_nibble c < 16 * 16 ^ length s"
    by linarith
  then show ?case by (simp add: hex_value_def)
qed

section \<open>Properties\<close>

text \<open>
  C36: The scaled-integer routines are exact. On decimal strings, \<open>compareDecimalExact\<close> gives the sign
  of the difference of the rational values, \<open>withinAbsolute\<close> decides |a - b| <= |t| and
  \<open>withinRelative\<close> decides |a - b| <= |b| * |t|, with no rounding; a non-decimal operand gives
  \<open>undefined\<close>. The code takes the absolute value of the tolerance t; its doc comments have t itself, which is the same
  bound for the tolerances that are not negative.
\<close>

theorem decimal_routines_exact:
  "compareDecimalExact s t =
     (case (dec_value s, dec_value t) of
        (Some a, Some b) \<Rightarrow> Some (if a < b then -1 else if b < a then 1 else 0) | _ \<Rightarrow> None)
   \<and> withinAbsolute s t u =
     (case (dec_value s, dec_value t, dec_value u) of
        (Some a, Some b, Some c) \<Rightarrow> Some (\<bar>a - b\<bar> \<le> \<bar>c\<bar>) | _ \<Rightarrow> None)
   \<and> withinRelative s t u =
     (case (dec_value s, dec_value t, dec_value u) of
        (Some a, Some b, Some c) \<Rightarrow> Some (\<bar>a - b\<bar> \<le> \<bar>b\<bar> * \<bar>c\<bar>) | _ \<Rightarrow> None)"
proof (intro conjI)
  show "compareDecimalExact s t =
     (case (dec_value s, dec_value t) of
        (Some a, Some b) \<Rightarrow> Some (if a < b then -1 else if b < a then 1 else 0) | _ \<Rightarrow> None)"
    by (auto simp: compareDecimalExact_def alignedPair_def dec_value_def scaled_less_iff Let_def split: option.splits)
  have abs_iff: "\<bar>scaled a n - scaled b n\<bar> \<le> \<bar>scaled c n\<bar> \<longleftrightarrow> \<bar>parts_value a - parts_value b\<bar> \<le> \<bar>parts_value c\<bar>"
    if "length (dp_fracDigits a) \<le> n" "length (dp_fracDigits b) \<le> n" "length (dp_fracDigits c) \<le> n" for a b c n
  proof -
    have "\<bar>scaled a n - scaled b n\<bar> \<le> \<bar>scaled c n\<bar> \<longleftrightarrow>
      \<bar>rat_of_int (scaled a n) - rat_of_int (scaled b n)\<bar> \<le> \<bar>rat_of_int (scaled c n)\<bar>"
      by (metis of_int_abs of_int_diff of_int_le_iff)
    also have "\<dots> \<longleftrightarrow> \<bar>(parts_value a - parts_value b) * 10 ^ n\<bar> \<le> \<bar>parts_value c * 10 ^ n\<bar>"
      by (simp add: scaled_value that left_diff_distrib)
    finally show ?thesis by (simp add: abs_mult)
  qed
  show "withinAbsolute s t u =
     (case (dec_value s, dec_value t, dec_value u) of
        (Some a, Some b, Some c) \<Rightarrow> Some (\<bar>a - b\<bar> \<le> \<bar>c\<bar>) | _ \<Rightarrow> None)"
    by (auto simp: withinAbsolute_def dec_value_def abs_iff Let_def split: option.splits)
  have rel_iff: "\<bar>scaled a n - scaled b n\<bar> * 10 ^ k \<le> \<bar>scaled b n\<bar> * \<bar>scaled c k\<bar>
      \<longleftrightarrow> \<bar>parts_value a - parts_value b\<bar> \<le> \<bar>parts_value b\<bar> * \<bar>parts_value c\<bar>"
    if "length (dp_fracDigits a) \<le> n" "length (dp_fracDigits b) \<le> n" "length (dp_fracDigits c) \<le> k" for a b c n k
  proof -
    have "\<bar>scaled a n - scaled b n\<bar> * 10 ^ k \<le> \<bar>scaled b n\<bar> * \<bar>scaled c k\<bar> \<longleftrightarrow>
      rat_of_int (\<bar>scaled a n - scaled b n\<bar> * 10 ^ k) \<le> rat_of_int (\<bar>scaled b n\<bar> * \<bar>scaled c k\<bar>)"
      by (simp only: of_int_le_iff)
    also have "\<dots> \<longleftrightarrow> \<bar>(parts_value a - parts_value b) * 10 ^ n\<bar> * 10 ^ k \<le> \<bar>parts_value b * 10 ^ n\<bar> * \<bar>parts_value c * 10 ^ k\<bar>"
      by (simp add: scaled_value that left_diff_distrib)
    also have "\<dots> \<longleftrightarrow> \<bar>parts_value a - parts_value b\<bar> * (10 ^ n * 10 ^ k) \<le> (\<bar>parts_value b\<bar> * \<bar>parts_value c\<bar>) * (10 ^ n * 10 ^ k)"
      by (simp add: abs_mult mult.assoc mult.left_commute)
    finally show ?thesis by simp
  qed
  show "withinRelative s t u =
     (case (dec_value s, dec_value t, dec_value u) of
        (Some a, Some b, Some c) \<Rightarrow> Some (\<bar>a - b\<bar> \<le> \<bar>b\<bar> * \<bar>c\<bar>) | _ \<Rightarrow> None)"
    by (auto simp: withinRelative_def dec_value_def rel_iff Let_def split: option.splits)
qed

text \<open>
  A 32-byte word decodes as the unsigned and as the two's-complement reading of one 256-bit
  machine word, and anything that is not a word decodes to nothing.
\<close>

theorem decode256_words:
  "case decodeUint256 w of
     None \<Rightarrow> \<not> HEX_WORD w \<and> decodeInt256 w = None
   | Some u \<Rightarrow>
       (let x = of_nat (hex_value (drop 2 w)) :: 256 word
        in unat x = hex_value (drop 2 w) \<and> dec_value u = Some (of_nat (unat x))
           \<and> map_option dec_value (decodeInt256 w) = Some (Some (of_int (sint x))))"
proof (cases "HEX_WORD w")
  case False
  then show ?thesis by (simp add: decodeUint256_def decodeInt256_def)
next
  case True
  define n where "n = hex_value (drop 2 w)"
  have "n < 16 ^ 64" using True hex_value_less [of "drop 2 w"] by (simp add: n_def hex_string_def)
  then have n: "n < 2 ^ 256" by simp
  have unat: "unat (of_nat n :: 256 word) = n" using n by (simp add: unat_of_nat)
  have sint: "sint (of_nat n :: 256 word) = (if int n \<ge> 2 ^ 255 then int n - 2 ^ 256 else int n)"
  proof -
    have mod: "(int n + 2 ^ 255) mod 2 ^ 256 = (if int n \<ge> 2 ^ 255 then int n - 2 ^ 255 else int n + 2 ^ 255)"
    proof (cases "int n \<ge> 2 ^ 255")
      case True
      have "(int n + 2 ^ 255) mod 2 ^ 256 = (int n + 2 ^ 255 - 2 ^ 256) mod 2 ^ 256" by (simp only: minus_mod_self2)
      also have "\<dots> = int n + 2 ^ 255 - 2 ^ 256" using True n by (intro mod_pos_pos_trivial) simp_all
      finally show ?thesis using True by simp
    next
      case False
      then show ?thesis by (simp add: mod_pos_pos_trivial)
    qed
    have "sint (of_nat n :: 256 word) = (int n + 2 ^ 255) mod 2 ^ 256 - 2 ^ 255"
      using n by (simp add: sint_uint uint_nat unat signed_take_bit_eq_take_bit_shift take_bit_eq_mod)
    then show ?thesis unfolding mod by simp
  qed
  have "dec_value (dec n) = Some (of_nat (unat (of_nat n :: 256 word)))" by (simp add: unat)
  moreover have "decodeInt256 w = Some (dec_int (sint (of_nat n :: 256 word)))"
    using True by (simp only: decodeInt256_def sint Let_def n_def [symmetric] if_False simp_thms)
  ultimately show ?thesis using True by (simp add: decodeUint256_def Let_def unat del: of_nat_unat flip: n_def)
qed

end
