(* ===== verification/Verdict_Rule.thy ===== *)
theory Verdict_Rule
  imports Exact_Decimal
begin

text \<open>
  Verdict rules of the evaluation profiles (task-execution/profiles/src/evaluation-spec:
  verdict-rule.ts, verdict-consistency.ts, composite.ts, measurements.ts, unscorable.ts): a closed
  declarative vocabulary over delivered measurements, evaluated to pass, fail or inconclusive.

  \<^item> \<open>scalar\<close> is a measurement or threshold value; a number is its \<open>Number::toString\<close> text;
  \<^item> \<open>evaluateInner\<close> short-circuits as the code does, and a missing measurement is an exception;
  \<^item> \<open>checkVerdictConsistency\<close> recomputes a delivered verdict.

  The theorems: thresholds on decimals are decided by the exact values; evaluation throws only for
  an undelivered measurement; negation is an involution and exchanges \<open>all\<close> and \<open>any\<close>; and exactly
  which deliveries the consistency check accepts.
\<close>

section \<open>Vocabulary\<close>

datatype comparison_op = Eq | Ne | Lt | Lte | Gt | Gte

datatype scalar = SStr string | SNum string | SBool bool | SNull

datatype verdict_rule =
    Threshold string comparison_op scalar
  | All "verdict_rule list"
  | Any "verdict_rule list"
  | Not verdict_rule
  | InconclusiveWhen verdict_rule string
  | PassRule
  | FailRule

definition ORDERED_OPS :: "comparison_op list" where
  "ORDERED_OPS = [Lt, Lte, Gt, Gte]"

text \<open>The parse-time refinement of a threshold: an ordered operator needs a decimal string.\<close>

fun threshold_ok :: "comparison_op \<Rightarrow> scalar \<Rightarrow> bool" where
  "threshold_ok op (SStr s) = (op \<in> set ORDERED_OPS \<longrightarrow> DECIMAL_STRING_PATTERN s)"
| "threshold_ok op _ = True"

fun VerdictRuleSchema :: "verdict_rule \<Rightarrow> bool" where
  "VerdictRuleSchema (Threshold m op v) = threshold_ok op v"
| "VerdictRuleSchema (All rs) = list_all VerdictRuleSchema rs"
| "VerdictRuleSchema (Any rs) = list_all VerdictRuleSchema rs"
| "VerdictRuleSchema (Not r) = VerdictRuleSchema r"
| "VerdictRuleSchema (InconclusiveWhen r c) = VerdictRuleSchema r"
| "VerdictRuleSchema PassRule = True"
| "VerdictRuleSchema FailRule = True"

type_synonym measurement_map = "(string \<times> scalar) list"

datatype verdict = Pass | Fail | Inconclusive

record verdict_outcome =
  vo_verdict :: verdict
  vo_inconclusiveClass :: "string option"

datatype inner_result = Bool bool | InconclusiveAs string

datatype profiles_error = MeasurementMissing string

section \<open>Evaluation\<close>

definition lookupMeasurement :: "measurement_map \<Rightarrow> string \<Rightarrow> (profiles_error, scalar) result" where
  "lookupMeasurement measurements name =
     (case map_of measurements name of None \<Rightarrow> Inl (MeasurementMissing name) | Some v \<Rightarrow> Inr v)"

fun toDecimalParts :: "scalar \<Rightarrow> DecimalParts option" where
  "toDecimalParts (SNum text) = parseDecimal text"
| "toDecimalParts (SStr text) = parseDecimal text"
| "toDecimalParts _ = None"

definition compareDecimal :: "scalar \<Rightarrow> scalar \<Rightarrow> int option" where
  "compareDecimal actual v =
     (case (toDecimalParts actual, toDecimalParts v) of
        (Some left, Some right) \<Rightarrow>
          (let scale = max (length (dp_fracDigits left)) (length (dp_fracDigits right));
               leftScaled = scaled left scale; rightScaled = scaled right scale
           in Some (if leftScaled < rightScaled then -1 else if leftScaled > rightScaled then 1 else 0))
      | _ \<Rightarrow> None)"

definition compare_scalar :: "comparison_op \<Rightarrow> scalar \<Rightarrow> scalar \<Rightarrow> bool" where
  "compare_scalar op actual v =
     (case (op, compareDecimal actual v) of
        (Eq, Some d) \<Rightarrow> d = 0
      | (Eq, None) \<Rightarrow> actual = v
      | (Ne, Some d) \<Rightarrow> d \<noteq> 0
      | (Ne, None) \<Rightarrow> actual \<noteq> v
      | (Lt, Some d) \<Rightarrow> d < 0
      | (Lte, Some d) \<Rightarrow> d \<le> 0
      | (Gt, Some d) \<Rightarrow> d > 0
      | (Gte, Some d) \<Rightarrow> d \<ge> 0
      | (_, None) \<Rightarrow> False)"

fun evaluateInner :: "verdict_rule \<Rightarrow> measurement_map \<Rightarrow> (profiles_error, inner_result) result"
  and evaluateAll :: "verdict_rule list \<Rightarrow> measurement_map \<Rightarrow> (profiles_error, inner_result) result"
  and evaluateAny :: "verdict_rule list \<Rightarrow> measurement_map \<Rightarrow> (profiles_error, inner_result) result" where
  "evaluateInner PassRule ms = Inr (Bool True)"
| "evaluateInner FailRule ms = Inr (Bool False)"
| "evaluateInner (Not r) ms =
     bind_result (evaluateInner r ms)
       (\<lambda>inner. case inner of InconclusiveAs c \<Rightarrow> Inr inner | Bool b \<Rightarrow> Inr (Bool (\<not> b)))"
| "evaluateInner (Threshold m op v) ms =
     bind_result (lookupMeasurement ms m) (\<lambda>actual. Inr (Bool (compare_scalar op actual v)))"
| "evaluateInner (All rs) ms = evaluateAll rs ms"
| "evaluateInner (Any rs) ms = evaluateAny rs ms"
| "evaluateInner (InconclusiveWhen r c) ms =
     bind_result (evaluateInner r ms)
       (\<lambda>predicate. case predicate of
          InconclusiveAs d \<Rightarrow> Inr predicate
        | Bool b \<Rightarrow> if b then Inr (InconclusiveAs c) else Inr (Bool True))"
| "evaluateAll [] ms = Inr (Bool True)"
| "evaluateAll (r # rs) ms =
     bind_result (evaluateInner r ms)
       (\<lambda>inner. case inner of
          InconclusiveAs c \<Rightarrow> Inr inner
        | Bool b \<Rightarrow> if \<not> b then Inr (Bool False) else evaluateAll rs ms)"
| "evaluateAny [] ms = Inr (Bool False)"
| "evaluateAny (r # rs) ms =
     bind_result (evaluateInner r ms)
       (\<lambda>inner. case inner of
          InconclusiveAs c \<Rightarrow> Inr inner
        | Bool b \<Rightarrow> if b then Inr (Bool True) else evaluateAny rs ms)"

fun outcome_of :: "inner_result \<Rightarrow> verdict_outcome" where
  "outcome_of (InconclusiveAs c) = \<lparr>vo_verdict = Inconclusive, vo_inconclusiveClass = Some c\<rparr>"
| "outcome_of (Bool b) = \<lparr>vo_verdict = (if b then Pass else Fail), vo_inconclusiveClass = None\<rparr>"

definition evaluateVerdictRule :: "verdict_rule \<Rightarrow> measurement_map \<Rightarrow> (profiles_error, verdict_outcome) result" where
  "evaluateVerdictRule rule measurements = map_sum id outcome_of (evaluateInner rule measurements)"

section \<open>Consistency, coverage and composites\<close>

datatype unscorable_disposition = RetryableInfrastructure | RecordedInconclusive

record unscorable_class =
  u_name :: string
  u_disposition :: unscorable_disposition

record measurement_decl =
  m_name :: string
  m_boolean :: bool
  m_required :: bool

text \<open>The fields of an EvaluationSpec that the checks read.\<close>

record evaluation_spec =
  es_verdictRule :: verdict_rule
  es_unscorable :: "unscorable_class list option"
  es_measurements :: "measurement_decl list"

datatype consistency = Consistent | UndeclaredClass string | BareInconclusive | VerdictMismatch verdict verdict

definition checkVerdictConsistency ::
  "evaluation_spec \<Rightarrow> verdict_outcome \<Rightarrow> measurement_map \<Rightarrow> string option \<Rightarrow> (profiles_error, consistency) result" where
  "checkVerdictConsistency spec delivered measurements declaredUnscorableClass =
     bind_result (evaluateVerdictRule (es_verdictRule spec) measurements) (\<lambda>recomputed.
       if vo_verdict delivered = Inconclusive then
         if vo_verdict recomputed = Inconclusive then Inr Consistent
         else case declaredUnscorableClass of
           Some cls \<Rightarrow>
             (let unscorable = (case es_unscorable spec of None \<Rightarrow> [] | Some u \<Rightarrow> u)
              in case find (\<lambda>entry. u_name entry = cls) unscorable of
                   Some declared \<Rightarrow>
                     if u_disposition declared = RecordedInconclusive then Inr Consistent
                     else Inr (UndeclaredClass cls)
                 | None \<Rightarrow> Inr (UndeclaredClass cls))
         | None \<Rightarrow> Inr BareInconclusive
       else if vo_verdict delivered \<noteq> vo_verdict recomputed
         then Inr (VerdictMismatch (vo_verdict delivered) (vo_verdict recomputed))
       else Inr Consistent)"

definition requiredMeasurementNames :: "evaluation_spec \<Rightarrow> string list" where
  "requiredMeasurementNames spec = map m_name (filter m_required (es_measurements spec))"

definition checkMeasurementCoverage :: "evaluation_spec \<Rightarrow> measurement_map \<Rightarrow> (string list, unit) result" where
  "checkMeasurementCoverage spec delivered =
     (let missing = filter (\<lambda>name. map_of delivered name = None) (requiredMeasurementNames spec)
      in if missing = [] then Inr () else Inl missing)"

definition COMPOSITE_MAX_DEPTH :: nat where
  "COMPOSITE_MAX_DEPTH = 2"

definition COMPOSITE_MAX_FANOUT :: nat where
  "COMPOSITE_MAX_FANOUT = 32"

datatype bounds_error = FanoutExceeded nat | DepthExceeded nat

definition checkCompositeBounds :: "'ref list \<Rightarrow> ('ref \<Rightarrow> nat) \<Rightarrow> (bounds_error, unit) result" where
  "checkCompositeBounds subSpecs resolveDepth =
     (if length subSpecs > COMPOSITE_MAX_FANOUT then Inl (FanoutExceeded (length subSpecs))
      else let depth = 1 + foldl (\<lambda>mx sub. max mx (resolveDepth sub)) 0 subSpecs
           in if depth > COMPOSITE_MAX_DEPTH then Inl (DepthExceeded depth) else Inr ())"

datatype sub_spec_outcome = SubInfrastructure | SubVerdict verdict

datatype propagation = PropagateInfrastructure | PropagateVerdict

definition compositePropagation :: "sub_spec_outcome list \<Rightarrow> propagation" where
  "compositePropagation subOutcomes =
     (if list_ex (\<lambda>sub. sub = SubInfrastructure) subOutcomes then PropagateInfrastructure else PropagateVerdict)"


section \<open>Thresholds\<close>

fun scalar_value :: "scalar \<Rightarrow> rat option" where
  "scalar_value (SNum t) = dec_value t"
| "scalar_value (SStr t) = dec_value t"
| "scalar_value _ = None"

fun op_holds :: "comparison_op \<Rightarrow> rat \<Rightarrow> rat \<Rightarrow> bool" where
  "op_holds Eq x y = (x = y)"
| "op_holds Ne x y = (x \<noteq> y)"
| "op_holds Lt x y = (x < y)"
| "op_holds Lte x y = (x \<le> y)"
| "op_holds Gt x y = (x > y)"
| "op_holds Gte x y = (x \<ge> y)"

lemma scalar_value_parts: "scalar_value v = map_option parts_value (toDecimalParts v)"
  by (cases v) (simp_all add: dec_value_def)

lemma compareDecimal_value:
  "compareDecimal a v =
     (case (scalar_value a, scalar_value v) of
        (Some x, Some y) \<Rightarrow> Some (if x < y then -1 else if x > y then 1 else 0) | _ \<Rightarrow> None)"
  by (auto simp: compareDecimal_def scalar_value_parts scaled_less_iff Let_def split: option.splits)

text \<open>A text with an exponent is outside the decimal grammar.\<close>

lemma exponent_not_decimal: "CHR ''e'' \<in> set t \<Longrightarrow> parseDecimal t = None"
proof -
  assume e: "CHR ''e'' \<in> set t"
  have "\<not> DECIMAL_STRING_PATTERN t"
  proof
    assume pat: "DECIMAL_STRING_PATTERN t"
    define u where "u = (if startsWith t ''-'' then tl t else t)"
    have "CHR ''e'' \<in> set u" using e by (cases t) (auto simp: u_def startsWith_def)
    then have mem: "CHR ''e'' \<in> set (takeWhile is_digit u) \<or> CHR ''e'' \<in> set (dropWhile is_digit u)"
      by (metis Un_iff set_append takeWhile_dropWhile_id)
    have "CHR ''e'' \<notin> set (takeWhile is_digit u)" by (auto dest: set_takeWhileD)
    define r where "r = dropWhile is_digit u"
    with mem \<open>CHR ''e'' \<notin> set (takeWhile is_digit u)\<close> have "CHR ''e'' \<in> set r" by blast
    moreover have "r = [] \<or> (hd r = CHR ''.'' \<and> tl r \<noteq> [] \<and> list_all is_digit (tl r))"
      using pat unfolding DECIMAL_STRING_PATTERN_def Let_def u_def [symmetric] r_def [symmetric] by blast
    ultimately show False by (cases r) (auto simp: list_all_iff)
  qed
  then show ?thesis by (simp add: parseDecimal_def)
qed

section \<open>Exceptions and duality\<close>

fun rule_measurements :: "verdict_rule \<Rightarrow> string set" where
  "rule_measurements (Threshold m op v) = {m}"
| "rule_measurements (All rs) = (\<Union>r \<in> set rs. rule_measurements r)"
| "rule_measurements (Any rs) = (\<Union>r \<in> set rs. rule_measurements r)"
| "rule_measurements (Not r) = rule_measurements r"
| "rule_measurements (InconclusiveWhen r c) = rule_measurements r"
| "rule_measurements PassRule = {}"
| "rule_measurements FailRule = {}"

definition missing_in :: "measurement_map \<Rightarrow> string set \<Rightarrow> (profiles_error, 'a) result \<Rightarrow> bool" where
  "missing_in ms names res \<longleftrightarrow>
     (case res of Inr _ \<Rightarrow> True | Inl (MeasurementMissing n) \<Rightarrow> n \<in> names \<and> map_of ms n = None)"

lemma missing_in_simps [simp]:
  "missing_in ms names (Inr x)"
  "missing_in ms names (Inl (MeasurementMissing n)) \<longleftrightarrow> n \<in> names \<and> map_of ms n = None"
  by (simp_all add: missing_in_def)

lemma missing_in_bind:
  assumes "missing_in ms names r" and "\<And>x. r = Inr x \<Longrightarrow> missing_in ms names (f x)"
  shows "missing_in ms names (bind_result r f)"
  using assms by (cases r) (auto simp: missing_in_def split: profiles_error.splits)

lemma missing_in_mono: "missing_in ms names r \<Longrightarrow> names \<subseteq> names' \<Longrightarrow> missing_in ms names' r"
  by (auto simp: missing_in_def split: sum.splits profiles_error.splits)

lemma evaluate_missing:
  "missing_in ms (rule_measurements r) (evaluateInner r ms)"
  "missing_in ms (\<Union>r \<in> set rs. rule_measurements r) (evaluateAll rs ms)"
  "missing_in ms (\<Union>r \<in> set rs. rule_measurements r) (evaluateAny rs ms)"
proof (induction r ms and rs ms and rs ms rule: evaluateInner_evaluateAll_evaluateAny.induct)
  case (4 m op v ms)
  then show ?case by (auto simp: lookupMeasurement_def split: option.splits)
next
  case (9 r rs ms)
  show ?case unfolding evaluateAll.simps
    by (rule missing_in_bind) (use "9.IH"(1) "9.IH"(2) [of "Bool True" True] in \<open>auto split: inner_result.splits elim: missing_in_mono\<close>)
next
  case (11 r rs ms)
  show ?case unfolding evaluateAny.simps
    by (rule missing_in_bind) (use "11.IH"(1) "11.IH"(2) [of "Bool False" False] in \<open>auto split: inner_result.splits elim: missing_in_mono\<close>)
qed (auto intro!: missing_in_bind split: inner_result.splits)

lemma not_not: "evaluateInner (Not (Not r)) ms = evaluateInner r ms"
  by (cases "evaluateInner r ms") (auto split: inner_result.splits)

lemma not_all: "evaluateInner (Not (All rs)) ms = evaluateInner (Any (map Not rs)) ms"
proof -
  have "bind_result (evaluateAll rs ms)
      (\<lambda>inner. case inner of InconclusiveAs c \<Rightarrow> Inr inner | Bool b \<Rightarrow> Inr (Bool (\<not> b)))
    = evaluateAny (map Not rs) ms"
  proof (induction rs)
    case (Cons r rs)
    then show ?case by (cases "evaluateInner r ms") (auto split: inner_result.splits)
  qed simp
  then show ?thesis by simp
qed

lemma foldl_max: "foldl (\<lambda>mx sub. max mx (f sub)) (k::nat) xs \<le> n \<longleftrightarrow> k \<le> n \<and> (\<forall>x \<in> set xs. f x \<le> n)"
  by (induction xs arbitrary: k) auto

section \<open>Properties\<close>

text \<open>
  Thresholds are exact. Every operator on operands with a decimal value (numbers or decimal
  strings, in any mixture and at any scale) is decided by their rational values; on other operands
  equality is strict equality and every ordered operator is false.
\<close>

theorem compare_scalar_exact:
  "compare_scalar op actual v =
     (case (scalar_value actual, scalar_value v) of
        (Some x, Some y) \<Rightarrow> op_holds op x y
      | _ \<Rightarrow> (case op of Eq \<Rightarrow> actual = v | Ne \<Rightarrow> actual \<noteq> v | _ \<Rightarrow> False))"
  by (cases op) (auto simp: compare_scalar_def compareDecimal_value split: option.splits)

text \<open>
  A finite number that JavaScript prints with an exponent (below 1e-6 or from 1e21 on) is
  outside the decimal grammar, so every ordered threshold on it is false, in both directions.
\<close>

theorem exponent_number_incomparable:
  assumes "CHR ''e'' \<in> set t" and "op \<in> set ORDERED_OPS"
  shows "\<not> compare_scalar op (SNum t) v \<and> \<not> compare_scalar op v (SNum t)"
proof -
  have none: "scalar_value (SNum t) = None" using exponent_not_decimal [OF assms(1)] by (simp add: dec_value_def)
  have "compareDecimal (SNum t) v = None" "compareDecimal v (SNum t) = None"
    by (simp_all only: compareDecimal_value none prod.case option.case) (simp split: option.split)
  with assms(2) show ?thesis by (auto simp: compare_scalar_def ORDERED_OPS_def)
qed

theorem exponent_number_incomparable_witness:
  "\<not> compare_scalar Gt (SNum ''1e+21'') (SNum ''5'') \<and> \<not> compare_scalar Gt (SNum ''5'') (SNum ''1e+21'')"
  using exponent_number_incomparable [of "''1e+21''" Gt "SNum ''5''"] by (simp add: ORDERED_OPS_def)

text \<open>
  Evaluation throws only for a measurement that the rule names and the delivery lacks; when
  every named measurement is delivered it returns a verdict.
\<close>

theorem evaluateVerdictRule_throws_only_missing:
  "case evaluateVerdictRule rule ms of
     Inl (MeasurementMissing n) \<Rightarrow> n \<in> rule_measurements rule \<and> map_of ms n = None
   | Inr outcome \<Rightarrow> (vo_verdict outcome = Inconclusive) = (vo_inconclusiveClass outcome \<noteq> None)"
proof (cases "evaluateInner rule ms")
  case (Inl e)
  then show ?thesis using evaluate_missing(1) [of ms rule]
    by (cases e) (simp add: evaluateVerdictRule_def)
next
  case (Inr inner)
  then show ?thesis by (cases inner) (simp_all add: evaluateVerdictRule_def)
qed

text \<open>
  Duality. Negation is an involution and turns \<open>all\<close> into \<open>any\<close> of the negations, with the same
  short-circuiting, the same inconclusive class and the same exception.
\<close>

theorem verdict_rule_duality:
  "evaluateVerdictRule (Not (Not r)) ms = evaluateVerdictRule r ms
   \<and> evaluateVerdictRule (Not (All rs)) ms = evaluateVerdictRule (Any (map Not rs)) ms"
  unfolding evaluateVerdictRule_def not_not not_all by simp

text \<open>
  C38: What the consistency check accepts. A delivered pass or fail is accepted exactly when it is
  the recomputed verdict, so a fail cannot be laundered into anything; a delivered inconclusive is
  accepted exactly when the recomputed verdict is inconclusive or the delivery cites a class whose
  first declaration in the spec is \<open>recorded-inconclusive\<close>.
\<close>

theorem checkVerdictConsistency_iff:
  assumes "evaluateVerdictRule (es_verdictRule spec) ms = Inr recomputed"
  shows "checkVerdictConsistency spec delivered ms cls = Inr Consistent \<longleftrightarrow>
    vo_verdict delivered = vo_verdict recomputed
    \<or> vo_verdict delivered = Inconclusive
      \<and> (\<exists>c u. cls = Some c \<and> find (\<lambda>e. u_name e = c) (case es_unscorable spec of None \<Rightarrow> [] | Some l \<Rightarrow> l) = Some u
            \<and> u_disposition u = RecordedInconclusive)"
  using assms by (auto simp: checkVerdictConsistency_def Let_def split: option.splits if_splits)

theorem checkVerdictConsistency_iff_witness:
  "checkVerdictConsistency
     \<lparr>es_verdictRule = Threshold ''s'' Gte (SStr ''0.5''), es_unscorable = None, es_measurements = []\<rparr>
     \<lparr>vo_verdict = Inconclusive, vo_inconclusiveClass = None\<rparr> [(''s'', SStr ''0.4'')] (Some ''x'') \<noteq> Inr Consistent"
proof -
  let ?spec = "\<lparr>es_verdictRule = Threshold ''s'' Gte (SStr ''0.5''), es_unscorable = None, es_measurements = []\<rparr>"
  have "evaluateVerdictRule (es_verdictRule ?spec) [(''s'', SStr ''0.4'')] = Inr \<lparr>vo_verdict = Fail, vo_inconclusiveClass = None\<rparr>"
    by code_simp
  from checkVerdictConsistency_iff [OF this] show ?thesis by simp
qed

text \<open>
  Composite bounds: a composite is within bounds exactly when it has at most 32 sub-specs, each
  of depth at most one, and one sub-spec on infrastructure makes the whole composite infrastructure.
\<close>

theorem composite_bounds_iff:
  "(checkCompositeBounds subs depth = Inr () \<longleftrightarrow> length subs \<le> 32 \<and> list_all (\<lambda>s. depth s \<le> 1) subs)
   \<and> (compositePropagation outs = PropagateInfrastructure \<longleftrightarrow> SubInfrastructure \<in> set outs)"
proof
  have "Suc (foldl (\<lambda>mx sub. max mx (depth sub)) 0 subs) \<le> 2 \<longleftrightarrow> list_all (\<lambda>s. depth s \<le> 1) subs"
    using foldl_max [of depth 0 subs 1] by (simp add: list_all_iff)
  then show "checkCompositeBounds subs depth = Inr () \<longleftrightarrow> length subs \<le> 32 \<and> list_all (\<lambda>s. depth s \<le> 1) subs"
    by (simp add: checkCompositeBounds_def COMPOSITE_MAX_FANOUT_def COMPOSITE_MAX_DEPTH_def Let_def flip: not_le)
  show "compositePropagation outs = PropagateInfrastructure \<longleftrightarrow> SubInfrastructure \<in> set outs"
    by (auto simp: compositePropagation_def list_ex_iff)
qed

end
