(* ===== verification/State_Predicate.thy ===== *)
theory State_Predicate
  imports Verdict_Rule
begin

text \<open>
  The vocabulary and the documents of the state-predicate evaluation family
  (task-execution/profiles/src/evaluation-spec/state-predicate: vocabulary.ts and observation.ts, and
  the block schema in family-blocks.ts): fourteen predicate kinds and one canonical chain observation.

  \<^item> the vocabulary is one datatype; a numeric comparison (cmp, value, tolerance) is a record;
  \<^item> the observation record carries the fields the evaluator reads; \<open>blocks\<close>, \<open>touchedState\<close>, the
    trace digest and the commitments are carried by the document and read by nobody here;
  \<^item> a zod schema is the predicate of its name. Namespaced extension keys of a block are not modelled.

  \<open>negative_tolerance_widens\<close>: the schema admits negative tolerances, whose absolute value the comparison uses.

  The evaluator and the theorems are in \<open>Predicate_Evaluation\<close>.
\<close>

section \<open>Vocabulary\<close>

datatype comparator = Cmp comparison_op | WithinAbs | WithinRel

datatype decode_field = Raw | Uint256 | Int256

datatype read_state = Baseline | PostReplay

datatype str_or_bool = VStr string | VBool bool

record numeric_cmp =
  n_cmp :: comparator
  n_value :: string
  n_tolerance :: "string option"

datatype abi_arg =
    ArgAddress string
  | ArgBool bool
  | ArgBytes string
  | ArgBytes32 string
  | ArgInt256 string
  | ArgString string
  | ArgUint256 string
  | ArgAddresses "string list"
  | ArgBytes32s "string list"
  | ArgUint256s "string list"

text \<open>\<open>AbiCall\<close> carries the \<open>digest.sha256\<close> of its \<open>abiRef\<close>, which the schema makes mandatory.\<close>

datatype call_target = EncodedCall string | AbiCall string string "abi_arg list"

datatype arg_filter =
    TopicFilter nat string
  | DataWordFilter string decode_field comparison_op string

record event_matcher =
  ev_source :: "string option"
  ev_topic0 :: string
  ev_argFilters :: "arg_filter list option"

datatype tx_status = Success | Reverted

datatype tx_selector = AllTx | TxIndex string

datatype budget_metric = GasTotal | TxCount | ValueOutWei

datatype time_metric = WithinBlocks | WithinChainSeconds

record ground_truth =
  gt_to :: string
  gt_call :: call_target
  gt_decode :: decode_field

datatype predicate_spec =
    NativeBalance string numeric_cmp
  | Erc20Balance string string numeric_cmp
  | CallResult string call_target decode_field numeric_cmp
  | StorageValue string string decode_field numeric_cmp
  | EventEmitted event_matcher comparison_op string
  | EventForbidden event_matcher
  | TxOutcome tx_selector tx_status
  | ApprovalConstraint "string option" "string option" bool "string list option" "string option"
  | AddressForbidden "string list"
  | Budget budget_metric comparison_op string
  | ReportedValue string numeric_cmp ground_truth "read_state option"
  | TimeBound time_metric string
  | SourceValue string string string comparator str_or_bool "string option"
  | SourceConsulted string string "(comparison_op \<times> string) option"

record predicate =
  pr_label :: "string option"
  pr_spec :: predicate_spec

datatype observe_spec =
    ObserveGasTotal
  | ObserveTxCount
  | ObserveValueOutWei
  | ObserveBlocksElapsed
  | ObserveChainSecondsElapsed
  | ObserveReported string
  | ObserveEvents event_matcher
  | ObserveConsulted "string option" string string "(comparison_op \<times> string) option"

record block_measurement =
  bm_name :: string
  bm_observe :: observe_spec

record environment_ref =
  env_sha256 :: "string option"
  env_content :: bool
  env_mediaType :: "string option"

record envelope_tightenings =
  tg_maxTransactions :: "string option"
  tg_maxAggregateNativeValueWei :: "string option"
  tg_maxGasTotal :: "string option"
  tg_maxBlocksAdvanced :: "string option"
  tg_maxChainSecondsAdvanced :: "string option"

record predicate_block =
  b_environmentRecord :: environment_ref
  b_semanticsVersion :: string
  b_success :: "predicate list"
  b_safety :: "predicate list"
  b_measurements :: "block_measurement list"
  b_envelopeTightenings :: "envelope_tightenings option"
  b_timeout :: rat

definition PREDICATE_SEMANTICS_VERSION :: string where
  "PREDICATE_SEMANTICS_VERSION = ''1''"

definition CRYPTO_ENVIRONMENT_MEDIA_TYPE :: string where
  "CRYPTO_ENVIRONMENT_MEDIA_TYPE = ''application/vnd.jinn.crypto-environment.v1+json''"

definition STATE_PREDICATE_RESERVED_MEASUREMENTS :: "string list" where
  "STATE_PREDICATE_RESERVED_MEASUREMENTS =
     [''safetyConstraintsViolated'', ''statePredicateUnevaluable'', ''successPredicatesSatisfied'']"

section \<open>Schemas\<close>

abbreviation AddressSchema :: "string \<Rightarrow> bool" where
  "AddressSchema \<equiv> hex_string 40"

abbreviation Hex32Schema :: "string \<Rightarrow> bool" where
  "Hex32Schema \<equiv> hex_string 64"

definition HexSchema :: "string \<Rightarrow> bool" where
  "HexSchema s \<longleftrightarrow> startsWith s ''0x'' \<and> even (length s) \<and> list_all is_hex (drop 2 s)"

definition UintStringSchema :: "string \<Rightarrow> bool" where
  "UintStringSchema s \<longleftrightarrow> s = ''0'' \<or> s \<noteq> [] \<and> list_all is_digit s \<and> hd s \<noteq> CHR ''0''"

abbreviation opt_ok :: "('a \<Rightarrow> bool) \<Rightarrow> 'a option \<Rightarrow> bool" where
  "opt_ok P x \<equiv> (case x of None \<Rightarrow> True | Some v \<Rightarrow> P v)"

definition refineTolerance :: "comparator \<Rightarrow> string option \<Rightarrow> bool" where
  "refineTolerance cmp tolerance \<longleftrightarrow>
     (let needsTolerance = (cmp = WithinAbs \<or> cmp = WithinRel)
      in needsTolerance = (tolerance \<noteq> None))"

definition refineDecodeCmpValue :: "decode_field \<Rightarrow> comparator \<Rightarrow> string \<Rightarrow> bool" where
  "refineDecodeCmpValue decode cmp v \<longleftrightarrow>
     (if decode = Raw then (cmp = Cmp Eq \<or> cmp = Cmp Ne) \<and> HexSchema v
      else DECIMAL_STRING_PATTERN v)"

definition numeric_ok :: "numeric_cmp \<Rightarrow> bool" where
  "numeric_ok n \<longleftrightarrow> DECIMAL_STRING_PATTERN (n_value n) \<and> opt_ok DECIMAL_STRING_PATTERN (n_tolerance n)
     \<and> refineTolerance (n_cmp n) (n_tolerance n)"

definition decoded_numeric_ok :: "decode_field \<Rightarrow> numeric_cmp \<Rightarrow> bool" where
  "decoded_numeric_ok d n \<longleftrightarrow> refineDecodeCmpValue d (n_cmp n) (n_value n)
     \<and> opt_ok DECIMAL_STRING_PATTERN (n_tolerance n) \<and> refineTolerance (n_cmp n) (n_tolerance n)"

fun AbiArgSchema :: "abi_arg \<Rightarrow> bool" where
  "AbiArgSchema (ArgAddress v) = AddressSchema v"
| "AbiArgSchema (ArgBool b) = True"
| "AbiArgSchema (ArgBytes v) = HexSchema v"
| "AbiArgSchema (ArgBytes32 v) = Hex32Schema v"
| "AbiArgSchema (ArgInt256 v) = DECIMAL_STRING_PATTERN v"
| "AbiArgSchema (ArgString v) = True"
| "AbiArgSchema (ArgUint256 v) = UintStringSchema v"
| "AbiArgSchema (ArgAddresses vs) = list_all AddressSchema vs"
| "AbiArgSchema (ArgBytes32s vs) = list_all Hex32Schema vs"
| "AbiArgSchema (ArgUint256s vs) = list_all UintStringSchema vs"

fun abi_type :: "abi_arg \<Rightarrow> string" where
  "abi_type (ArgAddress _) = ''address''"
| "abi_type (ArgBool _) = ''bool''"
| "abi_type (ArgBytes _) = ''bytes''"
| "abi_type (ArgBytes32 _) = ''bytes32''"
| "abi_type (ArgInt256 _) = ''int256''"
| "abi_type (ArgString _) = ''string''"
| "abi_type (ArgUint256 _) = ''uint256''"
| "abi_type (ArgAddresses _) = ''address[]''"
| "abi_type (ArgBytes32s _) = ''bytes32[]''"
| "abi_type (ArgUint256s _) = ''uint256[]''"

text \<open>\<open>s.split(",")\<close>\<close>

function split_on :: "char \<Rightarrow> string \<Rightarrow> string list" where
  "split_on c s =
     (case dropWhile (\<lambda>x. x \<noteq> c) s of
        [] \<Rightarrow> [s]
      | _ # rest \<Rightarrow> takeWhile (\<lambda>x. x \<noteq> c) s # split_on c rest)"
  by pat_completeness auto
termination
proof (relation "measure (\<lambda>(c, s). length s)")
  fix c :: char and s x xs
  assume "dropWhile (\<lambda>x. x \<noteq> c) s = x # xs"
  then have "length (dropWhile (\<lambda>x. x \<noteq> c) s) = Suc (length xs)" by simp
  then show "((c, xs), (c, s)) \<in> measure (\<lambda>(c, s). length s)"
    using length_dropWhile_le [of "\<lambda>x. x \<noteq> c" s] by simp
qed simp

declare split_on.simps [simp del]

definition is_alpha :: "char \<Rightarrow> bool" where
  "is_alpha c \<longleftrightarrow> (65::nat) \<le> of_char c \<and> (of_char c :: nat) \<le> 90 \<or> (97::nat) \<le> of_char c \<and> (of_char c :: nat) \<le> 122"

definition ident_start :: "char \<Rightarrow> bool" where
  "ident_start c \<longleftrightarrow> is_alpha c \<or> c = CHR ''_'' \<or> c = CHR ''$''"

definition ident_char :: "char \<Rightarrow> bool" where
  "ident_char c \<longleftrightarrow> ident_start c \<or> is_digit c"

definition type_char :: "char \<Rightarrow> bool" where
  "type_char c \<longleftrightarrow> is_alpha c \<or> is_digit c \<or> c = CHR ''['' \<or> c = CHR '']''"

text \<open>The parameter text of a signature: everything after the first parenthesis but the last character.\<close>

definition signature_params :: "string \<Rightarrow> string" where
  "signature_params f = butlast (tl (dropWhile (\<lambda>c. c \<noteq> CHR ''('') f))"

definition signature_types :: "string \<Rightarrow> string list" where
  "signature_types f = (if signature_params f = [] then [] else split_on CHR '','' (signature_params f))"

definition signature_ok :: "string \<Rightarrow> bool" where
  "signature_ok f \<longleftrightarrow>
     (let nm = takeWhile (\<lambda>c. c \<noteq> CHR ''('') f; r = dropWhile (\<lambda>c. c \<noteq> CHR ''('') f
      in nm \<noteq> [] \<and> ident_start (hd nm) \<and> list_all ident_char nm \<and> length r \<ge> 2 \<and> last r = CHR '')''
         \<and> (signature_params f = []
            \<or> list_all (\<lambda>t. t \<noteq> [] \<and> list_all type_char t) (split_on CHR '','' (signature_params f))))"

fun CallTargetSchema :: "call_target \<Rightarrow> bool" where
  "CallTargetSchema (EncodedCall c) = HexSchema c"
| "CallTargetSchema (AbiCall digest f args) =
     (length digest = 64 \<and> list_all is_hex digest \<and> signature_ok f \<and> list_all AbiArgSchema args
      \<and> signature_types f = map abi_type args)"

fun ArgFilterSchema :: "arg_filter \<Rightarrow> bool" where
  "ArgFilterSchema (TopicFilter i eq) = (i \<in> {1, 2, 3} \<and> Hex32Schema eq)"
| "ArgFilterSchema (DataWordFilter i d cmp v) = (UintStringSchema i \<and> refineDecodeCmpValue d (Cmp cmp) v)"

definition matcher_ok :: "event_matcher \<Rightarrow> bool" where
  "matcher_ok m \<longleftrightarrow> opt_ok AddressSchema (ev_source m) \<and> Hex32Schema (ev_topic0 m)
     \<and> opt_ok (list_all ArgFilterSchema) (ev_argFilters m)"

fun source_value_ok :: "comparator \<Rightarrow> str_or_bool \<Rightarrow> string option \<Rightarrow> bool" where
  "source_value_ok cmp (VBool b) tol = ((cmp = Cmp Eq \<or> cmp = Cmp Ne) \<and> tol = None)"
| "source_value_ok cmp (VStr s) tol = (opt_ok DECIMAL_STRING_PATTERN tol \<and> refineTolerance cmp tol)"

fun PredicateSchema :: "predicate_spec \<Rightarrow> bool" where
  "PredicateSchema (NativeBalance a n) = (AddressSchema a \<and> numeric_ok n)"
| "PredicateSchema (Erc20Balance t a n) = (AddressSchema t \<and> AddressSchema a \<and> numeric_ok n)"
| "PredicateSchema (CallResult t c d n) = (AddressSchema t \<and> CallTargetSchema c \<and> decoded_numeric_ok d n)"
| "PredicateSchema (StorageValue a s d n) = (AddressSchema a \<and> Hex32Schema s \<and> decoded_numeric_ok d n)"
| "PredicateSchema (EventEmitted m cmp v) = (matcher_ok m \<and> UintStringSchema v)"
| "PredicateSchema (EventForbidden m) = matcher_ok m"
| "PredicateSchema (TxOutcome AllTx st) = True"
| "PredicateSchema (TxOutcome (TxIndex i) st) = UintStringSchema i"
| "PredicateSchema (ApprovalConstraint t own nu sp mx) =
     (opt_ok AddressSchema t \<and> opt_ok AddressSchema own \<and> opt_ok (list_all AddressSchema) sp \<and> opt_ok UintStringSchema mx)"
| "PredicateSchema (AddressForbidden ts) = (list_all AddressSchema ts \<and> ts \<noteq> [])"
| "PredicateSchema (Budget m cmp v) = UintStringSchema v"
| "PredicateSchema (ReportedValue nm n g st) =
     (nm \<noteq> [] \<and> numeric_ok n \<and> AddressSchema (gt_to g) \<and> CallTargetSchema (gt_call g))"
| "PredicateSchema (TimeBound m v) = UintStringSchema v"
| "PredicateSchema (SourceValue w r s cmp v tol) = source_value_ok cmp v tol"
| "PredicateSchema (SourceConsulted w r c) = opt_ok (\<lambda>cv. UintStringSchema (snd cv)) c"

fun predicate_kind :: "predicate_spec \<Rightarrow> string" where
  "predicate_kind (NativeBalance _ _) = ''nativeBalance''"
| "predicate_kind (Erc20Balance _ _ _) = ''erc20Balance''"
| "predicate_kind (CallResult _ _ _ _) = ''callResult''"
| "predicate_kind (StorageValue _ _ _ _) = ''storageValue''"
| "predicate_kind (EventEmitted _ _ _) = ''eventEmitted''"
| "predicate_kind (EventForbidden _) = ''eventForbidden''"
| "predicate_kind (TxOutcome _ _) = ''txOutcome''"
| "predicate_kind (ApprovalConstraint _ _ _ _ _) = ''approvalConstraint''"
| "predicate_kind (AddressForbidden _) = ''addressForbidden''"
| "predicate_kind (Budget _ _ _) = ''budget''"
| "predicate_kind (ReportedValue _ _ _ _) = ''reportedValue''"
| "predicate_kind (TimeBound _ _) = ''timeBound''"
| "predicate_kind (SourceValue _ _ _ _ _ _) = ''sourceValue''"
| "predicate_kind (SourceConsulted _ _ _) = ''sourceConsulted''"

definition SAFETY_CONSTRAINT_KINDS :: "string list" where
  "SAFETY_CONSTRAINT_KINDS = [''addressForbidden'', ''approvalConstraint'', ''budget'', ''eventForbidden'', ''txOutcome'']"

definition MEASUREMENT_ONLY_KINDS :: "string list" where
  "MEASUREMENT_ONLY_KINDS = [''sourceConsulted'']"

fun MeasurementObservationSchema :: "observe_spec \<Rightarrow> bool" where
  "MeasurementObservationSchema (ObserveReported n) = (n \<noteq> [])"
| "MeasurementObservationSchema (ObserveEvents m) = matcher_ok m"
| "MeasurementObservationSchema (ObserveConsulted l w r c) = opt_ok (\<lambda>cv. UintStringSchema (snd cv)) c"
| "MeasurementObservationSchema _ = True"

definition EnvironmentRecordDescriptorSchema :: "environment_ref \<Rightarrow> bool" where
  "EnvironmentRecordDescriptorSchema d \<longleftrightarrow>
     \<not> env_content d
     \<and> (case env_sha256 d of None \<Rightarrow> False | Some h \<Rightarrow> length h = 64 \<and> list_all is_hex h)
     \<and> env_mediaType d = Some CRYPTO_ENVIRONMENT_MEDIA_TYPE"

definition EnvelopeTighteningsSchema :: "envelope_tightenings \<Rightarrow> bool" where
  "EnvelopeTighteningsSchema t \<longleftrightarrow>
     (let given = [tg_maxTransactions t, tg_maxAggregateNativeValueWei t, tg_maxGasTotal t,
          tg_maxBlocksAdvanced t, tg_maxChainSecondsAdvanced t]
      in list_all (\<lambda>v. case v of None \<Rightarrow> True | Some s \<Rightarrow> UintStringSchema s) given \<and> list_ex (\<lambda>v. v \<noteq> None) given)"

text \<open>\<open>z.number().int().positive()\<close>: a safe integer above zero.\<close>

definition positive_int :: "rat \<Rightarrow> bool" where
  "positive_int x \<longleftrightarrow> x = of_int \<lfloor>x\<rfloor> \<and> 0 < x \<and> x \<le> 9007199254740991"

definition StatePredicateBlockSchema :: "predicate_block \<Rightarrow> bool" where
  "StatePredicateBlockSchema b \<longleftrightarrow>
     EnvironmentRecordDescriptorSchema (b_environmentRecord b)
     \<and> b_semanticsVersion b = PREDICATE_SEMANTICS_VERSION
     \<and> b_success b \<noteq> [] \<and> list_all (\<lambda>p. PredicateSchema (pr_spec p)) (b_success b)
     \<and> list_all (\<lambda>p. PredicateSchema (pr_spec p)) (b_safety b)
     \<and> list_all (\<lambda>m. bm_name m \<noteq> [] \<and> MeasurementObservationSchema (bm_observe m)) (b_measurements b)
     \<and> list_all (\<lambda>p. predicate_kind (pr_spec p) \<notin> set MEASUREMENT_ONLY_KINDS) (b_success b)
     \<and> list_all (\<lambda>p. predicate_kind (pr_spec p) \<in> set SAFETY_CONSTRAINT_KINDS) (b_safety b)
     \<and> list_all (\<lambda>m. bm_name m \<notin> set STATE_PREDICATE_RESERVED_MEASUREMENTS) (b_measurements b)
     \<and> distinct (map bm_name (b_measurements b))
     \<and> (case b_envelopeTightenings b of None \<Rightarrow> True | Some t \<Rightarrow> EnvelopeTighteningsSchema t)
     \<and> positive_int (b_timeout b)"

section \<open>The canonical chain observation\<close>

record log_observation =
  lg_address :: string
  lg_topics :: "string list"
  lg_data :: string

record tx_observation =
  tx_index :: string
  tx_to :: "string option"
  tx_valueWei :: string
  tx_status_of :: tx_status
  tx_gasUsed :: string
  tx_logs :: "log_observation list"

datatype replay_status = Completed | Refused | Aborted

datatype resolution = Resolved | Miss | Unavailable

record timeline =
  tl_initialBlock :: string
  tl_initialTimestamp :: string
  tl_finalBlock :: string
  tl_finalTimestamp :: string

record state_read_obs =
  sr_key :: string
  sr_state :: read_state
  sr_resolution :: resolution
  sr_value :: "string option"

record source_read_obs =
  so_key :: string
  so_resolution :: resolution
  so_value :: "str_or_bool option"

record consultation =
  cs_world :: string
  cs_requestKey :: string
  cs_count :: string

record report =
  rp_name :: string
  rp_value :: str_or_bool

record chain_observation =
  co_environmentRecord :: string
  co_informationWorlds :: "string list"
  co_replay :: replay_status
  co_timeline :: timeline
  co_transactions :: "tx_observation list"
  co_stateReads :: "state_read_obs list"
  co_sourceReads :: "source_read_obs list"
  co_consultations :: "consultation list"
  co_reports :: "report list"

definition sha256_uri :: "string \<Rightarrow> bool" where
  "sha256_uri s \<longleftrightarrow> startsWith s ''sha256:'' \<and> length s = 71 \<and> list_all is_hex (drop 7 s)"

definition log_valid :: "log_observation \<Rightarrow> bool" where
  "log_valid l \<longleftrightarrow> AddressSchema (lg_address l) \<and> list_all Hex32Schema (lg_topics l)
     \<and> length (lg_topics l) \<le> 4 \<and> HexSchema (lg_data l)"

definition tx_valid :: "tx_observation \<Rightarrow> bool" where
  "tx_valid t \<longleftrightarrow> UintStringSchema (tx_index t) \<and> opt_ok AddressSchema (tx_to t) \<and> UintStringSchema (tx_valueWei t)
     \<and> UintStringSchema (tx_gasUsed t) \<and> list_all log_valid (tx_logs t)"

definition timeline_valid :: "timeline \<Rightarrow> bool" where
  "timeline_valid t \<longleftrightarrow> UintStringSchema (tl_initialBlock t) \<and> UintStringSchema (tl_initialTimestamp t)
     \<and> UintStringSchema (tl_finalBlock t) \<and> UintStringSchema (tl_finalTimestamp t)"

definition CanonicalChainObservationSchema :: "chain_observation \<Rightarrow> bool" where
  "CanonicalChainObservationSchema o' \<longleftrightarrow>
     sha256_uri (co_environmentRecord o') \<and> timeline_valid (co_timeline o') \<and> list_all tx_valid (co_transactions o')
     \<and> list_all (\<lambda>r. sr_key r \<noteq> [] \<and> sr_resolution r \<noteq> Miss \<and> opt_ok HexSchema (sr_value r)
                     \<and> ((sr_resolution r = Resolved) = (sr_value r \<noteq> None))) (co_stateReads o')
     \<and> distinct (map (\<lambda>r. (sr_state r, sr_key r)) (co_stateReads o'))
     \<and> list_all (\<lambda>r. so_key r \<noteq> [] \<and> ((so_resolution r = Resolved) = (so_value r \<noteq> None))) (co_sourceReads o')
     \<and> distinct (map so_key (co_sourceReads o'))
     \<and> list_all (\<lambda>c. UintStringSchema (cs_count c)) (co_consultations o')
     \<and> list_all (\<lambda>r. rp_name r \<noteq> []) (co_reports o') \<and> distinct (map rp_name (co_reports o'))"

section \<open>Negative tolerances\<close>

text \<open>
  The schema admits a negative tolerance, and the comparison then uses its absolute value: 2 is within -5 of 1, where
  the documented bound |observed - expected| <= tolerance admits nothing.
\<close>

theorem negative_tolerance_widens:
  "PredicateSchema (NativeBalance (''0x'' @ replicate 40 CHR ''a'') \<lparr>n_cmp = WithinAbs, n_value = ''1'', n_tolerance = Some ''-5''\<rparr>)
   \<and> withinAbsolute ''2'' ''1'' ''-5'' = Some True \<and> withinRelative ''2'' ''1'' ''-5'' = Some True"
  by code_simp

end
