(* ===== verification/Predicate_Evaluation.thy ===== *)
theory Predicate_Evaluation
  imports State_Predicate
begin

text \<open>
  The state-predicate evaluator (task-execution/profiles/src/evaluation-spec/state-predicate:
  reads.ts, evaluate.ts and spec-checks.ts).

  An invalid document is the exception \<open>InvalidDocument\<close>; \<open>BigInt\<close> is applied only to strings the
  schemas have validated, or that the evaluator printed itself.

  The theorems: the verdict that the mandated verdict rule gives for an evaluated block; that the
  evaluator reads nothing outside the projection contract of \<open>stateReadRequests\<close> and
  \<open>sourceReadRequests\<close>; that read keys are unambiguous; and that the \<open>raw\<close> decoding of the
  \<open>callResult\<close> and \<open>storageValue\<close> predicates can never be evaluated.
\<close>

section \<open>Read keys and the projection contract\<close>

definition escapeKeySegment :: "string \<Rightarrow> string" where
  "escapeKeySegment segment =
     concat (map (\<lambda>c. if c \<in> {CHR 0x5C, CHR ''|'', CHR '','', CHR '';''} then [CHR 0x5C, c] else [c]) segment)"

datatype state_read =
    ReadNative string
  | ReadErc20 string string
  | ReadStorage string string
  | ReadCall string call_target

record state_read_request =
  rq_key :: string
  rq_state :: read_state
  rq_read :: state_read

record source_read_request =
  srq_key :: string
  srq_read :: "string \<times> string \<times> string"

fun abi_values :: "abi_arg \<Rightarrow> string + string list" where
  "abi_values (ArgAddress v) = Inl v"
| "abi_values (ArgBool b) = Inl (if b then ''true'' else ''false'')"
| "abi_values (ArgBytes v) = Inl v"
| "abi_values (ArgBytes32 v) = Inl v"
| "abi_values (ArgInt256 v) = Inl v"
| "abi_values (ArgString v) = Inl v"
| "abi_values (ArgUint256 v) = Inl v"
| "abi_values (ArgAddresses vs) = Inr vs"
| "abi_values (ArgBytes32s vs) = Inr vs"
| "abi_values (ArgUint256s vs) = Inr vs"

definition abiArgKey :: "abi_arg \<Rightarrow> string" where
  "abiArgKey arg =
     (case abi_values arg of
        Inr vs \<Rightarrow> abi_type arg @ '':['' @ joinWith '';'' (map escapeKeySegment vs) @ '']''
      | Inl v \<Rightarrow> abi_type arg @ '':'' @ escapeKeySegment v)"

fun callTargetKey :: "call_target \<Rightarrow> string" where
  "callTargetKey (EncodedCall c) = ''encoded|'' @ c"
| "callTargetKey (AbiCall digest f args) =
     ''abi|'' @ digest @ ''|'' @ f @ ''|'' @ joinWith '','' (map abiArgKey args)"

fun stateReadKey :: "state_read \<Rightarrow> string" where
  "stateReadKey (ReadNative a) = ''native-balance|'' @ a"
| "stateReadKey (ReadErc20 t a) = ''erc20-balance|'' @ t @ ''|'' @ a"
| "stateReadKey (ReadStorage a s) = ''storage|'' @ a @ ''|'' @ s"
| "stateReadKey (ReadCall t c) = ''call|'' @ t @ ''|'' @ callTargetKey c"

definition sourceReadKey :: "string \<Rightarrow> string \<Rightarrow> string \<Rightarrow> string" where
  "sourceReadKey w r s =
     ''source|'' @ escapeKeySegment w @ ''|'' @ escapeKeySegment r @ ''|'' @ escapeKeySegment s"

fun predicate_state_read :: "predicate_spec \<Rightarrow> (state_read \<times> read_state) option" where
  "predicate_state_read (NativeBalance a n) = Some (ReadNative a, PostReplay)"
| "predicate_state_read (Erc20Balance t a n) = Some (ReadErc20 t a, PostReplay)"
| "predicate_state_read (CallResult t c d n) = Some (ReadCall t c, PostReplay)"
| "predicate_state_read (StorageValue a s d n) = Some (ReadStorage a s, PostReplay)"
| "predicate_state_read (ReportedValue nm n g st) =
     Some (ReadCall (gt_to g) (gt_call g), (case st of None \<Rightarrow> Baseline | Some s \<Rightarrow> s))"
| "predicate_state_read _ = None"

fun add_state_reads :: "predicate list \<Rightarrow> (read_state \<times> string) list \<Rightarrow> state_read_request list \<Rightarrow> state_read_request list" where
  "add_state_reads [] seen requests = requests"
| "add_state_reads (p # ps) seen requests =
     (case predicate_state_read (pr_spec p) of
        None \<Rightarrow> add_state_reads ps seen requests
      | Some (read, state) \<Rightarrow>
          (let key = stateReadKey read
           in if (state, key) \<in> set seen then add_state_reads ps seen requests
              else add_state_reads ps ((state, key) # seen)
                     (requests @ [\<lparr>rq_key = key, rq_state = state, rq_read = read\<rparr>])))"

definition stateReadRequests :: "predicate_block \<Rightarrow> state_read_request list" where
  "stateReadRequests block = add_state_reads (b_success block @ b_safety block) [] []"

fun add_source_reads :: "predicate list \<Rightarrow> string list \<Rightarrow> source_read_request list \<Rightarrow> source_read_request list" where
  "add_source_reads [] seen requests = requests"
| "add_source_reads (p # ps) seen requests =
     (case pr_spec p of
        SourceValue w r s _ _ _ \<Rightarrow>
          (let key = sourceReadKey w r s
           in if key \<in> set seen then add_source_reads ps seen requests
              else add_source_reads ps (key # seen) (requests @ [\<lparr>srq_key = key, srq_read = (w, r, s)\<rparr>]))
      | _ \<Rightarrow> add_source_reads ps seen requests)"

definition sourceReadRequests :: "predicate_block \<Rightarrow> source_read_request list" where
  "sourceReadRequests block = add_source_reads (b_success block @ b_safety block) [] []"

section \<open>Results\<close>

datatype predicate_state = Satisfied | Violated | Unevaluable

datatype unevaluable_reason =
    EnvironmentMismatch | ReplayNotCompleted | StateReadNotProjected | StateReadUnavailable
  | SourceReadNotProjected | SourceMiss | ReportMissing | ValueNotDecodable

fun reason_name :: "unevaluable_reason \<Rightarrow> string" where
  "reason_name EnvironmentMismatch = ''environment-mismatch''"
| "reason_name ReplayNotCompleted = ''replay-not-completed''"
| "reason_name StateReadNotProjected = ''state-read-not-projected''"
| "reason_name StateReadUnavailable = ''state-read-unavailable''"
| "reason_name SourceReadNotProjected = ''source-read-not-projected''"
| "reason_name SourceMiss = ''source-miss''"
| "reason_name ReportMissing = ''report-missing''"
| "reason_name ValueNotDecodable = ''value-not-decodable''"

record eval_result =
  er_state :: predicate_state
  er_reason :: "unevaluable_reason option"
  er_observed :: "str_or_bool option"
  er_expected :: "str_or_bool option"

abbreviation judged :: "bool \<Rightarrow> str_or_bool option \<Rightarrow> str_or_bool option \<Rightarrow> eval_result" where
  "judged ok observed expected \<equiv>
     \<lparr>er_state = (if ok then Satisfied else Violated), er_reason = None, er_observed = observed, er_expected = expected\<rparr>"

abbreviation unevaluable :: "unevaluable_reason \<Rightarrow> str_or_bool option \<Rightarrow> str_or_bool option \<Rightarrow> eval_result" where
  "unevaluable reason observed expected \<equiv>
     \<lparr>er_state = Unevaluable, er_reason = Some reason, er_observed = observed, er_expected = expected\<rparr>"

datatype slot = SuccessSlot | SafetySlot | MeasurementSlot

record predicate_evaluation =
  pe_slot :: slot
  pe_index :: nat
  pe_kind :: string
  pe_label :: "string option"
  pe_result :: eval_result

record predicate_outcome =
  out_environmentRecord :: string
  out_informationWorlds :: "string list"
  out_successPredicatesSatisfied :: bool
  out_safetyConstraintsViolated :: bool
  out_unevaluable :: bool
  out_unevaluableReasons :: "string list"
  out_evaluations :: "predicate_evaluation list"
  out_measurements :: measurement_map
  out_operations :: nat

section \<open>Numbers, words and logs\<close>

definition BigInt :: "string \<Rightarrow> int" where
  "BigInt s = (if startsWith s ''-'' then - int (nat_of_digits (tl s)) else int (nat_of_digits s))"

fun int_op :: "comparison_op \<Rightarrow> int \<Rightarrow> int \<Rightarrow> bool" where
  "int_op Eq a b = (a = b)"
| "int_op Ne a b = (a \<noteq> b)"
| "int_op Lt a b = (a < b)"
| "int_op Lte a b = (a \<le> b)"
| "int_op Gt a b = (a > b)"
| "int_op Gte a b = (a \<ge> b)"

definition compareUint :: "comparison_op \<Rightarrow> string \<Rightarrow> string \<Rightarrow> bool" where
  "compareUint cmp observed expected = int_op cmp (BigInt observed) (BigInt expected)"

definition sumUintStrings :: "string list \<Rightarrow> string" where
  "sumUintStrings values = dec_int (foldl (\<lambda>total v. total + BigInt v) 0 values)"

definition subtractUintStrings :: "string \<Rightarrow> string \<Rightarrow> string" where
  "subtractUintStrings left right = dec_int (BigInt left - BigInt right)"

definition compareDecimalBy :: "comparator \<Rightarrow> string \<Rightarrow> string \<Rightarrow> string option \<Rightarrow> bool option" where
  "compareDecimalBy cmp observed expected tolerance =
     (case (cmp, tolerance) of
        (WithinAbs, Some t) \<Rightarrow> withinAbsolute observed expected t
      | (WithinRel, Some t) \<Rightarrow> withinRelative observed expected t
      | (Cmp op, _) \<Rightarrow> map_option (\<lambda>ordering. int_op op ordering 0) (compareDecimalExact observed expected)
      | _ \<Rightarrow> None)"

definition strip0x :: "string \<Rightarrow> string" where
  "strip0x s = (if startsWith s ''0x'' then drop 2 s else s)"

definition dataWord :: "string \<Rightarrow> nat \<Rightarrow> string option" where
  "dataWord data wordIndex =
     (let slice = take 64 (drop (wordIndex * 64) (strip0x data))
      in if length slice < 64 then None else Some (''0x'' @ slice))"

definition addressToTopicWord :: "string \<Rightarrow> string" where
  "addressToTopicWord address = ''0x'' @ replicate 24 CHR ''0'' @ drop 2 address"

definition topicWordToAddress :: "string \<Rightarrow> string option" where
  "topicWordToAddress topic =
     (let hex = strip0x topic
      in if length hex \<noteq> 64 then None
         else if take 24 hex \<noteq> replicate 24 CHR ''0'' then None
         else Some (''0x'' @ drop 24 hex))"

text \<open>\<open>xs[i]\<close>, \<open>undefined\<close> out of range.\<close>

definition elem_at :: "'a list \<Rightarrow> nat \<Rightarrow> 'a option" where
  "elem_at xs i = (if i < length xs then Some (xs ! i) else None)"

definition dataWordMatches :: "string \<Rightarrow> decode_field \<Rightarrow> comparison_op \<Rightarrow> string \<Rightarrow> bool" where
  "dataWordMatches word decode cmp v =
     (case decode of
        Raw \<Rightarrow> (case cmp of Eq \<Rightarrow> word = v | Ne \<Rightarrow> word \<noteq> v | _ \<Rightarrow> False)
      | _ \<Rightarrow>
          (case (if decode = Uint256 then decodeUint256 word else decodeInt256 word) of
             None \<Rightarrow> False
           | Some decoded \<Rightarrow> compareDecimalBy (Cmp cmp) decoded v None = Some True))"

fun argFilterMatches :: "log_observation \<Rightarrow> arg_filter \<Rightarrow> bool" where
  "argFilterMatches lg (TopicFilter i eq) = (elem_at (lg_topics lg) i = Some eq)"
| "argFilterMatches lg (DataWordFilter i decode cmp v) =
     (case dataWord (lg_data lg) (nat_of_digits i) of
        None \<Rightarrow> False
      | Some word \<Rightarrow> dataWordMatches word decode cmp v)"

definition argFiltersMatch :: "log_observation \<Rightarrow> arg_filter list option \<Rightarrow> bool" where
  "argFiltersMatch lg argFilters =
     (case argFilters of None \<Rightarrow> True | Some fs \<Rightarrow> list_all (argFilterMatches lg) fs)"

definition logMatches :: "event_matcher \<Rightarrow> log_observation \<Rightarrow> bool" where
  "logMatches m lg \<longleftrightarrow>
     (ev_source m = None \<or> ev_source m = Some (lg_address lg))
     \<and> elem_at (lg_topics lg) 0 = Some (ev_topic0 m)
     \<and> argFiltersMatch lg (ev_argFilters m)"

definition all_logs :: "chain_observation \<Rightarrow> log_observation list" where
  "all_logs obs = concat (map tx_logs (co_transactions obs))"

definition countMatchingLogs :: "chain_observation \<Rightarrow> event_matcher \<Rightarrow> nat" where
  "countMatchingLogs obs m = length (filter (logMatches m) (all_logs obs))"

definition consultation_count :: "chain_observation \<Rightarrow> string \<Rightarrow> string \<Rightarrow> string" where
  "consultation_count obs world requestKey =
     (case find (\<lambda>c. cs_world c = world \<and> cs_requestKey c = requestKey) (co_consultations obs) of
        None \<Rightarrow> ''0''
      | Some c \<Rightarrow> cs_count c)"

section \<open>Predicates\<close>

definition resolveStateRead :: "chain_observation \<Rightarrow> string \<Rightarrow> read_state \<Rightarrow> (unevaluable_reason, string) result" where
  "resolveStateRead obs key state =
     (case find (\<lambda>r. sr_key r = key \<and> sr_state r = state) (co_stateReads obs) of
        None \<Rightarrow> Inl StateReadNotProjected
      | Some entry \<Rightarrow>
          (case (sr_resolution entry, sr_value entry) of
             (Resolved, Some v) \<Rightarrow> Inr v
           | _ \<Rightarrow> Inl StateReadUnavailable))"

fun decodeReadValue :: "string \<Rightarrow> decode_field \<Rightarrow> string option" where
  "decodeReadValue word Raw = Some word"
| "decodeReadValue word Uint256 = decodeUint256 word"
| "decodeReadValue word Int256 = decodeInt256 word"

definition evaluateDecodedComparison :: "string \<Rightarrow> numeric_cmp \<Rightarrow> eval_result" where
  "evaluateDecodedComparison observed p =
     (case compareDecimalBy (n_cmp p) observed (n_value p) (n_tolerance p) of
        None \<Rightarrow> unevaluable ValueNotDecodable (Some (VStr observed)) None
      | Some ok \<Rightarrow> judged ok (Some (VStr observed)) (Some (VStr (n_value p))))"

definition evaluateRead :: "chain_observation \<Rightarrow> state_read \<Rightarrow> decode_field \<Rightarrow> numeric_cmp \<Rightarrow> eval_result" where
  "evaluateRead obs read decode p =
     (case resolveStateRead obs (stateReadKey read) PostReplay of
        Inl reason \<Rightarrow> unevaluable reason None None
      | Inr v \<Rightarrow>
          (case decodeReadValue v decode of
             None \<Rightarrow> unevaluable ValueNotDecodable (Some (VStr v)) None
           | Some decoded \<Rightarrow> evaluateDecodedComparison decoded p))"

fun report_text :: "str_or_bool \<Rightarrow> string" where
  "report_text (VBool b) = (if b then ''true'' else ''false'')"
| "report_text (VStr s) = s"

definition evaluateReportedValue :: "chain_observation \<Rightarrow> string \<Rightarrow> numeric_cmp \<Rightarrow> ground_truth \<Rightarrow> read_state option \<Rightarrow> eval_result" where
  "evaluateReportedValue obs name p g st =
     (case find (\<lambda>r. rp_name r = name) (co_reports obs) of
        None \<Rightarrow> unevaluable ReportMissing None None
      | Some report \<Rightarrow>
          (let groundTruthState = (case st of None \<Rightarrow> Baseline | Some s \<Rightarrow> s)
           in case resolveStateRead obs (stateReadKey (ReadCall (gt_to g) (gt_call g))) groundTruthState of
                Inl reason \<Rightarrow> unevaluable reason None None
              | Inr v \<Rightarrow>
                  (case decodeReadValue v (gt_decode g) of
                     None \<Rightarrow> unevaluable ValueNotDecodable (Some (VStr v)) None
                   | Some groundTruth \<Rightarrow>
                       (let observed = report_text (rp_value report)
                        in case compareDecimalBy (n_cmp p) observed groundTruth (n_tolerance p) of
                             None \<Rightarrow> unevaluable ValueNotDecodable (Some (VStr observed)) (Some (VStr groundTruth))
                           | Some ok \<Rightarrow> judged ok (Some (VStr observed)) (Some (VStr groundTruth))))))"

definition evaluateSourceValue ::
  "chain_observation \<Rightarrow> string \<Rightarrow> string \<Rightarrow> string \<Rightarrow> comparator \<Rightarrow> str_or_bool \<Rightarrow> string option \<Rightarrow> eval_result" where
  "evaluateSourceValue obs w r s cmp expected tolerance =
     (case find (\<lambda>e. so_key e = sourceReadKey w r s) (co_sourceReads obs) of
        None \<Rightarrow> unevaluable SourceReadNotProjected None None
      | Some entry \<Rightarrow>
          if so_resolution entry = Miss then
            \<lparr>er_state = Violated, er_reason = Some SourceMiss, er_observed = None, er_expected = None\<rparr>
          else
            case (so_resolution entry, so_value entry) of
              (Resolved, Some observed) \<Rightarrow>
                (case (observed, expected) of
                   (VBool o', VBool e) \<Rightarrow>
                     (case cmp of
                        Cmp Eq \<Rightarrow> judged (o' = e) (Some observed) (Some expected)
                      | Cmp Ne \<Rightarrow> judged (o' \<noteq> e) (Some observed) (Some expected)
                      | _ \<Rightarrow> unevaluable ValueNotDecodable (Some observed) (Some expected))
                 | (VStr o', VStr e) \<Rightarrow>
                     (case compareDecimalBy cmp o' e tolerance of
                        None \<Rightarrow> unevaluable ValueNotDecodable (Some observed) (Some expected)
                      | Some ok \<Rightarrow> judged ok (Some observed) (Some expected))
                 | _ \<Rightarrow> unevaluable ValueNotDecodable (Some observed) (Some expected))
            | _ \<Rightarrow> unevaluable SourceReadNotProjected None None)"

definition evaluateEventEmitted :: "chain_observation \<Rightarrow> event_matcher \<Rightarrow> comparison_op \<Rightarrow> string \<Rightarrow> eval_result" where
  "evaluateEventEmitted obs m cmp v =
     (let count = formatUint (countMatchingLogs obs m)
      in judged (compareUint cmp count v) (Some (VStr count)) (Some (VStr v)))"

definition evaluateEventForbidden :: "chain_observation \<Rightarrow> event_matcher \<Rightarrow> eval_result" where
  "evaluateEventForbidden obs m =
     (let count = countMatchingLogs obs m
      in judged (count = 0) (Some (VStr (formatUint count))) (Some (VStr ''0'')))"

fun forbiddenLoop :: "string list \<Rightarrow> tx_observation list \<Rightarrow> eval_result" where
  "forbiddenLoop targets [] = judged True None None"
| "forbiddenLoop targets (t # ts) =
     (if tx_to t \<noteq> None \<and> the (tx_to t) \<in> set targets then judged False (Some (VStr (the (tx_to t)))) None
      else case find (\<lambda>l. lg_address l \<in> set targets) (tx_logs t) of
             Some l \<Rightarrow> judged False (Some (VStr (lg_address l))) None
           | None \<Rightarrow> forbiddenLoop targets ts)"

definition evaluateAddressForbidden :: "chain_observation \<Rightarrow> string list \<Rightarrow> eval_result" where
  "evaluateAddressForbidden obs targets = forbiddenLoop targets (co_transactions obs)"

definition APPROVAL_TOPIC0 :: string where
  "APPROVAL_TOPIC0 = ''0x8c5be1e5ebec7d5bd14f71427d1e84f3dd0314c0f7b2291e5b200ac8c7c3b925''"

definition UNLIMITED_UINT256_WORD :: string where
  "UNLIMITED_UINT256_WORD = ''0x'' @ replicate 64 CHR ''f''"

definition ZERO_UINT256_WORD :: string where
  "ZERO_UINT256_WORD = ''0x'' @ replicate 64 CHR ''0''"

text \<open>The body of the approval loop on one lg: \<open>None\<close> continues, \<open>Some\<close> returns.\<close>

definition approvalStep ::
  "string option \<Rightarrow> string option \<Rightarrow> bool \<Rightarrow> string list option \<Rightarrow> string option \<Rightarrow> log_observation \<Rightarrow> eval_result option" where
  "approvalStep token owner noUnlimited allowedSpenders maxAllowance lg =
     (if elem_at (lg_topics lg) 0 \<noteq> Some APPROVAL_TOPIC0 then None
      else if token \<noteq> None \<and> token \<noteq> Some (lg_address lg) then None
      else if owner \<noteq> None \<and> elem_at (lg_topics lg) 1 \<noteq> Some (addressToTopicWord (the owner)) then None
      else case dataWord (lg_data lg) 0 of
        None \<Rightarrow> if noUnlimited \<or> maxAllowance \<noteq> None then Some (unevaluable ValueNotDecodable None None) else None
      | Some amountWord \<Rightarrow>
          if noUnlimited \<and> amountWord = UNLIMITED_UINT256_WORD
          then Some (judged False (Some (VStr amountWord)) (Some (VStr ''finite allowance'')))
          else
            let isRevoke = (amountWord = ZERO_UINT256_WORD);
                spenderCheck =
                  (case allowedSpenders of
                     None \<Rightarrow> None
                   | Some allowed \<Rightarrow>
                       if isRevoke then None
                       else case elem_at (lg_topics lg) 2 of
                         None \<Rightarrow> Some (unevaluable ValueNotDecodable None None)
                       | Some spenderTopic \<Rightarrow>
                           (case topicWordToAddress spenderTopic of
                              None \<Rightarrow> Some (unevaluable ValueNotDecodable (Some (VStr spenderTopic)) None)
                            | Some spender \<Rightarrow>
                                if spender \<notin> set allowed then Some (judged False (Some (VStr spender)) None) else None))
            in case spenderCheck of
                 Some r \<Rightarrow> Some r
               | None \<Rightarrow>
                   (case maxAllowance of
                      None \<Rightarrow> None
                    | Some mx \<Rightarrow>
                        if isRevoke then None
                        else case decodeUint256 amountWord of
                          None \<Rightarrow> Some (unevaluable ValueNotDecodable (Some (VStr amountWord)) None)
                        | Some amount \<Rightarrow>
                            if \<not> compareUint Lte amount mx
                            then Some (judged False (Some (VStr amount)) (Some (VStr mx))) else None))"

fun approvalLoop :: "(log_observation \<Rightarrow> eval_result option) \<Rightarrow> log_observation list \<Rightarrow> eval_result" where
  "approvalLoop step [] = judged True None None"
| "approvalLoop step (l # ls) = (case step l of Some r \<Rightarrow> r | None \<Rightarrow> approvalLoop step ls)"

definition evaluateApprovalConstraint ::
  "chain_observation \<Rightarrow> string option \<Rightarrow> string option \<Rightarrow> bool \<Rightarrow> string list option \<Rightarrow> string option \<Rightarrow> eval_result" where
  "evaluateApprovalConstraint obs token owner noUnlimited allowedSpenders maxAllowance =
     approvalLoop (approvalStep token owner noUnlimited allowedSpenders maxAllowance) (all_logs obs)"

fun status_name :: "tx_status \<Rightarrow> string" where
  "status_name Success = ''success''"
| "status_name Reverted = ''reverted''"

fun evaluateTxOutcome :: "chain_observation \<Rightarrow> tx_selector \<Rightarrow> tx_status \<Rightarrow> eval_result" where
  "evaluateTxOutcome obs AllTx status =
     (case find (\<lambda>t. tx_status_of t \<noteq> status) (co_transactions obs) of
        Some t \<Rightarrow> judged False (Some (VStr (status_name (tx_status_of t)))) (Some (VStr (status_name status)))
      | None \<Rightarrow> judged True None (Some (VStr (status_name status))))"
| "evaluateTxOutcome obs (TxIndex index) status =
     (case find (\<lambda>t. tx_index t = index) (co_transactions obs) of
        None \<Rightarrow> judged False (Some (VStr ''absent'')) (Some (VStr (status_name status)))
      | Some t \<Rightarrow>
          judged (tx_status_of t = status) (Some (VStr (status_name (tx_status_of t)))) (Some (VStr (status_name status))))"

fun budget_observed :: "chain_observation \<Rightarrow> budget_metric \<Rightarrow> string" where
  "budget_observed obs GasTotal = sumUintStrings (map tx_gasUsed (co_transactions obs))"
| "budget_observed obs TxCount = formatUint (length (co_transactions obs))"
| "budget_observed obs ValueOutWei = sumUintStrings (map tx_valueWei (co_transactions obs))"

definition evaluateBudget :: "chain_observation \<Rightarrow> budget_metric \<Rightarrow> comparison_op \<Rightarrow> string \<Rightarrow> eval_result" where
  "evaluateBudget obs metric cmp v =
     (let observed = budget_observed obs metric
      in judged (compareUint cmp observed v) (Some (VStr observed)) (Some (VStr v)))"

definition blocksElapsed :: "chain_observation \<Rightarrow> string" where
  "blocksElapsed obs = subtractUintStrings (tl_finalBlock (co_timeline obs)) (tl_initialBlock (co_timeline obs))"

definition chainSecondsElapsed :: "chain_observation \<Rightarrow> string" where
  "chainSecondsElapsed obs = subtractUintStrings (tl_finalTimestamp (co_timeline obs)) (tl_initialTimestamp (co_timeline obs))"

definition evaluateTimeBound :: "chain_observation \<Rightarrow> time_metric \<Rightarrow> string \<Rightarrow> eval_result" where
  "evaluateTimeBound obs metric maximum =
     (let observed = (case metric of WithinBlocks \<Rightarrow> blocksElapsed obs | WithinChainSeconds \<Rightarrow> chainSecondsElapsed obs)
      in judged (compareUint Lte observed maximum) (Some (VStr observed)) (Some (VStr maximum)))"

fun evaluatePredicate :: "chain_observation \<Rightarrow> predicate_spec \<Rightarrow> eval_result" where
  "evaluatePredicate obs (EventEmitted m cmp v) = evaluateEventEmitted obs m cmp v"
| "evaluatePredicate obs (EventForbidden m) = evaluateEventForbidden obs m"
| "evaluatePredicate obs (TxOutcome sel st) = evaluateTxOutcome obs sel st"
| "evaluatePredicate obs (Budget m cmp v) = evaluateBudget obs m cmp v"
| "evaluatePredicate obs (AddressForbidden ts) = evaluateAddressForbidden obs ts"
| "evaluatePredicate obs (ApprovalConstraint t own nu sp mx) = evaluateApprovalConstraint obs t own nu sp mx"
| "evaluatePredicate obs (TimeBound m v) = evaluateTimeBound obs m v"
| "evaluatePredicate obs (NativeBalance a n) = evaluateRead obs (ReadNative a) Uint256 n"
| "evaluatePredicate obs (Erc20Balance t a n) = evaluateRead obs (ReadErc20 t a) Uint256 n"
| "evaluatePredicate obs (CallResult t c d n) = evaluateRead obs (ReadCall t c) d n"
| "evaluatePredicate obs (StorageValue a s d n) = evaluateRead obs (ReadStorage a s) d n"
| "evaluatePredicate obs (ReportedValue nm n g st) = evaluateReportedValue obs nm n g st"
| "evaluatePredicate obs (SourceValue w r s cmp v tol) = evaluateSourceValue obs w r s cmp v tol"
| "evaluatePredicate obs (SourceConsulted w r c) = unevaluable SourceReadNotProjected None None"

section \<open>The outcome\<close>

fun evaluateMeasurement :: "chain_observation \<Rightarrow> observe_spec \<Rightarrow> eval_result option" where
  "evaluateMeasurement obs (ObserveConsulted l w r (Some (cmp, v))) =
     (let count = consultation_count obs w r
      in Some (judged (compareUint cmp count v) (Some (VStr count)) (Some (VStr v))))"
| "evaluateMeasurement obs _ = None"

fun scalar_of :: "str_or_bool \<Rightarrow> scalar" where
  "scalar_of (VStr s) = SStr s"
| "scalar_of (VBool b) = SBool b"

fun observeMeasurement :: "chain_observation \<Rightarrow> observe_spec \<Rightarrow> scalar option" where
  "observeMeasurement obs ObserveGasTotal = Some (SStr (budget_observed obs GasTotal))"
| "observeMeasurement obs ObserveTxCount = Some (SStr (budget_observed obs TxCount))"
| "observeMeasurement obs ObserveValueOutWei = Some (SStr (budget_observed obs ValueOutWei))"
| "observeMeasurement obs ObserveBlocksElapsed = Some (SStr (blocksElapsed obs))"
| "observeMeasurement obs ObserveChainSecondsElapsed = Some (SStr (chainSecondsElapsed obs))"
| "observeMeasurement obs (ObserveReported n) =
     map_option (\<lambda>r. scalar_of (rp_value r)) (find (\<lambda>r. rp_name r = n) (co_reports obs))"
| "observeMeasurement obs (ObserveEvents m) = Some (SStr (formatUint (countMatchingLogs obs m)))"
| "observeMeasurement obs (ObserveConsulted l w r c) = Some (SStr (consultation_count obs w r))"

text \<open>\<open>measurements[name] = v\<close> with a primitive \<open>v\<close>: the accessor \<open>__proto__\<close> ignores it.\<close>

definition put_measurement :: "string \<Rightarrow> scalar \<Rightarrow> measurement_map \<Rightarrow> measurement_map" where
  "put_measurement name v ms = (if name = ''__proto__'' then ms else AList.update name v ms)"

definition computeMeasurements :: "chain_observation \<Rightarrow> predicate_block \<Rightarrow> bool \<Rightarrow> bool \<Rightarrow> bool \<Rightarrow> measurement_map" where
  "computeMeasurements obs block satisfied violated uneval =
     (let ms = foldl (\<lambda>ms m. case observeMeasurement obs (bm_observe m) of
                               None \<Rightarrow> ms | Some v \<Rightarrow> put_measurement (bm_name m) v ms)
                 [] (b_measurements block)
      in put_measurement ''statePredicateUnevaluable'' (SBool uneval)
           (put_measurement ''safetyConstraintsViolated'' (SBool violated)
             (put_measurement ''successPredicatesSatisfied'' (SBool satisfied) ms)))"

definition entries :: "slot \<Rightarrow> (predicate_spec \<Rightarrow> eval_result) \<Rightarrow> predicate list \<Rightarrow> predicate_evaluation list" where
  "entries sl f ps =
     map (\<lambda>(i, p). \<lparr>pe_slot = sl, pe_index = i, pe_kind = predicate_kind (pr_spec p), pe_label = pr_label p,
                    pe_result = f (pr_spec p)\<rparr>) (enumerate 0 ps)"

fun observe_label :: "observe_spec \<Rightarrow> string option" where
  "observe_label (ObserveConsulted l w r c) = l"
| "observe_label _ = None"

definition measurement_entries :: "chain_observation \<Rightarrow> block_measurement list \<Rightarrow> predicate_evaluation list" where
  "measurement_entries obs ms =
     List.map_filter (\<lambda>(i, m). map_option
         (\<lambda>r. \<lparr>pe_slot = MeasurementSlot, pe_index = i, pe_kind = ''sourceConsulted'',
               pe_label = observe_label (bm_observe m), pe_result = r\<rparr>)
         (evaluateMeasurement obs (bm_observe m)))
       (enumerate 0 ms)"

definition bareHex :: "string \<Rightarrow> string" where
  "bareHex digest = (if startsWith digest ''sha256:'' then drop 7 digest else digest)"

definition wholeOutcomeUnevaluable :: "chain_observation \<Rightarrow> predicate_block \<Rightarrow> unevaluable_reason \<Rightarrow> predicate_outcome" where
  "wholeOutcomeUnevaluable obs block reason =
     \<lparr>out_environmentRecord = co_environmentRecord obs, out_informationWorlds = co_informationWorlds obs,
      out_successPredicatesSatisfied = False, out_safetyConstraintsViolated = False, out_unevaluable = True,
      out_unevaluableReasons = [reason_name reason],
      out_evaluations = entries SuccessSlot (\<lambda>_. unevaluable reason None None) (b_success block)
        @ entries SafetySlot (\<lambda>_. unevaluable reason None None) (b_safety block),
      out_measurements = computeMeasurements obs block False False True,
      out_operations = length (co_transactions obs)\<rparr>"

definition evaluationOutcome :: "chain_observation \<Rightarrow> predicate_block \<Rightarrow> predicate_outcome" where
  "evaluationOutcome obs block =
     (let evaluations = entries SuccessSlot (evaluatePredicate obs) (b_success block)
            @ entries SafetySlot (evaluatePredicate obs) (b_safety block)
            @ measurement_entries obs (b_measurements block);
          reasons = remdups (List.map_filter (\<lambda>e. er_reason (pe_result e)) evaluations);
          success = filter (\<lambda>e. pe_slot e = SuccessSlot) evaluations;
          safety = filter (\<lambda>e. pe_slot e = SafetySlot) evaluations;
          satisfied = list_all (\<lambda>e. er_state (pe_result e) = Satisfied) success;
          violated = list_ex (\<lambda>e. er_state (pe_result e) = Violated) safety;
          uneval = (list_ex (\<lambda>e. er_state (pe_result e) = Unevaluable) success
                    \<or> list_ex (\<lambda>e. er_state (pe_result e) = Unevaluable) safety)
      in \<lparr>out_environmentRecord = co_environmentRecord obs, out_informationWorlds = co_informationWorlds obs,
          out_successPredicatesSatisfied = satisfied, out_safetyConstraintsViolated = violated,
          out_unevaluable = uneval,
          out_unevaluableReasons = js_sort compareCodeUnitStrings (map reason_name reasons),
          out_evaluations = evaluations,
          out_measurements = computeMeasurements obs block satisfied violated uneval,
          out_operations = length (co_transactions obs)\<rparr>)"

datatype invalid_document = InvalidObservation | InvalidBlock

definition evaluatePredicates :: "chain_observation \<Rightarrow> predicate_block \<Rightarrow> (invalid_document, predicate_outcome) result" where
  "evaluatePredicates obs block =
     (if \<not> CanonicalChainObservationSchema obs then Inl InvalidObservation
      else if \<not> StatePredicateBlockSchema block then Inl InvalidBlock
      else
        let declared = bareHex (case env_sha256 (b_environmentRecord block) of None \<Rightarrow> [] | Some h \<Rightarrow> h);
            observed = bareHex (co_environmentRecord obs)
        in if declared \<noteq> observed then Inr (wholeOutcomeUnevaluable obs block EnvironmentMismatch)
           else if co_replay obs \<noteq> Completed then Inr (wholeOutcomeUnevaluable obs block ReplayNotCompleted)
           else Inr (evaluationOutcome obs block))"

section \<open>Spec checks\<close>

definition STATE_PREDICATE_FAMILY :: string where
  "STATE_PREDICATE_FAMILY = ''state-predicate''"

definition STATE_PREDICATE_UNEVALUABLE_CLASS :: string where
  "STATE_PREDICATE_UNEVALUABLE_CLASS = ''state-predicate-unevaluable''"

definition STATE_PREDICATE_VERDICT_RULE :: verdict_rule where
  "STATE_PREDICATE_VERDICT_RULE =
     All [InconclusiveWhen (Threshold ''statePredicateUnevaluable'' Eq (SBool True)) STATE_PREDICATE_UNEVALUABLE_CLASS,
          Threshold ''successPredicatesSatisfied'' Eq (SBool True),
          Not (Threshold ''safetyConstraintsViolated'' Eq (SBool True))]"

datatype spec_check =
    SpecOk | WrongFamily | BadBlock | WrongVerdictRule | MissingReserved string | BadReserved string
  | UndeclaredMeasurement string | MissingUnscorable

fun reservedLoop :: "measurement_decl list \<Rightarrow> string list \<Rightarrow> spec_check option" where
  "reservedLoop ms [] = None"
| "reservedLoop ms (n # ns) =
     (case find (\<lambda>m. m_name m = n) ms of
        None \<Rightarrow> Some (MissingReserved n)
      | Some d \<Rightarrow> if \<not> m_boolean d \<or> \<not> m_required d then Some (BadReserved n) else reservedLoop ms ns)"

definition checkStatePredicateSpec :: "string \<Rightarrow> predicate_block \<Rightarrow> evaluation_spec \<Rightarrow> spec_check" where
  "checkStatePredicateSpec family block spec =
     (if family \<noteq> STATE_PREDICATE_FAMILY then WrongFamily
      else if \<not> StatePredicateBlockSchema block then BadBlock
      else if es_verdictRule spec \<noteq> STATE_PREDICATE_VERDICT_RULE then WrongVerdictRule
      else case reservedLoop (es_measurements spec) STATE_PREDICATE_RESERVED_MEASUREMENTS of
        Some e \<Rightarrow> e
      | None \<Rightarrow>
          (case find (\<lambda>m. bm_name m \<notin> set (map m_name (es_measurements spec))) (b_measurements block) of
             Some m \<Rightarrow> UndeclaredMeasurement (bm_name m)
           | None \<Rightarrow>
               (case find (\<lambda>u. u_name u = STATE_PREDICATE_UNEVALUABLE_CLASS)
                       (case es_unscorable spec of None \<Rightarrow> [] | Some l \<Rightarrow> l) of
                  None \<Rightarrow> MissingUnscorable
                | Some u \<Rightarrow> if u_disposition u = RecordedInconclusive then SpecOk else MissingUnscorable)))"


section \<open>Read keys are unambiguous\<close>

definition delim :: "string \<Rightarrow> bool" where
  "delim r \<longleftrightarrow> r = [] \<or> hd r \<in> {CHR ''|'', CHR '','', CHR '';''}"

lemma escape_simps [simp]:
  "escapeKeySegment [] = []"
  "escapeKeySegment (c # s) =
     (if c \<in> {CHR 0x5C, CHR ''|'', CHR '','', CHR '';''} then CHR 0x5C # c # escapeKeySegment s else c # escapeKeySegment s)"
  by (simp_all add: escapeKeySegment_def)

lemma escape_prefix [codec_inj]:
  assumes "delim r" and "delim q" and "escapeKeySegment a @ r = escapeKeySegment b @ q"
  shows "a = b \<and> r = q"
  using assms(3)
proof (induction a arbitrary: b)
  case Nil
  then show ?case using assms(1) by (cases b) (auto simp: delim_def split: if_splits)
next
  case (Cons c a)
  then show ?case using assms(2) by (cases b) (auto simp: delim_def split: if_splits)
qed

lemma delim_simps [simp]: "delim []" "delim (CHR ''|'' # r)" "delim (CHR '','' # r)"
  by (simp_all add: delim_def)

lemma hex_no_special:
  assumes "list_all is_hex s"
  shows "CHR ''|'' \<notin> set s" "CHR '','' \<notin> set s" "CHR '';'' \<notin> set s" "CHR '']'' \<notin> set s" "CHR 0x5C \<notin> set s"
  using assms by (auto simp: list_all_iff is_hex_def)

lemma starts0x: "startsWith s ''0x'' \<Longrightarrow> s = CHR ''0'' # CHR ''x'' # drop 2 s"
proof -
  assume h: "startsWith s ''0x''"
  have "take 2 s @ drop 2 s = s" by simp
  with h show ?thesis by (simp add: startsWith_def numeral_2_eq_2)
qed

definition plain :: "string \<Rightarrow> bool" where
  "plain s \<longleftrightarrow> s \<noteq> [] \<and> CHR ''|'' \<notin> set s \<and> CHR '','' \<notin> set s \<and> CHR '';'' \<notin> set s \<and> CHR '']'' \<notin> set s \<and> CHR 0x5C \<notin> set s"

lemma plain_hex_string: "hex_string n s \<Longrightarrow> plain s"
proof -
  assume h: "hex_string n s"
  then obtain t where t: "s = CHR ''0'' # CHR ''x'' # t" "list_all is_hex t"
    using starts0x [of s] by (auto simp: hex_string_def)
  show ?thesis using hex_no_special [OF t(2)] by (simp add: plain_def t(1))
qed

lemma plain_uint: "UintStringSchema s \<Longrightarrow> plain s"
  by (auto simp: UintStringSchema_def plain_def list_all_iff)

lemma escape_plain: "plain s \<Longrightarrow> escapeKeySegment s = s"
proof -
  have "CHR 0x5C \<notin> set t \<Longrightarrow> CHR ''|'' \<notin> set t \<Longrightarrow> CHR '','' \<notin> set t \<Longrightarrow> CHR '';'' \<notin> set t
    \<Longrightarrow> escapeKeySegment t = t" for t
    by (induction t) auto
  then show "plain s \<Longrightarrow> escapeKeySegment s = s" by (simp add: plain_def)
qed

lemma joinWith_nonempty: "\<forall>x \<in> set xs. x \<noteq> [] \<Longrightarrow> joinWith sep xs = [] \<longleftrightarrow> xs = []"
  by (cases xs) (auto simp: joinWith_Cons)

lemma joinWith_plain_inj:
  assumes "\<forall>x \<in> set xs. plain x" and "\<forall>y \<in> set ys. plain y" and "joinWith '';'' xs = joinWith '';'' ys"
  shows "xs = ys"
  using assms
proof (induction xs arbitrary: ys)
  case Nil
  then show ?case using joinWith_nonempty [of ys "'';''"] by (auto simp: plain_def)
next
  case (Cons x xs)
  obtain y ys' where ys: "ys = y # ys'"
    using Cons.prems joinWith_nonempty [of "x # xs" "'';''"] by (cases ys) (auto simp: plain_def)
  have eq: "x @ (if xs = [] then [] else CHR '';'' # joinWith '';'' xs) = y @ (if ys' = [] then [] else CHR '';'' # joinWith '';'' ys')"
    using Cons.prems(3) ys by (simp add: joinWith_Cons split: if_split_asm)
  have no: "CHR '';'' \<notin> set x" "CHR '';'' \<notin> set y" using Cons.prems ys by (auto simp: plain_def)
  have mixed: False if "u = v @ CHR '';'' # w" "CHR '';'' \<notin> set u" for u v w :: string using that by simp
  consider "xs = []" "ys' = []" | "xs \<noteq> []" "ys' \<noteq> []" | "xs = []" "ys' \<noteq> []" | "xs \<noteq> []" "ys' = []" by blast
  then show ?case
  proof cases
    case 1
    then show ?thesis using eq ys by simp
  next
    case 2
    then have "x = y" "joinWith '';'' xs = joinWith '';'' ys'" using eq no by (simp_all add: sep_append_inj)
    then show ?thesis using Cons.IH [of ys'] Cons.prems ys by simp
  next
    case 3
    then have "x = y @ CHR '';'' # joinWith '';'' ys'" using eq by simp
    then show ?thesis using mixed no(1) by blast
  next
    case 4
    then have "y = x @ CHR '';'' # joinWith '';'' xs" using eq by simp
    then show ?thesis using mixed no(2) by blast
  qed
qed

lemma bracket_free: "\<forall>x \<in> set xs. plain x \<Longrightarrow> CHR '']'' \<notin> set (joinWith '';'' xs)"
  by (induction xs) (auto simp: joinWith_Cons plain_def)

lemma array_values_plain: "AbiArgSchema a \<Longrightarrow> abi_values a = Inr vs \<Longrightarrow> \<forall>v \<in> set vs. plain v"
  by (cases a) (auto simp: list_all_iff intro: plain_hex_string plain_uint)

lemma abi_arg_eqI: "abi_type a = abi_type b \<Longrightarrow> abi_values a = abi_values b \<Longrightarrow> a = b"
  by (cases a; cases b) (auto split: if_splits)

lemma abi_values_kind: "abi_type a = abi_type b \<Longrightarrow> isl (abi_values a) = isl (abi_values b)"
  by (cases a; cases b) simp_all

lemma abiArgKey_prefix [codec_inj]:
  assumes ok: "AbiArgSchema a" "AbiArgSchema b" and ty: "abi_type a = abi_type b" and "delim r" "delim q"
    and eq: "abiArgKey a @ r = abiArgKey b @ q"
  shows "a = b \<and> r = q"
proof (cases "abi_values a")
  case (Inl v)
  then obtain w where w: "abi_values b = Inl w" using abi_values_kind [OF ty] by (cases "abi_values b") auto
  have "escapeKeySegment v @ r = escapeKeySegment w @ q" using eq Inl w ty by (simp add: abiArgKey_def)
  with escape_prefix assms(4,5) have "v = w" "r = q" by blast+
  with Inl w ty show ?thesis by (simp add: abi_arg_eqI)
next
  case (Inr vs)
  then obtain ws where ws: "abi_values b = Inr ws" using abi_values_kind [OF ty] by (cases "abi_values b") auto
  have plain: "\<forall>v \<in> set vs. plain v" "\<forall>w \<in> set ws. plain w"
    using array_values_plain [OF ok(1) Inr] array_values_plain [OF ok(2) ws] by simp_all
  then have "map escapeKeySegment vs = vs" "map escapeKeySegment ws = ws"
    using escape_plain by (simp_all add: map_idI)
  then have "joinWith '';'' vs @ CHR '']'' # r = joinWith '';'' ws @ CHR '']'' # q"
    using eq Inr ws ty by (simp add: abiArgKey_def)
  then have "joinWith '';'' vs = joinWith '';'' ws" "r = q"
    using bracket_free [OF plain(1)] bracket_free [OF plain(2)] by (simp_all add: sep_append_inj)
  with joinWith_plain_inj [OF plain] Inr ws ty show ?thesis by (simp add: abi_arg_eqI)
qed

lemma abi_args_inj:
  assumes "list_all AbiArgSchema xs" and "list_all AbiArgSchema ys" and "map abi_type xs = map abi_type ys"
    and "joinWith '','' (map abiArgKey xs) = joinWith '','' (map abiArgKey ys)"
  shows "xs = ys"
  using assms
proof (induction xs arbitrary: ys)
  case (Cons x xs)
  then obtain y ys' where ys: "ys = y # ys'" by (cases ys) auto
  let ?rest = "\<lambda>zs. if zs = [] then [] else CHR '','' # joinWith '','' (map abiArgKey zs)"
  have "abiArgKey x @ ?rest xs = abiArgKey y @ ?rest ys'"
    using Cons.prems(4) ys by (simp add: joinWith_Cons split: if_split_asm)
  moreover have "delim (?rest zs)" for zs by (simp add: delim_def)
  moreover have "AbiArgSchema x" "AbiArgSchema y" "abi_type x = abi_type y" using Cons.prems ys by simp_all
  ultimately have xy: "x = y" "?rest xs = ?rest ys'" using abiArgKey_prefix by blast+
  have "xs = [] \<longleftrightarrow> ys' = []" using Cons.prems(3) ys by (metis list.map_disc_iff list.simps(9) list.inject)
  with xy(2) have "joinWith '','' (map abiArgKey xs) = joinWith '','' (map abiArgKey ys')" by (cases "xs = []") auto
  with Cons.IH [of ys'] Cons.prems ys xy(1) show ?case by simp
qed simp


lemma split_on_chars: "c \<in> set s \<Longrightarrow> c = d \<or> (\<exists>t \<in> set (split_on d s). c \<in> set t)"
proof (induction d s rule: split_on.induct)
  case (1 d s)
  show ?case
  proof (cases "dropWhile (\<lambda>x. x \<noteq> d) s")
    case Nil
    have "split_on d s = [s]" by (subst split_on.simps) (simp only: Nil list.case)
    then show ?thesis using "1.prems" by simp
  next
    case (Cons x rest)
    have split: "split_on d s = takeWhile (\<lambda>x. x \<noteq> d) s # split_on d rest"
      by (subst split_on.simps) (simp only: Cons list.case)
    have s: "s = takeWhile (\<lambda>x. x \<noteq> d) s @ x # rest" by (simp only: Cons [symmetric] takeWhile_dropWhile_id)
    have "x = d" using hd_dropWhile [of "\<lambda>x. x \<noteq> d" s] by (simp only: Cons list.sel) simp
    have "c \<in> set (takeWhile (\<lambda>x. x \<noteq> d) s @ x # rest)" using "1.prems" by (subst s [symmetric])
    then have "c \<in> set (takeWhile (\<lambda>x. x \<noteq> d) s) \<or> c = d \<or> c \<in> set rest"
      using \<open>x = d\<close> by auto
    then show ?thesis using "1.IH" [OF Cons] split by auto
  qed
qed

lemma signature_no_bar: "signature_ok f \<Longrightarrow> CHR ''|'' \<notin> set f"
proof
  assume ok: "signature_ok f" and bar: "CHR ''|'' \<in> set f"
  let ?nm = "takeWhile (\<lambda>c. c \<noteq> CHR ''('') f" and ?r = "dropWhile (\<lambda>c. c \<noteq> CHR ''('') f"
  have nm: "CHR ''|'' \<notin> set ?nm"
    using ok by (auto simp: signature_ok_def Let_def list_all_iff ident_char_def ident_start_def is_alpha_def)
  have params: "CHR ''|'' \<notin> set (signature_params f)"
  proof -
    have "\<not> type_char CHR ''|''" by (simp add: type_char_def is_alpha_def)
    then show ?thesis using ok split_on_chars [of "CHR ''|''" "signature_params f" "CHR '',''"]
      by (auto simp: signature_ok_def Let_def list_all_iff)
  qed
  have len: "length ?r \<ge> 2" "last ?r = CHR '')''" using ok by (auto simp: signature_ok_def Let_def)
  obtain x t where r: "?r = x # t" using len(1) by (cases ?r) simp_all
  have "t \<noteq> []" using len(1) unfolding r by auto
  then obtain b y where t: "t = b @ [y]" by (cases t rule: rev_cases) simp_all
  have x: "x = CHR ''(''" using hd_dropWhile [of "\<lambda>c. c \<noteq> CHR ''(''" f] by (simp only: r list.sel) simp
  have params_t: "signature_params f = butlast t" by (simp only: signature_params_def r list.sel)
  have "y = CHR '')''" using len(2) unfolding r t by simp
  moreover have "CHR ''|'' \<notin> set b" using params unfolding params_t t by simp
  ultimately have "CHR ''|'' \<notin> set t" unfolding t by simp
  then have "CHR ''|'' \<notin> set ?r" unfolding r using x by simp
  moreover have "set (?nm @ ?r) = set f" by (simp only: takeWhile_dropWhile_id)
  ultimately show False using nm bar by (metis Un_iff set_append)
qed

fun read_ok :: "state_read \<Rightarrow> bool" where
  "read_ok (ReadNative a) = AddressSchema a"
| "read_ok (ReadErc20 t a) = (AddressSchema t \<and> AddressSchema a)"
| "read_ok (ReadStorage a s) = (AddressSchema a \<and> Hex32Schema s)"
| "read_ok (ReadCall t c) = (AddressSchema t \<and> CallTargetSchema c)"

lemma plain_no_bar: "hex_string n s \<Longrightarrow> CHR ''|'' \<notin> set s"
  using plain_hex_string by (auto simp: plain_def)

lemma callTargetKey_inj:
  assumes "CallTargetSchema c" and "CallTargetSchema d" and "callTargetKey c = callTargetKey d"
  shows "c = d"
proof (cases c; cases d)
  fix dg f args dg' f' args'
  assume cd: "c = AbiCall dg f args" "d = AbiCall dg' f' args'"
  have no: "CHR ''|'' \<notin> set dg" "CHR ''|'' \<notin> set dg'" "CHR ''|'' \<notin> set f" "CHR ''|'' \<notin> set f'"
    using assms(1,2) cd hex_no_special(1) signature_no_bar by auto
  have "dg = dg'" "f = f'" "joinWith '','' (map abiArgKey args) = joinWith '','' (map abiArgKey args')"
    using assms(3) cd no by (simp_all add: sep_append_inj)
  with abi_args_inj [of args args'] assms(1,2) cd show ?thesis by simp
qed (use assms in simp_all)

lemma stateReadKey_inj:
  assumes "read_ok a" and "read_ok b" and "stateReadKey a = stateReadKey b"
  shows "a = b"
  using assms callTargetKey_inj
  by (cases a; cases b) (auto simp: sep_append_inj plain_no_bar)

section \<open>The projection contract\<close>

definition request_key :: "state_read_request \<Rightarrow> read_state \<times> string" where
  "request_key q = (rq_state q, rq_key q)"

definition wanted_reads :: "predicate list \<Rightarrow> (read_state \<times> string) set" where
  "wanted_reads ps = {(st, stateReadKey r) | p r st. p \<in> set ps \<and> predicate_state_read (pr_spec p) = Some (r, st)}"

lemma wanted_reads_Cons:
  "wanted_reads (p # ps) =
     (case predicate_state_read (pr_spec p) of None \<Rightarrow> {} | Some (r, st) \<Rightarrow> {(st, stateReadKey r)}) \<union> wanted_reads ps"
  by (auto simp: wanted_reads_def split: option.splits)

lemma add_state_reads_spec:
  assumes "set seen = request_key ` set requests"
  shows "request_key ` set (add_state_reads ps seen requests) = request_key ` set requests \<union> wanted_reads ps
    \<and> (distinct (map request_key requests) \<longrightarrow> distinct (map request_key (add_state_reads ps seen requests)))"
  using assms
proof (induction ps arbitrary: seen requests)
  case Nil
  then show ?case by (simp add: wanted_reads_def)
next
  case (Cons p ps)
  show ?case
  proof (cases "predicate_state_read (pr_spec p)")
    case None
    with Cons.IH [OF Cons.prems] show ?thesis by (simp add: wanted_reads_Cons)
  next
    case (Some rs)
    obtain r st where rs: "rs = (r, st)" by (cases rs)
    let ?req = "\<lparr>rq_key = stateReadKey r, rq_state = st, rq_read = r\<rparr>" and ?k = "(st, stateReadKey r)"
    have k: "request_key ?req = ?k" by (simp add: request_key_def)
    show ?thesis
    proof (cases "?k \<in> set seen")
      case True
      then have "?k \<in> request_key ` set requests" using Cons.prems by simp
      with Cons.IH [OF Cons.prems] Some rs True show ?thesis
        by (simp add: wanted_reads_Cons Let_def insert_absorb)
    next
      case False
      then have fresh: "?k \<notin> request_key ` set requests" using Cons.prems by simp
      have "set (?k # seen) = request_key ` set (requests @ [?req])" using Cons.prems k by simp
      from Cons.IH [OF this] Some rs False fresh k show ?thesis
        by (simp add: wanted_reads_Cons Let_def)
    qed
  qed
qed

lemma stateReadRequests_keys:
  "request_key ` set (stateReadRequests block) = wanted_reads (b_success block @ b_safety block)"
  "distinct (map request_key (stateReadRequests block))"
  using add_state_reads_spec [of "[]" "[]" "b_success block @ b_safety block"]
  by (simp_all add: stateReadRequests_def)

definition wanted_sources :: "predicate list \<Rightarrow> string set" where
  "wanted_sources ps =
     (\<Union>p \<in> set ps. case pr_spec p of SourceValue w r s cmp v tol \<Rightarrow> {sourceReadKey w r s} | _ \<Rightarrow> {})"

lemma wanted_sources_Cons:
  "wanted_sources (p # ps) =
     (case pr_spec p of SourceValue w r s cmp v tol \<Rightarrow> {sourceReadKey w r s} | _ \<Rightarrow> {}) \<union> wanted_sources ps"
  by (simp add: wanted_sources_def)

lemma wanted_sourcesI: "p \<in> set ps \<Longrightarrow> pr_spec p = SourceValue w r s cmp v tol \<Longrightarrow> sourceReadKey w r s \<in> wanted_sources ps"
  by (force simp: wanted_sources_def)

lemma add_source_reads_spec:
  assumes "set seen = srq_key ` set requests"
  shows "srq_key ` set (add_source_reads ps seen requests) = srq_key ` set requests \<union> wanted_sources ps
    \<and> (distinct (map srq_key requests) \<longrightarrow> distinct (map srq_key (add_source_reads ps seen requests)))"
  using assms
proof (induction ps arbitrary: seen requests)
  case Nil
  then show ?case by (simp add: wanted_sources_def)
next
  case (Cons p ps)
  show ?case
  proof (cases "\<exists>w r s cmp v tol. pr_spec p = SourceValue w r s cmp v tol")
    case True
    then obtain w r s cmp v tol where sv: "pr_spec p = SourceValue w r s cmp v tol" by blast
    let ?k = "sourceReadKey w r s"
    let ?req = "\<lparr>srq_key = ?k, srq_read = (w, r, s)\<rparr>"
    show ?thesis
    proof (cases "?k \<in> set seen")
      case True
      then have "?k \<in> srq_key ` set requests" using Cons.prems by simp
      with Cons.IH [OF Cons.prems] sv True show ?thesis
        by (simp add: wanted_sources_Cons Let_def insert_absorb)
    next
      case False
      then have fresh: "?k \<notin> srq_key ` set requests" using Cons.prems by simp
      have "set (?k # seen) = srq_key ` set (requests @ [?req])" using Cons.prems by simp
      from Cons.IH [OF this] sv False fresh show ?thesis by (simp add: wanted_sources_Cons Let_def)
    qed
  next
    case False
    then have "add_source_reads (p # ps) seen requests = add_source_reads ps seen requests"
      "wanted_sources (p # ps) = wanted_sources ps"
      by (auto simp: wanted_sources_Cons split: predicate_spec.splits)
    with Cons.IH [OF Cons.prems] show ?thesis by simp
  qed
qed

lemma sourceReadRequests_keys:
  "srq_key ` set (sourceReadRequests block) = wanted_sources (b_success block @ b_safety block)"
  "distinct (map srq_key (sourceReadRequests block))"
  using add_source_reads_spec [of "[]" "[]" "b_success block @ b_safety block"]
  by (simp_all add: sourceReadRequests_def)

definition source_lookup :: "chain_observation \<Rightarrow> string \<Rightarrow> source_read_obs option" where
  "source_lookup obs key = find (\<lambda>e. so_key e = key) (co_sourceReads obs)"

text \<open>Two observations that differ in their state and source reads only.\<close>

definition same_but_reads :: "chain_observation \<Rightarrow> chain_observation \<Rightarrow> bool" where
  "same_but_reads a b \<longleftrightarrow> a\<lparr>co_stateReads := [], co_sourceReads := []\<rparr> = b\<lparr>co_stateReads := [], co_sourceReads := []\<rparr>"

lemma same_but_readsD:
  assumes "same_but_reads a b"
  shows "co_environmentRecord a = co_environmentRecord b" "co_informationWorlds a = co_informationWorlds b"
    "co_replay a = co_replay b" "co_timeline a = co_timeline b" "co_transactions a = co_transactions b"
    "co_consultations a = co_consultations b" "co_reports a = co_reports b" "all_logs a = all_logs b"
  using assms by (cases a; cases b; simp add: same_but_reads_def all_logs_def)+

lemma tx_outcome_same: "co_transactions a = co_transactions b \<Longrightarrow> evaluateTxOutcome a sel st = evaluateTxOutcome b sel st"
  by (cases sel) simp_all

lemma budget_same: "co_transactions a = co_transactions b \<Longrightarrow> budget_observed a m = budget_observed b m"
  by (cases m) simp_all

lemmas pure_evaluators = evaluateEventEmitted_def evaluateEventForbidden_def countMatchingLogs_def
  evaluateAddressForbidden_def evaluateApprovalConstraint_def evaluateBudget_def evaluateTimeBound_def
  blocksElapsed_def chainSecondsElapsed_def consultation_count_def

lemma evaluateRead_same:
  "resolveStateRead a (stateReadKey r) PostReplay = resolveStateRead b (stateReadKey r) PostReplay
    \<Longrightarrow> evaluateRead a r d n = evaluateRead b r d n"
  by (simp only: evaluateRead_def)

lemma evaluateReportedValue_same:
  assumes "co_reports a = co_reports b"
    and "\<And>st'. st' = (case st of None \<Rightarrow> Baseline | Some s \<Rightarrow> s) \<Longrightarrow>
      resolveStateRead a (stateReadKey (ReadCall (gt_to g) (gt_call g))) st'
      = resolveStateRead b (stateReadKey (ReadCall (gt_to g) (gt_call g))) st'"
  shows "evaluateReportedValue a nm n g st = evaluateReportedValue b nm n g st"
  unfolding evaluateReportedValue_def Let_def assms(1) assms(2) [OF refl] ..

lemma evaluatePredicate_same:
  assumes "same_but_reads a b"
    and reads: "\<And>r st. predicate_state_read p = Some (r, st) \<Longrightarrow> resolveStateRead a (stateReadKey r) st = resolveStateRead b (stateReadKey r) st"
    and sources: "\<And>w r s cmp v tol. p = SourceValue w r s cmp v tol \<Longrightarrow> source_lookup a (sourceReadKey w r s) = source_lookup b (sourceReadKey w r s)"
  shows "evaluatePredicate a p = evaluatePredicate b p"
proof -
  note same = same_but_readsD [OF assms(1)]
  show ?thesis
  proof (cases p)
    case (ReportedValue nm n g st)
    have "evaluateReportedValue a nm n g st = evaluateReportedValue b nm n g st"
      by (rule evaluateReportedValue_same [OF same(7)]) (rule reads, simp add: ReportedValue)
    then show ?thesis by (simp add: ReportedValue)
  next
    case (SourceValue w r s cmp v tol)
    have "evaluateSourceValue a w r s cmp v tol = evaluateSourceValue b w r s cmp v tol"
      using sources [OF SourceValue] unfolding evaluateSourceValue_def source_lookup_def by (rule arg_cong)
    then show ?thesis by (simp add: SourceValue)
  next
    case (NativeBalance x n)
    show ?thesis unfolding NativeBalance evaluatePredicate.simps
      by (rule evaluateRead_same, rule reads) (simp add: NativeBalance)
  next
    case (Erc20Balance t x n)
    show ?thesis unfolding Erc20Balance evaluatePredicate.simps
      by (rule evaluateRead_same, rule reads) (simp add: Erc20Balance)
  next
    case (CallResult t c d n)
    show ?thesis unfolding CallResult evaluatePredicate.simps
      by (rule evaluateRead_same, rule reads) (simp add: CallResult)
  next
    case (StorageValue x t d n)
    show ?thesis unfolding StorageValue evaluatePredicate.simps
      by (rule evaluateRead_same, rule reads) (simp add: StorageValue)
  qed (simp_all add: same pure_evaluators tx_outcome_same [OF same(5)] budget_same [OF same(5)] split: time_metric.split)
qed

lemma observeMeasurement_same: "same_but_reads a b \<Longrightarrow> observeMeasurement a m = observeMeasurement b m"
proof -
  assume "same_but_reads a b"
  note same = same_but_readsD [OF this]
  show ?thesis by (cases m) (simp_all add: same pure_evaluators budget_same)
qed

lemma evaluateMeasurement_same: "same_but_reads a b \<Longrightarrow> evaluateMeasurement a m = evaluateMeasurement b m"
  by (cases "(a, m)" rule: evaluateMeasurement.cases) (simp_all add: same_but_readsD consultation_count_def Let_def)


lemma wanted_readsI:
  "p \<in> set ps \<Longrightarrow> predicate_state_read (pr_spec p) = Some (r, st) \<Longrightarrow> (st, stateReadKey r) \<in> wanted_reads ps"
  by (auto simp: wanted_reads_def)

definition agree_on_requests :: "predicate_block \<Rightarrow> chain_observation \<Rightarrow> chain_observation \<Rightarrow> bool" where
  "agree_on_requests block a b \<longleftrightarrow>
     (\<forall>q \<in> set (stateReadRequests block). resolveStateRead a (rq_key q) (rq_state q) = resolveStateRead b (rq_key q) (rq_state q))
     \<and> (\<forall>q \<in> set (sourceReadRequests block). source_lookup a (srq_key q) = source_lookup b (srq_key q))"

lemma evaluatePredicate_projected:
  assumes same: "same_but_reads a b" and agree: "agree_on_requests block a b"
    and p: "p \<in> set (b_success block @ b_safety block)"
  shows "evaluatePredicate a (pr_spec p) = evaluatePredicate b (pr_spec p)"
proof (rule evaluatePredicate_same [OF same])
  fix r st
  assume "predicate_state_read (pr_spec p) = Some (r, st)"
  then have "(st, stateReadKey r) \<in> request_key ` set (stateReadRequests block)"
    using wanted_readsI [OF p] by (simp add: stateReadRequests_keys(1))
  then show "resolveStateRead a (stateReadKey r) st = resolveStateRead b (stateReadKey r) st"
    using agree by (auto simp: agree_on_requests_def request_key_def)
next
  fix w r s cmp v tol
  assume "pr_spec p = SourceValue w r s cmp v tol"
  then have "sourceReadKey w r s \<in> srq_key ` set (sourceReadRequests block)"
    using wanted_sourcesI [OF p] by (simp add: sourceReadRequests_keys(1))
  then show "source_lookup a (sourceReadKey w r s) = source_lookup b (sourceReadKey w r s)"
    using agree by (auto simp: agree_on_requests_def)
qed

lemma entries_cong: "(\<And>p. p \<in> set ps \<Longrightarrow> f (pr_spec p) = g (pr_spec p)) \<Longrightarrow> entries sl f ps = entries sl g ps"
  by (auto simp: entries_def enumerate_eq_zip dest: set_zip_rightD)

section \<open>The verdict\<close>

lemma filter_entries: "filter (\<lambda>e. pe_slot e = sl) (entries sl' f ps) = (if sl = sl' then entries sl' f ps else [])"
  by (auto simp: entries_def filter_id_conv filter_empty_conv)

lemma filter_measurement_entries: "sl \<noteq> MeasurementSlot \<Longrightarrow> filter (\<lambda>e. pe_slot e = sl) (measurement_entries obs ms) = []"
  by (auto simp: measurement_entries_def List.map_filter_def filter_empty_conv)

lemma set_enumerate_snd: "snd ` set (enumerate n xs) = set xs"
  by (metis list.set_map map_snd_enumerate)

lemma entries_states:
  "list_all (\<lambda>e. P (pe_result e)) (entries sl f ps) \<longleftrightarrow> (\<forall>p \<in> set ps. P (f (pr_spec p)))"
  "list_ex (\<lambda>e. P (pe_result e)) (entries sl f ps) \<longleftrightarrow> (\<exists>p \<in> set ps. P (f (pr_spec p)))"
proof -
  have "list_all (\<lambda>e. P (pe_result e)) (entries sl f ps) \<longleftrightarrow> (\<forall>p \<in> snd ` set (enumerate 0 ps). P (f (pr_spec p)))"
    by (auto simp: entries_def list_all_iff)
  then show "list_all (\<lambda>e. P (pe_result e)) (entries sl f ps) \<longleftrightarrow> (\<forall>p \<in> set ps. P (f (pr_spec p)))"
    by (simp only: set_enumerate_snd)
  have "list_ex (\<lambda>e. P (pe_result e)) (entries sl f ps) \<longleftrightarrow> (\<exists>p \<in> snd ` set (enumerate 0 ps). P (f (pr_spec p)))"
    by (force simp: entries_def list_ex_iff)
  then show "list_ex (\<lambda>e. P (pe_result e)) (entries sl f ps) \<longleftrightarrow> (\<exists>p \<in> set ps. P (f (pr_spec p)))"
    by (simp only: set_enumerate_snd)
qed

definition state_of :: "chain_observation \<Rightarrow> predicate \<Rightarrow> predicate_state" where
  "state_of obs p = er_state (evaluatePredicate obs (pr_spec p))"

lemma evaluationOutcome_flags:
  "out_successPredicatesSatisfied (evaluationOutcome obs b) \<longleftrightarrow> (\<forall>p \<in> set (b_success b). state_of obs p = Satisfied)"
  "out_safetyConstraintsViolated (evaluationOutcome obs b) \<longleftrightarrow> (\<exists>p \<in> set (b_safety b). state_of obs p = Violated)"
  "out_unevaluable (evaluationOutcome obs b) \<longleftrightarrow>
     (\<exists>p \<in> set (b_success b @ b_safety b). state_of obs p = Unevaluable)"
  unfolding evaluationOutcome_def Let_def predicate_outcome.simps
  by (simp_all add: filter_entries filter_measurement_entries entries_states [of "\<lambda>r. er_state r = s" for s] state_of_def)
    blast

lemma measurements_verdict:
  "evaluateVerdictRule STATE_PREDICATE_VERDICT_RULE (computeMeasurements obs block satisfied violated uneval)
    = Inr (if uneval then \<lparr>vo_verdict = Inconclusive, vo_inconclusiveClass = Some STATE_PREDICATE_UNEVALUABLE_CLASS\<rparr>
           else \<lparr>vo_verdict = (if satisfied \<and> \<not> violated then Pass else Fail), vo_inconclusiveClass = None\<rparr>)"
  by (cases uneval; cases satisfied; cases violated)
    (simp_all add: evaluateVerdictRule_def STATE_PREDICATE_VERDICT_RULE_def computeMeasurements_def put_measurement_def
      lookupMeasurement_def compare_scalar_def compareDecimal_def update_conv' Let_def)

lemma out_measurements_eq:
  "out_measurements (evaluationOutcome obs b) =
     computeMeasurements obs b (out_successPredicatesSatisfied (evaluationOutcome obs b))
       (out_safetyConstraintsViolated (evaluationOutcome obs b)) (out_unevaluable (evaluationOutcome obs b))"
  unfolding evaluationOutcome_def Let_def predicate_outcome.simps ..


section \<open>Approvals\<close>

lemma approvalLoop_satisfied:
  assumes "\<And>l r. step l = Some r \<Longrightarrow> er_state r \<noteq> Satisfied" and "er_state (approvalLoop step ls) = Satisfied"
  shows "\<forall>l \<in> set ls. step l = None"
  using assms(2) by (induction ls) (auto split: option.splits dest: assms(1))

lemma approvalStep_not_satisfied: "approvalStep t own nu sp mx l = Some r \<Longrightarrow> er_state r \<noteq> Satisfied"
  by (auto simp: approvalStep_def Let_def split: if_splits option.splits)

text \<open>The approval logs a constraint speaks about.\<close>

definition approval_in_scope :: "string option \<Rightarrow> string option \<Rightarrow> log_observation \<Rightarrow> bool" where
  "approval_in_scope token owner l \<longleftrightarrow>
     elem_at (lg_topics l) 0 = Some APPROVAL_TOPIC0
     \<and> (token = None \<or> token = Some (lg_address l))
     \<and> (owner = None \<or> elem_at (lg_topics l) 1 = Some (addressToTopicWord (the owner)))"

lemma hex_not_decimal: "HexSchema v \<Longrightarrow> parseDecimal v = None"
proof -
  assume "HexSchema v"
  then obtain t where "v = CHR ''0'' # CHR ''x'' # t" using starts0x [of v] by (auto simp: HexSchema_def)
  then show ?thesis by (simp add: parseDecimal_def DECIMAL_STRING_PATTERN_def startsWith_def)
qed

section \<open>Properties\<close>

text \<open>
  C32: The verdict of a state-predicate block. For valid documents, the mandated verdict rule over the
  measurements the evaluator delivers is \<open>inconclusive\<close> exactly when the environment does not match,
  the replay did not complete or some success or safety predicate is unevaluable; otherwise it is
  \<open>pass\<close> exactly when every success predicate is satisfied and no safety constraint is violated.
\<close>

theorem state_predicate_verdict:
  assumes "evaluatePredicates obs block = Inr out"
  shows "evaluateVerdictRule STATE_PREDICATE_VERDICT_RULE (out_measurements out) =
    Inr (if env_sha256 (b_environmentRecord block) \<noteq> Some (drop 7 (co_environmentRecord obs))
            \<or> co_replay obs \<noteq> Completed
            \<or> (\<exists>p \<in> set (b_success block @ b_safety block). state_of obs p = Unevaluable)
         then \<lparr>vo_verdict = Inconclusive, vo_inconclusiveClass = Some ''state-predicate-unevaluable''\<rparr>
         else \<lparr>vo_verdict =
                 (if (\<forall>p \<in> set (b_success block). state_of obs p = Satisfied)
                     \<and> \<not> (\<exists>p \<in> set (b_safety block). state_of obs p = Violated) then Pass else Fail),
               vo_inconclusiveClass = None\<rparr>)"
proof -
  have valid: "CanonicalChainObservationSchema obs" "StatePredicateBlockSchema block"
    using assms by (auto simp: evaluatePredicates_def split: if_splits)
  then obtain h where h: "env_sha256 (b_environmentRecord block) = Some h" "list_all is_hex h"
    by (auto simp: StatePredicateBlockSchema_def EnvironmentRecordDescriptorSchema_def split: option.splits)
  have "\<not> startsWith h ''sha256:''"
  proof
    assume "startsWith h ''sha256:''"
    then have "take (length ''sha256:'') h = ''sha256:''" by (simp only: startsWith_def)
    then have "CHR ''s'' \<in> set h" by (metis in_set_takeD list.set_intros(1))
    with h(2) show False by (auto simp: list_all_iff is_hex_def)
  qed
  moreover have "bareHex (co_environmentRecord obs) = drop 7 (co_environmentRecord obs)"
    using valid(1) by (simp add: CanonicalChainObservationSchema_def sha256_uri_def bareHex_def)
  ultimately have out: "out =
    (if h \<noteq> drop 7 (co_environmentRecord obs) then wholeOutcomeUnevaluable obs block EnvironmentMismatch
     else if co_replay obs \<noteq> Completed then wholeOutcomeUnevaluable obs block ReplayNotCompleted
     else evaluationOutcome obs block)"
    using assms valid h(1) by (auto simp: evaluatePredicates_def bareHex_def Let_def)
  show ?thesis
  proof (cases "h \<noteq> drop 7 (co_environmentRecord obs) \<or> co_replay obs \<noteq> Completed")
    case True
    then have "out_measurements out = computeMeasurements obs block False False True"
      using out by (auto simp: wholeOutcomeUnevaluable_def)
    with True h(1) show ?thesis by (simp add: measurements_verdict STATE_PREDICATE_UNEVALUABLE_CLASS_def)
  next
    case False
    then have "out = evaluationOutcome obs block" using out by simp
    with False h(1) show ?thesis
      by (simp add: out_measurements_eq measurements_verdict evaluationOutcome_flags STATE_PREDICATE_UNEVALUABLE_CLASS_def)
  qed
qed

definition ex_env :: string where
  "ex_env = replicate 64 CHR ''a''"

definition ex_block :: "predicate list \<Rightarrow> predicate list \<Rightarrow> predicate_block" where
  "ex_block succ safe =
     \<lparr>b_environmentRecord = \<lparr>env_sha256 = Some ex_env, env_content = False, env_mediaType = Some CRYPTO_ENVIRONMENT_MEDIA_TYPE\<rparr>,
      b_semanticsVersion = ''1'', b_success = succ, b_safety = safe, b_measurements = [],
      b_envelopeTightenings = None, b_timeout = 600\<rparr>"

definition ex_obs :: "state_read_obs list \<Rightarrow> chain_observation" where
  "ex_obs reads =
     \<lparr>co_environmentRecord = ''sha256:'' @ ex_env, co_informationWorlds = [], co_replay = Completed,
      co_timeline = \<lparr>tl_initialBlock = ''5'', tl_initialTimestamp = ''10'', tl_finalBlock = ''7'', tl_finalTimestamp = ''30''\<rparr>,
      co_transactions = [], co_stateReads = reads, co_sourceReads = [], co_consultations = [], co_reports = []\<rparr>"

definition ex_pred :: "predicate_spec \<Rightarrow> predicate" where
  "ex_pred s = \<lparr>pr_label = None, pr_spec = s\<rparr>"

theorem state_predicate_verdict_witness:
  "map_sum id (\<lambda>out. evaluateVerdictRule STATE_PREDICATE_VERDICT_RULE (out_measurements out))
     (evaluatePredicates (ex_obs []) (ex_block [ex_pred (TimeBound WithinBlocks ''2'')] []))
   = Inr (Inr \<lparr>vo_verdict = Pass, vo_inconclusiveClass = None\<rparr>)"
proof -
  let ?o = "ex_obs []" and ?b = "ex_block [ex_pred (TimeBound WithinBlocks ''2'')] []"
  have "\<exists>out. evaluatePredicates ?o ?b = Inr out"
  proof -
    have "CanonicalChainObservationSchema ?o" "StatePredicateBlockSchema ?b" by code_simp+
    then show ?thesis by (simp add: evaluatePredicates_def Let_def)
  qed
  then obtain out where out: "evaluatePredicates ?o ?b = Inr out" by blast
  have "state_of ?o (ex_pred (TimeBound WithinBlocks ''2'')) = Satisfied" by code_simp
  moreover have "env_sha256 (b_environmentRecord ?b) = Some (drop 7 (co_environmentRecord ?o))" "co_replay ?o = Completed"
    "b_success ?b = [ex_pred (TimeBound WithinBlocks ''2'')]" "b_safety ?b = []"
    by (simp_all add: ex_block_def ex_obs_def)
  ultimately show ?thesis using state_predicate_verdict [OF out] out by simp
qed

text \<open>
  C33: The projection contract. The state read requests of a block have distinct (state, key) pairs and its source read
  requests distinct keys, and together they are complete: two observations that agree everywhere except in their state and source reads,
  and agree on what the requested reads resolve to, are judged alike, predicate by predicate.
\<close>

theorem projection_contract:
  assumes "same_but_reads a b" and "agree_on_requests block a b"
  shows "distinct (map (\<lambda>q. (rq_state q, rq_key q)) (stateReadRequests block))
    \<and> distinct (map srq_key (sourceReadRequests block))
    \<and> evaluationOutcome a block = evaluationOutcome b block"
proof (intro conjI)
  show "distinct (map (\<lambda>q. (rq_state q, rq_key q)) (stateReadRequests block))"
    using stateReadRequests_keys(2) [of block] by (simp add: request_key_def [abs_def])
  show "distinct (map srq_key (sourceReadRequests block))" by (rule sourceReadRequests_keys(2))
  note same = same_but_readsD [OF assms(1)]
  have success: "entries SuccessSlot (evaluatePredicate a) (b_success block) = entries SuccessSlot (evaluatePredicate b) (b_success block)"
    and safety: "entries SafetySlot (evaluatePredicate a) (b_safety block) = entries SafetySlot (evaluatePredicate b) (b_safety block)"
    using evaluatePredicate_projected [OF assms] by (auto intro!: entries_cong)
  have "measurement_entries a ms = measurement_entries b ms" for ms
    by (simp only: measurement_entries_def evaluateMeasurement_same [OF assms(1)])
  moreover have "computeMeasurements a block x y z = computeMeasurements b block x y z" for x y z
    by (simp only: computeMeasurements_def observeMeasurement_same [OF assms(1)])
  ultimately show "evaluationOutcome a block = evaluationOutcome b block"
    by (simp only: evaluationOutcome_def success safety same)
qed

text \<open>
  A block that asks for one storage word twice and for one value of an information world, and two observations that
  resolve both alike, each with a read the block does not ask for.
\<close>

definition ex_reading_block :: predicate_block where
  "ex_reading_block =
     ex_block
       [ex_pred (StorageValue ''0xa'' ''0x0'' Uint256 \<lparr>n_cmp = Cmp Gte, n_value = ''1'', n_tolerance = None\<rparr>),
        ex_pred (StorageValue ''0xa'' ''0x0'' Uint256 \<lparr>n_cmp = Cmp Lte, n_value = ''9'', n_tolerance = None\<rparr>),
        ex_pred (SourceValue ''w'' ''r'' ''s'' (Cmp Eq) (VStr ''up'') None)] []"

definition ex_reads :: "string \<Rightarrow> chain_observation" where
  "ex_reads other =
     (ex_obs [\<lparr>sr_key = other, sr_state = PostReplay, sr_resolution = Unavailable, sr_value = None\<rparr>,
        \<lparr>sr_key = stateReadKey (ReadStorage ''0xa'' ''0x0''), sr_state = PostReplay, sr_resolution = Resolved,
          sr_value = Some (''0x'' @ replicate 63 CHR ''0'' @ ''5'')\<rparr>])
      \<lparr>co_informationWorlds := [''w''],
       co_sourceReads := [\<lparr>so_key = other, so_resolution = Miss, so_value = None\<rparr>,
         \<lparr>so_key = sourceReadKey ''w'' ''r'' ''s'', so_resolution = Resolved, so_value = Some (VStr ''up'')\<rparr>]\<rparr>"

theorem projection_contract_witness:
  "length (stateReadRequests ex_reading_block) = 1 \<and> length (sourceReadRequests ex_reading_block) = 1
   \<and> ex_reads ''p'' \<noteq> ex_reads ''q''
   \<and> evaluationOutcome (ex_reads ''p'') ex_reading_block = evaluationOutcome (ex_reads ''q'') ex_reading_block"
proof -
  have "length (stateReadRequests ex_reading_block) = 1" "length (sourceReadRequests ex_reading_block) = 1" by code_simp+
  moreover have "ex_reads ''p'' \<noteq> ex_reads ''q''" by (simp add: ex_reads_def ex_obs_def)
  moreover have "same_but_reads (ex_reads ''p'') (ex_reads ''q'')" by (simp add: same_but_reads_def ex_reads_def ex_obs_def)
  moreover have "agree_on_requests ex_reading_block (ex_reads ''p'') (ex_reads ''q'')"
    unfolding agree_on_requests_def by code_simp
  ultimately show ?thesis using projection_contract by blast
qed

text \<open>
  Read keys are unambiguous: two schema-valid state reads with one key are the same read, and a
  source read key determines world, request key and selector whatever characters they contain.
\<close>

theorem read_keys_injective:
  shows "(read_ok a \<longrightarrow> read_ok b \<longrightarrow> stateReadKey a = stateReadKey b \<longrightarrow> a = b)
    \<and> (sourceReadKey w r s = sourceReadKey w' r' s' \<longleftrightarrow> w = w' \<and> r = r' \<and> s = s')"
proof
  show "read_ok a \<longrightarrow> read_ok b \<longrightarrow> stateReadKey a = stateReadKey b \<longrightarrow> a = b"
    using stateReadKey_inj by blast
  show "sourceReadKey w r s = sourceReadKey w' r' s' \<longleftrightarrow> w = w' \<and> r = r' \<and> s = s'"
  proof
    assume "sourceReadKey w r s = sourceReadKey w' r' s'"
    then have eq: "escapeKeySegment w @ CHR ''|'' # escapeKeySegment r @ CHR ''|'' # escapeKeySegment s
      = escapeKeySegment w' @ CHR ''|'' # escapeKeySegment r' @ CHR ''|'' # escapeKeySegment s'"
      by (simp add: sourceReadKey_def)
    from escape_prefix [OF _ _ eq] have w: "w = w'"
      and eq': "escapeKeySegment r @ CHR ''|'' # escapeKeySegment s = escapeKeySegment r' @ CHR ''|'' # escapeKeySegment s'"
      by auto
    from escape_prefix [OF _ _ eq'] have r: "r = r'" and eq'': "escapeKeySegment s @ [] = escapeKeySegment s' @ []"
      by auto
    from escape_prefix [OF _ _ eq''] w r show "w = w' \<and> r = r' \<and> s = s'" by simp
  qed simp
qed

theorem read_keys_injective_witness:
  "stateReadKey (ReadNative (''0x'' @ replicate 40 CHR ''1'')) \<noteq> stateReadKey (ReadNative (''0x'' @ replicate 40 CHR ''2''))
   \<and> sourceReadKey ''a|b'' ''c'' ''d'' \<noteq> sourceReadKey ''a'' ''b|c'' ''d''"
proof -
  let ?a = "ReadNative (''0x'' @ replicate 40 CHR ''1'')" and ?b = "ReadNative (''0x'' @ replicate 40 CHR ''2'')"
  have ok: "read_ok ?a" "read_ok ?b" "?a \<noteq> ?b" by code_simp+
  show ?thesis
    using read_keys_injective [of ?a ?b "''a|b''" "''c''" "''d''" "''a''" "''b|c''" "''d''"] ok by auto
qed

text \<open>
  A \<open>callResult\<close> or \<open>storageValue\<close> predicate that decodes \<open>raw\<close> can never be judged: the schema
  demands a hexadecimal expected value, the evaluator compares it as a decimal, and whatever the
  observation holds the predicate is unevaluable.
\<close>

theorem raw_decoding_unevaluable:
  assumes "PredicateSchema p" and "p = CallResult t c Raw n \<or> p = StorageValue t c' Raw n"
  shows "er_state (evaluatePredicate obs p) = Unevaluable"
proof -
  have hexv: "HexSchema (n_value n)" and cmp: "n_cmp n = Cmp Eq \<or> n_cmp n = Cmp Ne"
    using assms by (auto simp: decoded_numeric_ok_def refineDecodeCmpValue_def)
  have "parseDecimal (n_value n) = None" by (rule hex_not_decimal [OF hexv])
  then have "compareDecimalBy (n_cmp n) v (n_value n) tol = None" for v tol
    using cmp by (auto simp: compareDecimalBy_def compareDecimalExact_def alignedPair_def split: option.splits)
  then have "er_state (evaluateRead obs r Raw n) = Unevaluable" for r
    by (simp add: evaluateRead_def evaluateDecodedComparison_def split: sum.split)
  with assms(2) show ?thesis by auto
qed

theorem raw_decoding_unevaluable_witness:
  "let a = ''0x'' @ replicate 40 CHR ''1''; w = ''0x'' @ replicate 64 CHR ''2'';
       p = StorageValue a w Raw \<lparr>n_cmp = Cmp Eq, n_value = w, n_tolerance = None\<rparr>;
       obs = ex_obs [\<lparr>sr_key = stateReadKey (ReadStorage a w), sr_state = PostReplay, sr_resolution = Resolved, sr_value = Some w\<rparr>]
   in er_state (evaluatePredicate obs p) = Unevaluable"
proof -
  let ?a = "''0x'' @ replicate 40 CHR ''1''" and ?w = "''0x'' @ replicate 64 CHR ''2''"
  let ?n = "\<lparr>n_cmp = Cmp Eq, n_value = ?w, n_tolerance = None\<rparr>"
  have "PredicateSchema (StorageValue ?a ?w Raw ?n)" by code_simp
  from raw_decoding_unevaluable [OF this] show ?thesis unfolding Let_def by blast
qed

text \<open>
  C34: A satisfied approval constraint means what it says. In a satisfied constraint every approval
  event in scope is harmless: with \<open>noUnlimited\<close> its amount is a readable word other than the
  unlimited one; a grant (a readable non-zero amount) names an allowed spender when there is an
  allow-list; and a grant does not exceed \<open>maxAllowance\<close>.
\<close>

theorem approval_constraint_sound:
  assumes "er_state (evaluateApprovalConstraint obs token owner noUnlimited allowed maxAllowance) = Satisfied"
    and "l \<in> set (all_logs obs)" and "approval_in_scope token owner l"
  shows "(noUnlimited \<longrightarrow> (\<exists>w. dataWord (lg_data l) 0 = Some w \<and> w \<noteq> UNLIMITED_UINT256_WORD))
    \<and> (\<forall>w. dataWord (lg_data l) 0 = Some w \<and> w \<noteq> ZERO_UINT256_WORD \<longrightarrow>
         (\<forall>sp. allowed = Some sp \<longrightarrow> (\<exists>t a. elem_at (lg_topics l) 2 = Some t \<and> topicWordToAddress t = Some a \<and> a \<in> set sp))
         \<and> (\<forall>mx. maxAllowance = Some mx \<longrightarrow> (\<exists>v. decodeUint256 w = Some v \<and> BigInt v \<le> BigInt mx)))"
proof -
  have none: "approvalStep token owner noUnlimited allowed maxAllowance l = None"
  proof (rule bspec [OF approvalLoop_satisfied assms(2)])
    show "er_state r \<noteq> Satisfied" if "approvalStep token owner noUnlimited allowed maxAllowance l = Some r" for l r
      using that by (rule approvalStep_not_satisfied)
    show "er_state (approvalLoop (approvalStep token owner noUnlimited allowed maxAllowance) (all_logs obs)) = Satisfied"
      using assms(1) by (simp only: evaluateApprovalConstraint_def)
  qed
  have scope: "elem_at (lg_topics l) 0 = Some APPROVAL_TOPIC0" "\<not> (token \<noteq> None \<and> token \<noteq> Some (lg_address l))"
    "\<not> (owner \<noteq> None \<and> elem_at (lg_topics l) 1 \<noteq> Some (addressToTopicWord (the owner)))"
    using assms(3) by (auto simp: approval_in_scope_def)
  show ?thesis
  proof (cases "dataWord (lg_data l) 0")
    case None
    with none scope show ?thesis by (simp add: approvalStep_def split: if_splits)
  next
    case (Some w)
    with none scope show ?thesis
      by (auto simp: approvalStep_def compareUint_def Let_def split: if_splits option.splits)
  qed
qed

definition ex_approval :: "string \<Rightarrow> chain_observation" where
  "ex_approval amount = (ex_obs [])\<lparr>co_transactions :=
     [\<lparr>tx_index = ''0'', tx_to = None, tx_valueWei = ''0'', tx_status_of = Success, tx_gasUsed = ''1'',
       tx_logs = [\<lparr>lg_address = ''0x'' @ replicate 40 CHR ''1'',
                   lg_topics = [APPROVAL_TOPIC0, ZERO_UINT256_WORD, ZERO_UINT256_WORD], lg_data = amount\<rparr>]\<rparr>]\<rparr>"

theorem approval_constraint_sound_witness:
  "let amount = ''0x'' @ replicate 63 CHR ''0'' @ ''5'' in
   \<exists>w. dataWord amount 0 = Some w \<and> w \<noteq> UNLIMITED_UINT256_WORD"
proof -
  let ?amount = "''0x'' @ replicate 63 CHR ''0'' @ ''5''"
  let ?l = "\<lparr>lg_address = ''0x'' @ replicate 40 CHR ''1'',
             lg_topics = [APPROVAL_TOPIC0, ZERO_UINT256_WORD, ZERO_UINT256_WORD], lg_data = ?amount\<rparr>"
  have "er_state (evaluateApprovalConstraint (ex_approval ?amount) None None True None (Some ''10'')) = Satisfied"
    by code_simp
  moreover have "?l \<in> set (all_logs (ex_approval ?amount))" by (simp add: ex_approval_def all_logs_def)
  moreover have "approval_in_scope None None ?l" by (simp add: approval_in_scope_def elem_at_def)
  ultimately show ?thesis using approval_constraint_sound by fastforce
qed

end
