(* ===== verification/Curation.thy ===== *)
theory Curation
  imports Complex_Main Calendar_Time
begin

text \<open>
  The curation projection of task supply (task-supply/curation/src: schema.ts, observation.ts,
  projection.ts and saturation.ts): announced verdicts folded into one row per (task, bucket), with the
  announcements that fed each row.

  \<^item> a \<open>Map\<close> is an association list in insertion order; a thrown \<open>CurationInputError\<close> is an \<open>Inl\<close>;
  \<^item> the zod schemas are the predicates \<open>CurationObservationSchema\<close> and \<open>CurationRowSchema\<close>; counters are
    natural numbers;
  \<^item> \<open>ref_key\<close> is the join that \<open>refDedupeKey\<close> returns once it has checked the components.

  The theorems: the projection depends only on the set of observations, so redelivery and arrival
  order do not matter; folding in two steps through stored state gives what one fold gives; stored
  state the projector wrote is read back unchanged; the dedupe key is injective; and the comparison of
  a rate with a threshold is exact.
\<close>

section \<open>Data\<close>

datatype curation_error =
    MalformedObservation
  | MalformedRow nat
  | BadKeyComponent
  | NotAnInstant string
  | RefsRepeat nat
  | VerdictsMismatch nat
  | AttemptsMismatch nat
  | NotASubCount nat
  | WindowNotOrdered nat
  | DuplicateRow string string
  | FeedsTwoRows string
  | ConflictingField string
  | BadThreshold
  | RateOutOfRange

datatype observed_verdict = VPass | VFail | VInconclusive

datatype curation_bucket = Benchmark | Organic

record input_ref =
  ref_agent :: string
  ref_name :: string
  ref_entry :: string
  ref_announcementId :: string
  ref_record :: string
  ref_attemptUri :: string

record curation_observation =
  cu_taskDigest :: string
  cu_verdict :: observed_verdict
  cu_observedAt :: string
  cu_attribution :: string
  cu_benchmarkRun :: "string option"
  cu_ref :: input_ref

record ratio =
  rat_num :: nat
  rat_den :: nat

record curation_row =
  row_taskDigest :: string
  row_bucket :: curation_bucket
  row_attempts :: nat
  row_verdicts :: nat
  row_passRate :: ratio
  row_first :: string
  row_last :: string
  row_inputRefs :: "input_ref list"

section \<open>Schemas and keys\<close>

definition hasControlCharacter :: "string \<Rightarrow> bool" where
  "hasControlCharacter s = list_ex (\<lambda>c. (of_char c :: nat) \<le> 31 \<or> (of_char c :: nat) = 127) s"

definition FreeTextSchema :: "string \<Rightarrow> bool" where
  "FreeTextSchema s \<longleftrightarrow> s \<noteq> [] \<and> \<not> hasControlCharacter s"

definition is_lower_hex :: "char \<Rightarrow> bool" where
  "is_lower_hex c \<longleftrightarrow> is_digit c \<or> (97::nat) \<le> of_char c \<and> (of_char c :: nat) \<le> 102"

definition Sha256DigestSchema :: "string \<Rightarrow> bool" where
  "Sha256DigestSchema s \<longleftrightarrow> startsWith s ''sha256:'' \<and> length s = 71 \<and> list_all is_lower_hex (drop 7 s)"

definition InstantSchema :: "string \<Rightarrow> bool" where
  "InstantSchema s \<longleftrightarrow> rfc_split s \<noteq> None \<and> Date_parse s \<noteq> None"

definition CurationInputRefSchema :: "input_ref \<Rightarrow> bool" where
  "CurationInputRefSchema r \<longleftrightarrow> FreeTextSchema (ref_agent r) \<and> FreeTextSchema (ref_name r)
     \<and> Sha256DigestSchema (ref_entry r) \<and> FreeTextSchema (ref_announcementId r)
     \<and> Sha256DigestSchema (ref_record r) \<and> FreeTextSchema (ref_attemptUri r)"

definition CurationRowSchema :: "curation_row \<Rightarrow> bool" where
  "CurationRowSchema row \<longleftrightarrow> Sha256DigestSchema (row_taskDigest row)
     \<and> InstantSchema (row_first row) \<and> InstantSchema (row_last row)
     \<and> list_all CurationInputRefSchema (row_inputRefs row)"

definition CurationObservationSchema :: "curation_observation \<Rightarrow> bool" where
  "CurationObservationSchema ob \<longleftrightarrow> Sha256DigestSchema (cu_taskDigest ob) \<and> InstantSchema (cu_observedAt ob)
     \<and> FreeTextSchema (cu_attribution ob)
     \<and> (case cu_benchmarkRun ob of None \<Rightarrow> True | Some b \<Rightarrow> FreeTextSchema b)
     \<and> CurationInputRefSchema (cu_ref ob)"

abbreviation KEY_SEPARATOR :: char where
  "KEY_SEPARATOR \<equiv> CHR 0x1F"

definition key_components :: "input_ref \<Rightarrow> string list" where
  "key_components r = [ref_agent r, ref_name r, ref_entry r, ref_announcementId r]"

definition ref_key :: "input_ref \<Rightarrow> string" where
  "ref_key r = joinWith [KEY_SEPARATOR] (key_components r)"

definition refDedupeKey :: "input_ref \<Rightarrow> (curation_error, string) result" where
  "refDedupeKey r =
     (if list_ex (\<lambda>c. c = [] \<or> hasControlCharacter c) (key_components r) then Inl BadKeyComponent
      else Inr (ref_key r))"

definition instantValue :: "string \<Rightarrow> (curation_error, int) result" where
  "instantValue v = (case Date_parse v of None \<Rightarrow> Inl (NotAnInstant v) | Some t \<Rightarrow> Inr t)"

fun bucket_name :: "curation_bucket \<Rightarrow> string" where
  "bucket_name Benchmark = ''benchmark''"
| "bucket_name Organic = ''organic''"

definition curationRowKey :: "string \<Rightarrow> curation_bucket \<Rightarrow> string" where
  "curationRowKey taskDigest bucket = taskDigest @ KEY_SEPARATOR # bucket_name bucket"

definition compareRefs :: "input_ref \<Rightarrow> input_ref \<Rightarrow> int" where
  "compareRefs a b = compareCodeUnitStrings (ref_key a) (ref_key b)"

definition row_key :: "curation_row \<Rightarrow> string" where
  "row_key row = curationRowKey (row_taskDigest row) (row_bucket row)"

definition compareRows :: "curation_row \<Rightarrow> curation_row \<Rightarrow> int" where
  "compareRows a b = compareCodeUnitStrings (row_key a) (row_key b)"

section \<open>Reading stored rows\<close>

definition parseCurationRow :: "curation_row \<Rightarrow> nat \<Rightarrow> (curation_error, curation_row) result" where
  "parseCurationRow row index =
     (if \<not> CurationRowSchema row then Inl (MalformedRow index)
      else let inputRefs = js_sort compareRefs (row_inputRefs row)
           in if length (remdups (map ref_key inputRefs)) \<noteq> length inputRefs then Inl (RefsRepeat index)
              else if length inputRefs \<noteq> row_verdicts row then Inl (VerdictsMismatch index)
              else if length (remdups (map ref_attemptUri inputRefs)) \<noteq> row_attempts row then Inl (AttemptsMismatch index)
              else if rat_den (row_passRate row) > row_verdicts row
                      \<or> rat_num (row_passRate row) > rat_den (row_passRate row) then Inl (NotASubCount index)
              else bind_result (instantValue (row_first row)) (\<lambda>f.
                   bind_result (instantValue (row_last row)) (\<lambda>l.
                     if f > l then Inl (WindowNotOrdered index)
                     else Inr (row\<lparr>row_inputRefs := inputRefs\<rparr>))))"

fun parseRowLoop :: "curation_row list \<Rightarrow> nat \<Rightarrow> (curation_error, curation_row list) result" where
  "parseRowLoop [] index = Inr []"
| "parseRowLoop (row # rows) index =
     bind_result (parseCurationRow row index) (\<lambda>r.
       bind_result (parseRowLoop rows (Suc index)) (\<lambda>rs. Inr (r # rs)))"

fun seenRefs :: "input_ref list \<Rightarrow> string list \<Rightarrow> (curation_error, string list) result" where
  "seenRefs [] seenRefKeys = Inr seenRefKeys"
| "seenRefs (r # rs) seenRefKeys =
     (if ref_key r \<in> set seenRefKeys then Inl (FeedsTwoRows (ref_announcementId r))
      else seenRefs rs (ref_key r # seenRefKeys))"

fun seenRows :: "curation_row list \<Rightarrow> string list \<Rightarrow> string list \<Rightarrow> (curation_error, unit) result" where
  "seenRows [] seenRowKeys seenRefKeys = Inr ()"
| "seenRows (row # rows) seenRowKeys seenRefKeys =
     (if row_key row \<in> set seenRowKeys then Inl (DuplicateRow (row_taskDigest row) (bucket_name (row_bucket row)))
      else bind_result (seenRefs (row_inputRefs row) seenRefKeys)
             (\<lambda>seenRefKeys'. seenRows rows (row_key row # seenRowKeys) seenRefKeys'))"

definition parseCurationRows :: "curation_row list \<Rightarrow> (curation_error, curation_row list) result" where
  "parseCurationRows rows =
     bind_result (parseRowLoop rows 0) (\<lambda>rs.
       bind_result (seenRows rs [] []) (\<lambda>_. Inr (js_sort compareRows rs)))"

section \<open>The fold\<close>

record row_accumulator =
  acc_taskDigest :: string
  acc_bucket :: curation_bucket
  acc_pass :: nat
  acc_fail :: nat
  acc_inconclusive :: nat
  acc_first :: string
  acc_last :: string
  acc_refs :: "(string \<times> input_ref) list"

record seen_announcement =
  sn_rowKey :: string
  sn_ref :: input_ref
  sn_observation :: "curation_observation option"

definition bucketOf :: "curation_observation \<Rightarrow> curation_bucket" where
  "bucketOf ob = (if cu_benchmarkRun ob = None then Organic else Benchmark)"

definition earlier :: "string \<Rightarrow> string \<Rightarrow> (curation_error, string) result" where
  "earlier a b =
     bind_result (instantValue a) (\<lambda>av. bind_result (instantValue b) (\<lambda>bv.
       Inr (if av \<noteq> bv then (if av < bv then a else b) else (if a < b then a else b))))"

definition later :: "string \<Rightarrow> string \<Rightarrow> (curation_error, string) result" where
  "later a b =
     bind_result (instantValue a) (\<lambda>av. bind_result (instantValue b) (\<lambda>bv.
       Inr (if av \<noteq> bv then (if av > bv then a else b) else (if a > b then a else b))))"

definition sameRef :: "input_ref \<Rightarrow> input_ref \<Rightarrow> bool" where
  "sameRef a b \<longleftrightarrow> ref_agent a = ref_agent b \<and> ref_name a = ref_name b \<and> ref_entry a = ref_entry b
     \<and> ref_announcementId a = ref_announcementId b \<and> ref_record a = ref_record b \<and> ref_attemptUri a = ref_attemptUri b"

definition assertNoConflict :: "seen_announcement \<Rightarrow> string \<Rightarrow> curation_observation \<Rightarrow> (curation_error, unit) result" where
  "assertNoConflict seen rowKey ob =
     (if sn_rowKey seen \<noteq> rowKey then Inl (ConflictingField ''the task or bucket it feeds'')
      else if \<not> sameRef (sn_ref seen) (cu_ref ob) then Inl (ConflictingField ''the input ref'')
      else case sn_observation seen of
        None \<Rightarrow> Inr ()
      | Some previous \<Rightarrow>
          if cu_verdict previous \<noteq> cu_verdict ob then Inl (ConflictingField ''verdict'')
          else if cu_observedAt previous \<noteq> cu_observedAt ob then Inl (ConflictingField ''observedAt'')
          else if cu_attribution previous \<noteq> cu_attribution ob then Inl (ConflictingField ''attribution'')
          else if cu_benchmarkRun previous \<noteq> cu_benchmarkRun ob then Inl (ConflictingField ''benchmarkRun'')
          else Inr ())"

definition apply_obs :: "row_accumulator \<Rightarrow> curation_observation \<Rightarrow> (curation_error, row_accumulator) result" where
  "apply_obs acc ob =
     bind_result (refDedupeKey (cu_ref ob)) (\<lambda>key.
     bind_result (earlier (acc_first acc) (cu_observedAt ob)) (\<lambda>f.
     bind_result (later (acc_last acc) (cu_observedAt ob)) (\<lambda>l.
       Inr (acc\<lparr>acc_refs := AList.update key (cu_ref ob) (acc_refs acc),
                acc_pass := (if cu_verdict ob = VPass then acc_pass acc + 1 else acc_pass acc),
                acc_fail := (if cu_verdict ob = VFail then acc_fail acc + 1 else acc_fail acc),
                acc_inconclusive := (if cu_verdict ob = VInconclusive then acc_inconclusive acc + 1 else acc_inconclusive acc),
                acc_first := f, acc_last := l\<rparr>))))"

definition seed :: "curation_observation \<Rightarrow> row_accumulator" where
  "seed ob =
     \<lparr>acc_taskDigest = cu_taskDigest ob, acc_bucket = bucketOf ob, acc_pass = 0, acc_fail = 0, acc_inconclusive = 0,
      acc_first = cu_observedAt ob, acc_last = cu_observedAt ob, acc_refs = []\<rparr>"

definition finalize :: "row_accumulator \<Rightarrow> curation_row" where
  "finalize acc =
     (let inputRefs = js_sort compareRefs (map snd (acc_refs acc));
          attempts = length (remdups (map ref_attemptUri inputRefs))
      in \<lparr>row_taskDigest = acc_taskDigest acc, row_bucket = acc_bucket acc, row_attempts = attempts,
          row_verdicts = acc_pass acc + acc_fail acc + acc_inconclusive acc,
          row_passRate = \<lparr>rat_num = acc_pass acc, rat_den = acc_pass acc + acc_fail acc\<rparr>,
          row_first = acc_first acc, row_last = acc_last acc, row_inputRefs = inputRefs\<rparr>)"

type_synonym fold_maps = "(string \<times> row_accumulator) list \<times> (string \<times> seen_announcement) list"

definition loadRow :: "fold_maps \<Rightarrow> curation_row \<Rightarrow> fold_maps" where
  "loadRow st row =
     (case st of (accumulators, seen) \<Rightarrow>
        (AList.update (row_key row)
           \<lparr>acc_taskDigest = row_taskDigest row, acc_bucket = row_bucket row,
            acc_pass = rat_num (row_passRate row),
            acc_fail = rat_den (row_passRate row) - rat_num (row_passRate row),
            acc_inconclusive = row_verdicts row - rat_den (row_passRate row),
            acc_first = row_first row, acc_last = row_last row,
            acc_refs = foldl (\<lambda>m r. AList.update (ref_key r) r m) [] (row_inputRefs row)\<rparr> accumulators,
         foldl (\<lambda>m r. AList.update (ref_key r) \<lparr>sn_rowKey = row_key row, sn_ref = r, sn_observation = None\<rparr> m)
           seen (row_inputRefs row)))"

definition obs_row_key :: "curation_observation \<Rightarrow> string" where
  "obs_row_key ob = curationRowKey (cu_taskDigest ob) (bucketOf ob)"

definition curationStep :: "fold_maps \<Rightarrow> curation_observation \<Rightarrow> (curation_error, fold_maps) result" where
  "curationStep st ob =
     (case st of (accumulators, seen) \<Rightarrow>
        if \<not> CurationObservationSchema ob then Inl MalformedObservation
        else bind_result (refDedupeKey (cu_ref ob)) (\<lambda>dedupeKey.
          case map_of seen dedupeKey of
            Some already \<Rightarrow> bind_result (assertNoConflict already (obs_row_key ob) ob) (\<lambda>_. Inr (accumulators, seen))
          | None \<Rightarrow>
              (let seen' = AList.update dedupeKey
                     \<lparr>sn_rowKey = obs_row_key ob, sn_ref = cu_ref ob, sn_observation = Some ob\<rparr> seen;
                   acc = (case map_of accumulators (obs_row_key ob) of Some a \<Rightarrow> a | None \<Rightarrow> seed ob)
               in bind_result (apply_obs acc ob) (\<lambda>acc'.
                    Inr (AList.update (obs_row_key ob) acc' accumulators, seen')))))"

fun curationLoop :: "fold_maps \<Rightarrow> curation_observation list \<Rightarrow> (curation_error, fold_maps) result" where
  "curationLoop st [] = Inr st"
| "curationLoop st (ob # obs) = bind_result (curationStep st ob) (\<lambda>st'. curationLoop st' obs)"

definition finishRows :: "fold_maps \<Rightarrow> curation_row list" where
  "finishRows st = js_sort compareRows (map (\<lambda>ka. finalize (snd ka)) (fst st))"

definition foldCuration :: "curation_row list option \<Rightarrow> curation_observation list \<Rightarrow> (curation_error, curation_row list) result" where
  "foldCuration previous observations =
     bind_result (case previous of None \<Rightarrow> Inr [] | Some rows \<Rightarrow> parseCurationRows rows) (\<lambda>rows.
       bind_result (curationLoop (foldl loadRow ([], []) rows) observations) (\<lambda>st.
         Inr (finishRows st)))"

definition projectCuration :: "curation_observation list \<Rightarrow> (curation_error, curation_row list) result" where
  "projectCuration observations = foldCuration None observations"

section \<open>Saturation\<close>

definition MAX_SAFE_INTEGER :: int where
  "MAX_SAFE_INTEGER = 2 ^ 53 - 1"

definition isSafeInteger :: "int \<Rightarrow> bool" where
  "isSafeInteger i \<longleftrightarrow> - MAX_SAFE_INTEGER \<le> i \<and> i \<le> MAX_SAFE_INTEGER"

definition assertThreshold :: "int \<Rightarrow> int \<Rightarrow> (curation_error, unit) result" where
  "assertThreshold num den =
     (if \<not> isSafeInteger num \<or> \<not> isSafeInteger den then Inl BadThreshold
      else if den \<le> 0 \<or> num < 0 then Inl BadThreshold else Inr ())"

definition compareRateTo :: "curation_row \<Rightarrow> int \<Rightarrow> int \<Rightarrow> (curation_error, int option) result" where
  "compareRateTo row num den =
     bind_result (assertThreshold num den) (\<lambda>_.
       if rat_den (row_passRate row) = 0 then Inr None
       else let left = int (rat_num (row_passRate row)) * den; right = num * int (rat_den (row_passRate row))
            in if \<not> isSafeInteger left \<or> \<not> isSafeInteger right then Inl RateOutOfRange
               else Inr (Some (if left = right then 0 else if left < right then -1 else 1)))"

definition saturationAt :: "curation_row \<Rightarrow> int \<Rightarrow> int \<Rightarrow> (curation_error, bool option) result" where
  "saturationAt row num den = map_sum id (map_option (\<lambda>c. c > 0)) (compareRateTo row num den)"


section \<open>Keys\<close>

lemma control_free: "FreeTextSchema s \<Longrightarrow> s \<noteq> [] \<and> \<not> hasControlCharacter s \<and> KEY_SEPARATOR \<notin> set s"
  by (auto simp: FreeTextSchema_def hasControlCharacter_def list_ex_iff)

lemma hex_control_free: "list_all is_lower_hex s \<Longrightarrow> \<not> hasControlCharacter s"
  by (auto simp: hasControlCharacter_def list_ex_iff list_all_iff is_lower_hex_def)

lemma digest_split:
  assumes "Sha256DigestSchema s"
  obtains t where "s = ''sha256:'' @ t" and "list_all is_lower_hex t"
proof
  have "take (length ''sha256:'') s = ''sha256:''" using assms by (simp only: Sha256DigestSchema_def startsWith_def)
  then show "s = ''sha256:'' @ drop (length ''sha256:'') s" by (metis append_take_drop_id)
  show "list_all is_lower_hex (drop (length ''sha256:'') s)"
    using assms by (simp add: Sha256DigestSchema_def numeral_eq_Suc)
qed

lemma digest_control_free: "Sha256DigestSchema s \<Longrightarrow> s \<noteq> [] \<and> \<not> hasControlCharacter s \<and> KEY_SEPARATOR \<notin> set s"
proof -
  assume "Sha256DigestSchema s"
  then obtain t where t: "s = ''sha256:'' @ t" "list_all is_lower_hex t" by (rule digest_split)
  then have "\<not> hasControlCharacter s"
    using hex_control_free [OF t(2)] by (auto simp: hasControlCharacter_def)
  then show ?thesis using t(1) by (auto simp: hasControlCharacter_def list_ex_iff)
qed

lemma components_ok:
  "CurationInputRefSchema r \<Longrightarrow> \<forall>c \<in> set (key_components r). c \<noteq> [] \<and> \<not> hasControlCharacter c \<and> KEY_SEPARATOR \<notin> set c"
  using control_free digest_control_free by (auto simp: CurationInputRefSchema_def key_components_def)

lemma refDedupeKey_ok: "CurationInputRefSchema r \<Longrightarrow> refDedupeKey r = Inr (ref_key r)"
  using components_ok [of r] by (auto simp: refDedupeKey_def list_ex_iff)

lemma ref_key_components:
  "CurationInputRefSchema r \<Longrightarrow> CurationInputRefSchema q \<Longrightarrow> ref_key r = ref_key q \<Longrightarrow> key_components r = key_components q"
  unfolding ref_key_def by (rule joinWith_inj) (use components_ok in \<open>auto simp: key_components_def\<close>)

lemma curationRowKey_inj:
  "Sha256DigestSchema d \<Longrightarrow> Sha256DigestSchema d' \<Longrightarrow> curationRowKey d b = curationRowKey d' b' \<longleftrightarrow> d = d' \<and> b = b'"
  using digest_control_free [of d] digest_control_free [of d']
  by (cases b; cases b') (auto simp: curationRowKey_def sep_append_inj)

interpretation ref_order: keyed_comparator compareRefs ref_key
  by unfold_locales (auto simp: compareRefs_def compareCodeUnitStrings_iff)

interpretation row_order: keyed_comparator compareRows row_key
  by unfold_locales (auto simp: compareRows_def compareCodeUnitStrings_iff)

section \<open>Instants\<close>

definition time_key :: "string \<Rightarrow> int \<times> string" where
  "time_key s = (the (Date_parse s), s)"

lemma snd_time_key [simp]: "snd (time_key s) = s"
  by (simp add: time_key_def)

lemma fst_time_key [simp]: "fst (time_key s) = the (Date_parse s)"
  by (simp add: time_key_def)

lemma earlier_eq:
  "Date_parse a \<noteq> None \<Longrightarrow> Date_parse b \<noteq> None \<Longrightarrow> earlier a b = Inr (snd (min (time_key a) (time_key b)))"
  by (auto simp: earlier_def instantValue_def time_key_def min_def less_eq_prod_def not_le not_less)

lemma later_eq:
  "Date_parse a \<noteq> None \<Longrightarrow> Date_parse b \<noteq> None \<Longrightarrow> later a b = Inr (snd (max (time_key a) (time_key b)))"
  by (auto simp: later_def instantValue_def time_key_def max_def less_eq_prod_def not_le not_less)

lemma time_key_extreme:
  assumes "finite S" and "S \<noteq> {}"
  shows "time_key (snd (Min (time_key ` S))) = Min (time_key ` S)" "snd (Min (time_key ` S)) \<in> S"
    and "time_key (snd (Max (time_key ` S))) = Max (time_key ` S)" "snd (Max (time_key ` S)) \<in> S"
proof -
  have "Min (time_key ` S) \<in> time_key ` S" "Max (time_key ` S) \<in> time_key ` S"
    using assms by (simp_all add: Min_in Max_in)
  then show "time_key (snd (Min (time_key ` S))) = Min (time_key ` S)" "snd (Min (time_key ` S)) \<in> S"
    "time_key (snd (Max (time_key ` S))) = Max (time_key ` S)" "snd (Max (time_key ` S)) \<in> S"
    by auto
qed

section \<open>The accumulator of a row in closed form\<close>

abbreviation ok :: "curation_observation \<Rightarrow> bool" where
  "ok \<equiv> CurationObservationSchema"

definition okey :: "curation_observation \<Rightarrow> string" where
  "okey ob = ref_key (cu_ref ob)"

definition times :: "curation_observation list \<Rightarrow> (int \<times> string) set" where
  "times os = time_key ` cu_observedAt ` set os"

definition acc_of :: "curation_observation list \<Rightarrow> row_accumulator" where
  "acc_of os =
     \<lparr>acc_taskDigest = cu_taskDigest (hd os), acc_bucket = bucketOf (hd os),
      acc_pass = length (filter (\<lambda>ob. cu_verdict ob = VPass) os),
      acc_fail = length (filter (\<lambda>ob. cu_verdict ob = VFail) os),
      acc_inconclusive = length (filter (\<lambda>ob. cu_verdict ob = VInconclusive) os),
      acc_first = snd (Min (times os)), acc_last = snd (Max (times os)),
      acc_refs = map (\<lambda>ob. (okey ob, cu_ref ob)) os\<rparr>"

definition same_acc :: "row_accumulator \<Rightarrow> row_accumulator \<Rightarrow> bool" where
  "same_acc a b \<longleftrightarrow> a\<lparr>acc_refs := []\<rparr> = b\<lparr>acc_refs := []\<rparr> \<and> mset (acc_refs a) = mset (acc_refs b)"

lemma same_accD:
  assumes "same_acc a b"
  shows "acc_taskDigest a = acc_taskDigest b" "acc_bucket a = acc_bucket b" "acc_pass a = acc_pass b"
    "acc_fail a = acc_fail b" "acc_inconclusive a = acc_inconclusive b" "acc_first a = acc_first b"
    "acc_last a = acc_last b" "mset (acc_refs a) = mset (acc_refs b)"
  using assms by (cases a; cases b; simp add: same_acc_def)+

lemma same_acc_refl [simp]: "same_acc a a"
  by (simp add: same_acc_def)

lemma ok_facts:
  assumes "ok ob"
  shows "refDedupeKey (cu_ref ob) = Inr (okey ob)" "Date_parse (cu_observedAt ob) \<noteq> None"
    "Sha256DigestSchema (cu_taskDigest ob)" "CurationInputRefSchema (cu_ref ob)"
  using assms by (auto simp: CurationObservationSchema_def InstantSchema_def okey_def refDedupeKey_ok)

lemma update_absent: "k \<notin> fst ` set m \<Longrightarrow> AList.update k v m = m @ [(k, v)]"
  by (induction m) auto

lemma apply_obs_eq:
  assumes "ok ob" and "Date_parse (acc_first a) \<noteq> None" and "Date_parse (acc_last a) \<noteq> None"
    and "okey ob \<notin> fst ` set (acc_refs a)"
  shows "apply_obs a ob = Inr
    (a\<lparr>acc_refs := acc_refs a @ [(okey ob, cu_ref ob)],
       acc_pass := acc_pass a + (if cu_verdict ob = VPass then 1 else 0),
       acc_fail := acc_fail a + (if cu_verdict ob = VFail then 1 else 0),
       acc_inconclusive := acc_inconclusive a + (if cu_verdict ob = VInconclusive then 1 else 0),
       acc_first := snd (min (time_key (acc_first a)) (time_key (cu_observedAt ob))),
       acc_last := snd (max (time_key (acc_last a)) (time_key (cu_observedAt ob)))\<rparr>)"
  using ok_facts [OF assms(1)] assms(2-4)
  by (cases "cu_verdict ob") (simp_all add: apply_obs_def earlier_eq later_eq update_absent)

lemma apply_obs_seed: "ok ob \<Longrightarrow> apply_obs (seed ob) ob = Inr (acc_of [ob])"
  using ok_facts(2) [of ob]
  by (subst apply_obs_eq) (auto simp: seed_def acc_of_def times_def)

lemma apply_obs_snoc:
  assumes "same_acc (acc_of os) a" and "os \<noteq> []" and "\<forall>p \<in> set os. ok p" and "ok ob" and "okey ob \<notin> okey ` set os"
  shows "\<exists>a'. apply_obs a ob = Inr a' \<and> same_acc (acc_of (os @ [ob])) a'"
proof -
  note same = same_accD [OF assms(1)]
  let ?T = "cu_observedAt ` set os"
  have fin: "finite ?T" "?T \<noteq> {}" using assms(2) by simp_all
  note ex = time_key_extreme [OF fin]
  have valid: "Date_parse t \<noteq> None" if "t \<in> ?T" for t using that assms(3) ok_facts(2) by auto
  have first: "acc_first a = snd (Min (time_key ` ?T))" and last: "acc_last a = snd (Max (time_key ` ?T))"
    using same(6,7) by (simp_all add: acc_of_def times_def)
  have dates: "Date_parse (acc_first a) \<noteq> None" "Date_parse (acc_last a) \<noteq> None"
    using valid [OF ex(2)] valid [OF ex(4)] first last by simp_all
  have "set (acc_refs a) = set (acc_refs (acc_of os))" using same(8) by (metis set_mset_mset)
  then have fresh: "okey ob \<notin> fst ` set (acc_refs a)" using assms(5) by (auto simp: acc_of_def)
  have "times (os @ [ob]) = insert (time_key (cu_observedAt ob)) (time_key ` ?T)" by (auto simp: times_def)
  then have window: "snd (Min (times (os @ [ob]))) = snd (min (time_key (acc_first a)) (time_key (cu_observedAt ob)))"
    "snd (Max (times (os @ [ob]))) = snd (max (time_key (acc_last a)) (time_key (cu_observedAt ob)))"
    using fin first last ex(1,3) by (simp_all add: min.commute max.commute)
  have counts: "acc_pass (acc_of os) = acc_pass a" "acc_fail (acc_of os) = acc_fail a"
    "acc_inconclusive (acc_of os) = acc_inconclusive a" using same by simp_all
  have hd: "hd (os @ [ob]) = hd os" using assms(2) by simp
  show ?thesis
    unfolding apply_obs_eq [OF assms(4) dates fresh]
    using same counts window hd by (cases a) (simp add: same_acc_def acc_of_def)
qed

lemma finalize_same:
  assumes "same_acc a b" and "\<forall>kr \<in> set (acc_refs a). fst kr = ref_key (snd kr)" and "distinct (map fst (acc_refs a))"
  shows "finalize a = finalize b"
proof -
  have inj: "inj_on ref_key (set (map snd (acc_refs a)))"
  proof (rule inj_onI)
    fix r q
    assume "r \<in> set (map snd (acc_refs a))" "q \<in> set (map snd (acc_refs a))" "ref_key r = ref_key q"
    then obtain k where "(k, r) \<in> set (acc_refs a)" "(k, q) \<in> set (acc_refs a)" using assms(2) by force
    then show "r = q" using assms(3) by (metis eq_key_imp_eq_value)
  qed
  have "mset (map snd (acc_refs a)) = mset (map snd (acc_refs b))" using same_accD(8) [OF assms(1)] by simp
  from sort_key_inj_perm [OF this inj]
  have "js_sort compareRefs (map snd (acc_refs a)) = js_sort compareRefs (map snd (acc_refs b))"
    by (simp add: ref_order.js_sort_eq)
  with same_accD [OF assms(1)] show ?thesis by (simp add: finalize_def Let_def)
qed


section \<open>The fold in closed form\<close>

definition group :: "string \<Rightarrow> curation_observation list \<Rightarrow> curation_observation list" where
  "group k ds = filter (\<lambda>ob. obs_row_key ob = k) ds"

text \<open>Every announcement key stands for one observation.\<close>

definition consistent :: "curation_observation set \<Rightarrow> bool" where
  "consistent S \<longleftrightarrow> (\<forall>ob \<in> S. ok ob \<and> (\<forall>p \<in> S. okey ob = okey p \<longrightarrow> ob = p))"

text \<open>
  The loop's maps represent the observations counted so far. With \<open>full\<close> every announcement was seen
  in this fold; otherwise some were loaded from stored rows, which keep no verdict.
\<close>

definition acc_entry :: "curation_observation list \<Rightarrow> (string \<times> row_accumulator) list \<Rightarrow> string \<Rightarrow> bool" where
  "acc_entry ds A k \<longleftrightarrow>
     (case map_of A k of
        None \<Rightarrow> k \<notin> obs_row_key ` set ds
      | Some a \<Rightarrow> k \<in> obs_row_key ` set ds \<and> same_acc (acc_of (group k ds)) a)"

definition seen_entry :: "bool \<Rightarrow> curation_observation list \<Rightarrow> (string \<times> seen_announcement) list \<Rightarrow> string \<Rightarrow> bool" where
  "seen_entry full ds S k \<longleftrightarrow>
     (case map_of S k of
        None \<Rightarrow> k \<notin> okey ` set ds
      | Some s \<Rightarrow> (\<exists>ob \<in> set ds. okey ob = k \<and> sn_rowKey s = obs_row_key ob \<and> sn_ref s = cu_ref ob
                    \<and> (sn_observation s = Some ob \<or> \<not> full \<and> sn_observation s = None)))"

definition represents :: "bool \<Rightarrow> curation_observation list \<Rightarrow> fold_maps \<Rightarrow> bool" where
  "represents full ds st \<longleftrightarrow>
     distinct (map fst (fst st)) \<and> (\<forall>k. acc_entry ds (fst st) k) \<and> (\<forall>k. seen_entry full ds (snd st) k)"

lemma represents_acc: "represents full ds (A, S) \<Longrightarrow> acc_entry ds A k"
  by (simp add: represents_def)

lemma represents_seen_entry: "represents full ds (A, S) \<Longrightarrow> seen_entry full ds S k"
  by (simp add: represents_def)

lemma seen_entry_mem:
  assumes "seen_entry full ds S k" and "k \<in> okey ` set ds"
  obtains s p where "map_of S k = Some s" "p \<in> set ds" "okey p = k" "sn_rowKey s = obs_row_key p"
    "sn_ref s = cu_ref p" "sn_observation s = Some p \<or> \<not> full \<and> sn_observation s = None"
  using assms by (cases "map_of S k") (auto simp: seen_entry_def)

definition add_obs :: "curation_observation \<Rightarrow> curation_observation list \<Rightarrow> curation_observation list" where
  "add_obs ob ds = (if ob \<in> set ds then ds else ds @ [ob])"

lemma set_add_obs [simp]: "set (add_obs ob ds) = insert ob (set ds)"
  by (auto simp: add_obs_def)

lemma consistent_sub: "consistent S \<Longrightarrow> T \<subseteq> S \<Longrightarrow> consistent T"
  by (auto simp: consistent_def)

lemma distinct_update: "distinct (map fst m) \<Longrightarrow> distinct (map fst (AList.update k v m))"
  by (rule distinct_update)

lemma obs_row_key_inj:
  "ok a \<Longrightarrow> ok b \<Longrightarrow> obs_row_key a = obs_row_key b \<Longrightarrow> cu_taskDigest a = cu_taskDigest b \<and> bucketOf a = bucketOf b"
  using ok_facts(3) by (simp add: obs_row_key_def curationRowKey_inj)

lemma sameRef_eq: "sameRef a b \<longleftrightarrow> a = b"
  by (cases a; cases b) (auto simp: sameRef_def)

lemma no_conflict_same:
  assumes "ok ob" "ok p" "assertNoConflict s (obs_row_key ob) ob = Inr ()"
    and "sn_rowKey s = obs_row_key p" "sn_ref s = cu_ref p" "sn_observation s = Some p"
  shows "ob = p"
proof -
  have "obs_row_key p = obs_row_key ob" "cu_ref p = cu_ref ob" "cu_verdict p = cu_verdict ob"
    "cu_observedAt p = cu_observedAt ob" "cu_attribution p = cu_attribution ob" "cu_benchmarkRun p = cu_benchmarkRun ob"
    using assms(3-6) by (auto simp: assertNoConflict_def sameRef_eq split: if_splits)
  with obs_row_key_inj [OF assms(2,1)] show ?thesis by (cases ob; cases p) simp
qed

lemma represents_seen:
  assumes "represents full ds st" and "ok ob" and "consistent (insert ob (set ds))" and "ob \<in> set ds"
  shows "curationStep st ob = Inr st"
proof -
  obtain A S where st: "st = (A, S)" by (cases st)
  have "okey ob \<in> okey ` set ds" using assms(4) by simp
  from seen_entry_mem [OF represents_seen_entry [OF assms(1) [unfolded st]] this]
  obtain s p where s: "map_of S (okey ob) = Some s" "p \<in> set ds" "okey p = okey ob" "sn_rowKey s = obs_row_key p"
    "sn_ref s = cu_ref p" "sn_observation s = Some p \<or> sn_observation s = None" by blast
  have "p = ob" using assms(3) s(2,3) by (auto simp: consistent_def)
  with s have "assertNoConflict s (obs_row_key ob) ob = Inr ()"
    by (auto simp: assertNoConflict_def sameRef_eq)
  with s(1) assms(2) ok_facts(1) [OF assms(2)] st show ?thesis by (simp add: curationStep_def)
qed

lemma represents_new:
  assumes rep: "represents full ds st" and okob: "ok ob" and con: "consistent (insert ob (set ds))" and new: "ob \<notin> set ds"
  shows "\<exists>st'. curationStep st ob = Inr st' \<and> represents full (ds @ [ob]) st'"
proof -
  obtain A S where st: "st = (A, S)" by (cases st)
  let ?k = "okey ob" and ?rk = "obs_row_key ob"
  have fresh: "?k \<notin> okey ` set ds" using con new by (auto simp: consistent_def)
  then have unseen: "map_of S ?k = None"
    using represents_seen_entry [OF rep [unfolded st], of ?k] by (auto simp: seen_entry_def image_iff split: option.splits)
  define acc where "acc = (case map_of A ?rk of Some a \<Rightarrow> a | None \<Rightarrow> seed ob)"
  have "\<exists>acc'. apply_obs acc ob = Inr acc' \<and> same_acc (acc_of (group ?rk (ds @ [ob]))) acc'"
  proof (cases "map_of A ?rk")
    case None
    then have "?rk \<notin> obs_row_key ` set ds" using represents_acc [OF rep [unfolded st], of ?rk] by (simp add: acc_entry_def)
    then have "group ?rk (ds @ [ob]) = [ob]" by (auto simp: group_def filter_empty_conv image_iff)
    with None show ?thesis by (simp add: acc_def apply_obs_seed [OF okob])
  next
    case (Some a)
    then have a: "?rk \<in> obs_row_key ` set ds" "same_acc (acc_of (group ?rk ds)) a"
      using represents_acc [OF rep [unfolded st], of ?rk] by (simp_all add: acc_entry_def)
    have "group ?rk ds \<noteq> []" using a(1) by (auto simp: group_def filter_empty_conv)
    moreover have "\<forall>p \<in> set (group ?rk ds). ok p" using con by (auto simp: group_def consistent_def)
    moreover have "?k \<notin> okey ` set (group ?rk ds)" using fresh by (auto simp: group_def)
    ultimately have "\<exists>acc'. apply_obs a ob = Inr acc' \<and> same_acc (acc_of (group ?rk ds @ [ob])) acc'"
      using apply_obs_snoc [OF a(2)] okob by blast
    with Some show ?thesis by (simp add: acc_def group_def)
  qed
  then obtain acc' where acc': "apply_obs acc ob = Inr acc'" "same_acc (acc_of (group ?rk (ds @ [ob]))) acc'" by blast
  let ?s = "\<lparr>sn_rowKey = ?rk, sn_ref = cu_ref ob, sn_observation = Some ob\<rparr>"
  let ?st' = "(AList.update ?rk acc' A, AList.update ?k ?s S)"
  have step: "curationStep st ob = Inr ?st'"
    using st okob ok_facts(1) [OF okob] unseen acc'(1) by (simp add: curationStep_def acc_def Let_def)
  have others: "group k (ds @ [ob]) = group k ds" if "k \<noteq> ?rk" for k using that by (simp add: group_def)
  have "represents full (ds @ [ob]) ?st'"
    unfolding represents_def fst_conv snd_conv
  proof (intro conjI allI)
    show "distinct (map fst (AList.update ?rk acc' A))" using rep st by (simp add: represents_def distinct_update)
    fix k
    show "acc_entry (ds @ [ob]) (AList.update ?rk acc' A) k"
    proof (cases "k = ?rk")
      case True
      then show ?thesis using acc'(2) by (simp add: acc_entry_def update_conv')
    next
      case False
      then show ?thesis
        using represents_acc [OF rep [unfolded st], of k] others [OF False]
        by (auto simp: acc_entry_def update_conv' split: option.splits)
    qed
    show "seen_entry full (ds @ [ob]) (AList.update ?k ?s S) k"
    proof (cases "k = ?k")
      case True
      then show ?thesis by (simp add: seen_entry_def update_conv')
    next
      case False
      then show ?thesis
        using represents_seen_entry [OF rep [unfolded st], of k]
        by (auto simp: seen_entry_def update_conv' split: option.splits)
    qed
  qed
  with step show ?thesis by blast
qed

lemma represents_step:
  assumes "represents full ds st" and "consistent (insert ob (set ds))"
  shows "\<exists>st'. curationStep st ob = Inr st' \<and> represents full (add_obs ob ds) st'"
proof -
  have okob: "ok ob" using assms(2) by (simp add: consistent_def)
  show ?thesis
  proof (cases "ob \<in> set ds")
    case True
    with represents_seen [OF assms(1) okob assms(2)] assms(1) show ?thesis unfolding add_obs_def by force
  next
    case False
    with represents_new [OF assms(1) okob assms(2)] show ?thesis by (simp add: add_obs_def)
  qed
qed

lemma step_consistent:
  assumes "represents True ds st" and "consistent (set ds)" and "curationStep st ob = Inr st'"
  shows "consistent (insert ob (set ds))"
proof -
  obtain A S where st: "st = (A, S)" by (cases st)
  have okob: "ok ob" using assms(3) st by (auto simp: curationStep_def split: if_splits)
  have "ob = p" if p: "p \<in> set ds" "okey p = okey ob" for p
  proof -
    have "okey ob \<in> okey ` set ds" using p by (metis imageI)
    from seen_entry_mem [OF represents_seen_entry [OF assms(1) [unfolded st]] this]
    obtain s q where s: "map_of S (okey ob) = Some s" "q \<in> set ds" "okey q = okey ob" "sn_rowKey s = obs_row_key q"
      "sn_ref s = cu_ref q" "sn_observation s = Some q" by blast
    have "q = p" using assms(2) s(2,3) p by (auto simp: consistent_def)
    have "assertNoConflict s (obs_row_key ob) ob = Inr ()"
      using assms(3) st s(1) okob ok_facts(1) [OF okob] by (auto simp: curationStep_def bind_result_Inr_iff)
    with no_conflict_same [OF okob _ _ s(4-6)] assms(2) s(2) have "ob = q" by (simp add: consistent_def)
    with \<open>q = p\<close> show ?thesis by simp
  qed
  then show ?thesis using assms(2) okob by (auto simp: consistent_def)
qed

definition add_all :: "curation_observation list \<Rightarrow> curation_observation list \<Rightarrow> curation_observation list" where
  "add_all ds xs = foldl (\<lambda>ds ob. add_obs ob ds) ds xs"

lemma set_add_all [simp]: "set (add_all ds xs) = set ds \<union> set xs"
  by (induction xs arbitrary: ds) (auto simp: add_all_def)

lemma distinct_add_all: "distinct ds \<Longrightarrow> distinct (add_all ds xs)"
  by (induction xs arbitrary: ds) (auto simp: add_all_def add_obs_def)

lemma represents_loop:
  assumes "represents full ds st" and "consistent (set ds \<union> set xs)"
  shows "\<exists>st'. curationLoop st xs = Inr st' \<and> represents full (add_all ds xs) st'"
  using assms
proof (induction xs arbitrary: ds st)
  case Nil
  then show ?case by (simp add: add_all_def)
next
  case (Cons ob xs)
  have "consistent (insert ob (set ds))" using Cons.prems(2) by (rule consistent_sub) auto
  from represents_step [OF Cons.prems(1) this] obtain st1 where st1: "curationStep st ob = Inr st1"
    "represents full (add_obs ob ds) st1" by blast
  have "consistent (set (add_obs ob ds) \<union> set xs)" using Cons.prems(2) by simp
  from Cons.IH [OF st1(2) this] st1(1) show ?case by (simp add: add_all_def)
qed

lemma loop_consistent:
  assumes "represents True ds st" and "consistent (set ds)" and "curationLoop st xs = Inr st'"
  shows "consistent (set ds \<union> set xs)"
  using assms
proof (induction xs arbitrary: ds st)
  case Nil
  then show ?case by simp
next
  case (Cons ob xs)
  then obtain st1 where st1: "curationStep st ob = Inr st1" "curationLoop st1 xs = Inr st'"
    by (auto simp: bind_result_Inr_iff)
  have con: "consistent (insert ob (set ds))" by (rule step_consistent [OF Cons.prems(1,2) st1(1)])
  from represents_step [OF Cons.prems(1) con] st1(1) have "represents True (add_obs ob ds) st1" by auto
  from Cons.IH [OF this _ st1(2)] con show ?case by simp
qed

lemma represents_empty: "represents full [] ([], [])"
  by (simp add: represents_def acc_entry_def seen_entry_def)


section \<open>The rows in closed form\<close>

definition row_of :: "curation_observation list \<Rightarrow> string \<Rightarrow> curation_row" where
  "row_of ds k = finalize (acc_of (group k ds))"

definition rows_of :: "curation_observation list \<Rightarrow> curation_row list" where
  "rows_of ds = map (row_of ds) (sorted_list_of_set (obs_row_key ` set ds))"

lemma group_nonempty: "k \<in> obs_row_key ` set ds \<Longrightarrow> group k ds \<noteq> []"
  by (auto simp: group_def filter_empty_conv)

lemma group_hd: "k \<in> obs_row_key ` set ds \<Longrightarrow> hd (group k ds) \<in> set ds \<and> obs_row_key (hd (group k ds)) = k"
  using hd_in_set [OF group_nonempty] by (auto simp: group_def)

lemma row_key_row_of: "k \<in> obs_row_key ` set ds \<Longrightarrow> row_key (row_of ds k) = k"
  using group_hd [of k ds] by (simp add: row_of_def row_key_def finalize_def acc_of_def obs_row_key_def Let_def)

lemma acc_refs_acc_of:
  assumes "consistent (set ds)" and "distinct ds"
  shows "\<forall>kr \<in> set (acc_refs (acc_of (group k ds))). fst kr = ref_key (snd kr)"
    "distinct (map fst (acc_refs (acc_of (group k ds))))"
proof -
  show "\<forall>kr \<in> set (acc_refs (acc_of (group k ds))). fst kr = ref_key (snd kr)"
    by (auto simp: acc_of_def okey_def)
  have "inj_on okey (set (group k ds))" using assms(1) by (auto simp: inj_on_def consistent_def group_def)
  then show "distinct (map fst (acc_refs (acc_of (group k ds))))"
    using assms(2) by (simp add: acc_of_def o_def distinct_map group_def)
qed

lemma finishRows_eq:
  assumes "represents full ds st" and "consistent (set ds)" and "distinct ds"
  shows "finishRows st = rows_of ds"
proof -
  obtain A S where st: "st = (A, S)" by (cases st)
  let ?K = "obs_row_key ` set ds"
  have dist: "distinct (map fst A)" using assms(1) st by (simp add: represents_def)
  have keys: "fst ` set A = ?K"
  proof -
    have "k \<in> fst ` set A \<longleftrightarrow> map_of A k \<noteq> None" for k by (simp add: map_of_eq_None_iff)
    moreover have "map_of A k \<noteq> None \<longleftrightarrow> k \<in> ?K" for k
      using represents_acc [OF assms(1) [unfolded st], of k] by (auto simp: acc_entry_def split: option.splits)
    ultimately show ?thesis by blast
  qed
  have row: "finalize a = row_of ds k" if "(k, a) \<in> set A" for k a
  proof -
    have "map_of A k = Some a" using dist that by simp
    then have "same_acc (acc_of (group k ds)) a"
      using represents_acc [OF assms(1) [unfolded st], of k] by (simp add: acc_entry_def)
    from finalize_same [OF this acc_refs_acc_of [OF assms(2,3)]] show ?thesis by (simp add: row_of_def)
  qed
  have "map (\<lambda>ka. finalize (snd ka)) A = map (row_of ds) (map fst A)" using row by auto
  moreover have "mset (map fst A) = mset (sorted_list_of_set ?K)"
    using set_eq_iff_mset_eq_distinct [of "map fst A" "sorted_list_of_set ?K"] dist keys by simp
  ultimately have "mset (map (\<lambda>ka. finalize (snd ka)) A) = mset (rows_of ds)"
    by (simp only: rows_of_def mset_map)
  moreover have "inj_on row_key (set (map (\<lambda>ka. finalize (snd ka)) A))"
  proof (rule inj_onI)
    fix r q
    assume "r \<in> set (map (\<lambda>ka. finalize (snd ka)) A)" "q \<in> set (map (\<lambda>ka. finalize (snd ka)) A)" "row_key r = row_key q"
    then obtain k a l b where kl: "(k, a) \<in> set A" "(l, b) \<in> set A" "r = finalize a" "q = finalize b" "row_key r = row_key q"
      by auto
    then have "k \<in> ?K" "l \<in> ?K" using keys by force+
    with kl row row_key_row_of [of k ds] row_key_row_of [of l ds] show "r = q" by simp
  qed
  ultimately have "sort_key row_key (map (\<lambda>ka. finalize (snd ka)) A) = sort_key row_key (rows_of ds)"
    by (rule sort_key_inj_perm)
  moreover have "map row_key (rows_of ds) = sorted_list_of_set ?K"
    unfolding rows_of_def map_map by (rule map_idI) (simp add: row_key_row_of)
  then have "sort_key row_key (rows_of ds) = rows_of ds" by (simp add: sort_key_id_if_sorted)
  ultimately show ?thesis by (simp add: finishRows_def st row_order.js_sort_eq)
qed

lemma acc_of_perm:
  assumes "mset os = mset os'" and "os \<noteq> []" and "\<forall>p \<in> set os. \<forall>q \<in> set os. cu_taskDigest p = cu_taskDigest q \<and> bucketOf p = bucketOf q"
  shows "same_acc (acc_of os) (acc_of os')"
proof -
  have sets: "set os = set os'" using assms(1) by (rule mset_eq_setD)
  have ne: "os' \<noteq> []" using assms(1,2) by auto
  have count: "length (filter P os) = length (filter P os')" for P
  proof (rule mset_eq_length)
    show "mset (filter P os) = mset (filter P os')" using assms(1) by simp
  qed
  have "hd os \<in> set os" using assms(2) by simp
  moreover have "hd os' \<in> set os" unfolding sets using ne by simp
  ultimately have "cu_taskDigest (hd os) = cu_taskDigest (hd os')" "bucketOf (hd os) = bucketOf (hd os')"
    using assms(3) by blast+
  moreover have "times os = times os'" by (simp add: times_def sets)
  moreover have "mset (map (\<lambda>ob. (okey ob, cu_ref ob)) os) = mset (map (\<lambda>ob. (okey ob, cu_ref ob)) os')"
    using assms(1) by simp
  ultimately show ?thesis by (simp add: same_acc_def acc_of_def count)
qed

lemma rows_of_perm:
  assumes "set ds = set ds'" and "distinct ds" and "distinct ds'" and "consistent (set ds)"
  shows "rows_of ds = rows_of ds'"
proof -
  have m: "mset ds = mset ds'" using assms(1-3) by (simp add: set_eq_iff_mset_eq_distinct)
  have "row_of ds k = row_of ds' k" if k: "k \<in> obs_row_key ` set ds" for k
  proof -
    have "mset (group k ds) = mset (group k ds')" using m by (simp add: group_def)
    moreover have "\<forall>p \<in> set (group k ds). \<forall>q \<in> set (group k ds). cu_taskDigest p = cu_taskDigest q \<and> bucketOf p = bucketOf q"
      using assms(4) obs_row_key_inj by (auto simp: group_def consistent_def)
    ultimately have "same_acc (acc_of (group k ds)) (acc_of (group k ds'))"
      using group_nonempty [OF k] by (intro acc_of_perm)
    from finalize_same [OF this acc_refs_acc_of [OF assms(4,2)]] show ?thesis by (simp add: row_of_def)
  qed
  then show ?thesis using assms(1) by (simp add: rows_of_def)
qed

lemma project_iff:
  "projectCuration xs = Inr rows \<longleftrightarrow> consistent (set xs) \<and> rows = rows_of (add_all [] xs)"
proof
  assume ok: "projectCuration xs = Inr rows"
  then obtain st where st: "curationLoop ([], []) xs = Inr st" "rows = finishRows st"
    by (auto simp: projectCuration_def foldCuration_def bind_result_Inr_iff)
  have con: "consistent (set xs)"
    using loop_consistent [OF represents_empty _ st(1)] by (simp add: consistent_def)
  obtain st' where st': "curationLoop ([], []) xs = Inr st'" "represents True (add_all [] xs) st'"
    using represents_loop [OF represents_empty, of xs True] con by auto
  have "finishRows st' = rows_of (add_all [] xs)"
    by (rule finishRows_eq [OF st'(2)]) (use con in \<open>simp_all add: distinct_add_all\<close>)
  with con st st'(1) show "consistent (set xs) \<and> rows = rows_of (add_all [] xs)" by simp
next
  assume R: "consistent (set xs) \<and> rows = rows_of (add_all [] xs)"
  then obtain st' where st': "curationLoop ([], []) xs = Inr st'" "represents True (add_all [] xs) st'"
    using represents_loop [OF represents_empty, of xs True] by auto
  have "finishRows st' = rows_of (add_all [] xs)"
    by (rule finishRows_eq [OF st'(2)]) (use R in \<open>simp_all add: distinct_add_all\<close>)
  with R st'(1) show "projectCuration xs = Inr rows" by (simp add: projectCuration_def foldCuration_def)
qed


section \<open>Stored rows\<close>

lemma row_of_fields:
  "row_taskDigest (row_of ds k) = cu_taskDigest (hd (group k ds))"
  "row_verdicts (row_of ds k) = length (group k ds)"
  "row_inputRefs (row_of ds k) = js_sort compareRefs (map cu_ref (group k ds))"
  "row_attempts (row_of ds k) = length (remdups (map ref_attemptUri (js_sort compareRefs (map cu_ref (group k ds)))))"
  "row_first (row_of ds k) = snd (Min (times (group k ds)))" "row_last (row_of ds k) = snd (Max (times (group k ds)))"
proof -
  have "length (filter (\<lambda>ob. cu_verdict ob = VPass) os) + length (filter (\<lambda>ob. cu_verdict ob = VFail) os)
      + length (filter (\<lambda>ob. cu_verdict ob = VInconclusive) os) = length os" for os
  proof (induction os)
    case (Cons ob os)
    then show ?case by (cases "cu_verdict ob") simp_all
  qed simp
  then show "row_verdicts (row_of ds k) = length (group k ds)"
    by (simp add: row_of_def finalize_def acc_of_def Let_def)
qed (simp_all add: row_of_def finalize_def acc_of_def Let_def o_def)

lemma set_row_refs: "set (row_inputRefs (row_of ds k)) = cu_ref ` set (group k ds)"
  by (simp add: row_of_fields ref_order.set_js_sort)

lemma row_refs_keys:
  assumes "consistent (set ds)" and "distinct ds"
  shows "distinct (map ref_key (row_inputRefs (row_of ds k)))"
proof -
  have "distinct (map okey (group k ds))"
    using acc_refs_acc_of(2) [OF assms, of k] by (simp add: acc_of_def o_def)
  moreover have "mset (map ref_key (row_inputRefs (row_of ds k))) = mset (map okey (group k ds))"
    by (simp add: row_of_fields ref_order.mset_js_sort okey_def [abs_def] multiset.map_comp o_def)
  ultimately show ?thesis by (metis mset_eq_imp_distinct_iff)
qed

lemma row_window:
  assumes "consistent (set ds)" and "k \<in> obs_row_key ` set ds"
  shows "InstantSchema (row_first (row_of ds k))" "InstantSchema (row_last (row_of ds k))"
    "the (Date_parse (row_first (row_of ds k))) \<le> the (Date_parse (row_last (row_of ds k)))"
proof -
  let ?T = "cu_observedAt ` set (group k ds)"
  have fin: "finite ?T" "?T \<noteq> {}" using group_nonempty [OF assms(2)] by simp_all
  note ex = time_key_extreme [OF fin]
  have inst: "InstantSchema t" if "t \<in> ?T" for t
    using that assms(1) by (auto simp: group_def consistent_def CurationObservationSchema_def)
  show "InstantSchema (row_first (row_of ds k))" "InstantSchema (row_last (row_of ds k))"
    using inst [OF ex(2)] inst [OF ex(4)] by (simp_all add: row_of_fields times_def)
  have "Min (time_key ` ?T) \<le> Max (time_key ` ?T)"
    by (rule Max_ge) (use fin in \<open>auto intro: Min_in\<close>)
  then have "fst (Min (time_key ` ?T)) \<le> fst (Max (time_key ` ?T))" by (auto simp: less_eq_prod_def)
  moreover have "fst (Min (time_key ` ?T)) = the (Date_parse (snd (Min (time_key ` ?T))))"
    by (metis ex(1) fst_time_key)
  moreover have "fst (Max (time_key ` ?T)) = the (Date_parse (snd (Max (time_key ` ?T))))"
    by (metis ex(3) fst_time_key)
  ultimately show "the (Date_parse (row_first (row_of ds k))) \<le> the (Date_parse (row_last (row_of ds k)))"
    by (simp only: row_of_fields times_def)
qed

lemma parse_row_of:
  assumes "consistent (set ds)" and "distinct ds" and "k \<in> obs_row_key ` set ds"
  shows "parseCurationRow (row_of ds k) i = Inr (row_of ds k)"
proof -
  let ?row = "row_of ds k"
  have hd: "ok (hd (group k ds))" using group_hd [OF assms(3)] assms(1) by (auto simp: consistent_def)
  have refs: "list_all CurationInputRefSchema (row_inputRefs ?row)"
    using assms(1) ok_facts(4) by (auto simp: list_all_iff set_row_refs group_def consistent_def)
  have schema: "CurationRowSchema ?row"
    using row_window(1,2) [OF assms(1,3)] ok_facts(3) [OF hd] refs by (simp add: CurationRowSchema_def row_of_fields(1))
  have sorted: "js_sort compareRefs (row_inputRefs ?row) = row_inputRefs ?row"
    by (simp add: row_of_fields ref_order.js_sort_eq sort_key_id_if_sorted)
  have dist: "remdups (map ref_key (row_inputRefs ?row)) = map ref_key (row_inputRefs ?row)"
    using row_refs_keys [OF assms(1,2)] by (rule distinct_remdups_id)
  have len: "length (row_inputRefs ?row) = row_verdicts ?row" by (simp add: row_of_fields ref_order.length_js_sort)
  have att: "length (remdups (map ref_attemptUri (row_inputRefs ?row))) = row_attempts ?row" by (simp add: row_of_fields)
  have rate: "rat_den (row_passRate ?row) \<le> row_verdicts ?row" "rat_num (row_passRate ?row) \<le> rat_den (row_passRate ?row)"
    by (simp_all add: row_of_def finalize_def Let_def)
  have inst: "instantValue (row_first ?row) = Inr (the (Date_parse (row_first ?row)))"
    "instantValue (row_last ?row) = Inr (the (Date_parse (row_last ?row)))"
    using row_window(1,2) [OF assms(1,3)] by (auto simp: InstantSchema_def instantValue_def)
  show ?thesis
    using schema rate row_window(3) [OF assms(1,3)]
    by (simp add: parseCurationRow_def Let_def sorted dist len att inst not_less)
qed

lemma parseRowLoop_id: "(\<And>r i. r \<in> set rs \<Longrightarrow> parseCurationRow r i = Inr r) \<Longrightarrow> parseRowLoop rs i = Inr rs"
  by (induction rs arbitrary: i) simp_all

lemma seenRefs_ok:
  "distinct (map ref_key rs) \<Longrightarrow> ref_key ` set rs \<inter> set seen = {} \<Longrightarrow>
     \<exists>seen'. seenRefs rs seen = Inr seen' \<and> set seen' = ref_key ` set rs \<union> set seen"
proof (induction rs arbitrary: seen)
  case (Cons a rs)
  then show ?case using Cons.IH [of "ref_key a # seen"] by auto
qed simp

definition all_ref_keys :: "curation_row list \<Rightarrow> string list" where
  "all_ref_keys rows = concat (map (\<lambda>r. map ref_key (row_inputRefs r)) rows)"

lemma seenRows_ok:
  "distinct (map row_key rows) \<Longrightarrow> row_key ` set rows \<inter> set seenRowKeys = {} \<Longrightarrow> distinct (all_ref_keys rows)
    \<Longrightarrow> set (all_ref_keys rows) \<inter> set seenRefKeys = {} \<Longrightarrow> seenRows rows seenRowKeys seenRefKeys = Inr ()"
proof (induction rows arbitrary: seenRowKeys seenRefKeys)
  case (Cons row rows)
  obtain s where s: "seenRefs (row_inputRefs row) seenRefKeys = Inr s"
    "set s = ref_key ` set (row_inputRefs row) \<union> set seenRefKeys"
    using seenRefs_ok [of "row_inputRefs row" seenRefKeys] Cons.prems by (auto simp: all_ref_keys_def)
  have "seenRows rows (row_key row # seenRowKeys) s = Inr ()"
  proof (rule Cons.IH)
    show "set (all_ref_keys rows) \<inter> set s = {}"
      using Cons.prems(3,4) unfolding s(2) all_ref_keys_def by (simp add: Int_Un_distrib Int_Un_distrib2 Int_commute)
  qed (use Cons.prems in \<open>auto simp: all_ref_keys_def\<close>)
  with s Cons.prems show ?case by simp
qed simp

lemma rows_of_row_keys: "map row_key (rows_of ds) = sorted_list_of_set (obs_row_key ` set ds)"
  unfolding rows_of_def map_map by (rule map_idI) (simp add: row_key_row_of)

lemma rows_of_ref_keys:
  assumes "consistent (set ds)" and "distinct ds"
  shows "distinct (all_ref_keys (rows_of ds))" "set (all_ref_keys (rows_of ds)) = okey ` set ds"
proof -
  let ?K = "obs_row_key ` set ds"
  have "distinct (concat (map (\<lambda>k. map ref_key (row_inputRefs (row_of ds k))) ks))"
    if "distinct ks" "set ks \<subseteq> ?K" for ks
    using that
  proof (induction ks)
    case (Cons k ks)
    have "okey a \<noteq> okey b" if "a \<in> set (group k ds)" "l \<in> set ks" "b \<in> set (group l ds)" for a b l
      using that Cons.prems assms(1) by (auto simp: group_def consistent_def)
    then have "set (map ref_key (row_inputRefs (row_of ds k)))
      \<inter> set (concat (map (\<lambda>k. map ref_key (row_inputRefs (row_of ds k))) ks)) = {}"
      by (auto simp: set_row_refs okey_def)
    with Cons row_refs_keys [OF assms, of k] show ?case by simp
  qed simp
  then show "distinct (all_ref_keys (rows_of ds))" by (simp add: all_ref_keys_def rows_of_def o_def)
  show "set (all_ref_keys (rows_of ds)) = okey ` set ds"
    by (auto simp: all_ref_keys_def rows_of_def set_row_refs group_def okey_def)
qed

lemma parse_rows_of:
  assumes "consistent (set ds)" and "distinct ds"
  shows "parseCurationRows (rows_of ds) = Inr (rows_of ds)"
proof -
  have "parseRowLoop (rows_of ds) 0 = Inr (rows_of ds)"
    by (rule parseRowLoop_id) (use parse_row_of [OF assms] in \<open>auto simp: rows_of_def\<close>)
  moreover have "seenRows (rows_of ds) [] [] = Inr ()"
    by (rule seenRows_ok) (use rows_of_ref_keys(1) [OF assms] in \<open>simp_all add: rows_of_row_keys\<close>)
  moreover have "js_sort compareRows (rows_of ds) = rows_of ds"
    by (simp add: row_order.js_sort_eq sort_key_id_if_sorted rows_of_row_keys)
  ultimately show ?thesis by (simp add: parseCurationRows_def)
qed

section \<open>Loading stored rows\<close>

definition acc_from :: "curation_row \<Rightarrow> row_accumulator" where
  "acc_from row =
     \<lparr>acc_taskDigest = row_taskDigest row, acc_bucket = row_bucket row,
      acc_pass = rat_num (row_passRate row),
      acc_fail = rat_den (row_passRate row) - rat_num (row_passRate row),
      acc_inconclusive = row_verdicts row - rat_den (row_passRate row),
      acc_first = row_first row, acc_last = row_last row,
      acc_refs = map (\<lambda>r. (ref_key r, r)) (row_inputRefs row)\<rparr>"

definition seen_from :: "curation_row \<Rightarrow> (string \<times> seen_announcement) list" where
  "seen_from row = map (\<lambda>r. (ref_key r, \<lparr>sn_rowKey = row_key row, sn_ref = r, sn_observation = None\<rparr>)) (row_inputRefs row)"

lemma foldl_update_fresh:
  "distinct (map f rs) \<Longrightarrow> f ` set rs \<inter> fst ` set m = {} \<Longrightarrow>
     foldl (\<lambda>m r. AList.update (f r) (g r) m) m rs = m @ map (\<lambda>r. (f r, g r)) rs"
proof (induction rs arbitrary: m)
  case (Cons r rs)
  have "AList.update (f r) (g r) m = m @ [(f r, g r)]" by (rule update_absent) (use Cons.prems in auto)
  moreover have "f ` set rs \<inter> fst ` set (m @ [(f r, g r)]) = {}" using Cons.prems by (auto simp: image_iff)
  ultimately show ?case using Cons.IH [of "m @ [(f r, g r)]"] Cons.prems(1) by simp
qed simp

lemma loadRow_fresh:
  assumes "row_key row \<notin> fst ` set A" and "distinct (map ref_key (row_inputRefs row))"
    and "ref_key ` set (row_inputRefs row) \<inter> fst ` set S = {}"
  shows "loadRow (A, S) row = (A @ [(row_key row, acc_from row)], S @ seen_from row)"
  using assms by (simp add: loadRow_def foldl_update_fresh update_absent acc_from_def seen_from_def)

lemma keys_seen_from: "fst ` set (seen_from row) = ref_key ` set (row_inputRefs row)"
  by (auto simp: seen_from_def image_iff)

lemma loadRows_eq:
  "distinct (map row_key rows) \<Longrightarrow> row_key ` set rows \<inter> fst ` set A = {} \<Longrightarrow> distinct (all_ref_keys rows) \<Longrightarrow>
   set (all_ref_keys rows) \<inter> fst ` set S = {} \<Longrightarrow>
     foldl loadRow (A, S) rows = (A @ map (\<lambda>r. (row_key r, acc_from r)) rows, S @ concat (map seen_from rows))"
proof (induction rows arbitrary: A S)
  case (Cons row rows)
  have load: "loadRow (A, S) row = (A @ [(row_key row, acc_from row)], S @ seen_from row)"
    by (rule loadRow_fresh) (use Cons.prems in \<open>auto simp: all_ref_keys_def\<close>)
  have "foldl loadRow (A @ [(row_key row, acc_from row)], S @ seen_from row) rows
      = ((A @ [(row_key row, acc_from row)]) @ map (\<lambda>r. (row_key r, acc_from r)) rows,
         (S @ seen_from row) @ concat (map seen_from rows))"
  proof (rule Cons.IH)
    show "row_key ` set rows \<inter> fst ` set (A @ [(row_key row, acc_from row)]) = {}"
      using Cons.prems(1,2) by (auto simp: image_iff)
    show "set (all_ref_keys rows) \<inter> fst ` set (S @ seen_from row) = {}"
      using Cons.prems(3,4) unfolding set_append image_Un keys_seen_from all_ref_keys_def
      by (simp add: Int_Un_distrib Int_Un_distrib2 Int_commute)
  qed (use Cons.prems in \<open>auto simp: all_ref_keys_def\<close>)
  with load show ?case by simp
qed simp

lemma acc_from_finalize:
  assumes "\<forall>kr \<in> set (acc_refs a). fst kr = ref_key (snd kr)"
  shows "same_acc a (acc_from (finalize a))"
proof -
  have "image_mset (\<lambda>kr. (ref_key (snd kr), snd kr)) (mset (acc_refs a)) = image_mset (\<lambda>kr. kr) (mset (acc_refs a))"
    by (rule image_mset_cong) (use assms in \<open>auto simp: prod_eq_iff\<close>)
  then have "mset (acc_refs a) = mset (map (\<lambda>r. (ref_key r, r)) (js_sort compareRefs (map snd (acc_refs a))))"
    by (simp add: ref_order.mset_js_sort multiset.map_comp o_def)
  then show ?thesis by (cases a) (simp add: same_acc_def acc_from_def finalize_def Let_def)
qed

lemma load_represents:
  assumes "consistent (set ds)" and "distinct ds"
  shows "represents False ds (foldl loadRow ([], []) (rows_of ds))"
proof -
  let ?ks = "sorted_list_of_set (obs_row_key ` set ds)"
  let ?A = "map (\<lambda>r. (row_key r, acc_from r)) (rows_of ds)" and ?S = "concat (map seen_from (rows_of ds))"
  have load: "foldl loadRow ([], []) (rows_of ds) = (?A, ?S)"
    by (subst loadRows_eq) (use rows_of_ref_keys(1) [OF assms] in \<open>simp_all add: rows_of_row_keys\<close>)
  have A: "?A = map (\<lambda>k. (k, acc_from (row_of ds k))) ?ks"
    by (simp add: rows_of_def row_key_row_of)
  have "map_of ?A = (Some \<circ> (\<lambda>k. acc_from (row_of ds k))) |` set ?ks"
    unfolding A by (rule map_of_map_restrict)
  moreover have "same_acc (acc_of (group k ds)) (acc_from (row_of ds k))" for k
    unfolding row_of_def by (rule acc_from_finalize) (auto simp: acc_of_def okey_def)
  ultimately have acc: "acc_entry ds ?A k" for k
    by (simp add: acc_entry_def restrict_map_def)
  have keys: "fst ` set ?S = okey ` set ds"
    unfolding rows_of_ref_keys(2) [OF assms, symmetric]
    by (simp add: all_ref_keys_def keys_seen_from image_UN)
  have seen: "seen_entry False ds ?S k" for k
  proof (cases "map_of ?S k")
    case None
    then have "k \<notin> okey ` set ds" using keys by (simp only: map_of_eq_None_iff not_False_eq_True)
    with None show ?thesis by (simp add: seen_entry_def)
  next
    case (Some s)
    then have "(k, s) \<in> set ?S" by (rule map_of_SomeD)
    then obtain l ob where "l \<in> obs_row_key ` set ds" "ob \<in> set (group l ds)" "k = okey ob"
      "s = \<lparr>sn_rowKey = row_key (row_of ds l), sn_ref = cu_ref ob, sn_observation = None\<rparr>"
      by (auto simp: rows_of_def seen_from_def set_row_refs okey_def)
    then show ?thesis using Some row_key_row_of [of l ds] by (auto simp: seen_entry_def group_def)
  qed
  have "distinct (map fst ?A)" by (simp add: A o_def)
  then show ?thesis unfolding load using acc seen by (simp add: represents_def)
qed

section \<open>Properties\<close>

lemma fold_rows_of:
  assumes "consistent (set ds)" and "distinct ds" and "consistent (set ds \<union> set ys)"
  shows "foldCuration (Some (rows_of ds)) ys = Inr (rows_of (add_all ds ys))"
proof -
  obtain st where st: "curationLoop (foldl loadRow ([], []) (rows_of ds)) ys = Inr st" "represents False (add_all ds ys) st"
    using represents_loop [OF load_represents [OF assms(1,2)], of ys] assms(3) by auto
  have "finishRows st = rows_of (add_all ds ys)"
    by (rule finishRows_eq [OF st(2)]) (use assms in \<open>simp_all add: distinct_add_all\<close>)
  with st(1) show ?thesis by (simp add: foldCuration_def parse_rows_of [OF assms(1,2)])
qed

text \<open>
  C35: The projection depends only on the set of announcements. Delivering the same observations in
  another order, or any of them again, gives the same rows.
\<close>

theorem projectCuration_set:
  assumes "projectCuration xs = Inr rows" and "set ys = set xs"
  shows "projectCuration ys = Inr rows"
proof -
  have xs: "consistent (set xs)" "rows = rows_of (add_all [] xs)" using assms(1) by (simp_all add: project_iff)
  have "rows_of (add_all [] xs) = rows_of (add_all [] ys)"
    by (rule rows_of_perm) (use xs assms(2) in \<open>simp_all add: distinct_add_all\<close>)
  with xs assms(2) show ?thesis by (simp add: project_iff)
qed

text \<open>
  C37: Folding is incremental. When a log projects, so does each prefix of it, and folding the rest
  of the log onto the stored rows of the prefix gives the projection of the whole log; a suffix that
  announces parts of the prefix again is counted once.
\<close>

theorem foldCuration_incremental:
  assumes "projectCuration (xs @ ys) = Inr rows"
  shows "\<exists>stored. projectCuration xs = Inr stored \<and> foldCuration (Some stored) ys = Inr rows"
proof -
  have con: "consistent (set xs \<union> set ys)" and rows: "rows = rows_of (add_all [] (xs @ ys))"
    using assms by (simp_all add: project_iff)
  let ?ds = "add_all [] xs"
  have cx: "consistent (set xs)" using con by (rule consistent_sub) simp
  have "foldCuration (Some (rows_of ?ds)) ys = Inr (rows_of (add_all ?ds ys))"
    by (rule fold_rows_of) (use con cx in \<open>simp_all add: distinct_add_all\<close>)
  moreover have "add_all ?ds ys = add_all [] (xs @ ys)" by (simp add: add_all_def)
  moreover have "projectCuration xs = Inr (rows_of ?ds)" using cx by (simp add: project_iff)
  ultimately show ?thesis using rows by auto
qed

text \<open>
  A projection is a valid stored document: reading its rows back accepts every row and returns
  them unchanged and in the same order.
\<close>

theorem projectCuration_readable:
  assumes "projectCuration xs = Inr rows"
  shows "parseCurationRows rows = Inr rows"
  using assms by (auto simp: project_iff parse_rows_of distinct_add_all)

definition observed_in :: "curation_observation list \<Rightarrow> curation_row \<Rightarrow> curation_observation set" where
  "observed_in xs row = {ob \<in> set xs. cu_taskDigest ob = row_taskDigest row \<and> bucketOf ob = row_bucket row}"

lemma observed_in_group:
  assumes "projectCuration xs = Inr rows" and "row \<in> set rows"
  obtains k where "k \<in> obs_row_key ` set (add_all [] xs)" "row = row_of (add_all [] xs) k"
    "observed_in xs row = set (group k (add_all [] xs))" "distinct (group k (add_all [] xs))"
proof -
  let ?ds = "add_all [] xs"
  have con: "consistent (set xs)" and rows: "rows = rows_of ?ds" using assms(1) by (simp_all add: project_iff)
  obtain k where k: "k \<in> obs_row_key ` set ?ds" "row = row_of ?ds k" using assms(2) rows by (auto simp: rows_of_def)
  have hd: "hd (group k ?ds) \<in> set xs" "obs_row_key (hd (group k ?ds)) = k" using group_hd [OF k(1)] by simp_all
  have digest: "row_taskDigest row = cu_taskDigest (hd (group k ?ds))" "row_bucket row = bucketOf (hd (group k ?ds))"
    unfolding k(2) by (simp_all add: row_of_def finalize_def acc_of_def Let_def)
  have "observed_in xs row = set (group k ?ds)"
  proof (intro set_eqI iffI)
    fix ob assume "ob \<in> observed_in xs row"
    then show "ob \<in> set (group k ?ds)"
      using hd(2) digest by (simp add: observed_in_def group_def obs_row_key_def)
  next
    fix ob assume ob: "ob \<in> set (group k ?ds)"
    then have "ob \<in> set xs" "obs_row_key ob = obs_row_key (hd (group k ?ds))" using hd(2) by (simp_all add: group_def)
    then show "ob \<in> observed_in xs row"
      using obs_row_key_inj [of ob "hd (group k ?ds)"] con hd(1) digest by (auto simp: observed_in_def consistent_def)
  qed
  then show ?thesis using that [OF k] by (simp add: group_def distinct_add_all)
qed

lemma rate_split: "finite S \<Longrightarrow> card {ob \<in> S. cu_verdict ob = VPass \<or> cu_verdict ob = VFail}
    = card {ob \<in> S. cu_verdict ob = VPass} + card {ob \<in> S. cu_verdict ob = VFail}"
  by (subst card_Un_disjoint [symmetric]) (auto intro: arg_cong [of _ _ card])

text \<open>
  What a row counts. Each row of a projection belongs to a task and a bucket with at least one
  observation, its references are exactly those of the observations of that task and bucket, the
  number of verdicts is the number of references, and the pass rate counts the passes over the passes
  and failures, so an inconclusive verdict never enters the rate.
\<close>

theorem projectCuration_counts:
  assumes "projectCuration xs = Inr rows" and "row \<in> set rows"
  shows "observed_in xs row \<noteq> {} \<and> set (row_inputRefs row) = cu_ref ` observed_in xs row
    \<and> row_verdicts row = card (observed_in xs row) \<and> row_verdicts row = length (row_inputRefs row)
    \<and> row_attempts row = card (ref_attemptUri ` set (row_inputRefs row))
    \<and> rat_num (row_passRate row) = card {ob \<in> observed_in xs row. cu_verdict ob = VPass}
    \<and> rat_den (row_passRate row) = card {ob \<in> observed_in xs row. cu_verdict ob = VPass \<or> cu_verdict ob = VFail}"
proof -
  let ?ds = "add_all [] xs"
  obtain k where k: "k \<in> obs_row_key ` set ?ds" "row = row_of ?ds k"
    and mine: "observed_in xs row = set (group k ?ds)" and dg: "distinct (group k ?ds)"
    using observed_in_group [OF assms] .
  have count: "length (filter P (group k ?ds)) = card {ob \<in> observed_in xs row. P ob}" for P
    using distinct_card [OF distinct_filter [OF dg], of P] mine by simp
  have ratio: "row_passRate row = \<lparr>rat_num = length (filter (\<lambda>ob. cu_verdict ob = VPass) (group k ?ds)),
      rat_den = length (filter (\<lambda>ob. cu_verdict ob = VPass) (group k ?ds))
        + length (filter (\<lambda>ob. cu_verdict ob = VFail) (group k ?ds))\<rparr>"
    unfolding k(2) by (simp add: row_of_def finalize_def acc_of_def Let_def)
  have pass: "rat_num (row_passRate row) = card {ob \<in> observed_in xs row. cu_verdict ob = VPass}"
    and rate: "rat_den (row_passRate row) = card {ob \<in> observed_in xs row. cu_verdict ob = VPass \<or> cu_verdict ob = VFail}"
    using rate_split [of "observed_in xs row"] unfolding ratio by (simp_all add: count) (simp add: mine)
  have "row_verdicts row = card (observed_in xs row)" by (simp add: k(2) row_of_fields mine [unfolded k(2)] distinct_card [OF dg])
  moreover have "observed_in xs row \<noteq> {}" using group_nonempty [OF k(1)] mine by simp
  moreover have "set (row_inputRefs row) = cu_ref ` observed_in xs row" using mine by (simp add: k(2) set_row_refs)
  moreover have "row_verdicts row = length (row_inputRefs row)" by (simp add: k(2) row_of_fields ref_order.length_js_sort)
  moreover have "row_attempts row = card (ref_attemptUri ` set (row_inputRefs row))"
    by (simp add: k(2) row_of_fields length_remdups_card_conv)
  ultimately show ?thesis using pass rate by blast
qed

text \<open>
  C39: The projection accepts a log exactly when every observation is well formed and no announcement
  key is claimed by two different observations: an equivocating announcement always stops the fold.
\<close>

theorem projectCuration_accepts:
  "(\<exists>rows. projectCuration xs = Inr rows) \<longleftrightarrow>
     list_all CurationObservationSchema xs \<and>
     \<not> (\<exists>ob \<in> set xs. \<exists>p \<in> set xs. ref_key (cu_ref ob) = ref_key (cu_ref p) \<and> ob \<noteq> p)"
  by (auto simp: project_iff consistent_def list_all_iff okey_def)

lemma ratio_less:
  assumes "0 < b" and "0 < d"
  shows "rat_of_int a / rat_of_int b < rat_of_int c / rat_of_int d \<longleftrightarrow> a * d < c * b"
proof -
  have "rat_of_int a / rat_of_int b < rat_of_int c / rat_of_int d
      \<longleftrightarrow> rat_of_int a * rat_of_int d < rat_of_int c * rat_of_int b"
    using assms by (simp add: pos_divide_less_eq pos_less_divide_eq mult.commute)
  then show ?thesis unfolding of_int_mult [symmetric] of_int_less_iff .
qed

text \<open>
  The saturation test is exact. For an admissible threshold and products within the exact integer
  range the answer is the order of the two rationals, strictly above meaning saturated; a row without
  decided verdicts has no answer; every other case is refused rather than rounded.
\<close>

theorem saturationAt_exact:
  "saturationAt row num den =
     (if \<not> (isSafeInteger num \<and> isSafeInteger den \<and> 0 < den \<and> 0 \<le> num) then Inl BadThreshold
      else if rat_den (row_passRate row) = 0 then Inr None
      else if \<bar>int (rat_num (row_passRate row)) * den\<bar> \<ge> 2 ^ 53 \<or> \<bar>num * int (rat_den (row_passRate row))\<bar> \<ge> 2 ^ 53
        then Inl RateOutOfRange
      else Inr (Some (rat_of_int num / rat_of_int den
             < rat_of_nat (rat_num (row_passRate row)) / rat_of_nat (rat_den (row_passRate row)))))"
proof (cases "isSafeInteger num \<and> isSafeInteger den \<and> 0 < den \<and> 0 \<le> num \<and> rat_den (row_passRate row) \<noteq> 0")
  case True
  let ?n = "int (rat_num (row_passRate row))" and ?d = "int (rat_den (row_passRate row))"
  have "rat_of_int num / rat_of_int den < rat_of_int ?n / rat_of_int ?d \<longleftrightarrow> num * ?d < ?n * den"
    by (rule ratio_less) (use True in simp_all)
  moreover have "isSafeInteger x \<longleftrightarrow> \<not> \<bar>x\<bar> \<ge> 2 ^ 53" for x by (auto simp: isSafeInteger_def MAX_SAFE_INTEGER_def)
  ultimately show ?thesis using True
    by (simp add: saturationAt_def compareRateTo_def assertThreshold_def Let_def not_less of_int_of_nat_eq)
next
  case False
  then show ?thesis by (auto simp: saturationAt_def compareRateTo_def assertThreshold_def)
qed

section \<open>Witnesses\<close>

definition sample_digest :: "char \<Rightarrow> string" where
  "sample_digest c = ''sha256:'' @ replicate 64 c"

definition sample_observation :: "char \<Rightarrow> char \<Rightarrow> observed_verdict \<Rightarrow> string \<Rightarrow> curation_observation" where
  "sample_observation task entry v instant =
     \<lparr>cu_taskDigest = sample_digest task, cu_verdict = v, cu_observedAt = instant, cu_attribution = ''operator'',
      cu_benchmarkRun = None,
      cu_ref = \<lparr>ref_agent = ''agent'', ref_name = ''feed'', ref_entry = sample_digest entry,
        ref_announcementId = ''announcement'', ref_record = sample_digest CHR ''0'', ref_attemptUri = ''urn:attempt:1''\<rparr>\<rparr>"

definition sample_log :: "curation_observation list" where
  "sample_log =
     [sample_observation CHR ''a'' CHR ''1'' VPass ''2026-01-02T00:00:00Z'',
      sample_observation CHR ''a'' CHR ''2'' VFail ''2026-01-01T00:00:00Z'']"

definition sample_rows :: "curation_row list" where
  "sample_rows =
     [\<lparr>row_taskDigest = sample_digest CHR ''a'', row_bucket = Organic, row_attempts = 1, row_verdicts = 2,
       row_passRate = \<lparr>rat_num = 1, rat_den = 2\<rparr>, row_first = ''2026-01-01T00:00:00Z'', row_last = ''2026-01-02T00:00:00Z'',
       row_inputRefs = map cu_ref sample_log\<rparr>]"

lemma sample_projects: "projectCuration sample_log = Inr sample_rows"
  by code_simp

lemma sample_row: "hd sample_rows \<in> set sample_rows"
  by (rule hd_in_set) (simp only: sample_rows_def list.simps not_False_eq_True)

theorem projectCuration_set_witness:
  "projectCuration (rev sample_log @ sample_log) = Inr sample_rows"
  by (rule projectCuration_set [OF sample_projects]) auto

theorem foldCuration_incremental_witness:
  "\<exists>stored. projectCuration [hd sample_log] = Inr stored \<and> foldCuration (Some stored) (tl sample_log) = Inr sample_rows"
  by (rule foldCuration_incremental) (use sample_projects in \<open>simp add: sample_log_def\<close>)

theorem projectCuration_readable_witness: "parseCurationRows sample_rows = Inr sample_rows"
  by (rule projectCuration_readable [OF sample_projects])

theorem projectCuration_counts_witness:
  "observed_in sample_log (hd sample_rows) \<noteq> {} \<and> row_verdicts (hd sample_rows) = card (observed_in sample_log (hd sample_rows))
   \<and> rat_num (row_passRate (hd sample_rows)) = card {ob \<in> observed_in sample_log (hd sample_rows). cu_verdict ob = VPass}"
  using projectCuration_counts [OF sample_projects sample_row] by blast

theorem projectCuration_accepts_witness:
  "list_all CurationObservationSchema sample_log \<and>
     \<not> (\<exists>ob \<in> set sample_log. \<exists>p \<in> set sample_log. ref_key (cu_ref ob) = ref_key (cu_ref p) \<and> ob \<noteq> p)"
  using projectCuration_accepts [of sample_log] sample_projects by blast

end
