(* ===== verification/Broadcast_Lock.thy ===== *)
theory Broadcast_Lock
  imports Js_Runtime
begin

text \<open>
  The broadcast lock (marketplace/venue-base/src/broadcast/lock.ts): a lease row per (chain, sender) in
  the shared database gives exclusion across processes, a promise queue per key gives order inside one.

  The state machine has one event per atomic piece of \<open>withSender\<close>, that is, per stretch of code between
  two awaits: entering the queue, passing the gate of the prior call, one run of the acquire statement,
  one tick of the renewal timer, the body settling, and the two \<open>finally\<close> blocks. Several lock instances
  (one per \<open>createBroadcastLock\<close>, each with its own holder id and lease) share the table; they read one
  clock, which only moves forward (the code reads \<open>Date.now\<close>, which can be set back). A renewal may fail to happen: nothing forces the timer, which covers
  a blocked event loop and the cleared interval after a database error.

  Shown: no two bodies of one sender run while both leases are live; calls of one instance pass in
  order and one at a time; every queued call can still get the lock. A body whose lease was lost is not
  stopped, so it may run beside the next holder.
\<close>

section \<open>The lease statements\<close>

record lock_row =
  lk_holder :: string
  lk_acquired_at_ms :: int
  lk_expires_at_ms :: int

text \<open>Each statement works on the row at its primary key and reports the number of rows it changed.\<close>

definition acquire_run :: "string \<Rightarrow> int \<Rightarrow> int \<Rightarrow> lock_row option \<Rightarrow> lock_row option \<times> nat" where
  "acquire_run holder acquiredAtMs expiresAtMs row =
     (let new = \<lparr>lk_holder = holder, lk_acquired_at_ms = acquiredAtMs, lk_expires_at_ms = expiresAtMs\<rparr>
      in case row of
           None \<Rightarrow> (Some new, 1)
         | Some r \<Rightarrow> if lk_expires_at_ms r \<le> acquiredAtMs then (Some new, 1) else (Some r, 0))"

definition release_run :: "string \<Rightarrow> lock_row option \<Rightarrow> lock_row option" where
  "release_run holder row = (case row of Some r \<Rightarrow> if lk_holder r = holder then None else Some r | None \<Rightarrow> None)"

definition renew_run :: "string \<Rightarrow> int \<Rightarrow> lock_row option \<Rightarrow> lock_row option \<times> nat" where
  "renew_run holder expiresAtMs row =
     (case row of
        Some r \<Rightarrow> if lk_holder r = holder then (Some (r\<lparr>lk_expires_at_ms := expiresAtMs\<rparr>), 1) else (Some r, 0)
      | None \<Rightarrow> (None, 0))"

section \<open>Calls and the system\<close>

text \<open>
  \<open>Settled\<close> and \<open>Lost\<close> are the two ways \<open>Promise.race\<close> can end, \<open>Done\<close> follows the \<open>finally\<close> blocks.
  \<open>c_prior\<close> is the gate found in the queue, \<open>c_lease\<close> the expiry this call last wrote to the row and
  \<open>c_body\<close> whether \<open>fn()\<close> has been called and has not settled.
\<close>

datatype phase = Queued | Acquiring | Critical | Settled | Lost | Done

type_synonym lock_key = "nat \<times> string"

record lock_call =
  c_inst :: nat
  c_key :: lock_key
  c_prior :: "nat option"
  c_phase :: phase
  c_body :: bool
  c_lease :: int

record lock_cfg =
  cf_holderId :: "nat \<Rightarrow> string"
  cf_leaseMs :: "nat \<Rightarrow> int"

record lock_sys =
  ls_now :: int
  ls_locks :: "lock_key \<Rightarrow> lock_row option"
  ls_queues :: "nat \<times> lock_key \<Rightarrow> nat option"
  ls_calls :: "lock_call list"

definition sender_key :: "nat \<Rightarrow> string \<Rightarrow> lock_key" where
  "sender_key chainId sender = (chainId, toLowerCase sender)"

datatype lock_event =
    WithSender nat nat string
  | PassGate nat
  | TryAcquire nat
  | AcquireFails nat
  | Renew nat
  | BodyEnds nat
  | Finish nat
  | ReleaseFails nat
  | Tick nat

definition gate_open :: "lock_sys \<Rightarrow> nat option \<Rightarrow> bool" where
  "gate_open s prior = (case prior of None \<Rightarrow> True | Some d \<Rightarrow> d < length (ls_calls s) \<and> c_phase (ls_calls s ! d) = Done)"

definition set_call :: "nat \<Rightarrow> lock_call \<Rightarrow> lock_sys \<Rightarrow> lock_sys" where
  "set_call c call s = s\<lparr>ls_calls := (ls_calls s)[c := call]\<rparr>"

text \<open>The outer \<open>finally\<close>: open the gate, and drop the queue entry if it is still ours.\<close>

definition leave_queue :: "nat \<Rightarrow> lock_call \<Rightarrow> lock_sys \<Rightarrow> lock_sys" where
  "leave_queue c call s =
     (let s' = set_call c (call\<lparr>c_phase := Done\<rparr>) s; q = (c_inst call, c_key call)
      in if ls_queues s q = Some c then s'\<lparr>ls_queues := (ls_queues s)(q := None)\<rparr> else s')"

definition enter_queue :: "nat \<Rightarrow> lock_key \<Rightarrow> lock_sys \<Rightarrow> lock_sys" where
  "enter_queue i k s =
     s\<lparr>ls_calls := ls_calls s @ [\<lparr>c_inst = i, c_key = k, c_prior = ls_queues s (i, k), c_phase = Queued,
                                   c_body = False, c_lease = 0\<rparr>],
       ls_queues := (ls_queues s)((i, k) := Some (length (ls_calls s)))\<rparr>"

fun call_event :: "lock_cfg \<Rightarrow> lock_event \<Rightarrow> nat \<Rightarrow> lock_call \<Rightarrow> lock_sys \<Rightarrow> lock_sys option" where
  "call_event cfg (PassGate _) c call s =
     (if c_phase call = Queued \<and> gate_open s (c_prior call)
      then Some (set_call c (call\<lparr>c_phase := Acquiring\<rparr>) s) else None)"
| "call_event cfg (TryAcquire _) c call s =
     (if c_phase call = Acquiring
      then let expires = ls_now s + cf_leaseMs cfg (c_inst call);
               (row, changes) = acquire_run (cf_holderId cfg (c_inst call)) (ls_now s) expires (ls_locks s (c_key call))
           in Some (if changes > 0
                    then set_call c (call\<lparr>c_phase := Critical, c_body := True, c_lease := expires\<rparr>)
                           (s\<lparr>ls_locks := (ls_locks s)(c_key call := row)\<rparr>)
                    else s)
      else None)"
| "call_event cfg (AcquireFails _) c call s =
     (if c_phase call = Acquiring then Some (leave_queue c call s) else None)"
| "call_event cfg (Renew _) c call s =
     (if c_phase call = Critical
      then let expires = ls_now s + cf_leaseMs cfg (c_inst call);
               (row, changes) = renew_run (cf_holderId cfg (c_inst call)) expires (ls_locks s (c_key call))
           in Some (if changes = 0 then set_call c (call\<lparr>c_phase := Lost\<rparr>) s
                    else set_call c (call\<lparr>c_lease := expires\<rparr>) (s\<lparr>ls_locks := (ls_locks s)(c_key call := row)\<rparr>))
      else None)"
| "call_event cfg (BodyEnds _) c call s =
     (if c_body call
      then Some (set_call c (call\<lparr>c_body := False, c_phase := (if c_phase call = Critical then Settled else c_phase call)\<rparr>) s)
      else None)"
| "call_event cfg (Finish _) c call s =
     (if c_phase call = Settled \<or> c_phase call = Lost
      then Some (leave_queue c call
             (s\<lparr>ls_locks := (ls_locks s)(c_key call := release_run (cf_holderId cfg (c_inst call)) (ls_locks s (c_key call)))\<rparr>))
      else None)"
| "call_event cfg (ReleaseFails _) c call s =
     (if c_phase call = Settled \<or> c_phase call = Lost then Some (leave_queue c call s) else None)"
| "call_event cfg _ c call s = None"

fun lock_event_call :: "lock_event \<Rightarrow> nat option" where
  "lock_event_call (PassGate c) = Some c"
| "lock_event_call (TryAcquire c) = Some c"
| "lock_event_call (AcquireFails c) = Some c"
| "lock_event_call (Renew c) = Some c"
| "lock_event_call (BodyEnds c) = Some c"
| "lock_event_call (Finish c) = Some c"
| "lock_event_call (ReleaseFails c) = Some c"
| "lock_event_call _ = None"

fun lock_exec :: "lock_cfg \<Rightarrow> lock_event \<Rightarrow> lock_sys \<Rightarrow> lock_sys option" where
  "lock_exec cfg (WithSender i chainId sender) s = Some (enter_queue i (sender_key chainId sender) s)"
| "lock_exec cfg (Tick d) s = Some (s\<lparr>ls_now := ls_now s + int d\<rparr>)"
| "lock_exec cfg e s =
     (case lock_event_call e of
        Some c \<Rightarrow> if c < length (ls_calls s) then call_event cfg e c (ls_calls s ! c) s else None
      | None \<Rightarrow> None)"

text \<open>The table may hold rows that earlier processes left behind.\<close>

definition init_lock :: "int \<Rightarrow> (lock_key \<Rightarrow> lock_row option) \<Rightarrow> lock_sys" where
  "init_lock now locks = \<lparr>ls_now = now, ls_locks = locks, ls_queues = (\<lambda>_. None), ls_calls = []\<rparr>"

inductive lock_step :: "lock_cfg \<Rightarrow> lock_sys \<Rightarrow> lock_sys \<Rightarrow> bool" for cfg where
  step: "lock_exec cfg e s = Some s' \<Longrightarrow> lock_step cfg s s'"

inductive lock_reach :: "lock_cfg \<Rightarrow> lock_sys \<Rightarrow> bool" for cfg where
  init: "lock_reach cfg (init_lock now locks)"
| step: "lock_reach cfg s \<Longrightarrow> lock_step cfg s s' \<Longrightarrow> lock_reach cfg s'"

inductive_cases lock_stepE: "lock_step cfg s s'"

section \<open>The queue\<close>

lemma nth_update: "c < length xs \<Longrightarrow> xs[c := x] ! e = (if e = c then x else xs ! e)"
  by simp

definition pk :: "lock_call \<Rightarrow> nat \<times> lock_key" where
  "pk call = (c_inst call, c_key call)"

definition earlier_done :: "lock_call list \<Rightarrow> nat \<Rightarrow> bool" where
  "earlier_done cs c \<longleftrightarrow> (\<forall>e < c. pk (cs ! e) = pk (cs ! c) \<longrightarrow> c_phase (cs ! e) = Done)"

definition prior_ok :: "lock_call list \<Rightarrow> nat \<Rightarrow> bool" where
  "prior_ok cs c \<longleftrightarrow>
     (case c_prior (cs ! c) of
        None \<Rightarrow> earlier_done cs c
      | Some d \<Rightarrow> d < c \<and> pk (cs ! d) = pk (cs ! c) \<and> (\<forall>e. d < e \<and> e < c \<longrightarrow> pk (cs ! e) \<noteq> pk (cs ! c)))"

definition queue_ok :: "lock_call list \<Rightarrow> nat \<times> lock_key \<Rightarrow> nat option \<Rightarrow> bool" where
  "queue_ok cs q gate \<longleftrightarrow>
     (case gate of
        None \<Rightarrow> \<forall>c < length cs. pk (cs ! c) = q \<longrightarrow> c_phase (cs ! c) = Done
      | Some g \<Rightarrow> g < length cs \<and> pk (cs ! g) = q \<and> c_phase (cs ! g) \<noteq> Done
                  \<and> (\<forall>c < length cs. g < c \<longrightarrow> pk (cs ! c) \<noteq> q))"

definition queue_inv :: "lock_sys \<Rightarrow> bool" where
  "queue_inv s \<longleftrightarrow>
     (\<forall>c < length (ls_calls s). prior_ok (ls_calls s) c
        \<and> (c_phase (ls_calls s ! c) \<noteq> Queued \<longrightarrow> earlier_done (ls_calls s) c))
     \<and> (\<forall>q. queue_ok (ls_calls s) q (ls_queues s q))"

lemma queue_invI:
  assumes "\<And>c. c < length (ls_calls s) \<Longrightarrow> prior_ok (ls_calls s) c"
    and "\<And>c. c < length (ls_calls s) \<Longrightarrow> c_phase (ls_calls s ! c) \<noteq> Queued \<Longrightarrow> earlier_done (ls_calls s) c"
    and "\<And>q. queue_ok (ls_calls s) q (ls_queues s q)"
  shows "queue_inv s"
  using assms unfolding queue_inv_def by blast

lemma leave_queue_fields:
  "ls_calls (leave_queue c call s) = (ls_calls s)[c := call\<lparr>c_phase := Done\<rparr>]"
  "ls_queues (leave_queue c call s) =
     (if ls_queues s (pk call) = Some c then (ls_queues s)(pk call := None) else ls_queues s)"
  "ls_locks (leave_queue c call s) = ls_locks s" "ls_now (leave_queue c call s) = ls_now s"
  by (simp_all add: leave_queue_def set_call_def pk_def Let_def)

lemma queue_invD:
  assumes "queue_inv s" and "c < length (ls_calls s)"
  shows "prior_ok (ls_calls s) c" "c_phase (ls_calls s ! c) \<noteq> Queued \<Longrightarrow> earlier_done (ls_calls s) c"
    "queue_ok (ls_calls s) q (ls_queues s q)"
  using assms unfolding queue_inv_def by blast+

text \<open>One call of an instance is past the gate at a time.\<close>

lemma past_gate_unique:
  assumes "queue_inv s" and "c < length (ls_calls s)" and "d < length (ls_calls s)"
    and "pk (ls_calls s ! c) = pk (ls_calls s ! d)"
    and "c_phase (ls_calls s ! c) \<notin> {Queued, Done}" and "c_phase (ls_calls s ! d) \<notin> {Queued, Done}"
  shows "c = d"
proof (rule ccontr)
  assume "c \<noteq> d"
  then consider (lt) "c < d" | (gt) "d < c" by linarith
  moreover have "earlier_done (ls_calls s) c" "earlier_done (ls_calls s) d"
    using queue_invD(2) [OF assms(1,2)] queue_invD(2) [OF assms(1,3)] assms(5,6) by simp_all
  ultimately show False using assms(4-6) by cases (simp_all add: earlier_done_def)
qed

text \<open>A call may change its phase without finishing once its gate is open.\<close>

lemma pk_update: "c < length cs \<Longrightarrow> pk call' = pk (cs ! c) \<Longrightarrow> pk (cs[c := call'] ! e) = pk (cs ! e)"
  by (simp add: nth_update)

lemma queue_inv_set_call:
  assumes inv: "queue_inv s" and c: "c < length (ls_calls s)"
    and same: "pk call' = pk (ls_calls s ! c)" "c_prior call' = c_prior (ls_calls s ! c)"
    and fin: "c_phase call' = Done \<longleftrightarrow> c_phase (ls_calls s ! c) = Done"
    and gate: "c_phase call' \<noteq> Queued \<Longrightarrow> earlier_done (ls_calls s) c"
  shows "queue_inv (set_call c call' s)"
proof -
  let ?cs = "ls_calls s" and ?cs' = "(ls_calls s)[c := call']"
  have pk: "pk (?cs' ! e) = pk (?cs ! e)" for e using pk_update [OF c same(1)] .
  have prior: "c_prior (?cs' ! e) = c_prior (?cs ! e)" for e using same(2) c by (simp add: nth_update)
  have dn: "c_phase (?cs' ! e) = Done \<longleftrightarrow> c_phase (?cs ! e) = Done" for e using fin c by (simp add: nth_update)
  have ed: "earlier_done ?cs' e \<longleftrightarrow> earlier_done ?cs e" for e by (simp add: earlier_done_def pk dn)
  have "prior_ok ?cs' e \<longleftrightarrow> prior_ok ?cs e" for e by (cases "c_prior (?cs ! e)") (simp_all add: prior_ok_def pk prior ed)
  moreover have "queue_ok ?cs' q g \<longleftrightarrow> queue_ok ?cs q g" for q g by (cases g) (simp_all add: queue_ok_def pk dn)
  moreover have "earlier_done ?cs e" if "e < length ?cs" "c_phase (?cs' ! e) \<noteq> Queued" for e
    using that gate queue_invD(2) [OF inv that(1)] c by (cases "e = c") auto
  ultimately show ?thesis using inv by (simp add: queue_inv_def set_call_def ed)
qed

lemma queue_inv_leave:
  assumes inv: "queue_inv s" and c: "c < length (ls_calls s)" and call: "call = ls_calls s ! c"
    and phase: "c_phase call \<notin> {Queued, Done}"
  shows "queue_inv (leave_queue c call s)"
proof -
  let ?cs = "ls_calls s"
  define cs' where "cs' = (ls_calls s)[c := call\<lparr>c_phase := Done\<rparr>]"
  have len: "length cs' = length ?cs" by (simp add: cs'_def)
  have pk: "pk (cs' ! e) = pk (?cs ! e)" for e using c call by (simp add: cs'_def nth_update pk_def)
  have prior: "c_prior (cs' ! e) = c_prior (?cs ! e)" for e using c call by (simp add: cs'_def nth_update)
  have dn: "c_phase (cs' ! e) = Done \<longleftrightarrow> e = c \<or> c_phase (?cs ! e) = Done" for e
    using c by (simp add: cs'_def nth_update)
  have cd: "earlier_done ?cs c" using queue_invD(2) [OF inv c] phase call by simp
  have ed: "earlier_done ?cs e \<Longrightarrow> earlier_done cs' e" for e by (simp add: earlier_done_def pk dn)
  have calls: "prior_ok cs' e \<and> (c_phase (cs' ! e) \<noteq> Queued \<longrightarrow> earlier_done cs' e)" if e: "e < length ?cs" for e
  proof
    show "prior_ok cs' e" using queue_invD(1) [OF inv e] by (auto simp: prior_ok_def pk prior ed split: option.splits)
    show "c_phase (cs' ! e) \<noteq> Queued \<longrightarrow> earlier_done cs' e"
      using queue_invD(2) [OF inv e] cd ed c by (cases "e = c") (auto simp: cs'_def)
  qed
  have queues: "queue_ok cs' q (if ls_queues s (pk call) = Some c then ((ls_queues s)(pk call := None)) q else ls_queues s q)" for q
  proof -
    note ok = queue_invD(3) [OF inv c, of q]
    show ?thesis
    proof (cases "ls_queues s q")
      case None
      with ok show ?thesis by (auto simp: queue_ok_def len pk dn)
    next
      case (Some g)
      with ok have g: "g < length ?cs" "pk (?cs ! g) = q" "c_phase (?cs ! g) \<noteq> Done"
        "\<forall>e < length ?cs. g < e \<longrightarrow> pk (?cs ! e) \<noteq> q" by (auto simp: queue_ok_def)
      show ?thesis
      proof (cases "g = c")
        case True
        have "e < c \<or> e = c" if "e < length ?cs" "pk (?cs ! e) = q" for e
          using g(4) that True by (cases e c rule: linorder_cases) auto
        then show ?thesis using Some True g(2) cd call by (auto simp: queue_ok_def len pk dn earlier_done_def)
      next
        case False
        then show ?thesis using Some g call by (auto simp: queue_ok_def len pk dn)
      qed
    qed
  qed
  show ?thesis
  proof (rule queue_invI, unfold leave_queue_fields cs'_def [symmetric] len)
    show "queue_ok cs' q ((if ls_queues s (pk call) = Some c then (ls_queues s)(pk call := None) else ls_queues s) q)" for q
      using queues [of q] by (cases "ls_queues s (pk call) = Some c") simp_all
  qed (use calls in blast)+
qed

lemma queue_inv_enter:
  assumes inv: "queue_inv s"
  shows "queue_inv (enter_queue i k s)"
proof -
  let ?cs = "ls_calls s" and ?n = "length (ls_calls s)"
  let ?new = "\<lparr>c_inst = i, c_key = k, c_prior = ls_queues s (i, k), c_phase = Queued, c_body = False, c_lease = 0\<rparr>"
  define cs' where "cs' = ?cs @ [?new]"
  have len: "length cs' = Suc ?n" by (simp add: cs'_def)
  have old: "cs' ! e = ?cs ! e" if "e < ?n" for e using that by (simp add: cs'_def nth_append)
  have new: "cs' ! ?n = ?new" by (simp add: cs'_def)
  have ed: "earlier_done cs' e \<longleftrightarrow> earlier_done ?cs e" if "e < ?n" for e
    using that by (auto simp: earlier_done_def old)
  have po: "prior_ok cs' e \<longleftrightarrow> prior_ok ?cs e" if "e < ?n" for e
    using that ed [OF that] by (auto simp: prior_ok_def old split: option.splits)
  have q: "queue_ok ?cs q (ls_queues s q)" for q using inv unfolding queue_inv_def by blast
  have "prior_ok cs' ?n"
    using q [of "(i, k)"] by (auto simp: prior_ok_def queue_ok_def new old earlier_done_def pk_def split: option.splits)
  moreover have "queue_ok cs' q (((ls_queues s)((i, k) := Some ?n)) q)" for q
  proof (cases "q = (i, k)")
    case False
    then show ?thesis using q [of q] by (auto simp: queue_ok_def len old new pk_def less_Suc_eq split: option.splits)
  qed (auto simp: queue_ok_def len new pk_def less_Suc_eq)
  moreover have fields: "ls_calls (enter_queue i k s) = cs'"
    "ls_queues (enter_queue i k s) = (ls_queues s)((i, k) := Some ?n)"
    by (simp_all add: enter_queue_def cs'_def)
  moreover have "prior_ok cs' c" "c_phase (cs' ! c) \<noteq> Queued \<Longrightarrow> earlier_done cs' c" if "c < ?n" for c
    using queue_invD(1,2) [OF inv that] po [OF that] ed [OF that] old [OF that] by simp_all
  ultimately show ?thesis
    by (intro queue_invI, unfold fields len less_Suc_eq) (use new in auto)
qed

lemma queue_inv_cong: "ls_calls s' = ls_calls s \<Longrightarrow> ls_queues s' = ls_queues s \<Longrightarrow> queue_inv s' \<longleftrightarrow> queue_inv s"
  by (simp add: queue_inv_def)

lemma gate_open_earlier_done:
  assumes inv: "queue_inv s" and c: "c < length (ls_calls s)" and gate_open: "gate_open s (c_prior (ls_calls s ! c))"
  shows "earlier_done (ls_calls s) c"
proof (cases "c_prior (ls_calls s ! c)")
  case None
  then show ?thesis using queue_invD(1) [OF inv c] by (simp add: prior_ok_def)
next
  case (Some d)
  then have d: "d < c" "pk (ls_calls s ! d) = pk (ls_calls s ! c)" "d < length (ls_calls s)" "c_phase (ls_calls s ! d) = Done"
    "\<And>e. d < e \<Longrightarrow> e < c \<Longrightarrow> pk (ls_calls s ! e) \<noteq> pk (ls_calls s ! c)"
    using queue_invD(1) [OF inv c] gate_open by (auto simp: prior_ok_def gate_open_def)
  have before: "earlier_done (ls_calls s) d" using queue_invD(2) [OF inv d(3)] d(4) by simp
  show ?thesis unfolding earlier_done_def
  proof (intro allI impI)
    fix e assume "e < c" and pk: "pk (ls_calls s ! e) = pk (ls_calls s ! c)"
    then have "e < d \<or> e = d" using d(5) by (meson linorder_neqE_nat)
    then show "c_phase (ls_calls s ! e) = Done" using before d(2,4) pk by (auto simp: earlier_done_def)
  qed
qed

text \<open>What one event of a call does, as one of five changes.\<close>

inductive call_change :: "lock_cfg \<Rightarrow> nat \<Rightarrow> lock_call \<Rightarrow> lock_sys \<Rightarrow> lock_sys \<Rightarrow> bool" for cfg c call s where
  stays: "call_change cfg c call s s"
| moves: "c_phase call = Queued \<and> ph = Acquiring \<and> gate_open s (c_prior call)
       \<or> c_phase call = Critical \<and> (ph = Settled \<and> \<not> b \<or> ph = Lost) \<or> c_phase call = ph \<and> ph \<noteq> Critical
    \<Longrightarrow> b \<longrightarrow> c_body call
    \<Longrightarrow> call_change cfg c call s (set_call c (call\<lparr>c_body := b, c_phase := ph\<rparr>) s)"
| acquires: "c_phase call = Acquiring \<Longrightarrow> (\<forall>r. ls_locks s (c_key call) = Some r \<longrightarrow> lk_expires_at_ms r \<le> ls_now s)
    \<Longrightarrow> expires = ls_now s + cf_leaseMs cfg (c_inst call)
    \<Longrightarrow> call_change cfg c call s
         (set_call c (call\<lparr>c_phase := Critical, c_body := True, c_lease := expires\<rparr>)
           (s\<lparr>ls_locks := (ls_locks s)(c_key call \<mapsto> \<lparr>lk_holder = cf_holderId cfg (c_inst call),
                lk_acquired_at_ms = ls_now s, lk_expires_at_ms = expires\<rparr>)\<rparr>))"
| renews: "c_phase call = Critical \<Longrightarrow> ls_locks s (c_key call) = Some r \<Longrightarrow> lk_holder r = cf_holderId cfg (c_inst call)
    \<Longrightarrow> expires = ls_now s + cf_leaseMs cfg (c_inst call)
    \<Longrightarrow> call_change cfg c call s
         (set_call c (call\<lparr>c_lease := expires\<rparr>) (s\<lparr>ls_locks := (ls_locks s)(c_key call \<mapsto> r\<lparr>lk_expires_at_ms := expires\<rparr>)\<rparr>))"
| leaves: "c_phase call \<in> {Acquiring, Settled, Lost}
    \<Longrightarrow> row = ls_locks s (c_key call) \<or> row = release_run (cf_holderId cfg (c_inst call)) (ls_locks s (c_key call))
    \<Longrightarrow> call_change cfg c call s (leave_queue c call (s\<lparr>ls_locks := (ls_locks s)(c_key call := row)\<rparr>))"

lemma call_event_change:
  assumes "call_event cfg e c call s = Some s'" and "c_body call \<Longrightarrow> c_phase call \<in> {Critical, Lost, Done}"
  shows "call_change cfg c call s s'"
proof (cases e)
  case (PassGate x)
  then show ?thesis
    using assms(1) call_change.moves [of call Acquiring s "c_body call" cfg c] by (auto split: if_splits)
next
  case (TryAcquire x)
  show ?thesis
  proof (cases "ls_locks s (c_key call)")
    case None
    then show ?thesis
      using assms(1) TryAcquire call_change.acquires [of call s _ cfg c] by (auto simp: acquire_run_def Let_def split: if_splits)
  next
    case (Some r)
    then show ?thesis
      using assms(1) TryAcquire call_change.acquires [of call s _ cfg c] call_change.stays [of cfg c call s]
      by (auto simp: acquire_run_def Let_def split: if_splits)
  qed
next
  case (AcquireFails x)
  then show ?thesis
    using assms(1) call_change.leaves [of call "ls_locks s (c_key call)" s cfg c] by (auto split: if_splits)
next
  case (Renew x)
  show ?thesis
  proof (cases "ls_locks s (c_key call)")
    case None
    then show ?thesis
      using assms(1) Renew call_change.moves [of call Lost s "c_body call" cfg c] by (auto simp: renew_run_def Let_def split: if_splits)
  next
    case (Some r)
    then show ?thesis
      using assms(1) Renew call_change.moves [of call Lost s "c_body call" cfg c] call_change.renews [of call s r cfg _ c]
      by (auto simp: renew_run_def Let_def split: if_splits)
  qed
next
  case (BodyEnds x)
  then show ?thesis
    using assms(1) call_change.moves [of call "if c_phase call = Critical then Settled else c_phase call" s False cfg c]
    by (auto split: if_splits)
next
  case (Finish x)
  then show ?thesis
    using assms(1) call_change.leaves [of call "release_run (cf_holderId cfg (c_inst call)) (ls_locks s (c_key call))" s cfg c]
    by (auto split: if_splits)
next
  case (ReleaseFails x)
  then show ?thesis
    using assms(1) call_change.leaves [of call "ls_locks s (c_key call)" s cfg c] by (auto split: if_splits)
qed (use assms(1) in simp_all)

lemma lock_exec_cases:
  assumes "lock_exec cfg e s = Some s'"
  obtains (enter) i k where "s' = enter_queue i k s"
  | (tick) d where "s' = s\<lparr>ls_now := ls_now s + int d\<rparr>"
  | (call) c where "c < length (ls_calls s)" "call_event cfg e c (ls_calls s ! c) s = Some s'"
  using assms by (cases e) (auto simp: sender_key_def split: if_splits)

section \<open>The lease\<close>

definition lease_inv :: "lock_cfg \<Rightarrow> lock_sys \<Rightarrow> bool" where
  "lease_inv cfg s \<longleftrightarrow>
     (\<forall>call \<in> set (ls_calls s). c_phase call = Critical \<longrightarrow> ls_now s < c_lease call \<longrightarrow>
        (\<exists>r. ls_locks s (c_key call) = Some r \<and> lk_holder r = cf_holderId cfg (c_inst call) \<and> lk_expires_at_ms r = c_lease call))"

definition body_inv :: "lock_sys \<Rightarrow> bool" where
  "body_inv s \<longleftrightarrow> (\<forall>call \<in> set (ls_calls s).
     (c_body call \<longrightarrow> c_phase call \<in> {Critical, Lost, Done}) \<and> (c_phase call = Critical \<longrightarrow> c_body call))"

lemma set_calls_update: "call' \<in> set (xs[c := x]) \<Longrightarrow> call' = x \<or> (\<exists>d < length xs. d \<noteq> c \<and> call' = xs ! d)"
  by (metis in_set_conv_nth length_list_update nth_list_update_eq nth_list_update_neq)

lemma body_inv_change:
  assumes "body_inv s" and "c < length (ls_calls s)" and "call_change cfg c (ls_calls s ! c) s s'"
  shows "body_inv s'"
  using assms(3)
proof cases
  case stays
  then show ?thesis using assms(1) by simp
next
  case (moves ph b)
  have "(c_body (ls_calls s ! c) \<longrightarrow> c_phase (ls_calls s ! c) \<in> {Critical, Lost, Done})
      \<and> (c_phase (ls_calls s ! c) = Critical \<longrightarrow> c_body (ls_calls s ! c))"
    using assms(1,2) by (auto simp: body_inv_def)
  with assms(1) moves show ?thesis
    by (auto simp: body_inv_def set_call_def dest!: set_calls_update)
qed (use assms(1,2) in \<open>auto simp: body_inv_def set_call_def leave_queue_fields dest!: set_calls_update\<close>)

lemma queue_inv_change:
  assumes inv: "queue_inv s" and c: "c < length (ls_calls s)" and "call_change cfg c (ls_calls s ! c) s s'"
  shows "queue_inv s'"
  using assms(3)
proof cases
  case stays
  then show ?thesis using inv by simp
next
  case (moves ph b)
  have "queue_inv (set_call c ((ls_calls s ! c)\<lparr>c_body := b, c_phase := ph\<rparr>) s)"
    using moves gate_open_earlier_done [OF inv c] queue_invD(2) [OF inv c]
    by (intro queue_inv_set_call [OF inv c]) (auto simp: pk_def)
  then show ?thesis using moves(1) by simp
next
  case (acquires expires)
  let ?s = "s\<lparr>ls_locks := (ls_locks s)(c_key (ls_calls s ! c) \<mapsto> \<lparr>lk_holder = cf_holderId cfg (c_inst (ls_calls s ! c)),
                lk_acquired_at_ms = ls_now s, lk_expires_at_ms = expires\<rparr>)\<rparr>"
  have "queue_inv ?s" using inv queue_inv_cong [of ?s s] by simp
  then show ?thesis
    unfolding acquires(1) using acquires(2) c queue_invD(2) [OF inv c] by (intro queue_inv_set_call) (auto simp: pk_def)
next
  case (renews r expires)
  let ?s = "s\<lparr>ls_locks := (ls_locks s)(c_key (ls_calls s ! c) \<mapsto> r\<lparr>lk_expires_at_ms := expires\<rparr>)\<rparr>"
  have "queue_inv ?s" using inv queue_inv_cong [of ?s s] by simp
  then show ?thesis
    unfolding renews(1) using renews(2) c queue_invD(2) [OF inv c] by (intro queue_inv_set_call) (auto simp: pk_def)
next
  case (leaves row)
  let ?s = "s\<lparr>ls_locks := (ls_locks s)(c_key (ls_calls s ! c) := row)\<rparr>"
  have "queue_inv ?s" using inv queue_inv_cong [of ?s s] by simp
  then show ?thesis unfolding leaves(1) using leaves(2) c by (intro queue_inv_leave) auto
qed

lemma lease_inv_change:
  assumes lease: "lease_inv cfg s" and inv: "queue_inv s" and c: "c < length (ls_calls s)"
    and holders: "inj (cf_holderId cfg)" and change: "call_change cfg c (ls_calls s ! c) s s'"
  shows "lease_inv cfg s'"
proof -
  let ?call = "ls_calls s ! c"
  have held: "\<exists>r. ls_locks s (c_key (ls_calls s ! d)) = Some r \<and> lk_holder r = cf_holderId cfg (c_inst (ls_calls s ! d))
      \<and> lk_expires_at_ms r = c_lease (ls_calls s ! d)"
    if "d < length (ls_calls s)" "c_phase (ls_calls s ! d) = Critical" "ls_now s < c_lease (ls_calls s ! d)" for d
    using lease that by (auto simp: lease_inv_def)
  have other: "cf_holderId cfg (c_inst (ls_calls s ! d)) \<noteq> cf_holderId cfg (c_inst ?call)"
    if "d < length (ls_calls s)" "d \<noteq> c" "c_phase (ls_calls s ! d) = Critical" "c_phase ?call \<notin> {Queued, Done}"
      "c_key (ls_calls s ! d) = c_key ?call" for d
    using past_gate_unique [OF inv that(1) c] that holders by (auto simp: pk_def inj_eq)
  show ?thesis
    using change
  proof cases
    case stays
    then show ?thesis using lease by simp
  next
    case (moves ph b)
    then show ?thesis using lease held [OF c] by (auto simp: lease_inv_def set_call_def dest!: set_calls_update)
  next
    case (acquires expires)
    show ?thesis unfolding acquires(1) lease_inv_def set_call_def
      using held acquires(3) by (fastforce dest!: set_calls_update)
  next
    case (renews r expires)
    show ?thesis unfolding renews(1) lease_inv_def set_call_def
      using held other renews(2,3,4) by (fastforce dest!: set_calls_update)
  next
    case (leaves row)
    show ?thesis unfolding leaves(1) lease_inv_def leave_queue_fields
      using held other leaves(2,3) by (fastforce simp: release_run_def dest!: set_calls_update)
  qed
qed

section \<open>Reachable states\<close>

lemma lock_reach_inv:
  assumes "lock_reach cfg s" and "inj (cf_holderId cfg)"
  shows "queue_inv s \<and> body_inv s \<and> lease_inv cfg s"
  using assms(1)
proof induction
  case (init now locks)
  have "queue_inv (init_lock now locks)" by (rule queue_invI) (simp_all add: init_lock_def queue_ok_def)
  then show ?case by (simp add: init_lock_def body_inv_def lease_inv_def)
next
  case (step s s')
  from \<open>lock_step cfg s s'\<close> obtain e where "lock_exec cfg e s = Some s'" by (rule lock_stepE)
  then show ?case
  proof (cases rule: lock_exec_cases)
    case (enter i k)
    then show ?thesis
      using step.IH queue_inv_enter [of s i k] by (auto simp: body_inv_def lease_inv_def enter_queue_def)
  next
    case (tick d)
    moreover have "queue_inv s'" using step.IH tick queue_inv_cong [of s' s] by simp
    ultimately show ?thesis using step.IH by (auto simp: body_inv_def lease_inv_def)
  next
    case (call c)
    have "c_body (ls_calls s ! c) \<Longrightarrow> c_phase (ls_calls s ! c) \<in> {Critical, Lost, Done}"
      using step.IH call(1) by (auto simp: body_inv_def)
    then have "call_change cfg c (ls_calls s ! c) s s'" using call_event_change [OF call(2)] by blast
    then show ?thesis
      using step.IH call(1) assms(2) queue_inv_change body_inv_change lease_inv_change by blast
  qed
qed

abbreviation lock_steps :: "lock_cfg \<Rightarrow> lock_sys \<Rightarrow> lock_sys \<Rightarrow> bool" where
  "lock_steps cfg \<equiv> (lock_step cfg)\<^sup>*\<^sup>*"

lemma lock_reach_steps: "lock_steps cfg s s' \<Longrightarrow> lock_reach cfg s \<Longrightarrow> lock_reach cfg s'"
  by (induction rule: rtranclp_induct) (auto intro: lock_reach.step)

text \<open>Driving one call forward leaves the others alone.\<close>

definition drives :: "lock_cfg \<Rightarrow> nat \<Rightarrow> phase \<Rightarrow> lock_sys \<Rightarrow> bool" where
  "drives cfg c ph s \<longleftrightarrow>
     (\<exists>s'. lock_steps cfg s s' \<and> length (ls_calls s') = length (ls_calls s) \<and> c_phase (ls_calls s' ! c) = ph
        \<and> pk (ls_calls s' ! c) = pk (ls_calls s ! c) \<and> (\<forall>e. e \<noteq> c \<longrightarrow> ls_calls s' ! e = ls_calls s ! e))"

lemma drives_step:
  assumes "lock_exec cfg e s = Some s'" and "drives cfg c ph s'" and "length (ls_calls s') = length (ls_calls s)"
    and "pk (ls_calls s' ! c) = pk (ls_calls s ! c)" and "\<And>e. e \<noteq> c \<Longrightarrow> ls_calls s' ! e = ls_calls s ! e"
  shows "drives cfg c ph s"
proof -
  obtain t where t: "lock_steps cfg s' t" "length (ls_calls t) = length (ls_calls s')" "c_phase (ls_calls t ! c) = ph"
    "pk (ls_calls t ! c) = pk (ls_calls s' ! c)" "\<forall>e. e \<noteq> c \<longrightarrow> ls_calls t ! e = ls_calls s' ! e"
    using assms(2) unfolding drives_def by blast
  have "lock_steps cfg s t" using lock_step.step [OF assms(1)] t(1) by (rule converse_rtranclp_into_rtranclp)
  then show ?thesis unfolding drives_def using t(2-5) assms(3-5) by (intro exI [of _ t]) auto
qed

lemma drives_refl: "c_phase (ls_calls s ! c) = ph \<Longrightarrow> drives cfg c ph s"
  unfolding drives_def by blast

lemma drives_Acquiring:
  assumes "c < length (ls_calls s)" and "c_phase (ls_calls s ! c) = Acquiring"
  shows "drives cfg c Critical s"
proof -
  let ?call = "ls_calls s ! c"
  let ?d = "case ls_locks s (c_key ?call) of None \<Rightarrow> 0 | Some r \<Rightarrow> nat (lk_expires_at_ms r - ls_now s)"
  let ?s = "s\<lparr>ls_now := ls_now s + int ?d\<rparr>"
  have free: "snd (acquire_run h (ls_now ?s) x (ls_locks s (c_key ?call))) = 1" for h x
    by (auto simp: acquire_run_def Let_def split: option.splits)
  obtain row where row: "acquire_run (cf_holderId cfg (c_inst ?call)) (ls_now ?s) (ls_now ?s + cf_leaseMs cfg (c_inst ?call))
      (ls_locks s (c_key ?call)) = (row, 1)"
    using free by (metis prod.collapse)
  have "lock_exec cfg (TryAcquire c) ?s = Some (set_call c (?call\<lparr>c_phase := Critical, c_body := True,
      c_lease := ls_now ?s + cf_leaseMs cfg (c_inst ?call)\<rparr>) (?s\<lparr>ls_locks := (ls_locks s)(c_key ?call := row)\<rparr>))"
    using assms row by (simp add: Let_def)
  then have "drives cfg c Critical ?s"
    by (rule drives_step) (use assms(1) in \<open>auto simp: set_call_def pk_def intro: drives_refl\<close>)
  moreover have "lock_exec cfg (Tick ?d) s = Some ?s" by simp
  ultimately show ?thesis by (intro drives_step [of cfg "Tick ?d" s ?s]) auto
qed

lemma drives_then:
  assumes "drives cfg c ph s"
    and "\<And>s'. lock_steps cfg s s' \<Longrightarrow> length (ls_calls s') = length (ls_calls s) \<Longrightarrow> c_phase (ls_calls s' ! c) = ph \<Longrightarrow> drives cfg c ph' s'"
  shows "drives cfg c ph' s"
proof -
  obtain t where t: "lock_steps cfg s t" "length (ls_calls t) = length (ls_calls s)" "c_phase (ls_calls t ! c) = ph"
    "pk (ls_calls t ! c) = pk (ls_calls s ! c)" "\<forall>e. e \<noteq> c \<longrightarrow> ls_calls t ! e = ls_calls s ! e"
    using assms(1) unfolding drives_def by blast
  obtain u where u: "lock_steps cfg t u" "length (ls_calls u) = length (ls_calls t)" "c_phase (ls_calls u ! c) = ph'"
    "pk (ls_calls u ! c) = pk (ls_calls t ! c)" "\<forall>e. e \<noteq> c \<longrightarrow> ls_calls u ! e = ls_calls t ! e"
    using assms(2) [OF t(1-3)] unfolding drives_def by blast
  have "lock_steps cfg s u" using t(1) u(1) by (rule rtranclp_trans)
  then show ?thesis unfolding drives_def using t(2-5) u(2-5) by (intro exI [of _ u]) auto
qed

lemma drives_Queued:
  assumes "c < length (ls_calls s)" and "c_phase (ls_calls s ! c) = Queued" and "gate_open s (c_prior (ls_calls s ! c))"
  shows "drives cfg c Critical s"
proof -
  let ?s = "set_call c ((ls_calls s ! c)\<lparr>c_phase := Acquiring\<rparr>) s"
  have "lock_exec cfg (PassGate c) s = Some ?s" using assms by simp
  moreover have "drives cfg c Critical ?s" by (rule drives_Acquiring) (use assms(1) in \<open>simp_all add: set_call_def\<close>)
  ultimately show ?thesis by (rule drives_step) (use assms(1) in \<open>auto simp: set_call_def pk_def\<close>)
qed

lemma drives_Finish:
  assumes "c < length (ls_calls s)" and "c_phase (ls_calls s ! c) = Settled \<or> c_phase (ls_calls s ! c) = Lost"
  shows "drives cfg c Done s"
proof -
  let ?call = "ls_calls s ! c"
  let ?s = "leave_queue c ?call (s\<lparr>ls_locks := (ls_locks s)(c_key ?call := release_run (cf_holderId cfg (c_inst ?call)) (ls_locks s (c_key ?call)))\<rparr>)"
  have "lock_exec cfg (Finish c) s = Some ?s" using assms by simp
  then show ?thesis
    by (rule drives_step) (use assms(1) in \<open>auto simp: leave_queue_fields pk_def intro: drives_refl\<close>)
qed

lemma drives_Critical:
  assumes "c < length (ls_calls s)" and "c_phase (ls_calls s ! c) = Critical" and "body_inv s"
  shows "drives cfg c Done s"
proof -
  let ?s = "set_call c ((ls_calls s ! c)\<lparr>c_body := False, c_phase := Settled\<rparr>) s"
  have "lock_exec cfg (BodyEnds c) s = Some ?s" using assms by (auto simp: body_inv_def)
  moreover have "drives cfg c Done ?s" by (rule drives_Finish) (use assms(1) in \<open>simp_all add: set_call_def\<close>)
  ultimately show ?thesis by (rule drives_step) (use assms(1) in \<open>auto simp: set_call_def pk_def\<close>)
qed

lemma drives_Done:
  assumes "lock_reach cfg s" and "inj (cf_holderId cfg)" and "c < length (ls_calls s)" and "earlier_done (ls_calls s) c"
  shows "drives cfg c Done s"
proof -
  have inv: "queue_inv s" "body_inv s" using lock_reach_inv [OF assms(1,2)] by simp_all
  have fin: "drives cfg c Done s" if "drives cfg c Critical s"
  proof (rule drives_then [OF that])
    fix s' assume s': "lock_steps cfg s s'" "length (ls_calls s') = length (ls_calls s)" "c_phase (ls_calls s' ! c) = Critical"
    have "body_inv s'" using lock_reach_inv [OF lock_reach_steps [OF s'(1) assms(1)] assms(2)] by simp
    with s' assms(3) show "drives cfg c Done s'" by (intro drives_Critical) simp_all
  qed
  show ?thesis
  proof (cases "c_phase (ls_calls s ! c)")
    case Queued
    have "gate_open s (c_prior (ls_calls s ! c))"
      using queue_invD(1) [OF inv(1) assms(3)] assms(3,4)
      by (auto simp: prior_ok_def gate_open_def earlier_done_def split: option.splits)
    then show ?thesis using fin drives_Queued [OF assms(3) Queued] by blast
  qed (use fin assms(3) inv(2) drives_Acquiring drives_Critical drives_Finish drives_refl in blast)+
qed

lemma earlier_calls_finish:
  assumes "lock_reach cfg s" and "inj (cf_holderId cfg)" and "c < length (ls_calls s)" and "m \<le> c"
  shows "\<exists>s'. lock_steps cfg s s' \<and> length (ls_calls s') = length (ls_calls s) \<and> ls_calls s' ! c = ls_calls s ! c
    \<and> (\<forall>e. pk (ls_calls s' ! e) = pk (ls_calls s ! e)) \<and> (\<forall>e < m. pk (ls_calls s' ! e) = pk (ls_calls s' ! c) \<longrightarrow> c_phase (ls_calls s' ! e) = Done)"
  using assms(4)
proof (induction m)
  case 0
  then show ?case by (intro exI [of _ s]) simp
next
  case (Suc m)
  then obtain t where t: "lock_steps cfg s t" "length (ls_calls t) = length (ls_calls s)" "ls_calls t ! c = ls_calls s ! c"
    "\<forall>e. pk (ls_calls t ! e) = pk (ls_calls s ! e)"
    "\<forall>e < m. pk (ls_calls t ! e) = pk (ls_calls t ! c) \<longrightarrow> c_phase (ls_calls t ! e) = Done" by auto
  have m: "m < c" "m < length (ls_calls t)" using Suc.prems assms(3) t(2) by simp_all
  show ?case
  proof (cases "pk (ls_calls t ! m) = pk (ls_calls t ! c)")
    case True
    then have "earlier_done (ls_calls t) m" using t(5) by (simp add: earlier_done_def)
    from drives_Done [OF lock_reach_steps [OF t(1) assms(1)] assms(2) m(2) this]
    obtain u where u: "lock_steps cfg t u" "length (ls_calls u) = length (ls_calls t)" "c_phase (ls_calls u ! m) = Done"
      "pk (ls_calls u ! m) = pk (ls_calls t ! m)" "\<forall>e. e \<noteq> m \<longrightarrow> ls_calls u ! e = ls_calls t ! e"
      unfolding drives_def by blast
    have "pk (ls_calls u ! e) = pk (ls_calls s ! e)" for e using u(4,5) t(4) by (cases "e = m") auto
    moreover have "c_phase (ls_calls u ! e) = Done" if "e < Suc m" "pk (ls_calls u ! e) = pk (ls_calls u ! c)" for e
      using that u(3,5) t(5) m(1) by (cases "e = m") auto
    ultimately show ?thesis
      using t(1-3) u(1,2,5) m(1) rtranclp_trans [OF t(1) u(1)] by (intro exI [of _ u]) auto
  next
    case False
    then show ?thesis using t by (intro exI [of _ t]) (auto simp: less_Suc_eq)
  qed
qed

section \<open>Properties\<close>

text \<open>
  C21: Mutual exclusion. Whatever the number of lock instances, their interleaving and the rows earlier
  processes left behind, two calls for one sender that are both inside their critical section with
  unexpired leases are the same call, given that the instances have different holder ids.
\<close>

theorem lock_exclusion:
  assumes "lock_reach cfg s" and "inj (cf_holderId cfg)"
    and "c < length (ls_calls s)" and "d < length (ls_calls s)" and "c_key (ls_calls s ! c) = c_key (ls_calls s ! d)"
    and "c_phase (ls_calls s ! c) = Critical" and "ls_now s < c_lease (ls_calls s ! c)"
    and "c_phase (ls_calls s ! d) = Critical" and "ls_now s < c_lease (ls_calls s ! d)"
  shows "c = d"
proof -
  note inv = lock_reach_inv [OF assms(1,2)]
  have held: "\<exists>r. ls_locks s (c_key (ls_calls s ! e)) = Some r \<and> lk_holder r = cf_holderId cfg (c_inst (ls_calls s ! e))"
    if "e < length (ls_calls s)" "c_phase (ls_calls s ! e) = Critical" "ls_now s < c_lease (ls_calls s ! e)" for e
    using inv that by (auto simp: lease_inv_def)
  have "cf_holderId cfg (c_inst (ls_calls s ! c)) = cf_holderId cfg (c_inst (ls_calls s ! d))"
    using held [OF assms(3,6,7)] held [OF assms(4,8,9)] assms(5) by auto
  then have "pk (ls_calls s ! c) = pk (ls_calls s ! d)" using assms(2,5) by (simp add: pk_def inj_eq)
  then show ?thesis using past_gate_unique [of s c d] inv assms(3,4,6,8) by simp
qed

text \<open>
  Order. The calls one instance makes for one sender pass the gate strictly in the order in which
  they were made: once a call is past it, every earlier one has finished.
\<close>

theorem lock_fifo:
  assumes "lock_reach cfg s" and "inj (cf_holderId cfg)"
    and "c < d" and "d < length (ls_calls s)" and "c_inst (ls_calls s ! c) = c_inst (ls_calls s ! d)"
    and "c_key (ls_calls s ! c) = c_key (ls_calls s ! d)" and "c_phase (ls_calls s ! d) \<noteq> Queued"
  shows "c_phase (ls_calls s ! c) = Done"
  using lock_reach_inv [OF assms(1,2)] assms(3-7) queue_invD(2) [of s d] by (simp add: earlier_done_def pk_def)

text \<open>
  C27: No call is stuck. From every reachable state every queued call can still reach its critical
  section: the calls ahead of it can finish and a lease held elsewhere runs out.
\<close>

theorem lock_progress:
  assumes "lock_reach cfg s" and "inj (cf_holderId cfg)" and "c < length (ls_calls s)"
    and "c_phase (ls_calls s ! c) = Queued"
  shows "\<exists>s'. lock_steps cfg s s' \<and> c_phase (ls_calls s' ! c) = Critical"
proof -
  obtain t where t: "lock_steps cfg s t" "length (ls_calls t) = length (ls_calls s)" "ls_calls t ! c = ls_calls s ! c"
    and ed: "earlier_done (ls_calls t) c"
    using earlier_calls_finish [OF assms(1-3) order_refl] by (auto simp: earlier_done_def)
  have "queue_inv t" using lock_reach_inv [OF lock_reach_steps [OF t(1) assms(1)] assms(2)] by simp
  then have "gate_open t (c_prior (ls_calls t ! c))"
    using queue_invD(1) [of t c] assms(3) t(2) ed
    by (auto simp: prior_ok_def gate_open_def earlier_done_def split: option.splits)
  then have "drives cfg c Critical t" using assms(3,4) t(2,3) by (intro drives_Queued) simp_all
  then show ?thesis unfolding drives_def using rtranclp_trans [OF t(1)] by blast
qed

section \<open>Runs and witnesses\<close>

fun lock_run :: "lock_cfg \<Rightarrow> lock_event list \<Rightarrow> lock_sys \<Rightarrow> lock_sys option" where
  "lock_run cfg [] s = Some s"
| "lock_run cfg (e # es) s = Option.bind (lock_exec cfg e s) (lock_run cfg es)"

lemma lock_run_reach: "lock_run cfg es s = Some s' \<Longrightarrow> lock_reach cfg s \<Longrightarrow> lock_reach cfg s'"
proof (induction es arbitrary: s)
  case (Cons e es)
  then obtain t where t: "lock_exec cfg e s = Some t" "lock_run cfg es t = Some s'"
    by (auto simp: Option.bind_eq_Some_conv)
  from Cons.IH [OF t(2) lock_reach.step [OF Cons.prems(2) lock_step.step [OF t(1)]]] show ?case .
qed simp

definition sample_cfg :: lock_cfg where
  "sample_cfg = \<lparr>cf_holderId = (\<lambda>i. replicate i CHR ''h''), cf_leaseMs = (\<lambda>_. 10)\<rparr>"

definition sample_run :: "lock_event list \<Rightarrow> lock_sys" where
  "sample_run es = the (lock_run sample_cfg es (init_lock 0 (\<lambda>_. None)))"

definition contention :: "lock_event list" where
  "contention = [WithSender 0 1 ''A'', PassGate 0, TryAcquire 0, WithSender 0 1 ''a'', WithSender 1 1 ''a'', PassGate 2, TryAcquire 2]"

definition stolen :: "lock_event list" where
  "stolen = contention @ [Tick 10, TryAcquire 2, Renew 0, Finish 0]"

lemma inj_sample: "inj (cf_holderId sample_cfg)"
  by (simp add: sample_cfg_def inj_def)

lemma sample_reach: "lock_run sample_cfg es (init_lock 0 (\<lambda>_. None)) \<noteq> None \<Longrightarrow> lock_reach sample_cfg (sample_run es)"
  unfolding sample_run_def using lock_run_reach lock_reach.init by fastforce

lemmas run_defs = sample_run_def contention_def stolen_def sample_cfg_def init_lock_def enter_queue_def sender_key_def
  gate_open_def set_call_def leave_queue_def acquire_run_def renew_run_def release_run_def Let_def
  fun_upd_def

lemma lower_A: "toLowerCase ''A'' = ''a''" "toLowerCase ''a'' = ''a''"
  by code_simp+

lemma contention_state:
  "lock_run sample_cfg contention (init_lock 0 (\<lambda>_. None)) \<noteq> None"
  "ls_calls (sample_run contention) =
     [\<lparr>c_inst = 0, c_key = (1, ''a''), c_prior = None, c_phase = Critical, c_body = True, c_lease = 10\<rparr>,
      \<lparr>c_inst = 0, c_key = (1, ''a''), c_prior = Some 0, c_phase = Queued, c_body = False, c_lease = 0\<rparr>,
      \<lparr>c_inst = 1, c_key = (1, ''a''), c_prior = None, c_phase = Acquiring, c_body = False, c_lease = 0\<rparr>]"
  "ls_now (sample_run contention) = 0"
  by (simp_all add: run_defs lower_A)

lemma stolen_state:
  "lock_run sample_cfg stolen (init_lock 0 (\<lambda>_. None)) \<noteq> None"
  "ls_calls (sample_run stolen) =
     [\<lparr>c_inst = 0, c_key = (1, ''a''), c_prior = None, c_phase = Done, c_body = True, c_lease = 10\<rparr>,
      \<lparr>c_inst = 0, c_key = (1, ''a''), c_prior = Some 0, c_phase = Queued, c_body = False, c_lease = 0\<rparr>,
      \<lparr>c_inst = 1, c_key = (1, ''a''), c_prior = None, c_phase = Critical, c_body = True, c_lease = 20\<rparr>]"
  "ls_now (sample_run stolen) = 10"
  by (simp_all add: run_defs lower_A)

theorem lock_exclusion_witness:
  "{d. d < 3 \<and> c_phase (ls_calls (sample_run stolen) ! d) = Critical
       \<and> ls_now (sample_run stolen) < c_lease (ls_calls (sample_run stolen) ! d)
       \<and> c_key (ls_calls (sample_run stolen) ! d) = (1, ''a'')} = {2}"
  using lock_exclusion [OF sample_reach [OF stolen_state(1)] inj_sample, of _ 2] stolen_state(2,3)
  by (auto simp: numeral_2_eq_2)

theorem lock_fifo_witness: "c_phase (ls_calls (sample_run (stolen @ [PassGate 1])) ! 0) = Done"
proof -
  have run: "lock_run sample_cfg (stolen @ [PassGate 1]) (init_lock 0 (\<lambda>_. None)) \<noteq> None"
    by (simp add: run_defs lower_A)
  have "c_phase (ls_calls (sample_run (stolen @ [PassGate 1])) ! 1) = Acquiring"
    "length (ls_calls (sample_run (stolen @ [PassGate 1]))) = 3"
    "c_inst (ls_calls (sample_run (stolen @ [PassGate 1])) ! 0) = c_inst (ls_calls (sample_run (stolen @ [PassGate 1])) ! 1)"
    "c_key (ls_calls (sample_run (stolen @ [PassGate 1])) ! 0) = c_key (ls_calls (sample_run (stolen @ [PassGate 1])) ! 1)"
    by (simp_all add: run_defs lower_A)
  then show ?thesis using lock_fifo [OF sample_reach [OF run] inj_sample, of 0 1] by simp
qed

theorem lock_progress_witness:
  "\<exists>s'. lock_steps sample_cfg (sample_run contention) s' \<and> c_phase (ls_calls s' ! 1) = Critical"
  using lock_progress [OF sample_reach [OF contention_state(1)] inj_sample, of 1] contention_state(2) by simp

text \<open>
  A body whose lease was lost goes on. There is a reachable state in which the call that lost its
  lease has already failed, its own body is still running, and another holder runs its body for the
  same sender under a live lease.
\<close>

theorem lost_lease_body_overlap:
  "\<exists>cfg s. lock_reach cfg s \<and> inj (cf_holderId cfg) \<and>
     (\<exists>c d. c < length (ls_calls s) \<and> d < length (ls_calls s) \<and> c \<noteq> d \<and> c_key (ls_calls s ! c) = c_key (ls_calls s ! d)
        \<and> c_phase (ls_calls s ! c) = Done \<and> c_body (ls_calls s ! c)
        \<and> c_phase (ls_calls s ! d) = Critical \<and> c_body (ls_calls s ! d) \<and> ls_now s < c_lease (ls_calls s ! d))"
proof (intro exI conjI)
  show "lock_reach sample_cfg (sample_run stolen)" by (rule sample_reach [OF stolen_state(1)])
  show "inj (cf_holderId sample_cfg)" by (rule inj_sample)
  show "(0::nat) \<noteq> 2" by simp
qed (simp_all add: stolen_state)

end
