(* ===== verification/Js_Async.thy ===== *)
theory Js_Async
  imports Js_Runtime
begin

text \<open>
  Asynchronous code that runs as one sequence of effects. A program maps a state to an outcome, a
  value or a thrown error, and the next state; \<open>andThen\<close> is \<open>await\<close> followed by the rest, \<open>attempt\<close> is
  \<open>try/catch\<close> that hands the outcome on as a value. \<open>wp\<close> is the weakest precondition of a program for
  a postcondition on normal return and one on a throw; its introduction rules, one per construct, are
  the collection \<open>wp_rules\<close>.
\<close>

named_theorems wp_rules \<open>introduction rules of the weakest precondition\<close>

type_synonym ('s, 'e, 'a) async = "'s \<Rightarrow> ('e, 'a) result \<times> 's"

definition ret :: "'a \<Rightarrow> ('s, 'e, 'a) async" where
  "ret a s = (Inr a, s)"

definition throw :: "'e \<Rightarrow> ('s, 'e, 'a) async" where
  "throw e s = (Inl e, s)"

definition andThen :: "('s, 'e, 'a) async \<Rightarrow> ('a \<Rightarrow> ('s, 'e, 'b) async) \<Rightarrow> ('s, 'e, 'b) async" where
  "andThen m f s = (case m s of (Inl e, t) \<Rightarrow> (Inl e, t) | (Inr a, t) \<Rightarrow> f a t)"

definition attempt :: "('s, 'e, 'a) async \<Rightarrow> ('s, 'e, ('e, 'a) result) async" where
  "attempt m s = (case m s of (r, t) \<Rightarrow> (Inr r, t))"

definition read_state :: "('s \<Rightarrow> 'a) \<Rightarrow> ('s, 'e, 'a) async" where
  "read_state f s = (Inr (f s), s)"

definition modify :: "('s \<Rightarrow> 's) \<Rightarrow> ('s, 'e, unit) async" where
  "modify f s = (Inr (), f s)"

lemmas async_defs = ret_def throw_def andThen_def attempt_def read_state_def modify_def

text \<open>Running a program on a concrete state: the rest of a sequence is left alone until its turn.\<close>

lemma andThen_run: "andThen m f s = (case m s of (Inl e, t) \<Rightarrow> (Inl e, t) | (Inr a, t) \<Rightarrow> f a t)"
  by (simp add: andThen_def)

lemma andThen_weak_cong: "m = m' \<Longrightarrow> s = s' \<Longrightarrow> andThen m f s = andThen m' f s'"
  by simp

section \<open>Weakest preconditions\<close>

definition wp :: "('s, 'e, 'a) async \<Rightarrow> ('a \<Rightarrow> 's \<Rightarrow> bool) \<Rightarrow> ('e \<Rightarrow> 's \<Rightarrow> bool) \<Rightarrow> 's \<Rightarrow> bool" where
  "wp m Q E s = (case m s of (Inr a, t) \<Rightarrow> Q a t | (Inl e, t) \<Rightarrow> E e t)"

lemma wp_ret [wp_rules]: "Q a s \<Longrightarrow> wp (ret a) Q E s"
  by (simp add: wp_def ret_def)

lemma wp_throw [wp_rules]: "E e s \<Longrightarrow> wp (throw e) Q E s"
  by (simp add: wp_def throw_def)

lemma wp_andThen [wp_rules]: "wp m (\<lambda>a. wp (f a) Q E) E s \<Longrightarrow> wp (andThen m f) Q E s"
  by (auto simp: wp_def andThen_def split: prod.splits sum.splits)

lemma wp_attempt [wp_rules]: "wp m (\<lambda>a. Q (Inr a)) (\<lambda>e. Q (Inl e)) s \<Longrightarrow> wp (attempt m) Q E s"
  by (auto simp: wp_def attempt_def split: prod.splits sum.splits)

lemma wp_read_state [wp_rules]: "Q (f s) s \<Longrightarrow> wp (read_state f) Q E s"
  by (simp add: wp_def read_state_def)

lemma wp_modify [wp_rules]: "Q () (f s) \<Longrightarrow> wp (modify f) Q E s"
  by (simp add: wp_def modify_def)

lemma wp_if [wp_rules]:
  "(b \<Longrightarrow> wp m Q E s) \<Longrightarrow> (\<not> b \<Longrightarrow> wp m' Q E s) \<Longrightarrow> wp (if b then m else m') Q E s"
  by simp

lemma wp_case_option [wp_rules]:
  "(x = None \<Longrightarrow> wp m Q E s) \<Longrightarrow> (\<And>a. x = Some a \<Longrightarrow> wp (f a) Q E s) \<Longrightarrow>
     wp (case x of None \<Rightarrow> m | Some a \<Rightarrow> f a) Q E s"
  by (cases x) simp_all

lemma wp_case_sum [wp_rules]:
  "(\<And>e. x = Inl e \<Longrightarrow> wp (g e) Q E s) \<Longrightarrow> (\<And>a. x = Inr a \<Longrightarrow> wp (f a) Q E s) \<Longrightarrow>
     wp (case x of Inl e \<Rightarrow> g e | Inr a \<Rightarrow> f a) Q E s"
  by (cases x) simp_all

lemma wp_mono:
  "wp m Q E s \<Longrightarrow> (\<And>a t. Q a t \<Longrightarrow> Q' a t) \<Longrightarrow> (\<And>e t. E e t \<Longrightarrow> E' e t) \<Longrightarrow> wp m Q' E' s"
  by (auto simp: wp_def split: prod.splits sum.splits)

text \<open>A call of a procedure with a known specification, then the rest.\<close>

lemma wp_seq:
  assumes "wp m Q E s" and "\<And>a t. Q a t \<Longrightarrow> wp (f a) Q' E' t" and "\<And>e t. E e t \<Longrightarrow> E' e t"
  shows "wp (andThen m f) Q' E' s"
  by (rule wp_andThen, rule wp_mono [OF assms(1)]) (use assms(2,3) in blast)+

lemma wp_conj: "wp m Q E s \<Longrightarrow> wp m Q' E' s \<Longrightarrow> wp m (\<lambda>a t. Q a t \<and> Q' a t) (\<lambda>e t. E e t \<and> E' e t) s"
  by (auto simp: wp_def split: prod.splits sum.splits)

lemma wp_Inr: "wp m Q E s \<Longrightarrow> m s = (Inr a, t) \<Longrightarrow> Q a t"
  by (simp add: wp_def)

lemma wp_Inl: "wp m Q E s \<Longrightarrow> m s = (Inl e, t) \<Longrightarrow> E e t"
  by (simp add: wp_def)

lemma wp_outcome: "wp m (\<lambda>_. P) (\<lambda>_. P) s \<Longrightarrow> P (snd (m s))"
  by (auto simp: wp_def split: prod.splits sum.splits)

end
