(* ===== verification/Broadcast_Errors.thy ===== *)
theory Broadcast_Errors
  imports Js_Runtime
begin

text \<open>
  The errors of the venue's transaction path: recovery of the inner revert behind a Safe transaction
  (marketplace/binding/src/venue/safe-revert.ts) and the classification that decides between retry,
  failure and success (marketplace/venue-base/src/broadcast/classify.ts).

  A caught value is a \<open>js_error\<close> with the aspects the code reads: \<open>Nullish\<close> is \<open>null\<close> or
  \<open>undefined\<close>, \<open>Prim\<close> another primitive with its \<open>String(...)\<close> rendering, \<open>Err\<close> an instance of
  \<open>Error\<close> with its message, its cause, its \<open>data\<close> member, what its \<open>walk\<close> method returns and, for a
  \<open>SafeInnerRevertError\<close>, the decoded inner revert, and \<open>Obj\<close> any other object. The ABI decoder of
  viem is the parameter \<open>decodeAbi\<close>: the rendered arguments, or \<open>None\<close> where it throws.
\<close>

section \<open>Error values\<close>

record inner_revert =
  ir_innerSelector :: "string option"
  ir_innerData :: "string option"
  ir_decodedName :: "string option"
  ir_decodedArgs :: "string list option"

datatype error_data =
    NoData
  | DataText string
  | DataObject "string option"

datatype js_error =
    Nullish string
  | Text string
  | Prim string
  | Err string "js_error option" error_data "js_error option" "inner_revert option"
  | Obj "string option" "string option" "string option" string "js_error option" error_data "js_error option"

text \<open>\<open>if (x)\<close>\<close>

fun truthy :: "js_error \<Rightarrow> bool" where
  "truthy (Nullish _) = False"
| "truthy (Text s) \<longleftrightarrow> s \<noteq> []"
| "truthy (Prim s) \<longleftrightarrow> s \<notin> {''0'', ''NaN'', ''false''}"
| "truthy _ = True"

fun js_String :: "js_error \<Rightarrow> string" where
  "js_String (Nullish s) = s"
| "js_String (Text s) = s"
| "js_String (Prim s) = s"
| "js_String (Err msg _ _ _ inner) =
     (let name = (case inner of None \<Rightarrow> ''Error'' | Some _ \<Rightarrow> ''SafeInnerRevertError'')
      in if msg = [] then name else name @ '': '' @ msg)"
| "js_String (Obj _ _ _ rendering _ _ _) = rendering"

section \<open>Inner reverts\<close>

definition KNOWN_INNER_ERRORS :: "(string \<times> string \<times> string) list" where
  "KNOWN_INNER_ERRORS =
     [
      (''0xd756e2d6'', (''RouterZeroAddress'', '''')),
      (''0xfd3ed483'', (''RouterZeroValue'', '''')),
      (''0xae02b05a'', (''RouterAlreadyInitialized'', '''')),
      (''0xd9395835'', (''RouterNotInitialized'', '''')),
      (''0x3739593e'', (''RouterOwnerOnly'', ''address sender, address owner'')),
      (''0x4b774aa9'', (''RouterTaskNotFound'', ''uint256 taskId'')),
      (''0x2051195c'', (''RouterTaskNotRefundable'', ''uint256 taskId'')),
      (''0xa6b84382'', (''RouterRefundFailed'', ''address receiver, uint256 amount'')),
      (''0x6fe4c8f6'', (''RouterInvalidPaymentType'', ''bytes32 paymentType'')),
      (''0x19f8da4c'', (''RouterInvalidOperatorMech'', ''address operator, address mech'')),
      (''0x096e300d'', (''RouterInsufficientTaskBudget'', ''uint256 taskId, uint256 available, uint256 required'')),
      (''0xfb1ab358'', (''RouterRequestNotFound'', ''bytes32 requestId'')),
      (''0x22d686d9'', (''RouterAlreadyClaimed'', ''bytes32 requestId'')),
      (''0xe5a88624'', (''RouterNotDelivered'', ''bytes32 requestId'')),
      (''0x008b227f'', (''RouterWrongRequester'', ''bytes32 requestId, address requester'')),
      (''0x601188e3'', (''RouterWrongDeliveryOperator'', ''bytes32 requestId, address expectedOperator, address deliveryMech'')),
      (''0x51cba8b3'', (''RouterWrongRequestKind'', ''bytes32 requestId, uint8 expected, uint8 actual'')),
      (''0x45faf3d4'', (''TCZeroAddress'', '''')),
      (''0x545b063d'', (''TCZeroValue'', '''')),
      (''0xbccf1a51'', (''TCAlreadyInitialized'', '''')),
      (''0xe577ad72'', (''TCNotInitialized'', '''')),
      (''0xb6557fdb'', (''TCOwnerOnly'', ''address sender, address owner'')),
      (''0xe1a99172'', (''TCRouterOnly'', ''address sender, address router'')),
      (''0x70f0e3e0'', (''TCTaskNotFound'', ''uint256 taskId'')),
      (''0xeb5f97c2'', (''TCInvalidWindow'', '''')),
      (''0x2a7fccab'', (''TCInvalidPolicy'', '''')),
      (''0x6880f100'', (''TCTaskNotOpen'', ''uint256 taskId'')),
      (''0x6d39d84a'', (''TCClaimWindowClosed'', ''uint256 taskId'')),
      (''0xaab86453'', (''TCSubmissionDeadlinePassed'', ''uint256 taskId'')),
      (''0x3187a525'', (''TCEvaluationDeadlinePassed'', ''uint256 taskId'')),
      (''0x90386e7c'', (''TCMaxClaimsReached'', ''uint256 taskId'')),
      (''0xead43eec'', (''TCOperatorClaimLimitReached'', ''uint256 taskId, address operator'')),
      (''0x3d5d48f2'', (''TCPolicyHookRejected'', ''uint256 taskId, address operator'')),
      (''0xdde6d1a3'', (''TCAttemptNotFound'', ''uint256 taskId, uint32 attemptIndex'')),
      (''0xee12d1c6'', (''TCAttemptNotSubmitted'', ''uint256 taskId, uint32 attemptIndex'')),
      (''0x3ddf1738'', (''TCAttemptNotClaimed'', ''uint256 taskId, uint32 attemptIndex'')),
      (''0x4fd76d6d'', (''TCAttemptNotRegistered'', ''uint256 taskId, uint32 attemptIndex'')),
      (''0x6687bc4c'', (''TCAttemptAlreadyRegistered'', ''uint256 taskId, uint32 attemptIndex'')),
      (''0x7f02fe1e'', (''TCAttemptAlreadySubmitted'', ''uint256 taskId, uint32 attemptIndex'')),
      (''0xbe465de7'', (''TCAttemptAlreadyFinalized'', ''uint256 taskId, uint32 attemptIndex'')),
      (''0x8832f4bb'', (''TCRequestAlreadyRegistered'', ''bytes32 requestId'')),
      (''0x8d1a709e'', (''TCRequestNotFound'', ''bytes32 requestId'')),
      (''0x0d3eaf4a'', (''TCNotAttemptOperator'', ''uint256 taskId, uint32 attemptIndex, address operator'')),
      (''0x3dbff820'', (''TCClaimNotExpired'', ''uint256 taskId, uint32 attemptIndex'')),
      (''0x1c48587f'', (''TCAttemptClaimExpired'', ''uint256 taskId, uint32 attemptIndex'')),
      (''0x1aed7019'', (''TCSolverSelfEvaluation'', ''uint256 taskId, uint32 attemptIndex, address evaluator'')),
      (''0xb1497e24'', (''TCEvaluatorClaimLimitReached'', ''uint256 taskId, uint32 attemptIndex, address evaluator'')),
      (''0x39d0ed4c'', (''TCMaxVerdictsReached'', ''uint256 taskId, uint32 attemptIndex'')),
      (''0x0ae7c85b'', (''TCVerdictNotFound'', ''uint256 taskId, uint32 attemptIndex, uint32 verdictIndex'')),
      (''0x2bf6c59a'', (''TCVerdictAlreadyRegistered'', ''uint256 taskId, uint32 attemptIndex, uint32 verdictIndex'')),
      (''0xb88eae99'', (''TCVerdictAlreadyDelivered'', ''uint256 taskId, uint32 attemptIndex, uint32 verdictIndex'')),
      (''0xda1597b1'', (''TCVerdictNotRegistered'', ''uint256 taskId, uint32 attemptIndex, uint32 verdictIndex'')),
      (''0x2c7691be'', (''TCNotVerdictEvaluator'', ''uint256 taskId, uint32 attemptIndex, uint32 verdictIndex, address evaluator'')),
      (''0x9d1b8dcc'', (''TCInvalidVerdictCode'', ''uint8 verdictCode'')),
      (''0x748bfa13'', (''TCVerdictClaimExpired'', ''uint256 taskId, uint32 attemptIndex, uint32 verdictIndex''))
     ]"

definition hex_digit :: "char \<Rightarrow> bool" where
  "hex_digit c \<longleftrightarrow> is_digit c \<or> (97::nat) \<le> of_char c \<and> (of_char c :: nat) \<le> 102
     \<or> (65::nat) \<le> of_char c \<and> (of_char c :: nat) \<le> 70"

definition revert_text :: "string \<Rightarrow> string option" where
  "revert_text s = (if startsWith s ''0x'' \<and> length s \<ge> 10 then Some s else None)"

fun data_of :: "error_data \<Rightarrow> string option" where
  "data_of NoData = None"
| "data_of (DataText s) = revert_text s"
| "data_of (DataObject inner) = Option.bind inner revert_text"

definition pushed :: "js_error option \<Rightarrow> js_error option \<Rightarrow> js_error list" where
  "pushed cause walk =
     (case cause of Some c \<Rightarrow> if truthy c then [c] else [] | None \<Rightarrow> [])
     @ (case walk of Some w \<Rightarrow> [w] | None \<Rightarrow> [])"

fun candidate :: "js_error \<Rightarrow> string option \<times> js_error list" where
  "candidate (Err _ cause d walk _) = (data_of d, pushed cause walk)"
| "candidate (Obj _ _ _ _ cause d walk) = (data_of d, pushed cause walk)"
| "candidate _ = (None, [])"

text \<open>The work list of \<open>extractRevertData\<close>; the first argument counts down from the limit of eight.\<close>

fun candidateLoop :: "nat \<Rightarrow> js_error list \<Rightarrow> string option" where
  "candidateLoop 0 _ = None"
| "candidateLoop _ [] = None"
| "candidateLoop (Suc n) (cur # rest) =
     (case candidate cur of (Some d, _) \<Rightarrow> Some d | (None, next) \<Rightarrow> candidateLoop n (rest @ next))"

text \<open>The match of \<open>/0x[a-fA-F0-9]{8,}/\<close>.\<close>

fun hexMatch :: "string \<Rightarrow> string option" where
  "hexMatch [] = None"
| "hexMatch (c # cs) =
     (let digits = takeWhile hex_digit (tl cs)
      in if c = CHR ''0'' \<and> startsWith cs ''x'' \<and> length digits \<ge> 8 then Some (''0x'' @ digits)
         else hexMatch cs)"

fun message_of :: "js_error \<Rightarrow> string" where
  "message_of (Err msg _ _ _ _) = msg"
| "message_of e = js_String e"

definition extractRevertData :: "js_error \<Rightarrow> string option" where
  "extractRevertData e =
     (case candidateLoop 8 [e] of Some d \<Rightarrow> Some d | None \<Rightarrow> hexMatch (message_of e))"

definition formatDecodedRevert :: "string \<Rightarrow> string list option \<Rightarrow> string" where
  "formatDecodedRevert decodedName decodedArgs =
     (case decodedArgs of
        None \<Rightarrow> decodedName
      | Some args \<Rightarrow> decodedName @ ''('' @ joinWith '', '' args @ '')'')"

definition no_inner :: inner_revert where
  "no_inner = \<lparr>ir_innerSelector = None, ir_innerData = None, ir_decodedName = None, ir_decodedArgs = None\<rparr>"

text \<open>\<open>decodeSafeInnerRevert\<close> on the outcome of the re-simulated call: \<open>None\<close> when it returned.\<close>

definition decodeSafeInnerRevert ::
  "(string \<Rightarrow> string \<Rightarrow> string list option) \<Rightarrow> js_error option \<Rightarrow> inner_revert" where
  "decodeSafeInnerRevert decodeAbi outcome =
     (case outcome of
        None \<Rightarrow> no_inner
      | Some err \<Rightarrow>
          (case extractRevertData err of
             None \<Rightarrow> no_inner
           | Some d \<Rightarrow>
               if length d < 10 then no_inner
               else let selector = toLowerCase (take 10 d)
                    in case map_of KNOWN_INNER_ERRORS selector of
                         None \<Rightarrow> \<lparr>ir_innerSelector = Some selector, ir_innerData = Some d, ir_decodedName = None, ir_decodedArgs = None\<rparr>
                       | Some (name, params) \<Rightarrow>
                           \<lparr>ir_innerSelector = Some selector, ir_innerData = Some d, ir_decodedName = Some name,
                            ir_decodedArgs = decodeAbi params (''0x'' @ drop 10 d)\<rparr>))"

definition formatKnownRevertDetail ::
  "(string \<Rightarrow> string \<Rightarrow> string list option) \<Rightarrow> js_error \<Rightarrow> (string \<times> string) option" where
  "formatKnownRevertDetail decodeAbi e =
     (case extractRevertData e of
        None \<Rightarrow> None
      | Some d \<Rightarrow>
          if length d < 10 then None
          else case map_of KNOWN_INNER_ERRORS (toLowerCase (take 10 d)) of
                 None \<Rightarrow> None
               | Some (name, params) \<Rightarrow>
                   if length d \<le> 10 then Some (name, name)
                   else case decodeAbi params (''0x'' @ drop 10 d) of
                          Some args \<Rightarrow> Some (name, formatDecodedRevert name (Some args))
                        | None \<Rightarrow> Some (name, name))"

section \<open>Classification\<close>

datatype classification = Permanent | Retryable | AlreadySettled

definition ALREADY_SETTLED_INNER :: "string list" where
  "ALREADY_SETTLED_INNER =
     [''RouterAlreadyClaimed'',
      ''TCAttemptAlreadyRegistered'',
      ''TCAttemptAlreadySubmitted'',
      ''TCAttemptAlreadyFinalized'',
      ''TCRequestAlreadyRegistered'',
      ''TCVerdictAlreadyRegistered'',
      ''TCVerdictAlreadyDelivered'']"

definition RETRYABLE_INNER :: "string list" where
  "RETRYABLE_INNER =
     [''RouterNotDelivered'']"

definition PERMANENT_SUBSTRINGS :: "string list" where
  "PERMANENT_SUBSTRINGS =
     [''insufficient funds'',
      ''user rejected'',
      ''user denied'',
      ''rejected the request'',
      ''gs013'',
      ''gs026'']"

definition RETRYABLE_SUBSTRINGS :: "string list" where
  "RETRYABLE_SUBSTRINGS =
     [''nonce too low'',
      ''already known'',
      ''could not coalesce'',
      ''replacement transaction underpriced'',
      ''replacement fee too low'',
      ''transaction underpriced'',
      ''fee cap less than block base fee'',
      ''max fee per gas less than block base fee'',
      ''econnreset'',
      ''etimedout'',
      ''socket hang up'',
      ''fetch failed'',
      ''network error'',
      ''connection refused'',
      ''connect timeout'',
      ''all rpc providers in the fallback chain failed'',
      ''returned no data ('' @ CHR 0x22 # ''0x'' @ CHR 0x22 # '')'',
      ''cannot decode zero data'',
      ''the address is not a contract'',
      ''429'',
      ''rate limit'',
      ''too many requests'',
      ''-32603'',
      ''internal json-rpc error'',
      ''-32005'',
      ''request timed out'',
      ''timeout'',
      ''bad gateway'',
      ''service unavailable'',
      ''502'',
      ''503'']"

fun flattenError :: "js_error \<Rightarrow> string" where
  "flattenError (Nullish s) = s"
| "flattenError (Text s) = s"
| "flattenError (Prim s) = s"
| "flattenError (Err msg None _ _ _) = msg"
| "flattenError (Err msg (Some (Nullish _)) _ _ _) = msg"
| "flattenError (Err msg (Some cause) _ _ _) = msg @ '' | '' @ flattenError cause"
| "flattenError (Obj shortMessage details message rendering _ _ _) =
     (let parts = List.map_filter id [shortMessage, details, message]
      in if parts \<noteq> [] then joinWith '' | '' (insertion_order parts) else rendering)"

definition isNonceTooLow :: "js_error \<Rightarrow> bool" where
  "isNonceTooLow e = str_includes (toLowerCase (flattenError e)) ''nonce too low''"

definition isReplacementUnderpriced :: "js_error \<Rightarrow> bool" where
  "isReplacementUnderpriced e =
     (let lower = toLowerCase (flattenError e)
      in str_includes lower ''replacement transaction underpriced''
         \<or> str_includes lower ''replacement fee too low'' \<or> str_includes lower ''transaction underpriced'')"

definition classifyInnerRevert :: "inner_revert \<Rightarrow> classification" where
  "classifyInnerRevert inner =
     (case ir_decodedName inner of
        Some decodedName \<Rightarrow>
          if decodedName \<in> set ALREADY_SETTLED_INNER then AlreadySettled
          else if decodedName \<in> set RETRYABLE_INNER then Retryable
          else if map_of KNOWN_INNER_ERRORS (case ir_innerSelector inner of Some s \<Rightarrow> toLowerCase s | None \<Rightarrow> []) \<noteq> None
            then Permanent
          else Permanent
      | None \<Rightarrow> if ir_innerSelector inner \<noteq> None then Permanent else Retryable)"

fun inner_of :: "js_error \<Rightarrow> inner_revert option" where
  "inner_of (Err _ _ _ _ inner) = inner"
| "inner_of _ = None"

definition classifyBroadcastError :: "js_error \<Rightarrow> classification" where
  "classifyBroadcastError e =
     (case inner_of e of
        Some inner \<Rightarrow> classifyInnerRevert inner
      | None \<Rightarrow>
          (let lower = toLowerCase (flattenError e)
           in if list_ex (str_includes lower) PERMANENT_SUBSTRINGS then Permanent
              else if list_ex (str_includes lower) RETRYABLE_SUBSTRINGS then Retryable
              else Permanent))"

section \<open>Revert data\<close>

lemma revert_text_Some: "revert_text s = Some d \<longleftrightarrow> d = s \<and> startsWith s ''0x'' \<and> 10 \<le> length s"
  by (auto simp: revert_text_def)

lemma data_of_Some: "data_of x = Some d \<Longrightarrow> startsWith d ''0x'' \<and> 10 \<le> length d"
  by (cases x rule: data_of.cases) (auto simp: revert_text_Some Option.bind_eq_Some_conv)

lemma candidate_Some: "candidate e = (Some d, next) \<Longrightarrow> startsWith d ''0x'' \<and> 10 \<le> length d"
  by (cases e) (auto dest: data_of_Some)

lemma candidateLoop_Some: "candidateLoop n q = Some d \<Longrightarrow> startsWith d ''0x'' \<and> 10 \<le> length d"
  by (induction n q rule: candidateLoop.induct) (auto dest: candidate_Some split: prod.splits option.splits)

lemma hexMatch_Some: "hexMatch s = Some d \<Longrightarrow> startsWith d ''0x'' \<and> 10 \<le> length d"
  by (induction s) (auto simp: Let_def startsWith_def split: if_splits)

lemma extractRevertData_Some: "extractRevertData e = Some d \<Longrightarrow> startsWith d ''0x'' \<and> 10 \<le> length d"
  by (auto simp: extractRevertData_def dest: candidateLoop_Some hexMatch_Some split: option.splits)

text \<open>The selectors behind the names the classifier singles out.\<close>

definition SETTLED_SELECTORS :: "string list" where
  "SETTLED_SELECTORS =
     [''0x22d686d9'', ''0x6687bc4c'', ''0x7f02fe1e'', ''0xbe465de7'', ''0x8832f4bb'', ''0x2bf6c59a'', ''0xb88eae99'']"

lemma known_settled:
  "list_all (\<lambda>(s, n, p). (n \<in> set ALREADY_SETTLED_INNER \<longleftrightarrow> s \<in> set SETTLED_SELECTORS)
      \<and> (n \<in> set RETRYABLE_INNER \<longleftrightarrow> s = ''0xe5a88624'')) KNOWN_INNER_ERRORS"
  "list_all (\<lambda>s. s \<in> fst ` set KNOWN_INNER_ERRORS) (''0xe5a88624'' # SETTLED_SELECTORS)"
  by code_simp+

lemma known_entry:
  assumes "map_of KNOWN_INNER_ERRORS s = Some (n, p)"
  shows "n \<in> set ALREADY_SETTLED_INNER \<longleftrightarrow> s \<in> set SETTLED_SELECTORS" "n \<in> set RETRYABLE_INNER \<longleftrightarrow> s = ''0xe5a88624''"
  using known_settled(1) map_of_SomeD [OF assms] by (auto simp: list_all_iff)

lemma unknown_entry:
  "map_of KNOWN_INNER_ERRORS s = None \<Longrightarrow> s \<notin> set SETTLED_SELECTORS \<and> s \<noteq> ''0xe5a88624''"
  using known_settled(2) by (auto simp: map_of_eq_None_iff list_all_iff)

section \<open>Properties\<close>

lemma decided_by_selector:
  assumes "extractRevertData err = Some d"
  shows "classifyInnerRevert (decodeSafeInnerRevert decodeAbi (Some err)) =
    (if toLowerCase (take 10 d) \<in> set SETTLED_SELECTORS then AlreadySettled
     else if toLowerCase (take 10 d) = ''0xe5a88624'' then Retryable else Permanent)"
proof (cases "map_of KNOWN_INNER_ERRORS (toLowerCase (take 10 d))")
  case None
  with assms extractRevertData_Some [OF assms] unknown_entry [OF None] show ?thesis
    by (simp add: decodeSafeInnerRevert_def classifyInnerRevert_def Let_def)
next
  case (Some e)
  with assms extractRevertData_Some [OF assms] known_entry [of "toLowerCase (take 10 d)" "fst e" "snd e"] show ?thesis
    by (cases e) (simp add: decodeSafeInnerRevert_def classifyInnerRevert_def Let_def)
qed

text \<open>
  From revert data to decision. Whatever error the re-simulated inner call raises, the selector of
  its revert data alone decides: seven selectors mean the effect is already on chain, the selector of
  \<open>RouterNotDelivered\<close> means retry, every other one is final. Neither the letter case of the data nor a
  failure of the argument decoder changes the decision, and an error without revert data yields none.
\<close>

theorem inner_revert_decision:
  "case extractRevertData err of
     None \<Rightarrow> ir_innerSelector (decodeSafeInnerRevert decodeAbi (Some err)) = None
   | Some d \<Rightarrow>
       classifyInnerRevert (decodeSafeInnerRevert decodeAbi (Some err)) =
         (if toLowerCase (take 10 d) \<in> set SETTLED_SELECTORS then AlreadySettled
          else if toLowerCase (take 10 d) = ''0xe5a88624'' then Retryable else Permanent)"
  using decided_by_selector [of err _ decodeAbi]
  by (cases "extractRevertData err") (simp_all add: decodeSafeInnerRevert_def no_inner_def)

lemma includes_member:
  "p \<in> set ps \<Longrightarrow> str_includes s p \<Longrightarrow> list_ex (str_includes s) ps"
  by (auto simp: list_ex_iff)

text \<open>
  A nonce or replacement refusal of the node is retried unless the same message also carries a
  final reason, and no error text, whatever it says, is taken for success: only a decoded inner revert
  with one of the listed names counts as already settled.
\<close>

theorem classify_text:
  "inner_of e = None \<Longrightarrow>
     classifyBroadcastError e \<noteq> AlreadySettled
     \<and> (isNonceTooLow e \<or> isReplacementUnderpriced e \<longrightarrow>
          classifyBroadcastError e =
            (if list_ex (str_includes (toLowerCase (flattenError e))) PERMANENT_SUBSTRINGS then Permanent else Retryable))"
proof -
  assume none: "inner_of e = None"
  have "''nonce too low'' \<in> set RETRYABLE_SUBSTRINGS" "''replacement transaction underpriced'' \<in> set RETRYABLE_SUBSTRINGS"
    "''replacement fee too low'' \<in> set RETRYABLE_SUBSTRINGS" "''transaction underpriced'' \<in> set RETRYABLE_SUBSTRINGS"
    by (simp_all add: RETRYABLE_SUBSTRINGS_def)
  note mem = this [THEN includes_member, of "toLowerCase (flattenError e)"]
  have "list_ex (str_includes (toLowerCase (flattenError e))) RETRYABLE_SUBSTRINGS"
    if "isNonceTooLow e \<or> isReplacementUnderpriced e"
    using that mem by (auto simp: isNonceTooLow_def isReplacementUnderpriced_def Let_def)
  with none show ?thesis by (auto simp: classifyBroadcastError_def Let_def)
qed

theorem classify_text_witness:
  "classifyBroadcastError (Err ''Nonce too LOW'' None NoData None None) \<noteq> AlreadySettled
   \<and> classifyBroadcastError (Err ''Nonce too LOW'' None NoData None None) = Retryable"
proof -
  let ?e = "Err ''Nonce too LOW'' None NoData None None"
  have "isNonceTooLow ?e" "\<not> list_ex (str_includes (toLowerCase (flattenError ?e))) PERMANENT_SUBSTRINGS" by code_simp+
  then show ?thesis using classify_text [of ?e] by simp
qed

end
