(* ===== verification/Broadcast_Fees.thy ===== *)
theory Broadcast_Fees
  imports Complex_Main
begin

text \<open>
  Fees of a resubmitted transaction (marketplace/venue-base/src/broadcast/fees.ts). A \<open>bigint\<close> is an
  \<open>int\<close>; an absent member of a \<open>FeeSnapshot\<close> is \<open>None\<close>. The theorems: a bumped snapshot is either of
  the legacy or of the EIP-1559 kind; it is the least whole fee that clears the replacement floor of
  15% over the last submission and the estimate scaled by 15% per attempt; and where the two snapshots
  are of different kinds the floor is lost.
\<close>

record fee_snapshot =
  fs_maxFeePerGas :: "int option"
  fs_maxPriorityFeePerGas :: "int option"
  fs_gasPrice :: "int option"

definition no_fees :: fee_snapshot where
  "no_fees = \<lparr>fs_maxFeePerGas = None, fs_maxPriorityFeePerGas = None, fs_gasPrice = None\<rparr>"

text \<open>\<open>BROADCAST_DEFAULTS\<close>\<close>

definition feeBumpBpsPerAttempt :: int where "feeBumpBpsPerAttempt = 1500"

definition replacementBumpBps :: int where "replacementBumpBps = 1500"

text \<open>\<open>bigint\<close> division truncates towards zero.\<close>

definition bigint_div :: "int \<Rightarrow> int \<Rightarrow> int" where
  "bigint_div a b = sgn a * sgn b * (\<bar>a\<bar> div \<bar>b\<bar>)"

definition mulDivCeil :: "int \<Rightarrow> int \<Rightarrow> int \<Rightarrow> int" where
  "mulDivCeil v numerator denominator = bigint_div (v * numerator + denominator - 1) denominator"

definition replacementBump :: "int \<Rightarrow> int" where
  "replacementBump v = mulDivCeil v (10000 + replacementBumpBps) 10000"

definition attemptBump :: "int \<Rightarrow> int \<Rightarrow> int" where
  "attemptBump v attemptIndex =
     (if attemptIndex \<le> 0 then v
      else mulDivCeil v (10000 + feeBumpBpsPerAttempt * attemptIndex) 10000)"

definition maxOf :: "int option list \<Rightarrow> int option" where
  "maxOf values =
     (case List.map_filter id values of
        [] \<Rightarrow> None
      | v # vs \<Rightarrow> Some (foldl (\<lambda>m w. if w > m then w else m) v (v # vs)))"

definition bumpFees :: "fee_snapshot \<Rightarrow> fee_snapshot option \<Rightarrow> int \<Rightarrow> fee_snapshot" where
  "bumpFees current previous attemptIndex =
     (let prev = (\<lambda>f. Option.bind previous f);
          bump = (\<lambda>f. maxOf [map_option (\<lambda>v. attemptBump v attemptIndex) (f current),
                              map_option replacementBump (prev f)])
      in if fs_gasPrice current \<noteq> None \<or> prev fs_gasPrice \<noteq> None then
           (case bump fs_gasPrice of None \<Rightarrow> no_fees | Some g \<Rightarrow> no_fees\<lparr>fs_gasPrice := Some g\<rparr>)
         else
           (case (bump fs_maxFeePerGas, bump fs_maxPriorityFeePerGas) of
              (Some m, Some p) \<Rightarrow> no_fees\<lparr>fs_maxFeePerGas := Some m, fs_maxPriorityFeePerGas := Some p\<rparr>
            | _ \<Rightarrow> no_fees))"

section \<open>Rounding\<close>

lemma mulDivCeil_ceiling:
  assumes "0 \<le> v" and "0 \<le> n" and "0 < d"
  shows "mulDivCeil v n d = \<lceil>rat_of_int v * rat_of_int n / rat_of_int d\<rceil>"
proof -
  let ?x = "v * n" and ?q = "(v * n + d - 1) div d"
  have "0 \<le> ?x" using assms by simp
  then have eq: "mulDivCeil v n d = ?q"
    using assms(3) by (cases "?x + d - 1 = 0") (auto simp: mulDivCeil_def bigint_div_def)
  have "?q * d + (?x + d - 1) mod d = ?x + d - 1" by (rule div_mult_mod_eq)
  moreover have "0 \<le> (?x + d - 1) mod d" "(?x + d - 1) mod d < d" using assms(3) by simp_all
  ultimately have bounds: "(?q - 1) * d < ?x" "?x \<le> ?q * d" by (unfold left_diff_distrib mult_1) linarith+
  have "rat_of_int ((?q - 1) * d) < rat_of_int ?x" "rat_of_int ?x \<le> rat_of_int (?q * d)"
    using bounds by (simp_all only: of_int_less_iff of_int_le_iff)
  then have "\<lceil>rat_of_int ?x / rat_of_int d\<rceil> = ?q"
    using assms(3) by (intro ceiling_unique) (simp_all add: pos_less_divide_eq pos_divide_le_eq)
  then show ?thesis using eq by simp
qed

lemma replacementBump_ceiling: "0 \<le> v \<Longrightarrow> replacementBump v = \<lceil>rat_of_int v * (115 / 100)\<rceil>"
  unfolding replacementBump_def by (subst mulDivCeil_ceiling) (simp_all add: replacementBumpBps_def mult.commute)

lemma attemptBump_ceiling:
  assumes "0 \<le> v" and "0 \<le> k"
  shows "attemptBump v k = \<lceil>rat_of_int v * (1 + 15 / 100 * rat_of_int k)\<rceil>"
proof (cases "k = 0")
  case False
  have "rat_of_int v * rat_of_int (10000 + feeBumpBpsPerAttempt * k) / rat_of_int 10000
      = rat_of_int v * (1 + 15 / 100 * rat_of_int k)"
    by (simp add: feeBumpBpsPerAttempt_def field_simps)
  moreover have "attemptBump v k = \<lceil>rat_of_int v * rat_of_int (10000 + feeBumpBpsPerAttempt * k) / rat_of_int 10000\<rceil>"
    using False assms by (simp add: attemptBump_def mulDivCeil_ceiling feeBumpBpsPerAttempt_def)
  ultimately show ?thesis by (simp only:)
qed (simp add: attemptBump_def)

lemma maxOf_pair:
  "maxOf [a, b] = (case (a, b) of (None, _) \<Rightarrow> b | (_, None) \<Rightarrow> a | (Some x, Some y) \<Rightarrow> Some (max x y))"
  by (cases a; cases b) (auto simp: maxOf_def List.map_filter_def)

section \<open>Properties\<close>

definition is_legacy :: "fee_snapshot \<Rightarrow> bool" where
  "is_legacy f \<longleftrightarrow> fs_gasPrice f \<noteq> None \<and> fs_maxFeePerGas f = None \<and> fs_maxPriorityFeePerGas f = None"

definition is_1559 :: "fee_snapshot \<Rightarrow> bool" where
  "is_1559 f \<longleftrightarrow> fs_gasPrice f = None \<and> fs_maxFeePerGas f \<noteq> None \<and> fs_maxPriorityFeePerGas f \<noteq> None"

definition nonneg_fees :: "fee_snapshot \<Rightarrow> bool" where
  "nonneg_fees f \<longleftrightarrow> pred_option ((\<le>) 0) (fs_gasPrice f) \<and> pred_option ((\<le>) 0) (fs_maxFeePerGas f)
     \<and> pred_option ((\<le>) 0) (fs_maxPriorityFeePerGas f)"

definition cleared :: "int \<Rightarrow> int option \<Rightarrow> int option \<Rightarrow> int option" where
  "cleared k estimate submitted =
     (case (estimate, submitted) of
        (Some c, Some p) \<Rightarrow> Some \<lceil>max (rat_of_int c * (1 + 15 / 100 * rat_of_int k)) (rat_of_int p * (115 / 100))\<rceil>
      | _ \<Rightarrow> None)"

lemma ceiling_max: "\<lceil>max a b :: rat\<rceil> = max \<lceil>a\<rceil> \<lceil>b\<rceil>"
  by (intro max_of_mono [symmetric] monoI ceiling_mono)

lemma maxOf_cleared:
  assumes "0 \<le> c" and "0 \<le> p" and "0 \<le> k"
  shows "maxOf [Some (attemptBump c k), Some (replacementBump p)] = cleared k (Some c) (Some p)"
  using assms by (simp add: maxOf_pair cleared_def ceiling_max attemptBump_ceiling replacementBump_ceiling del: ceiling_divide_eq_div)

text \<open>
  C40: A bumped snapshot is empty, a legacy gas price alone, or a complete EIP-1559 pair alone: the two
  kinds of fee never mix, which is what the casts at the send sites assume.
\<close>

theorem bumpFees_shape:
  "bumpFees current previous k = no_fees \<or> is_legacy (bumpFees current previous k) \<or> is_1559 (bumpFees current previous k)"
  by (auto simp: bumpFees_def Let_def no_fees_def is_legacy_def is_1559_def split: option.splits)

text \<open>
  C28: Exact replacement fees. When the estimate and the last submission are both complete and of one kind (both
  legacy or both EIP-1559), every fee of the replacement is the least whole number that is at least 115% of the last
  submitted fee and at least the estimate raised by 15% per attempt. Across kinds that is false
  (\<open>bumpFees_mixed_kinds\<close>).
\<close>

theorem bumpFees_clears_floor:
  assumes "nonneg_fees current" and "nonneg_fees submitted" and "0 \<le> k"
    and "is_legacy current \<and> is_legacy submitted \<or> is_1559 current \<and> is_1559 submitted"
  shows "bumpFees current (Some submitted) k =
    \<lparr>fs_maxFeePerGas = cleared k (fs_maxFeePerGas current) (fs_maxFeePerGas submitted),
     fs_maxPriorityFeePerGas = cleared k (fs_maxPriorityFeePerGas current) (fs_maxPriorityFeePerGas submitted),
     fs_gasPrice = cleared k (fs_gasPrice current) (fs_gasPrice submitted)\<rparr>"
  using assms
  by (auto simp: bumpFees_def Let_def no_fees_def is_legacy_def is_1559_def nonneg_fees_def maxOf_cleared)
    (simp_all add: cleared_def no_fees_def maxOf_cleared)

theorem bumpFees_clears_floor_witness:
  "bumpFees \<lparr>fs_maxFeePerGas = Some 100, fs_maxPriorityFeePerGas = Some 7, fs_gasPrice = None\<rparr>
     (Some \<lparr>fs_maxFeePerGas = Some 101, fs_maxPriorityFeePerGas = Some 3, fs_gasPrice = None\<rparr>) 1
   = \<lparr>fs_maxFeePerGas = Some 117, fs_maxPriorityFeePerGas = Some 9, fs_gasPrice = None\<rparr>"
  by (subst bumpFees_clears_floor) (simp_all add: nonneg_fees_def is_1559_def is_legacy_def cleared_def ceiling_max ceiling_eq_iff)

text \<open>
  Across kinds the replacement floor is lost. After a submission at EIP-1559 fees a fallback
  estimate given as a plain gas price replaces it by that price alone, here an offer of 12 against a
  last submitted fee of 100; and a legacy submission followed by an EIP-1559 estimate ignores the estimate.
\<close>

theorem bumpFees_mixed_kinds:
  "bumpFees (no_fees\<lparr>fs_gasPrice := Some 10\<rparr>) (Some (no_fees\<lparr>fs_maxFeePerGas := Some 100, fs_maxPriorityFeePerGas := Some 50\<rparr>)) 1
     = no_fees\<lparr>fs_gasPrice := Some 12\<rparr>
   \<and> bumpFees (no_fees\<lparr>fs_maxFeePerGas := Some 100, fs_maxPriorityFeePerGas := Some 50\<rparr>) (Some (no_fees\<lparr>fs_gasPrice := Some 10\<rparr>)) 1
     = no_fees\<lparr>fs_gasPrice := Some 12\<rparr>"
  by code_simp

end
