(* ===== verification/Submission_Ledger.thy ===== *)
theory Submission_Ledger
  imports Js_Runtime Broadcast_Fees
begin

text \<open>
  The persistent submission ledger (marketplace/venue-base/src/broadcast/ledger.ts) over the table
  \<open>tx_submissions\<close>. A row holds what the columns hold: \<open>bigint\<close> amounts as decimal text, \<open>NULL\<close> as
  \<open>None\<close>. The primary key makes \<open>(chain_id, from_address, nonce)\<close> unique, which is the invariant
  \<open>ledger_inv\<close>; \<open>BigInt_text\<close> reads the decimal texts the ledger writes.

  The locale \<open>submission_ledger\<close> is the interface the broadcaster relies on. Its interpretation on the
  table operations discharges the laws.
\<close>

section \<open>Records and rows\<close>

record submission_key =
  sk_chainId :: nat
  sk_from :: string
  sk_nonce :: nat

record submission_record =
  sr_chainId :: nat
  sr_from :: string
  sr_nonce :: nat
  sr_txHash :: "string option"
  sr_logicalTx :: "string option"
  sr_to :: "string option"
  sr_value :: "int option"
  sr_data :: "string option"
  sr_fees :: fee_snapshot
  sr_submittedAtMs :: int
  sr_resolvedAtMs :: "int option"

record submission_row =
  row_chain_id :: nat
  row_from_address :: string
  row_nonce :: nat
  row_tx_hash :: "string option"
  row_logical_tx :: "string option"
  row_to_address :: "string option"
  row_value_wei :: "string option"
  row_data :: "string option"
  row_max_fee_per_gas :: "string option"
  row_max_priority_fee_per_gas :: "string option"
  row_gas_price :: "string option"
  row_submitted_at_ms :: int
  row_resolved_at_ms :: "int option"

definition BigInt_text :: "string \<Rightarrow> int" where
  "BigInt_text s =
     (case s of
        c # ds \<Rightarrow> if c = CHR ''-'' then - int (nat_of_digits ds) else int (nat_of_digits s)
      | [] \<Rightarrow> 0)"

definition toRecord :: "submission_row \<Rightarrow> submission_record" where
  "toRecord row =
     \<lparr>sr_chainId = row_chain_id row, sr_from = row_from_address row, sr_nonce = row_nonce row,
      sr_txHash = row_tx_hash row, sr_logicalTx = row_logical_tx row, sr_to = row_to_address row,
      sr_value = map_option BigInt_text (row_value_wei row), sr_data = row_data row,
      sr_fees = \<lparr>fs_maxFeePerGas = map_option BigInt_text (row_max_fee_per_gas row),
                 fs_maxPriorityFeePerGas = map_option BigInt_text (row_max_priority_fee_per_gas row),
                 fs_gasPrice = map_option BigInt_text (row_gas_price row)\<rparr>,
      sr_submittedAtMs = row_submitted_at_ms row, sr_resolvedAtMs = row_resolved_at_ms row\<rparr>"

text \<open>The parameters that \<open>record\<close> binds to the upsert.\<close>

definition toRow :: "submission_record \<Rightarrow> submission_row" where
  "toRow entry =
     \<lparr>row_chain_id = sr_chainId entry, row_from_address = toLowerCase (sr_from entry), row_nonce = sr_nonce entry,
      row_tx_hash = sr_txHash entry, row_logical_tx = sr_logicalTx entry,
      row_to_address = map_option toLowerCase (sr_to entry),
      row_value_wei = map_option dec_int (sr_value entry), row_data = sr_data entry,
      row_max_fee_per_gas = map_option dec_int (fs_maxFeePerGas (sr_fees entry)),
      row_max_priority_fee_per_gas = map_option dec_int (fs_maxPriorityFeePerGas (sr_fees entry)),
      row_gas_price = map_option dec_int (fs_gasPrice (sr_fees entry)),
      row_submitted_at_ms = sr_submittedAtMs entry, row_resolved_at_ms = sr_resolvedAtMs entry\<rparr>"

section \<open>The statements\<close>

type_synonym tx_submissions = "submission_row list"

definition row_matches :: "submission_key \<Rightarrow> submission_row \<Rightarrow> bool" where
  "row_matches key row \<longleftrightarrow> row_chain_id row = sk_chainId key
     \<and> row_from_address row = toLowerCase (sk_from key) \<and> row_nonce row = sk_nonce key"

definition ledger_get :: "submission_key \<Rightarrow> tx_submissions \<Rightarrow> submission_record option" where
  "ledger_get key t = map_option toRecord (find (row_matches key) t)"

definition entry_key :: "submission_record \<Rightarrow> submission_key" where
  "entry_key e = \<lparr>sk_chainId = sr_chainId e, sk_from = sr_from e, sk_nonce = sr_nonce e\<rparr>"

text \<open>\<open>INSERT ... ON CONFLICT (chain_id, from_address, nonce) DO UPDATE SET\<close> every other column\<close>

definition ledger_record :: "submission_record \<Rightarrow> tx_submissions \<Rightarrow> tx_submissions" where
  "ledger_record entry t =
     (if list_ex (row_matches (entry_key entry)) t
      then map (\<lambda>row. if row_matches (entry_key entry) row then toRow entry else row) t
      else t @ [toRow entry])"

definition ledger_markResolved :: "submission_key \<Rightarrow> int \<Rightarrow> tx_submissions \<Rightarrow> tx_submissions" where
  "ledger_markResolved key resolvedAtMs t =
     map (\<lambda>row. if row_matches key row then row\<lparr>row_resolved_at_ms := Some resolvedAtMs\<rparr> else row) t"

definition ledger_unresolvedBetween ::
  "nat \<Rightarrow> string \<Rightarrow> nat \<Rightarrow> nat \<Rightarrow> tx_submissions \<Rightarrow> submission_record list" where
  "ledger_unresolvedBetween chainId from fromNonce toNonce t =
     map toRecord (sort_key row_nonce
       (filter (\<lambda>row. row_chain_id row = chainId \<and> row_from_address row = toLowerCase from
          \<and> fromNonce \<le> row_nonce row \<and> row_nonce row < toNonce \<and> row_resolved_at_ms row = None) t))"

section \<open>The interface\<close>

text \<open>Keys compare with the sender in lower case; \<open>stored\<close> is what a recorded entry reads back as.\<close>

definition same_key :: "submission_key \<Rightarrow> submission_key \<Rightarrow> bool" where
  "same_key k l \<longleftrightarrow> sk_chainId k = sk_chainId l \<and> toLowerCase (sk_from k) = toLowerCase (sk_from l) \<and> sk_nonce k = sk_nonce l"

definition stored :: "submission_record \<Rightarrow> submission_record" where
  "stored e = e\<lparr>sr_from := toLowerCase (sr_from e), sr_to := map_option toLowerCase (sr_to e)\<rparr>"

locale submission_ledger =
  fixes inv :: "'t \<Rightarrow> bool"
    and get :: "submission_key \<Rightarrow> 't \<Rightarrow> submission_record option"
    and put :: "submission_record \<Rightarrow> 't \<Rightarrow> 't"
    and markResolved :: "submission_key \<Rightarrow> int \<Rightarrow> 't \<Rightarrow> 't"
    and unresolvedBetween :: "nat \<Rightarrow> string \<Rightarrow> nat \<Rightarrow> nat \<Rightarrow> 't \<Rightarrow> submission_record list"
  assumes inv_put: "inv t \<Longrightarrow> inv (put e t)"
    and inv_markResolved: "inv t \<Longrightarrow> inv (markResolved k resolved t)"
    and get_put: "inv t \<Longrightarrow> get k (put e t) = (if same_key k (entry_key e) then Some (stored e) else get k t)"
    and get_markResolved: "inv t \<Longrightarrow> get k (markResolved l resolved t) =
      (if same_key k l then map_option (\<lambda>r. r\<lparr>sr_resolvedAtMs := Some resolved\<rparr>) (get k t) else get k t)"
    and get_key: "inv t \<Longrightarrow> get k t = Some r \<Longrightarrow> same_key (entry_key r) k"
    and set_unresolved: "inv t \<Longrightarrow> set (unresolvedBetween c f lo hi t) =
      {r. sr_resolvedAtMs r = None \<and> (\<exists>n. lo \<le> n \<and> n < hi
            \<and> get \<lparr>sk_chainId = c, sk_from = f, sk_nonce = n\<rparr> t = Some r)}"
    and sorted_unresolved: "inv t \<Longrightarrow> sorted_wrt (<) (map sr_nonce (unresolvedBetween c f lo hi t))"
begin

lemma inv_puts: "inv t \<Longrightarrow> inv (fold put es t)"
  by (induction es arbitrary: t) (simp_all add: inv_put)

text \<open>A sequence of submissions leaves at each key the last one.\<close>

lemma get_puts:
  "inv t \<Longrightarrow> get k (fold put es t) =
     (case filter (\<lambda>e. same_key k (entry_key e)) es of [] \<Rightarrow> get k t | ms \<Rightarrow> Some (stored (last ms)))"
proof (induction es arbitrary: t)
  case (Cons e es)
  then show ?case
    using Cons.IH [OF inv_put [OF Cons.prems(1), of e]] get_put [OF Cons.prems(1), of k e]
    by (auto split: list.splits)
qed simp

text \<open>A resolved nonce is never offered for eviction again until it is recorded anew.\<close>

lemma resolved_not_unresolved:
  assumes "inv t" and "r \<in> set (unresolvedBetween c f lo hi (markResolved \<lparr>sk_chainId = c, sk_from = f, sk_nonce = n\<rparr> resolved t))"
  shows "sr_nonce r \<noteq> n"
proof
  assume n: "sr_nonce r = n"
  let ?k = "\<lambda>m. \<lparr>sk_chainId = c, sk_from = f, sk_nonce = m\<rparr>"
  obtain m where m: "sr_resolvedAtMs r = None" "get (?k m) (markResolved (?k n) resolved t) = Some r"
    using assms by (auto simp: set_unresolved inv_markResolved)
  then have "m = n" using get_key [OF inv_markResolved [OF assms(1)] m(2)] n by (simp add: same_key_def entry_key_def)
  then have "sr_resolvedAtMs r \<noteq> None"
    using m(2) get_markResolved [OF assms(1), of "?k n" "?k n" resolved] by (auto simp: same_key_def)
  with m(1) show False by simp
qed

end

section \<open>The table implements the interface\<close>

lemma BigInt_text_dec_int [simp]: "BigInt_text (dec_int i) = i"
proof (cases "i < 0")
  case False
  obtain c ds where c: "dec (nat i) = c # ds" by (cases "dec (nat i)") auto
  then have "is_digit c" using dec_digits [of "nat i"] by auto
  then have "c \<noteq> CHR ''-''" by auto
  with False c nat_of_digits_dec [of "nat i"] show ?thesis by (simp add: BigInt_text_def dec_int_def)
qed (simp add: BigInt_text_def dec_int_def)

lemma toRecord_toRow [simp]: "toRecord (toRow e) = stored e"
  by (cases e) (simp add: toRecord_def toRow_def stored_def option.map_comp o_def option.map_ident)

definition table_key :: "submission_row \<Rightarrow> nat \<times> string \<times> nat" where
  "table_key row = (row_chain_id row, row_from_address row, row_nonce row)"

definition key_of :: "submission_key \<Rightarrow> nat \<times> string \<times> nat" where
  "key_of k = (sk_chainId k, toLowerCase (sk_from k), sk_nonce k)"

definition ledger_inv :: "tx_submissions \<Rightarrow> bool" where
  "ledger_inv t \<longleftrightarrow> distinct (map table_key t) \<and> list_all (\<lambda>row. toLowerCase (row_from_address row) = row_from_address row) t"

lemma row_matches_iff: "row_matches k row \<longleftrightarrow> table_key row = key_of k"
  by (auto simp: row_matches_def table_key_def key_of_def)

lemma same_key_iff: "same_key k l \<longleftrightarrow> key_of k = key_of l"
  by (auto simp: same_key_def key_of_def)

lemma table_key_toRow [simp]: "table_key (toRow e) = key_of (entry_key e)"
  by (simp add: table_key_def toRow_def key_of_def entry_key_def)

lemma find_key_iff:
  "distinct (map table_key t) \<Longrightarrow> find (row_matches k) t = Some row \<longleftrightarrow> row \<in> set t \<and> table_key row = key_of k"
  by (induction t) (auto simp: row_matches_iff image_iff)

lemma get_Some_iff:
  "ledger_inv t \<Longrightarrow> ledger_get k t = Some r \<longleftrightarrow> (\<exists>row \<in> set t. table_key row = key_of k \<and> r = toRecord row)"
  by (auto simp: ledger_get_def ledger_inv_def find_key_iff)

lemma get_option_eqI:
  assumes "ledger_inv t" and "ledger_inv t'"
    and "\<And>row'. row' \<in> set t' \<Longrightarrow> table_key row' = key_of k \<Longrightarrow> \<exists>row \<in> set t. table_key row = key_of k \<and> toRecord row' = f (toRecord row)"
    and "key_of k \<in> set (map table_key t) \<Longrightarrow> key_of k \<in> set (map table_key t')"
  shows "ledger_get k t' = map_option f (ledger_get k t)"
proof (cases "ledger_get k t'")
  case None
  have "\<not> (\<exists>row' \<in> set t'. table_key row' = key_of k)"
    using None get_Some_iff [OF assms(2), of k] by (metis option.distinct(1))
  then have "key_of k \<notin> set (map table_key t')" by (auto simp: image_iff)
  then have "key_of k \<notin> set (map table_key t)" using assms(4) by blast
  then have "ledger_get k t = None"
    using get_Some_iff [OF assms(1), of k] by (cases "ledger_get k t") force+
  with None show ?thesis by simp
next
  case (Some r)
  then obtain row' where row': "row' \<in> set t'" "table_key row' = key_of k" "r = toRecord row'"
    by (auto simp: get_Some_iff [OF assms(2)])
  then obtain row where "row \<in> set t" "table_key row = key_of k" "toRecord row' = f (toRecord row)" using assms(3) by blast
  then have "ledger_get k t = Some (toRecord row)" by (auto simp: get_Some_iff [OF assms(1)])
  with Some row' \<open>toRecord row' = f (toRecord row)\<close> show ?thesis by simp
qed

lemma table_keys_record:
  "map table_key (ledger_record e t) = (if key_of (entry_key e) \<in> table_key ` set t then map table_key t
     else map table_key t @ [key_of (entry_key e)])"
  by (auto simp: ledger_record_def row_matches_iff list_ex_iff image_iff) metis

lemma ledger_inv_record: "ledger_inv t \<Longrightarrow> ledger_inv (ledger_record e t)"
  using table_keys_record [of e t]
  by (auto simp: ledger_inv_def list_all_iff ledger_record_def toRow_def split: if_splits)

lemma table_keys_mark: "map table_key (ledger_markResolved k r t) = map table_key t"
  by (simp add: ledger_markResolved_def table_key_def)

lemma ledger_inv_mark: "ledger_inv t \<Longrightarrow> ledger_inv (ledger_markResolved k r t)"
  unfolding ledger_inv_def table_keys_mark by (auto simp: list_all_iff ledger_markResolved_def)

lemma get_ledger_record:
  assumes "ledger_inv t"
  shows "ledger_get k (ledger_record e t) = (if same_key k (entry_key e) then Some (stored e) else ledger_get k t)"
proof (cases "key_of k = key_of (entry_key e)")
  case True
  have "toRow e \<in> set (ledger_record e t)" by (auto simp: ledger_record_def list_ex_iff)
  then have "ledger_get k (ledger_record e t) = Some (stored e)"
    unfolding get_Some_iff [OF ledger_inv_record [OF assms]] using True by (intro bexI [of _ "toRow e"]) simp_all
  then show ?thesis using True by (simp add: same_key_iff)
next
  case False
  have "ledger_get k (ledger_record e t) = map_option id (ledger_get k t)"
  proof (rule get_option_eqI [OF assms ledger_inv_record [OF assms]])
    show "key_of k \<in> set (map table_key t) \<Longrightarrow> key_of k \<in> set (map table_key (ledger_record e t))"
      unfolding table_keys_record by auto
  qed (use False in \<open>auto simp: ledger_record_def row_matches_iff split: if_splits\<close>)
  then show ?thesis using False by (simp add: same_key_iff option.map_id)
qed

lemma toRecord_resolved: "toRecord (row\<lparr>row_resolved_at_ms := Some r\<rparr>) = (toRecord row)\<lparr>sr_resolvedAtMs := Some r\<rparr>"
  by (simp add: toRecord_def)

lemma table_key_resolved [simp]: "table_key (row\<lparr>row_resolved_at_ms := r\<rparr>) = table_key row"
  by (simp add: table_key_def)

lemma get_ledger_mark:
  assumes "ledger_inv t"
  shows "ledger_get k (ledger_markResolved l r t) =
    (if same_key k l then map_option (\<lambda>x. x\<lparr>sr_resolvedAtMs := Some r\<rparr>) (ledger_get k t) else ledger_get k t)"
proof -
  have "ledger_get k (ledger_markResolved l r t) =
      map_option (if key_of k = key_of l then (\<lambda>x. x\<lparr>sr_resolvedAtMs := Some r\<rparr>) else id) (ledger_get k t)"
  proof (rule get_option_eqI [OF assms ledger_inv_mark [OF assms]])
    show "key_of k \<in> set (map table_key t) \<Longrightarrow> key_of k \<in> set (map table_key (ledger_markResolved l r t))"
      unfolding table_keys_mark .
  qed (auto simp: ledger_markResolved_def row_matches_iff toRecord_resolved table_key_resolved)
  then show ?thesis by (simp add: same_key_iff option.map_id)
qed

lemma get_ledger_key: "ledger_inv t \<Longrightarrow> ledger_get k t = Some r \<Longrightarrow> same_key (entry_key r) k"
  by (auto simp: get_Some_iff same_key_def entry_key_def toRecord_def table_key_def key_of_def ledger_inv_def list_all_iff)

lemma resolved_toRecord: "sr_resolvedAtMs (toRecord row) = row_resolved_at_ms row"
  by (simp add: toRecord_def)

lemma set_ledger_unresolved:
  "ledger_inv t \<Longrightarrow> set (ledger_unresolvedBetween c f lo hi t) =
     {r. sr_resolvedAtMs r = None \<and> (\<exists>n. lo \<le> n \<and> n < hi
           \<and> ledger_get \<lparr>sk_chainId = c, sk_from = f, sk_nonce = n\<rparr> t = Some r)}"
  by (auto simp: ledger_unresolvedBetween_def get_Some_iff table_key_def key_of_def resolved_toRecord)

lemma sorted_ledger_unresolved:
  assumes "ledger_inv t"
  shows "sorted_wrt (<) (map sr_nonce (ledger_unresolvedBetween c f lo hi t))"
proof -
  let ?rows = "filter (\<lambda>row. row_chain_id row = c \<and> row_from_address row = toLowerCase f
    \<and> lo \<le> row_nonce row \<and> row_nonce row < hi \<and> row_resolved_at_ms row = None) t"
  have "inj_on row_nonce (set ?rows)"
    using assms by (auto simp: ledger_inv_def distinct_map inj_on_def table_key_def)
  moreover have "distinct ?rows" using assms by (simp add: ledger_inv_def distinct_map)
  ultimately have "distinct (map row_nonce (sort_key row_nonce ?rows))" by (simp add: distinct_map)
  then have "sorted_wrt (<) (map row_nonce (sort_key row_nonce ?rows))"
    by (simp add: strict_sorted_iff)
  then show ?thesis by (simp add: ledger_unresolvedBetween_def toRecord_def sorted_wrt_map)
qed

interpretation sql_ledger: submission_ledger ledger_inv ledger_get ledger_record ledger_markResolved ledger_unresolvedBetween
  by (unfold_locales;
      (rule ledger_inv_record | rule ledger_inv_mark | rule get_ledger_record | rule get_ledger_mark
        | rule get_ledger_key | rule set_ledger_unresolved | rule sorted_ledger_unresolved); assumption)

section \<open>Properties\<close>

text \<open>
  What the ledger gives back. After any sequence of submissions the record at a key is the last
  one submitted under that key, with every amount intact through its decimal text and both addresses
  in lower case, whatever letter case the writer or the reader used; every other key is untouched.
\<close>

theorem ledger_last_submission:
  "ledger_get key (fold ledger_record es []) =
     (case filter (\<lambda>e. same_key key (entry_key e)) es of [] \<Rightarrow> None | ms \<Rightarrow> Some (stored (last ms)))"
proof -
  have "ledger_inv []" by (simp add: ledger_inv_def)
  moreover have "ledger_get key [] = None" by (simp add: ledger_get_def)
  ultimately show ?thesis using sql_ledger.get_puts [of "[]" key es] by (auto split: list.splits)
qed

end
