(* ===== verification/Safe_Broadcaster.thy ===== *)
theory Safe_Broadcaster
  imports Js_Async Broadcast_Errors Submission_Ledger
begin

text \<open>
  The single transaction path of the venue (marketplace/venue-base/src/broadcast/safe-broadcaster.ts and
  stuck-nonce.ts), run by one process inside the critical section of the broadcast lock.

  The chain and the wallet are viem clients: the record \<open>client\<close> has one member per call the code makes,
  each a function of an unknown world that may also throw and change the world in any way. \<open>decodeAbi\<close>
  and \<open>decodeTaskCreated\<close> stand for the ABI decoders. The broadcaster's own state is the submission
  ledger; \<open>bs_trace\<close> is a record of the calls that leave the process, kept for the theorems and read
  by no operation. Ledger operations do not throw here, and the two nonce reads that \<open>evictStuckNonce\<close> starts together
  run one after the other.
\<close>

section \<open>Requests, receipts and the environment\<close>

record safe_request =
  rq_to :: string
  rq_value :: int
  rq_data :: string
  rq_logicalTx :: string
  rq_operation :: nat

record 'l chain_receipt =
  cr_success :: bool
  cr_blockNumber :: int
  cr_blockHash :: string
  cr_logs :: "'l list"

record 'l safe_receipt =
  sf_txHash :: string
  sf_blockNumber :: int
  sf_blockHash :: string
  sf_logs :: "'l list"
  sf_alreadySettled :: bool

datatype block_tag = PendingTag | LatestTag

record ('w, 'l) client =
  cl_getTransactionCount :: "block_tag \<Rightarrow> 'w \<Rightarrow> (js_error, nat) result \<times> 'w"
  cl_estimateFeesPerGas :: "'w \<Rightarrow> (js_error, int option \<times> int option) result \<times> 'w"
  cl_getGasPrice :: "'w \<Rightarrow> (js_error, int) result \<times> 'w"
  cl_safeNonce :: "'w \<Rightarrow> (js_error, int) result \<times> 'w"
  cl_getTransactionHash :: "safe_request \<Rightarrow> int \<Rightarrow> 'w \<Rightarrow> (js_error, string) result \<times> 'w"
  cl_isOwner :: "'w \<Rightarrow> (js_error, bool) result \<times> 'w"
  cl_signMessage :: "string \<Rightarrow> 'w \<Rightarrow> (js_error, string) result \<times> 'w"
  cl_estimateContractGas :: "safe_request \<Rightarrow> string \<Rightarrow> 'w \<Rightarrow> (js_error, int) result \<times> 'w"
  cl_writeContract :: "safe_request \<Rightarrow> string \<Rightarrow> nat \<Rightarrow> fee_snapshot \<Rightarrow> 'w \<Rightarrow> (js_error, string) result \<times> 'w"
  cl_sendSelf :: "nat \<Rightarrow> fee_snapshot \<Rightarrow> 'w \<Rightarrow> (js_error, string) result \<times> 'w"
  cl_waitForTransactionReceipt :: "string \<Rightarrow> 'w \<Rightarrow> (js_error, 'l chain_receipt) result \<times> 'w"
  cl_getTransactionReceipt :: "string \<Rightarrow> 'w \<Rightarrow> (js_error, 'l chain_receipt) result \<times> 'w"
  cl_call :: "safe_request \<Rightarrow> 'w \<Rightarrow> (js_error, unit) result \<times> 'w"
  cl_now :: "'w \<Rightarrow> int \<times> 'w"
  cl_sleep :: "int \<Rightarrow> 'w \<Rightarrow> 'w"
  decodeAbi :: "string \<Rightarrow> string \<Rightarrow> string list option"
  decodeTaskCreated :: "'l \<Rightarrow> int option"

record broadcaster =
  bc_chainId :: nat
  bc_from :: string
  bc_safeAddress :: string
  bc_maxAttempts :: nat
  bc_baseDelayMs :: int
  bc_maxDelayMs :: int
  bc_stuckNonceAfterMs :: int
  bc_maxCostWei :: "(safe_request \<Rightarrow> int) option"

datatype effect =
    Wrote nat fee_snapshot
  | SentSelf nat fee_snapshot
  | Estimated int
  | Simulated "js_error option"
  | Slept int

record 'w bstate =
  bs_world :: 'w
  bs_ledger :: tx_submissions
  bs_trace :: "effect list"

type_synonym ('w, 'a) prog = "('w bstate, js_error, 'a) async"

definition world :: "('w \<Rightarrow> (js_error, 'a) result \<times> 'w) \<Rightarrow> ('w, 'a) prog" where
  "world f s = (case f (bs_world s) of (r, w) \<Rightarrow> (r, s\<lparr>bs_world := w\<rparr>))"

definition emit :: "effect \<Rightarrow> ('w, unit) prog" where
  "emit x = modify (\<lambda>s. s\<lparr>bs_trace := bs_trace s @ [x]\<rparr>)"

definition now :: "('w, 'l) client \<Rightarrow> ('w, int) prog" where
  "now cl = world (\<lambda>w. case cl_now cl w of (t, w') \<Rightarrow> (Inr t, w'))"

definition sleep :: "('w, 'l) client \<Rightarrow> int \<Rightarrow> ('w, unit) prog" where
  "sleep cl ms = andThen (emit (Slept ms)) (\<lambda>_. world (\<lambda>w. (Inr (), cl_sleep cl ms w)))"

definition plainError :: "string \<Rightarrow> js_error" where
  "plainError msg = Err msg None NoData None None"

definition the_key :: "broadcaster \<Rightarrow> nat \<Rightarrow> submission_key" where
  "the_key bc nonce = \<lparr>sk_chainId = bc_chainId bc, sk_from = bc_from bc, sk_nonce = nonce\<rparr>"

definition markResolved :: "broadcaster \<Rightarrow> nat \<Rightarrow> int \<Rightarrow> ('w, unit) prog" where
  "markResolved bc nonce at_ms = modify (\<lambda>s. s\<lparr>bs_ledger := ledger_markResolved (the_key bc nonce) at_ms (bs_ledger s)\<rparr>)"

definition recordEntry :: "submission_record \<Rightarrow> ('w, unit) prog" where
  "recordEntry entry = modify (\<lambda>s. s\<lparr>bs_ledger := ledger_record entry (bs_ledger s)\<rparr>)"

section \<open>Signatures\<close>

text \<open>\<open>replace("0x", "")\<close>: the first occurrence.\<close>

fun drop0x :: "string \<Rightarrow> string" where
  "drop0x (a # b # cs) = (if a = CHR ''0'' \<and> b = CHR ''x'' then cs else a # drop0x (b # cs))"
| "drop0x s = s"

definition encodePreValidatedSignature :: "string \<Rightarrow> string" where
  "encodePreValidatedSignature signer =
     ''0x'' @ padStart 64 CHR ''0'' (drop0x (toLowerCase signer)) @ replicate 64 CHR ''0'' @ ''01''"

definition hex_val :: "char \<Rightarrow> nat" where
  "hex_val c = (if is_digit c then digit_val c
     else if 97 \<le> (of_char c :: nat) then of_char c - 87 else of_char c - 55)"

definition hex_char :: "nat \<Rightarrow> char" where
  "hex_char n = (if n < 10 then digit_char n else char_of (n + 87))"

text \<open>\<open>Buffer.from(s, "hex")\<close> stops at the first pair that is not two hex digits.\<close>

fun hex_bytes :: "string \<Rightarrow> nat list" where
  "hex_bytes (a # b # cs) = (if hex_digit a \<and> hex_digit b then (16 * hex_val a + hex_val b) # hex_bytes cs else [])"
| "hex_bytes _ = []"

definition bytes_hex :: "nat list \<Rightarrow> string" where
  "bytes_hex bs = concat (map (\<lambda>n. [hex_char (n div 16), hex_char (n mod 16)]) bs)"

definition toSafeEthSignSignature :: "string \<Rightarrow> (js_error, string) result" where
  "toSafeEthSignSignature signature =
     (let bytes = hex_bytes (drop 2 signature)
      in if length bytes \<noteq> 65
         then Inl (plainError (''expected a 65-byte signature, received '' @ dec (length bytes) @ '' bytes''))
         else Inr (''0x'' @ bytes_hex (bytes[64 := (bytes ! 64 + 4) mod 256])))"

section \<open>Stuck nonces\<close>

definition feeEstimate :: "int option \<times> int option \<Rightarrow> fee_snapshot" where
  "feeEstimate est = \<lparr>fs_maxFeePerGas = fst est, fs_maxPriorityFeePerGas = snd est, fs_gasPrice = None\<rparr>"

definition recoveryEntry :: "broadcaster \<Rightarrow> nat \<Rightarrow> string \<Rightarrow> fee_snapshot \<Rightarrow> int \<Rightarrow> submission_record" where
  "recoveryEntry bc nonce recoveryTxHash fees nowMs =
     \<lparr>sr_chainId = bc_chainId bc, sr_from = bc_from bc, sr_nonce = nonce, sr_txHash = Some recoveryTxHash,
      sr_logicalTx = Some ''stuck-nonce-recovery'', sr_to = Some (bc_from bc), sr_value = Some 0, sr_data = None,
      sr_fees = fees, sr_submittedAtMs = nowMs, sr_resolvedAtMs = None\<rparr>"

definition evictEntry :: "('w, 'l) client \<Rightarrow> broadcaster \<Rightarrow> int \<Rightarrow> submission_record \<Rightarrow> ('w, (nat \<times> string) option) prog" where
  "evictEntry cl bc nowMs entry =
     andThen (world (cl_estimateFeesPerGas cl)) (\<lambda>estimate.
       let fees = bumpFees (feeEstimate estimate) (Some (sr_fees entry)) 1
       in andThen (emit (SentSelf (sr_nonce entry) fees)) (\<lambda>_.
          andThen (world (cl_sendSelf cl (sr_nonce entry) fees)) (\<lambda>recoveryTxHash.
          andThen (recordEntry (recoveryEntry bc (sr_nonce entry) recoveryTxHash fees nowMs)) (\<lambda>_.
          andThen (world (cl_waitForTransactionReceipt cl recoveryTxHash)) (\<lambda>_.
          andThen (markResolved bc (sr_nonce entry) nowMs) (\<lambda>_.
          ret (Some (sr_nonce entry, recoveryTxHash))))))))"

definition evictStuckNonce :: "('w, 'l) client \<Rightarrow> broadcaster \<Rightarrow> int \<Rightarrow> ('w, (nat \<times> string) option) prog" where
  "evictStuckNonce cl bc nowMs =
     andThen (world (cl_getTransactionCount cl PendingTag)) (\<lambda>pending.
     andThen (world (cl_getTransactionCount cl LatestTag)) (\<lambda>latest.
       if pending \<le> latest then ret None
       else andThen (read_state (\<lambda>s. ledger_unresolvedBetween (bc_chainId bc) (bc_from bc) latest pending (bs_ledger s))) (\<lambda>entries.
         case find (\<lambda>entry. \<not> nowMs - sr_submittedAtMs entry < bc_stuckNonceAfterMs bc) entries of
           None \<Rightarrow> ret None
         | Some entry \<Rightarrow> evictEntry cl bc nowMs entry)))"

section \<open>One attempt\<close>

definition estimateFees :: "('w, 'l) client \<Rightarrow> fee_snapshot option \<Rightarrow> nat \<Rightarrow> ('w, fee_snapshot) prog" where
  "estimateFees cl previous attemptIndex =
     andThen (attempt (world (cl_estimateFeesPerGas cl))) (\<lambda>outcome.
       case outcome of
         Inr estimate \<Rightarrow> ret (bumpFees (feeEstimate estimate) previous (int attemptIndex))
       | Inl _ \<Rightarrow> andThen (world (cl_getGasPrice cl)) (\<lambda>gasPrice.
           ret (bumpFees (no_fees\<lparr>fs_gasPrice := Some gasPrice\<rparr>) previous (int attemptIndex))))"

definition innerError :: "inner_revert \<Rightarrow> js_error option" where
  "innerError inner =
     (case ir_decodedName inner of
        Some name \<Rightarrow> Some (Err (''Safe execTransaction inner revert: '' @ formatDecodedRevert name (ir_decodedArgs inner))
                            None NoData None (Some inner))
      | None \<Rightarrow>
          (case ir_innerSelector inner of
             Some selector \<Rightarrow> Some (Err (''Safe execTransaction inner revert (undecoded selector '' @ selector @ '')'')
                                 None NoData None (Some inner))
           | None \<Rightarrow> None))"

definition decodeInner :: "('w, 'l) client \<Rightarrow> safe_request \<Rightarrow> ('w, js_error option) prog" where
  "decodeInner cl request =
     andThen (attempt (world (cl_call cl request))) (\<lambda>outcome.
       let err = (case outcome of Inl e \<Rightarrow> Some e | Inr _ \<Rightarrow> None)
       in andThen (emit (Simulated err)) (\<lambda>_. ret (innerError (decodeSafeInnerRevert (decodeAbi cl) err))))"

text \<open>The message, its dash written as a hyphen.\<close>

definition NOT_OWNER :: string where
  "NOT_OWNER = ''Safe execTransaction rejected (GS026: invalid owner - signing key is not a Safe owner). ''
     @ ''Repair the Safe owner set or repoint the agent signing key to a current owner.''"

definition assertSignerIsOwner :: "('w, 'l) client \<Rightarrow> ('w, unit) prog" where
  "assertSignerIsOwner cl =
     andThen (world (cl_isOwner cl)) (\<lambda>isOwner.
       if \<not> isOwner then throw (plainError NOT_OWNER) else ret ())"

definition ours :: "broadcaster \<Rightarrow> safe_request \<Rightarrow> submission_record \<Rightarrow> bool" where
  "ours bc request existing \<longleftrightarrow> sr_logicalTx existing = Some (rq_logicalTx request)
     \<and> map_option toLowerCase (sr_to existing) = Some (toLowerCase (bc_safeAddress bc))
     \<and> map_option toLowerCase (sr_data existing) = Some (toLowerCase (rq_data request))"

definition reconcile ::
  "('w, 'l) client \<Rightarrow> broadcaster \<Rightarrow> nat \<Rightarrow> safe_request \<Rightarrow> ('w, 'l safe_receipt option) prog" where
  "reconcile cl bc nonce request =
     andThen (read_state (\<lambda>s. ledger_get (the_key bc nonce) (bs_ledger s))) (\<lambda>existing.
       case existing of
         None \<Rightarrow> ret None
       | Some row \<Rightarrow>
           (case sr_txHash row of
              None \<Rightarrow> ret None
            | Some txHash \<Rightarrow>
                if \<not> ours bc request row then ret None
                else andThen (attempt (world (cl_getTransactionReceipt cl txHash))) (\<lambda>outcome.
                  case outcome of
                    Inl _ \<Rightarrow> ret None
                  | Inr receipt \<Rightarrow>
                      if \<not> cr_success receipt then ret None
                      else andThen (now cl) (\<lambda>t.
                           andThen (markResolved bc nonce t) (\<lambda>_.
                           ret (Some \<lparr>sf_txHash = txHash, sf_blockNumber = cr_blockNumber receipt,
                             sf_blockHash = cr_blockHash receipt, sf_logs = cr_logs receipt,
                             sf_alreadySettled = False\<rparr>))))))"

text \<open>An iteration of the retry loop ends the call with a receipt or goes on at a nonce after an error.\<close>

datatype 'l iteration = Finished "'l safe_receipt" | Again nat js_error

definition backoff :: "broadcaster \<Rightarrow> nat \<Rightarrow> int" where
  "backoff bc att = min (bc_maxDelayMs bc) (bc_baseDelayMs bc * 2 ^ att)"

definition feePerGas :: "fee_snapshot \<Rightarrow> int option" where
  "feePerGas fees = (case fs_maxFeePerGas fees of Some f \<Rightarrow> Some f | None \<Rightarrow> fs_gasPrice fees)"

definition checkCost ::
  "('w, 'l) client \<Rightarrow> broadcaster \<Rightarrow> safe_request \<Rightarrow> fee_snapshot \<Rightarrow> string \<Rightarrow> ('w, unit) prog" where
  "checkCost cl bc request fees signature =
     (case bc_maxCostWei bc of
        None \<Rightarrow> ret ()
      | Some maxCostWei \<Rightarrow>
          (case feePerGas fees of
             None \<Rightarrow> throw (plainError ''Safe broadcast fee estimate is unavailable'')
           | Some price \<Rightarrow>
               andThen (world (cl_estimateContractGas cl request signature)) (\<lambda>gas.
               andThen (emit (Estimated gas)) (\<lambda>_.
                 let exactMaximumWei = gas * price; cap = maxCostWei request
                 in if cap \<le> 0 \<or> exactMaximumWei > cap
                    then throw (plainError (''Safe broadcast exact gas maximum '' @ dec_int exactMaximumWei
                           @ '' exceeds configured cap '' @ dec_int cap))
                    else ret ()))))"

definition settledReceipt :: "'l safe_receipt" where
  "settledReceipt = \<lparr>sf_txHash = ''0x'', sf_blockNumber = 0, sf_blockHash = ''0x'', sf_logs = [], sf_alreadySettled = True\<rparr>"

definition nextNonce :: "('w, 'l) client \<Rightarrow> broadcaster \<Rightarrow> ('w, nat) prog" where
  "nextNonce cl bc = world (cl_getTransactionCount cl PendingTag)"

definition lastAttempt :: "broadcaster \<Rightarrow> nat \<Rightarrow> bool" where
  "lastAttempt bc att \<longleftrightarrow> int att = int (bc_maxAttempts bc) - 1"

text \<open>The tail of the \<open>catch\<close> block: refresh the nonce, then retry or give up.\<close>

definition retryWrite ::
  "('w, 'l) client \<Rightarrow> broadcaster \<Rightarrow> safe_request \<Rightarrow> nat \<Rightarrow> nat \<Rightarrow> js_error \<Rightarrow> ('w, 'l iteration) prog" where
  "retryWrite cl bc request att pinnedNonce writeError =
     (let giveUpOrAgain = (\<lambda>nonce.
            if classifyBroadcastError writeError \<noteq> Retryable \<or> lastAttempt bc att then throw writeError
            else andThen (sleep cl (backoff bc att)) (\<lambda>_. ret (Again nonce writeError)))
      in if isNonceTooLow writeError \<or> isReplacementUnderpriced writeError
         then andThen (reconcile cl bc pinnedNonce request) (\<lambda>reconciled.
                case reconciled of
                  Some receipt \<Rightarrow> ret (Finished receipt)
                | None \<Rightarrow> andThen (nextNonce cl bc) giveUpOrAgain)
         else giveUpOrAgain pinnedNonce)"

definition handleWriteError ::
  "('w, 'l) client \<Rightarrow> broadcaster \<Rightarrow> safe_request \<Rightarrow> nat \<Rightarrow> nat \<Rightarrow> js_error \<Rightarrow> ('w, 'l iteration) prog" where
  "handleWriteError cl bc request att pinnedNonce writeError =
     (let message = flattenError writeError
      in andThen (if str_includes message ''GS026'' then assertSignerIsOwner cl else ret ()) (\<lambda>_.
         if str_includes message ''GS013'' \<or> str_includes message ''GS026''
         then andThen (decodeInner cl request) (\<lambda>inner.
                case inner of
                  Some err \<Rightarrow> if classifyBroadcastError err = AlreadySettled then ret (Finished settledReceipt) else throw err
                | None \<Rightarrow> retryWrite cl bc request att pinnedNonce writeError)
         else retryWrite cl bc request att pinnedNonce writeError))"

definition submissionEntry ::
  "broadcaster \<Rightarrow> safe_request \<Rightarrow> nat \<Rightarrow> string \<Rightarrow> fee_snapshot \<Rightarrow> int \<Rightarrow> submission_record" where
  "submissionEntry bc request pinnedNonce txHash fees t =
     \<lparr>sr_chainId = bc_chainId bc, sr_from = bc_from bc, sr_nonce = pinnedNonce, sr_txHash = Some txHash,
      sr_logicalTx = Some (rq_logicalTx request), sr_to = Some (bc_safeAddress bc), sr_value = Some (rq_value request),
      sr_data = Some (rq_data request), sr_fees = fees, sr_submittedAtMs = t, sr_resolvedAtMs = None\<rparr>"

definition minedReceipt :: "string \<Rightarrow> 'l chain_receipt \<Rightarrow> bool \<Rightarrow> 'l safe_receipt" where
  "minedReceipt txHash receipt alreadySettled =
     \<lparr>sf_txHash = txHash, sf_blockNumber = cr_blockNumber receipt, sf_blockHash = cr_blockHash receipt,
      sf_logs = cr_logs receipt, sf_alreadySettled = alreadySettled\<rparr>"

text \<open>From the mined receipt on.\<close>

definition settle ::
  "('w, 'l) client \<Rightarrow> broadcaster \<Rightarrow> safe_request \<Rightarrow> nat \<Rightarrow> nat \<Rightarrow> string \<Rightarrow> 'l chain_receipt \<Rightarrow> ('w, 'l iteration) prog" where
  "settle cl bc request att pinnedNonce txHash receipt =
     (let resolved = (\<lambda>already. andThen (now cl) (\<lambda>t. andThen (markResolved bc pinnedNonce t) (\<lambda>_.
                        ret (Finished (minedReceipt txHash receipt already)))));
          lastError = plainError (''Safe execTransaction reverted with no inner revert (txHash='' @ txHash @ '')'')
      in if cr_success receipt then resolved False
         else andThen (assertSignerIsOwner cl) (\<lambda>_.
              andThen (decodeInner cl request) (\<lambda>inner.
                case inner of
                  Some err \<Rightarrow> if classifyBroadcastError err = AlreadySettled then resolved True else throw err
                | None \<Rightarrow>
                    if lastAttempt bc att then throw lastError
                    else andThen (nextNonce cl bc) (\<lambda>nonce.
                         andThen (sleep cl (backoff bc att)) (\<lambda>_. ret (Again nonce lastError))))))"

definition submit ::
  "('w, 'l) client \<Rightarrow> broadcaster \<Rightarrow> safe_request \<Rightarrow> nat \<Rightarrow> nat \<Rightarrow> fee_snapshot \<Rightarrow> string \<Rightarrow> ('w, 'l iteration) prog" where
  "submit cl bc request att pinnedNonce fees signature =
     andThen (emit (Wrote pinnedNonce fees)) (\<lambda>_.
     andThen (attempt (world (cl_writeContract cl request signature pinnedNonce fees))) (\<lambda>outcome.
       case outcome of
         Inl writeError \<Rightarrow> handleWriteError cl bc request att pinnedNonce writeError
       | Inr txHash \<Rightarrow>
           andThen (now cl) (\<lambda>t.
           andThen (recordEntry (submissionEntry bc request pinnedNonce txHash fees t)) (\<lambda>_.
           andThen (world (cl_waitForTransactionReceipt cl txHash)) (\<lambda>receipt.
           settle cl bc request att pinnedNonce txHash receipt)))))"

definition previousFees :: "submission_record option \<Rightarrow> fee_snapshot option" where
  "previousFees previous =
     (case previous of None \<Rightarrow> None | Some p \<Rightarrow> if sr_resolvedAtMs p = None then Some (sr_fees p) else None)"

definition attemptOnce ::
  "('w, 'l) client \<Rightarrow> broadcaster \<Rightarrow> safe_request \<Rightarrow> nat \<Rightarrow> nat \<Rightarrow> ('w, 'l iteration) prog" where
  "attemptOnce cl bc request att pinnedNonce =
     andThen (read_state (\<lambda>s. ledger_get (the_key bc pinnedNonce) (bs_ledger s))) (\<lambda>previous.
     andThen (estimateFees cl (previousFees previous) att) (\<lambda>fees.
     andThen (world (cl_safeNonce cl)) (\<lambda>safeNonce.
     andThen (world (cl_getTransactionHash cl request safeNonce)) (\<lambda>safeTxHash.
     andThen (world (cl_signMessage cl safeTxHash)) (\<lambda>signed.
     case toSafeEthSignSignature signed of
       Inl err \<Rightarrow> throw err
     | Inr signature \<Rightarrow>
         andThen (checkCost cl bc request fees signature) (\<lambda>_.
         submit cl bc request att pinnedNonce fees signature))))))"

section \<open>The retry loop\<close>

fun thrownLast :: "js_error \<Rightarrow> js_error" where
  "thrownLast (Err msg cause d walk inner) = Err msg cause d walk inner"
| "thrownLast e = plainError (js_String e)"

text \<open>\<open>remaining\<close> iterations are left; the attempt index is what the code counts.\<close>

fun attemptLoop ::
  "('w, 'l) client \<Rightarrow> broadcaster \<Rightarrow> safe_request \<Rightarrow> nat \<Rightarrow> nat \<Rightarrow> nat \<Rightarrow> js_error \<Rightarrow> ('w, 'l safe_receipt) prog" where
  "attemptLoop cl bc request 0 att pinnedNonce lastError = throw (thrownLast lastError)"
| "attemptLoop cl bc request (Suc remaining) att pinnedNonce lastError =
     andThen (attemptOnce cl bc request att pinnedNonce) (\<lambda>it.
       case it of
         Finished receipt \<Rightarrow> ret receipt
       | Again nonce err \<Rightarrow> attemptLoop cl bc request remaining (Suc att) nonce err)"

definition executeInner :: "('w, 'l) client \<Rightarrow> broadcaster \<Rightarrow> safe_request \<Rightarrow> ('w, 'l safe_receipt) prog" where
  "executeInner cl bc request =
     andThen (now cl) (\<lambda>t.
     andThen (evictStuckNonce cl bc t) (\<lambda>_.
     andThen (nextNonce cl bc) (\<lambda>pinnedNonce.
     attemptLoop cl bc request (bc_maxAttempts bc) 0 pinnedNonce (Nullish ''undefined''))))"

fun firstTaskCreated :: "('l \<Rightarrow> int option) \<Rightarrow> 'l list \<Rightarrow> int option" where
  "firstTaskCreated decode [] = None"
| "firstTaskCreated decode (l # ls) = (case decode l of Some taskId \<Rightarrow> Some taskId | None \<Rightarrow> firstTaskCreated decode ls)"

definition broadcastCreateTask ::
  "('w, 'l) client \<Rightarrow> broadcaster \<Rightarrow> string \<Rightarrow> int \<Rightarrow> string \<Rightarrow> ('w, int \<times> string) prog" where
  "broadcastCreateTask cl bc to v d =
     andThen (executeInner cl bc \<lparr>rq_to = to, rq_value = v, rq_data = d, rq_logicalTx = ''posting.createTask'', rq_operation = 0\<rparr>) (\<lambda>receipt.
       case firstTaskCreated (decodeTaskCreated cl) (sf_logs receipt) of
         Some taskId \<Rightarrow> ret (taskId, sf_txHash receipt)
       | None \<Rightarrow> throw (plainError (''no TaskCreated event in the posting receipt (txHash='' @ sf_txHash receipt @ '')'')))"

section \<open>Rules\<close>

lemma wp_world [wp_rules]:
  "(\<And>a w. Q a (s\<lparr>bs_world := w\<rparr>)) \<Longrightarrow> (\<And>e w. E e (s\<lparr>bs_world := w\<rparr>)) \<Longrightarrow> wp (world f) Q E s"
  by (auto simp: wp_def world_def split: prod.splits sum.splits)

lemma wp_emit [wp_rules]: "Q () (s\<lparr>bs_trace := bs_trace s @ [x]\<rparr>) \<Longrightarrow> wp (emit x) Q E s"
  by (simp add: wp_def emit_def modify_def)

lemma wp_now [wp_rules]: "(\<And>t w. Q t (s\<lparr>bs_world := w\<rparr>)) \<Longrightarrow> wp (now cl) Q E s"
  by (auto simp: wp_def now_def world_def split: prod.splits)

lemma wp_nextNonce [wp_rules]:
  "(\<And>a w. Q a (s\<lparr>bs_world := w\<rparr>)) \<Longrightarrow> (\<And>e w. E e (s\<lparr>bs_world := w\<rparr>)) \<Longrightarrow> wp (nextNonce cl bc) Q E s"
  unfolding nextNonce_def by (rule wp_world)

lemma wp_sleep [wp_rules]:
  "(\<And>w. Q () (s\<lparr>bs_trace := bs_trace s @ [Slept ms], bs_world := w\<rparr>)) \<Longrightarrow> wp (sleep cl ms) Q E s"
  by (simp add: wp_def sleep_def andThen_def emit_def modify_def world_def)

lemma wp_markResolved [wp_rules]:
  "Q () (s\<lparr>bs_ledger := ledger_markResolved (the_key bc nonce) t (bs_ledger s)\<rparr>) \<Longrightarrow> wp (markResolved bc nonce t) Q E s"
  by (simp add: wp_def markResolved_def modify_def)

lemma wp_recordEntry [wp_rules]:
  "Q () (s\<lparr>bs_ledger := ledger_record e (bs_ledger s)\<rparr>) \<Longrightarrow> wp (recordEntry e) Q E s"
  by (simp add: wp_def recordEntry_def modify_def)

lemma wp_case_iteration [wp_rules]:
  "(\<And>r. x = Finished r \<Longrightarrow> wp (f r) Q E s) \<Longrightarrow> (\<And>n e. x = Again n e \<Longrightarrow> wp (g n e) Q E s) \<Longrightarrow>
     wp (case x of Finished r \<Rightarrow> f r | Again n e \<Rightarrow> g n e) Q E s"
  by (cases x) simp_all

lemma wp_Let [wp_rules]: "wp (f x) Q E s \<Longrightarrow> wp (let y = x in f y) Q E s"
  by simp

section \<open>What leaves the process\<close>

fun quiet_effect :: "broadcaster \<Rightarrow> effect \<Rightarrow> bool" where
  "quiet_effect bc (Wrote _ _) = False"
| "quiet_effect bc (SentSelf _ _) = False"
| "quiet_effect bc (Slept ms) \<longleftrightarrow> ms \<le> bc_maxDelayMs bc"
| "quiet_effect bc _ = True"

definition extends :: "(effect list \<Rightarrow> bool) \<Rightarrow> 'w bstate \<Rightarrow> 'w bstate \<Rightarrow> bool" where
  "extends P s t \<longleftrightarrow> (\<exists>u. bs_trace t = bs_trace s @ u \<and> P u)"

lemma extendsI: "bs_trace t = bs_trace s @ u \<Longrightarrow> P u \<Longrightarrow> extends P s t"
  by (auto simp: extends_def)

lemma extends_same: "bs_trace t = bs_trace s \<Longrightarrow> P [] \<Longrightarrow> extends P s t"
  by (simp add: extends_def)

lemma extends_trans:
  "extends P s t \<Longrightarrow> extends R t u \<Longrightarrow> (\<And>x y. P x \<Longrightarrow> R y \<Longrightarrow> T (x @ y)) \<Longrightarrow> extends T s u"
  unfolding extends_def by fastforce

abbreviation quiet :: "broadcaster \<Rightarrow> 'w bstate \<Rightarrow> 'w bstate \<Rightarrow> bool" where
  "quiet bc \<equiv> extends (list_all (quiet_effect bc))"

lemma quiet_refl: "bs_trace t = bs_trace s \<Longrightarrow> quiet bc s t"
  by (simp add: extends_same)

lemma backoff_le: "backoff bc att \<le> bc_maxDelayMs bc"
  by (simp add: backoff_def)

lemma extends_frame [simp]:
  "extends P s0 (s\<lparr>bs_world := w\<rparr>) \<longleftrightarrow> extends P s0 s" "extends P s0 (s\<lparr>bs_ledger := L\<rparr>) \<longleftrightarrow> extends P s0 s"
  by (simp_all add: extends_def)

lemma quiet_emit:
  "quiet bc s0 s \<Longrightarrow> quiet_effect bc x \<Longrightarrow> quiet bc s0 (s\<lparr>bs_trace := bs_trace s @ [x]\<rparr>)"
  by (erule extends_trans [where R = "\<lambda>u. u = [x]"]) (simp_all add: extends_def)

lemma reconcile_quiet: "quiet bc s0 s \<Longrightarrow> wp (reconcile cl bc n request) (\<lambda>_. quiet bc s0) (\<lambda>_. quiet bc s0) s"
  unfolding reconcile_def by (intro wp_rules) simp_all

lemma decodeInner_quiet: "quiet bc s0 s \<Longrightarrow> wp (decodeInner cl request) (\<lambda>_. quiet bc s0) (\<lambda>_. quiet bc s0) s"
  unfolding decodeInner_def by (intro wp_rules quiet_emit) simp_all

lemma assertSignerIsOwner_quiet: "quiet bc s0 s \<Longrightarrow> wp (assertSignerIsOwner cl) (\<lambda>_. quiet bc s0) (\<lambda>_. quiet bc s0) s"
  unfolding assertSignerIsOwner_def by (intro wp_rules) simp_all

lemma sleep_quiet: "quiet bc s0 s \<Longrightarrow> wp (sleep cl (backoff bc att)) (\<lambda>_. quiet bc s0) (\<lambda>_. quiet bc s0) s"
  unfolding sleep_def by (intro wp_rules) (simp_all add: quiet_emit backoff_le)

lemma retryWrite_quiet: "quiet bc s0 s \<Longrightarrow> wp (retryWrite cl bc request att n e) (\<lambda>_. quiet bc s0) (\<lambda>_. quiet bc s0) s"
  unfolding retryWrite_def Let_def
  by (intro wp_if wp_seq [OF reconcile_quiet] wp_case_option wp_andThen [of "nextNonce _ _"] wp_nextNonce
      wp_seq [OF sleep_quiet] wp_ret wp_throw) simp_all

lemma handleWriteError_quiet:
  "quiet bc s0 s \<Longrightarrow> wp (handleWriteError cl bc request att n e) (\<lambda>_. quiet bc s0) (\<lambda>_. quiet bc s0) s"
  unfolding handleWriteError_def Let_def
  by (intro wp_seq [of "if _ then _ else _" "\<lambda>_. quiet bc s0" "\<lambda>_. quiet bc s0"] wp_if assertSignerIsOwner_quiet
      wp_seq [OF decodeInner_quiet] wp_case_option retryWrite_quiet wp_ret wp_throw) simp_all

lemma settle_quiet: "quiet bc s0 s \<Longrightarrow> wp (settle cl bc request att n h r) (\<lambda>_. quiet bc s0) (\<lambda>_. quiet bc s0) s"
  unfolding settle_def Let_def
  by (intro wp_if wp_seq [OF assertSignerIsOwner_quiet] wp_seq [OF decodeInner_quiet] wp_case_option
      wp_andThen [of "nextNonce _ _"] wp_nextNonce wp_seq [OF sleep_quiet] wp_andThen [of "now _"] wp_now
      wp_andThen [of "markResolved _ _ _"] wp_markResolved wp_ret wp_throw) simp_all

definition within_cap :: "broadcaster \<Rightarrow> safe_request \<Rightarrow> effect list \<Rightarrow> fee_snapshot \<Rightarrow> bool" where
  "within_cap bc request pre fees \<longleftrightarrow>
     (case bc_maxCostWei bc of
        None \<Rightarrow> pre = []
      | Some cap \<Rightarrow> \<exists>gas price. pre = [Estimated gas] \<and> feePerGas fees = Some price
          \<and> gas * price \<le> cap request \<and> 0 < cap request)"

definition attempt_trace :: "broadcaster \<Rightarrow> safe_request \<Rightarrow> effect list \<Rightarrow> bool" where
  "attempt_trace bc request u \<longleftrightarrow> list_all (quiet_effect bc) u
     \<or> (\<exists>pre n fees post. u = pre @ Wrote n fees # post \<and> within_cap bc request pre fees \<and> list_all (quiet_effect bc) post)"

lemma submit_trace:
  "wp (submit cl bc request att n fees sig) (\<lambda>_. extends (\<lambda>u. \<exists>v. u = Wrote n fees # v \<and> list_all (quiet_effect bc) v) s)
     (\<lambda>_. extends (\<lambda>u. \<exists>v. u = Wrote n fees # v \<and> list_all (quiet_effect bc) v) s) s"
proof -
  have chain: "extends (\<lambda>u. \<exists>v. u = Wrote n fees # v \<and> list_all (quiet_effect bc) v) s t"
    if "bs_trace s' = bs_trace s @ [Wrote n fees]" "quiet bc s' t" for s' t
    using that unfolding extends_def by auto
  have stop: "extends (\<lambda>u. \<exists>v. u = Wrote n fees # v \<and> list_all (quiet_effect bc) v) s t"
    if "bs_trace t = bs_trace s @ [Wrote n fees]" for t
    using chain [OF that quiet_refl] by simp
  show ?thesis
    unfolding submit_def
    by (intro wp_andThen wp_emit wp_attempt wp_world wp_case_sum wp_now wp_recordEntry;
        (rule wp_mono [OF handleWriteError_quiet [OF quiet_refl [OF refl]]]
          | rule wp_mono [OF settle_quiet [OF quiet_refl [OF refl]]] | rule stop))
      (auto intro!: chain)
qed

lemma checkCost_trace:
  "wp (checkCost cl bc request fees sig) (\<lambda>_. extends (\<lambda>pre. within_cap bc request pre fees) s) (\<lambda>_. quiet bc s) s"
  unfolding checkCost_def Let_def
  by (intro wp_rules) (auto simp: extends_def within_cap_def)

lemma estimateFees_world: "wp (estimateFees cl p att) (\<lambda>_ t. \<exists>w. t = s\<lparr>bs_world := w\<rparr>) (\<lambda>_ t. \<exists>w. t = s\<lparr>bs_world := w\<rparr>) s"
  unfolding estimateFees_def by (intro wp_rules) auto

abbreviation attempted :: "broadcaster \<Rightarrow> safe_request \<Rightarrow> 'w bstate \<Rightarrow> 'w bstate \<Rightarrow> bool" where
  "attempted bc request \<equiv> extends (attempt_trace bc request)"

lemma quiet_attempted: "quiet bc s t \<Longrightarrow> attempted bc request s t"
  unfolding extends_def attempt_trace_def by blast

lemma attemptOnce_trace:
  "wp (attemptOnce cl bc request att n) (\<lambda>_. attempted bc request s) (\<lambda>_. attempted bc request s) s"
proof -
  have submit: "wp (submit cl bc request att n fees sig) (\<lambda>_. attempted bc request s) (\<lambda>_. attempted bc request s) t"
    if "extends (\<lambda>pre. within_cap bc request pre fees) s t" for fees sig t
    by (rule wp_mono [OF submit_trace])
      (auto intro!: extends_trans [OF that] simp: attempt_trace_def; blast)+
  have same: "attempted bc request s t" if "bs_trace t = bs_trace s" for t
    using that by (intro quiet_attempted quiet_refl)
  have cost: "wp (andThen (checkCost cl bc request fees sig) (\<lambda>_. submit cl bc request att n fees sig))
      (\<lambda>_. attempted bc request s) (\<lambda>_. attempted bc request s) t" if "bs_trace t = bs_trace s" for fees sig t
    by (rule wp_andThen, rule wp_mono [OF checkCost_trace])
      (use that in \<open>auto intro!: submit simp: extends_def attempt_trace_def\<close>)
  show ?thesis
    unfolding attemptOnce_def
    by (intro wp_andThen wp_read_state, rule wp_mono [OF estimateFees_world])
      (auto intro!: wp_andThen wp_world wp_case_sum wp_throw cost same)
qed

lemma attemptLoop_trace:
  "wp (attemptLoop cl bc request k att n e)
     (\<lambda>_. extends (\<lambda>u. \<exists>us. u = concat us \<and> length us \<le> k \<and> list_all (attempt_trace bc request) us) s)
     (\<lambda>_. extends (\<lambda>u. \<exists>us. u = concat us \<and> length us \<le> k \<and> list_all (attempt_trace bc request) us) s) s"
proof (induction k arbitrary: att n e s)
  case 0
  show ?case by (auto intro!: wp_throw extends_same)
next
  case (Suc k)
  let ?R = "\<lambda>k u. \<exists>us. u = concat us \<and> length us \<le> k \<and> list_all (attempt_trace bc request) us"
  have one: "extends (?R (Suc k)) s t" if "attempted bc request s t" for t
  proof -
    from that obtain u where "bs_trace t = bs_trace s @ u" "attempt_trace bc request u" by (auto simp: extends_def)
    then show ?thesis by (intro extendsI [of _ _ u] exI [of _ "[u]"]) simp_all
  qed
  have more: "extends (?R (Suc k)) s u" if "attempted bc request s t" "extends (?R k) t u" for t u
  proof (rule extends_trans [OF that])
    fix x y assume "attempt_trace bc request x" "?R k y"
    then obtain us where "y = concat us" "length us \<le> k" "list_all (attempt_trace bc request) us" by blast
    with \<open>attempt_trace bc request x\<close> show "?R (Suc k) (x @ y)" by (intro exI [of _ "x # us"]) simp
  qed
  have "wp (attemptLoop cl bc request k (Suc att) n' e') (\<lambda>_. extends (?R (Suc k)) s) (\<lambda>_. extends (?R (Suc k)) s) t"
    if "attempted bc request s t" for n' e' t
    by (rule wp_mono [OF Suc.IH]) (use more [OF that] in blast)+
  then show ?case
    unfolding attemptLoop.simps
    by (intro wp_andThen wp_mono [OF attemptOnce_trace] wp_case_iteration wp_ret one)
qed

lemma evictStuckNonce_trace:
  "wp (evictStuckNonce cl bc t) (\<lambda>_. extends (\<lambda>u. u = [] \<or> (\<exists>n f. u = [SentSelf n f])) s)
     (\<lambda>_. extends (\<lambda>u. u = [] \<or> (\<exists>n f. u = [SentSelf n f])) s) s"
  unfolding evictStuckNonce_def evictEntry_def Let_def
  by (intro wp_rules) (auto simp: extends_def)

definition execute_trace :: "broadcaster \<Rightarrow> safe_request \<Rightarrow> effect list \<Rightarrow> bool" where
  "execute_trace bc request u \<longleftrightarrow>
     (\<exists>v us. u = v @ concat us \<and> (v = [] \<or> (\<exists>n f. v = [SentSelf n f])) \<and> length us \<le> bc_maxAttempts bc
        \<and> list_all (attempt_trace bc request) us)"

lemma executeInner_trace:
  "wp (executeInner cl bc request) (\<lambda>_. extends (execute_trace bc request) s) (\<lambda>_. extends (execute_trace bc request) s) s"
proof -
  let ?R = "\<lambda>u. \<exists>us. u = concat us \<and> length us \<le> bc_maxAttempts bc \<and> list_all (attempt_trace bc request) us"
  have evicted: "extends (execute_trace bc request) s t"
    if "extends (\<lambda>u. u = [] \<or> (\<exists>n f. u = [SentSelf n f])) (s\<lparr>bs_world := w\<rparr>) t" for t w
  proof -
    from that obtain u where "bs_trace t = bs_trace s @ u" "u = [] \<or> (\<exists>n f. u = [SentSelf n f])" by (auto simp: extends_def)
    then show ?thesis unfolding execute_trace_def
      by (intro extendsI [of _ _ u] exI [of _ u] exI [of _ "[]"]) simp_all
  qed
  have looped: "extends (execute_trace bc request) s u"
    if "extends (\<lambda>u. u = [] \<or> (\<exists>n f. u = [SentSelf n f])) (s\<lparr>bs_world := w\<rparr>) t" "extends ?R (t\<lparr>bs_world := w'\<rparr>) u" for t u w w'
  proof -
    from that obtain v us where "bs_trace t = bs_trace s @ v" "v = [] \<or> (\<exists>n f. v = [SentSelf n f])"
      "bs_trace u = bs_trace t @ concat us" "length us \<le> bc_maxAttempts bc" "list_all (attempt_trace bc request) us"
      by (auto simp: extends_def)
    then show ?thesis unfolding execute_trace_def
      by (intro extendsI [of _ _ "v @ concat us"] exI [of _ v] exI [of _ us]) simp_all
  qed
  have loop: "wp (attemptLoop cl bc request (bc_maxAttempts bc) 0 n (Nullish ''undefined''))
      (\<lambda>_. extends (execute_trace bc request) s) (\<lambda>_. extends (execute_trace bc request) s) (t\<lparr>bs_world := w'\<rparr>)"
    if "extends (\<lambda>u. u = [] \<or> (\<exists>n f. u = [SentSelf n f])) (s\<lparr>bs_world := w\<rparr>) t" for n t w w'
    by (rule wp_mono [OF attemptLoop_trace]) (use looped [OF that] in blast)+
  have evicted': "extends (execute_trace bc request) s (t\<lparr>bs_world := w'\<rparr>)"
    if "extends (\<lambda>u. u = [] \<or> (\<exists>n f. u = [SentSelf n f])) (s\<lparr>bs_world := w\<rparr>) t" for t w w'
    using evicted [OF that] by (simp add: extends_def)
  show ?thesis
    unfolding executeInner_def
    by (intro wp_andThen wp_now wp_mono [OF evictStuckNonce_trace] wp_nextNonce)
      (erule loop evicted' evicted)+
qed

section \<open>What a result stands for\<close>

definition done_row :: "broadcaster \<Rightarrow> safe_request \<Rightarrow> string \<Rightarrow> tx_submissions \<Rightarrow> bool" where
  "done_row bc request h L \<longleftrightarrow>
     (\<exists>n row. ledger_get (the_key bc n) L = Some row \<and> sr_txHash row = Some h \<and> ours bc request row \<and> sr_resolvedAtMs row \<noteq> None)"

definition settled_seen :: "effect list \<Rightarrow> bool" where
  "settled_seen tr \<longleftrightarrow>
     (\<exists>err d. Simulated (Some err) \<in> set tr \<and> extractRevertData err = Some d \<and> toLowerCase (take 10 d) \<in> set SETTLED_SELECTORS)"

definition justified :: "broadcaster \<Rightarrow> safe_request \<Rightarrow> 'l safe_receipt \<Rightarrow> 'w bstate \<Rightarrow> bool" where
  "justified bc request r t \<longleftrightarrow>
     (if sf_alreadySettled r then settled_seen (bs_trace t) else done_row bc request (sf_txHash r) (bs_ledger t))"

abbreviation linv :: "'w bstate \<Rightarrow> bool" where
  "linv s \<equiv> ledger_inv (bs_ledger s)"

definition good :: "broadcaster \<Rightarrow> safe_request \<Rightarrow> 'l iteration \<Rightarrow> 'w bstate \<Rightarrow> bool" where
  "good bc request it t \<longleftrightarrow> linv t \<and> (case it of Finished r \<Rightarrow> justified bc request r t | Again _ _ \<Rightarrow> True)"

lemma settled_selector:
  assumes "innerError (decodeSafeInnerRevert abi (Some err)) = Some e" and "classifyBroadcastError e = AlreadySettled"
  shows "\<exists>d. extractRevertData err = Some d \<and> toLowerCase (take 10 d) \<in> set SETTLED_SELECTORS"
proof -
  let ?i = "decodeSafeInnerRevert abi (Some err)"
  have "inner_of e = Some ?i" using assms(1) by (auto simp: innerError_def split: option.splits)
  then have cls: "classifyInnerRevert ?i = AlreadySettled" using assms(2) by (simp add: classifyBroadcastError_def)
  show ?thesis
  proof (cases "extractRevertData err")
    case None
    then have "?i = no_inner" by (simp add: decodeSafeInnerRevert_def)
    with assms(1) show ?thesis by (simp add: innerError_def no_inner_def)
  next
    case (Some d)
    then show ?thesis using decided_by_selector [OF Some, of abi] cls by (auto split: if_splits)
  qed
qed

lemma decodeInner_good:
  "wp (decodeInner cl request)
     (\<lambda>o' t. bs_ledger t = bs_ledger s \<and> (\<forall>e. o' = Some e \<longrightarrow> classifyBroadcastError e = AlreadySettled \<longrightarrow> settled_seen (bs_trace t)))
     (\<lambda>_ t. bs_ledger t = bs_ledger s) s"
  unfolding decodeInner_def Let_def
proof (intro wp_rules)
  fix e w
  show "bs_ledger (s\<lparr>bs_world := w, bs_trace := bs_trace (s\<lparr>bs_world := w\<rparr>) @ [Simulated (case Inl e of Inl e \<Rightarrow> Some e | Inr _ \<Rightarrow> None)]\<rparr>) = bs_ledger s
    \<and> (\<forall>x. innerError (decodeSafeInnerRevert (decodeAbi cl) (case Inl e of Inl e \<Rightarrow> Some e | Inr _ \<Rightarrow> None)) = Some x \<longrightarrow>
        classifyBroadcastError x = AlreadySettled \<longrightarrow>
        settled_seen (bs_trace (s\<lparr>bs_world := w, bs_trace := bs_trace (s\<lparr>bs_world := w\<rparr>) @ [Simulated (case Inl e of Inl e \<Rightarrow> Some e | Inr _ \<Rightarrow> None)]\<rparr>)))"
    using settled_selector [of "decodeAbi cl" e] by (fastforce simp: settled_seen_def)
qed (auto simp: decodeSafeInnerRevert_def innerError_def no_inner_def)

lemma assertSignerIsOwner_ledger:
  "wp (assertSignerIsOwner cl) (\<lambda>_ t. bs_ledger t = bs_ledger s) (\<lambda>_ t. bs_ledger t = bs_ledger s) s"
  unfolding assertSignerIsOwner_def by (intro wp_rules) simp_all

lemma resolved_row:
  assumes "ledger_inv L" and "ledger_get (the_key bc n) L = Some row" and "sr_txHash row = Some h" and "ours bc request row"
  shows "done_row bc request h (ledger_markResolved (the_key bc n) at_ms L)"
  using assms sql_ledger.get_markResolved [OF assms(1), of "the_key bc n" "the_key bc n" at_ms]
  unfolding done_row_def by (intro exI [of _ n] exI [of _ "row\<lparr>sr_resolvedAtMs := Some at_ms\<rparr>"]) (simp add: same_key_def ours_def)

lemma reconcile_good:
  "linv s \<Longrightarrow> wp (reconcile cl bc n request)
     (\<lambda>o' t. linv t \<and> (\<forall>r. o' = Some r \<longrightarrow> justified bc request r t)) (\<lambda>_. linv) s"
  unfolding reconcile_def
  by (intro wp_rules) (simp_all add: sql_ledger.inv_markResolved justified_def resolved_row)

lemma retryWrite_good: "linv s \<Longrightarrow> wp (retryWrite cl bc request att n e) (good bc request) (\<lambda>_. linv) s"
  unfolding retryWrite_def Let_def
  by (intro wp_if wp_andThen; (rule wp_mono [OF reconcile_good], assumption)?; (intro wp_rules)?)
    (auto simp: good_def)

lemma handleWriteError_good:
  assumes "linv s"
  shows "wp (handleWriteError cl bc request att n e) (good bc request) (\<lambda>_. linv) s"
  unfolding handleWriteError_def Let_def
  by (intro wp_seq [of "if _ then _ else _" "\<lambda>_ t. bs_ledger t = bs_ledger s" "\<lambda>_ t. bs_ledger t = bs_ledger s"]
      wp_if assertSignerIsOwner_ledger wp_seq [OF decodeInner_good] wp_case_option wp_ret wp_throw retryWrite_good)
    (use assms in \<open>auto simp: good_def justified_def settledReceipt_def\<close>)

lemma settle_good:
  assumes "linv s" and "ledger_get (the_key bc n) (bs_ledger s) = Some row" and "sr_txHash row = Some h" and "ours bc request row"
  shows "wp (settle cl bc request att n h r) (good bc request) (\<lambda>_. linv) s"
  unfolding settle_def Let_def
  by (intro wp_if wp_seq [OF assertSignerIsOwner_ledger] wp_seq [OF decodeInner_good] wp_case_option wp_ret wp_throw
        wp_andThen wp_now wp_markResolved wp_nextNonce wp_sleep)
    (use assms in \<open>auto simp: good_def justified_def minedReceipt_def resolved_row sql_ledger.inv_markResolved\<close>)

lemma submit_good:
  assumes "linv s"
  shows "wp (submit cl bc request att n fees sig) (good bc request) (\<lambda>_. linv) s"
proof -
  have row: "ledger_get (the_key bc n) (ledger_record (submissionEntry bc request n h fees t) L) = Some (stored (submissionEntry bc request n h fees t))"
    if "ledger_inv L" for h t L
    using sql_ledger.get_put [OF that] by (simp add: same_key_def entry_key_def submissionEntry_def the_key_def)
  have ours: "sr_txHash (stored (submissionEntry bc request n h fees t)) = Some h"
    "ours bc request (stored (submissionEntry bc request n h fees t))" for h t
    by (simp_all add: stored_def submissionEntry_def ours_def)
  show ?thesis
    unfolding submit_def
    by (intro wp_andThen wp_emit wp_attempt wp_world wp_case_sum wp_now wp_recordEntry handleWriteError_good settle_good)
      (use assms in \<open>auto simp: sql_ledger.inv_put row ours\<close>)
qed

lemma checkCost_ledger:
  "wp (checkCost cl bc request fees sig) (\<lambda>_ t. bs_ledger t = bs_ledger s) (\<lambda>_ t. bs_ledger t = bs_ledger s) s"
  unfolding checkCost_def Let_def by (intro wp_rules) simp_all

lemma attemptOnce_good:
  assumes "linv s"
  shows "wp (attemptOnce cl bc request att n) (good bc request) (\<lambda>_. linv) s"
  unfolding attemptOnce_def
  by (intro wp_andThen [of "read_state _"] wp_read_state wp_seq [OF estimateFees_world] wp_andThen [of "world _"] wp_world
        wp_case_sum wp_throw wp_seq [OF checkCost_ledger] submit_good)
    (use assms in auto)

lemma attemptLoop_good:
  "linv s \<Longrightarrow> wp (attemptLoop cl bc request k att n e) (\<lambda>r t. linv t \<and> justified bc request r t) (\<lambda>_. linv) s"
proof (induction k arbitrary: att n e s)
  case (Suc k)
  show ?case
    unfolding attemptLoop.simps
    by (intro wp_seq [OF attemptOnce_good [OF Suc.prems]] wp_case_iteration wp_ret Suc.IH) (auto simp: good_def)
qed (auto intro: wp_throw)

lemma evictStuckNonce_inv: "linv s \<Longrightarrow> wp (evictStuckNonce cl bc t) (\<lambda>_. linv) (\<lambda>_. linv) s"
  unfolding evictStuckNonce_def evictEntry_def Let_def
  by (intro wp_rules) (simp_all add: sql_ledger.inv_markResolved sql_ledger.inv_put)

lemma executeInner_good:
  assumes "linv s"
  shows "wp (executeInner cl bc request) (\<lambda>r t. linv t \<and> justified bc request r t) (\<lambda>_. linv) s"
  unfolding executeInner_def
  by (intro wp_andThen [of "now cl"] wp_now wp_seq [OF evictStuckNonce_inv] wp_andThen [of "nextNonce cl bc"] wp_nextNonce
      attemptLoop_good) (use assms in auto)

section \<open>Properties\<close>

fun is_Wrote :: "effect \<Rightarrow> bool" where
  "is_Wrote (Wrote _ _) = True"
| "is_Wrote _ = False"

fun is_SentSelf :: "effect \<Rightarrow> bool" where
  "is_SentSelf (SentSelf _ _) = True"
| "is_SentSelf _ = False"

fun tame :: "broadcaster \<Rightarrow> effect \<Rightarrow> bool" where
  "tame bc (Slept ms) \<longleftrightarrow> ms \<le> bc_maxDelayMs bc"
| "tame bc _ = True"

lemma quiet_filters:
  "list_all (quiet_effect bc) u \<Longrightarrow> filter is_Wrote u = [] \<and> filter is_SentSelf u = [] \<and> list_all (tame bc) u"
proof (induction u)
  case (Cons x u)
  then show ?case by (cases x) auto
qed simp

lemma attempt_trace_filters:
  assumes "attempt_trace bc request u"
  shows "length (filter is_Wrote u) \<le> 1 \<and> filter is_SentSelf u = [] \<and> list_all (tame bc) u"
proof -
  have "filter is_Wrote pre = [] \<and> filter is_SentSelf pre = [] \<and> list_all (tame bc) pre" if "within_cap bc request pre fees" for pre fees
    using that by (auto simp: within_cap_def split: option.splits)
  then show ?thesis using assms quiet_filters unfolding attempt_trace_def by fastforce
qed

lemma concat_filters:
  "list_all (attempt_trace bc request) us \<Longrightarrow>
     length (filter is_Wrote (concat us)) \<le> length us \<and> filter is_SentSelf (concat us) = [] \<and> list_all (tame bc) (concat us)"
proof (induction us)
  case (Cons u us)
  then show ?case using attempt_trace_filters [of bc request u] by auto
qed simp

text \<open>
  C24: A call ends after a bounded amount of work. Whatever the chain answers, one call writes the
  request at most \<open>maxAttempts\<close> times, sends at most one recovery transaction, never sleeps longer than
  \<open>maxDelayMs\<close> at a time, and then returns or throws.
\<close>

theorem executeInner_bounded:
  "\<exists>u. bs_trace (snd (executeInner cl bc request s)) = bs_trace s @ u
     \<and> length (filter is_Wrote u) \<le> bc_maxAttempts bc \<and> length (filter is_SentSelf u) \<le> 1
     \<and> list_all (tame bc) u"
proof -
  have "extends (execute_trace bc request) s (snd (executeInner cl bc request s))"
    by (rule wp_outcome [OF executeInner_trace])
  then obtain v us where u: "bs_trace (snd (executeInner cl bc request s)) = bs_trace s @ v @ concat us"
    "v = [] \<or> (\<exists>n f. v = [SentSelf n f])" "length us \<le> bc_maxAttempts bc" "list_all (attempt_trace bc request) us"
    by (auto simp: extends_def execute_trace_def)
  then show ?thesis using concat_filters [OF u(4)] by (intro exI [of _ "v @ concat us"]) auto
qed

definition cost_guarded :: "int \<Rightarrow> effect list \<Rightarrow> bool" where
  "cost_guarded cap u \<longleftrightarrow>
     (\<forall>a b n fees. u = a @ Wrote n fees # b \<longrightarrow>
        (\<exists>a' gas price. a = a' @ [Estimated gas] \<and> feePerGas fees = Some price \<and> gas * price \<le> cap \<and> 0 < cap))"

lemma cost_guardedD:
  assumes "cost_guarded cap u" and "u = a @ Wrote n fees # b"
  obtains a' gas price where "a = a' @ [Estimated gas]" "feePerGas fees = Some price" "gas * price \<le> cap" "0 < cap"
  using assms unfolding cost_guarded_def by blast

lemma cost_guarded_append:
  assumes u: "cost_guarded cap u" and v: "cost_guarded cap v"
  shows "cost_guarded cap (u @ v)"
  unfolding cost_guarded_def
proof (intro allI impI)
  fix a b n fees assume "u @ v = a @ Wrote n fees # b"
  then obtain us where "u = a @ us \<and> us @ v = Wrote n fees # b \<or> u @ us = a \<and> v = us @ Wrote n fees # b"
    by (auto simp: append_eq_append_conv2)
  then consider (first) us' where "u = a @ Wrote n fees # us'" | (second) us' where "a = u @ us'" "v = us' @ Wrote n fees # b"
    by (cases us) auto
  then show "\<exists>a' gas price. a = a' @ [Estimated gas] \<and> feePerGas fees = Some price \<and> gas * price \<le> cap \<and> 0 < cap"
  proof cases
    case first
    from cost_guardedD [OF u this] show ?thesis by blast
  next
    case (second us')
    from cost_guardedD [OF v second(2)] show ?thesis using second(1) by (metis append_assoc)
  qed
qed

lemma cost_guarded_quiet: "list_all (quiet_effect bc) u \<Longrightarrow> cost_guarded cap u"
  by (auto simp: cost_guarded_def)

lemma cost_guarded_attempt:
  assumes "attempt_trace bc request u" and "bc_maxCostWei bc = Some cap"
  shows "cost_guarded (cap request) u"
  using assms(1) unfolding attempt_trace_def
proof (elim disjE exE conjE)
  fix pre n fees post
  assume u: "u = pre @ Wrote n fees # post" and "within_cap bc request pre fees" and post: "list_all (quiet_effect bc) post"
  then obtain gas price where "pre = [Estimated gas]" "feePerGas fees = Some price" "gas * price \<le> cap request" "0 < cap request"
    using assms(2) by (auto simp: within_cap_def)
  then have "cost_guarded (cap request) (pre @ [Wrote n fees])"
    by (auto simp: cost_guarded_def append_eq_Cons_conv Cons_eq_append_conv)
  from cost_guarded_append [OF this cost_guarded_quiet [OF post]] show ?thesis by (simp add: u)
qed (rule cost_guarded_quiet)

lemma cost_guarded_concat:
  "list_all (attempt_trace bc request) us \<Longrightarrow> bc_maxCostWei bc = Some cap \<Longrightarrow> cost_guarded (cap request) (concat us)"
  by (induction us) (auto intro: cost_guarded_append cost_guarded_attempt cost_guarded_quiet [of undefined "[]", simplified])

text \<open>
  C23: Under a configured cost cap no transaction leaves uncapped: each write of the request is
  immediately preceded by a gas estimate whose product with the offered fee is within a positive cap.
\<close>

theorem executeInner_cost_cap:
  assumes "bc_maxCostWei bc = Some cap" and "bs_trace s = []"
    and "bs_trace (snd (executeInner cl bc request s)) = a @ Wrote n fees # b"
  shows "\<exists>a' gas price. a = a' @ [Estimated gas] \<and> feePerGas fees = Some price
    \<and> gas * price \<le> cap request \<and> 0 < cap request"
proof -
  have "extends (execute_trace bc request) s (snd (executeInner cl bc request s))"
    by (rule wp_outcome [OF executeInner_trace])
  then obtain v us where u: "bs_trace (snd (executeInner cl bc request s)) = v @ concat us"
    "v = [] \<or> (\<exists>n f. v = [SentSelf n f])" "list_all (attempt_trace bc request) us"
    using assms(2) by (auto simp: extends_def execute_trace_def)
  have "cost_guarded (cap request) v" using u(2) by (auto simp: cost_guarded_def append_eq_Cons_conv)
  then have "cost_guarded (cap request) (v @ concat us)"
    using cost_guarded_concat [OF u(3) assms(1)] by (rule cost_guarded_append)
  then show ?thesis using assms(3) u(1) unfolding cost_guarded_def by metis
qed

text \<open>
  C22: What success means. A call that returns leaves the ledger consistent, and its result is one of two: it is
  marked as already settled (the inner effect was found on chain; no row is claimed for it), or it belongs to a ledger
  row of this sender with that hash, the same logical transaction, addressed to the Safe with the same call data, now
  resolved, whether it was submitted by this call or adopted from an earlier one.
\<close>

theorem executeInner_success:
  assumes "ledger_inv (bs_ledger s)" and "executeInner cl bc request s = (Inr receipt, t)"
  shows "ledger_inv (bs_ledger t) \<and> (sf_alreadySettled receipt \<or>
    (\<exists>n row. ledger_get (the_key bc n) (bs_ledger t) = Some row \<and> sr_txHash row = Some (sf_txHash receipt)
       \<and> ours bc request row \<and> sr_resolvedAtMs row \<noteq> None))"
  using wp_Inr [OF executeInner_good [OF assms(1)] assms(2)]
  by (cases "sf_alreadySettled receipt") (simp_all add: justified_def done_row_def)

text \<open>
  C25: Why a call reports an effect as already on chain: during this call the inner transaction was
  re-simulated and reverted with revert data whose selector is one of the seven that say so.
\<close>

theorem executeInner_settled:
  assumes "ledger_inv (bs_ledger s)" and "bs_trace s = []" and "executeInner cl bc request s = (Inr receipt, t)"
    and "sf_alreadySettled receipt"
  shows "\<exists>err d. Simulated (Some err) \<in> set (bs_trace t) \<and> extractRevertData err = Some d
    \<and> toLowerCase (take 10 d) \<in> set SETTLED_SELECTORS"
  using wp_Inr [OF executeInner_good [OF assms(1)] assms(3)] assms(4) by (simp add: justified_def settled_seen_def)

definition evicted :: "broadcaster \<Rightarrow> int \<Rightarrow> 'w bstate \<Rightarrow> nat \<Rightarrow> string \<Rightarrow> 'w bstate \<Rightarrow> bool" where
  "evicted bc nowMs s n h t \<longleftrightarrow>
     (\<exists>entry estimate. ledger_get (the_key bc n) (bs_ledger s) = Some entry \<and> sr_resolvedAtMs entry = None
        \<and> bc_stuckNonceAfterMs bc \<le> nowMs - sr_submittedAtMs entry
        \<and> (let fees = bumpFees (feeEstimate estimate) (Some (sr_fees entry)) 1
           in bs_trace t = bs_trace s @ [SentSelf n fees]
              \<and> ledger_get (the_key bc n) (bs_ledger t)
                  = Some ((stored (recoveryEntry bc n h fees nowMs))\<lparr>sr_resolvedAtMs := Some nowMs\<rparr>)))
     \<and> (\<forall>k. \<not> same_key k (the_key bc n) \<longrightarrow> ledger_get k (bs_ledger t) = ledger_get k (bs_ledger s))"

lemma evictedI:
  assumes "ledger_get (the_key bc n) (bs_ledger s) = Some entry" and "sr_resolvedAtMs entry = None"
    and "bc_stuckNonceAfterMs bc \<le> nowMs - sr_submittedAtMs entry"
    and "bs_trace t = bs_trace s @ [SentSelf n (bumpFees (feeEstimate estimate) (Some (sr_fees entry)) 1)]"
    and "\<And>k. ledger_get k (bs_ledger t) = (if same_key k (the_key bc n)
      then Some ((stored (recoveryEntry bc n h (bumpFees (feeEstimate estimate) (Some (sr_fees entry)) 1) nowMs))\<lparr>sr_resolvedAtMs := Some nowMs\<rparr>)
      else ledger_get k (bs_ledger s))"
  shows "evicted bc nowMs s n h t"
  unfolding evicted_def Let_def
proof (intro conjI exI [of _ entry] exI [of _ estimate] allI impI)
  have "same_key (the_key bc n) (the_key bc n)" by (simp add: same_key_def)
  then show "ledger_get (the_key bc n) (bs_ledger t) = Some ((stored (recoveryEntry bc n h
      (bumpFees (feeEstimate estimate) (Some (sr_fees entry)) 1) nowMs))\<lparr>sr_resolvedAtMs := Some nowMs\<rparr>)"
    using assms(5) by simp
qed (use assms in simp_all)

lemma recovery_row:
  assumes "ledger_inv L"
  shows "ledger_get k (ledger_markResolved (the_key bc n) nowMs (ledger_record (recoveryEntry bc n h fees nowMs) L)) =
    (if same_key k (the_key bc n) then Some ((stored (recoveryEntry bc n h fees nowMs))\<lparr>sr_resolvedAtMs := Some nowMs\<rparr>)
     else ledger_get k L)"
proof -
  have key: "same_key k (entry_key (recoveryEntry bc n h fees nowMs)) \<longleftrightarrow> same_key k (the_key bc n)"
    by (simp add: same_key_def entry_key_def recoveryEntry_def the_key_def)
  show ?thesis
    using sql_ledger.get_markResolved [OF sql_ledger.inv_put [OF assms]] sql_ledger.get_put [OF assms] by (simp add: key)
qed

lemma evictEntry_spec:
  assumes "ledger_inv (bs_ledger s)" and "ledger_get (the_key bc (sr_nonce entry)) (bs_ledger s) = Some entry"
    and "sr_resolvedAtMs entry = None" and "bc_stuckNonceAfterMs bc \<le> nowMs - sr_submittedAtMs entry"
  shows "wp (evictEntry cl bc nowMs entry)
    (\<lambda>r t. case r of None \<Rightarrow> False | Some (n, h) \<Rightarrow> evicted bc nowMs s n h t) (\<lambda>_ _. True) s"
  unfolding evictEntry_def Let_def
  by (intro wp_rules) (auto intro!: evictedI [OF assms(2-4)] simp: recovery_row [OF assms(1)])

lemma unresolved_entry:
  assumes "ledger_inv L" and "entry \<in> set (ledger_unresolvedBetween (bc_chainId bc) (bc_from bc) lo hi L)"
  shows "ledger_get (the_key bc (sr_nonce entry)) L = Some entry" "sr_resolvedAtMs entry = None"
    "lo \<le> sr_nonce entry" "sr_nonce entry < hi"
proof -
  obtain n where n: "lo \<le> n" "n < hi" "ledger_get (the_key bc n) L = Some entry" "sr_resolvedAtMs entry = None"
    using assms sql_ledger.set_unresolved [OF assms(1)] by (auto simp: the_key_def)
  have "sr_nonce entry = n" using sql_ledger.get_key [OF assms(1) n(3)] by (simp add: same_key_def entry_key_def the_key_def)
  with n show "ledger_get (the_key bc (sr_nonce entry)) L = Some entry" "sr_resolvedAtMs entry = None"
    "lo \<le> sr_nonce entry" "sr_nonce entry < hi" by simp_all
qed

lemma evictStuckNonce_wp:
  assumes "ledger_inv (bs_ledger s)"
  shows "wp (evictStuckNonce cl bc nowMs)
    (\<lambda>r t. case r of None \<Rightarrow> bs_ledger t = bs_ledger s \<and> bs_trace t = bs_trace s | Some (n, h) \<Rightarrow> evicted bc nowMs s n h t)
    (\<lambda>_ _. True) s"
proof -
  have entry: "wp (evictEntry cl bc nowMs entry)
      (\<lambda>r t. case r of None \<Rightarrow> bs_ledger t = bs_ledger s \<and> bs_trace t = bs_trace s | Some (n, h) \<Rightarrow> evicted bc nowMs s n h t)
      (\<lambda>_ _. True) (s\<lparr>bs_world := w\<rparr>)"
    if "find (\<lambda>entry. \<not> nowMs - sr_submittedAtMs entry < bc_stuckNonceAfterMs bc)
        (ledger_unresolvedBetween (bc_chainId bc) (bc_from bc) lo hi (bs_ledger s)) = Some entry" for entry lo hi w
  proof -
    from that have mem: "entry \<in> set (ledger_unresolvedBetween (bc_chainId bc) (bc_from bc) lo hi (bs_ledger s))"
      and stale: "bc_stuckNonceAfterMs bc \<le> nowMs - sr_submittedAtMs entry"
      by (auto simp: find_Some_iff in_set_conv_nth)
    have eq: "evicted bc nowMs (s\<lparr>bs_world := w\<rparr>) n h t \<longleftrightarrow> evicted bc nowMs s n h t" for n h t
      by (simp add: evicted_def)
    show ?thesis
      by (rule wp_mono [OF evictEntry_spec [of "s\<lparr>bs_world := w\<rparr>"]])
        (use assms unresolved_entry(1,2) [OF assms mem] stale in \<open>auto simp: eq split: option.splits\<close>)
  qed
  show ?thesis
    unfolding evictStuckNonce_def
    by (intro wp_andThen wp_world wp_if wp_ret wp_read_state wp_case_option) (auto intro: entry)
qed

text \<open>
  C26: Eviction frees only a nonce that is ours and stuck. A recovery transaction goes out at a nonce
  only when the ledger's row for it is unresolved and older than the stale window; its fees are the
  bumped fees of that row; afterwards the row records the recovery as resolved and every other row is
  as before. When nothing is evicted the ledger is unchanged and nothing was sent.
\<close>

theorem evictStuckNonce_spec:
  assumes "ledger_inv (bs_ledger s)" and "evictStuckNonce cl bc nowMs s = (Inr r, t)"
  shows "case r of None \<Rightarrow> bs_ledger t = bs_ledger s \<and> bs_trace t = bs_trace s | Some (n, h) \<Rightarrow> evicted bc nowMs s n h t"
  using wp_Inr [OF evictStuckNonce_wp [OF assms(1)] assms(2)] .

section \<open>Signatures keep their bytes\<close>

lemma hex_digit_hex_char:
  assumes "n < 16"
  shows "hex_digit (hex_char n)" "hex_val (hex_char n) = n"
proof -
  have "hex_digit (hex_char n) \<and> hex_val (hex_char n) = n"
  proof (cases "n < 10")
    case True
    then have "is_digit (digit_char n)" by simp
    with True show ?thesis by (simp only: hex_char_def hex_digit_def hex_val_def if_True simp_thms digit_val_digit_char)
  next
    case False
    have c: "(of_char (char_of (n + 87) :: char) :: nat) = n + 87" using assms by simp
    then have "\<not> is_digit (char_of (n + 87))" using False by auto
    with False assms c show ?thesis
      unfolding hex_char_def hex_digit_def hex_val_def by simp
  qed
  then show "hex_digit (hex_char n)" "hex_val (hex_char n) = n" by simp_all
qed

lemma hex_bytes_bytes_hex: "\<forall>b \<in> set bs. b < 256 \<Longrightarrow> hex_bytes (bytes_hex bs) = bs"
proof (induction bs)
  case (Cons b bs)
  then have "b div 16 < 16" "b mod 16 < 16" by auto
  with Cons show ?case by (simp add: bytes_hex_def hex_digit_hex_char)
qed (simp add: bytes_hex_def)

lemma hex_val_less: "hex_digit c \<Longrightarrow> hex_val c < 16"
proof (cases "is_digit c")
  case True
  then show ?thesis using digit_val_less [OF True] by (simp only: hex_val_def simp_thms if_True less_trans [of _ 10 16])
next
  case False
  define n where "n = (of_char c :: nat)"
  assume "hex_digit c"
  with False have "97 \<le> n \<and> n \<le> 102 \<or> 65 \<le> n \<and> n \<le> 70" by (simp only: hex_digit_def n_def simp_thms)
  then have "(if 97 \<le> n then n - 87 else n - 55) < 16" by auto
  with False show ?thesis by (simp only: hex_val_def n_def if_False)
qed

lemma hex_bytes_less: "b \<in> set (hex_bytes s) \<Longrightarrow> b < 256"
proof (induction s rule: hex_bytes.induct)
  case (1 x y cs)
  then show ?case using hex_val_less [of x] hex_val_less [of y] by (auto split: if_splits)
qed simp_all

text \<open>
  The signature sent to the Safe is the wallet's signature with 4 added to its recovery byte and
  every other byte unchanged; a signature of any other length is refused.
\<close>

theorem safe_signature_bytes:
  "case toSafeEthSignSignature sig of
     Inr sig' \<Rightarrow> length (hex_bytes (drop 2 sig)) = 65 \<and> startsWith sig' ''0x''
        \<and> hex_bytes (drop 2 sig') = (hex_bytes (drop 2 sig))[64 := (hex_bytes (drop 2 sig) ! 64 + 4) mod 256]
   | Inl e \<Rightarrow> length (hex_bytes (drop 2 sig)) \<noteq> 65"
proof -
  let ?bs = "hex_bytes (drop 2 sig)"
  have "b < 256" if "b \<in> set (?bs[64 := (?bs ! 64 + 4) mod 256])" for b
  proof -
    have "b = (?bs ! 64 + 4) mod 256 \<or> b \<in> set ?bs" using that set_update_subset_insert by fast
    then show ?thesis using hex_bytes_less by auto
  qed
  then have "hex_bytes (bytes_hex (?bs[64 := (?bs ! 64 + 4) mod 256])) = ?bs[64 := (?bs ! 64 + 4) mod 256]"
    by (intro hex_bytes_bytes_hex) blast
  then show ?thesis by (simp add: toSafeEthSignSignature_def Let_def startsWith_def)
qed

section \<open>Witnesses\<close>

text \<open>A chain that mines every transaction at once; its world is the pending and the latest nonce.\<close>

definition sample_signature :: string where
  "sample_signature = ''0x'' @ replicate 128 CHR ''0'' @ ''1b''"

definition sample_client :: "js_error option \<Rightarrow> js_error option \<Rightarrow> (nat \<times> nat, int) client" where
  "sample_client writeFails innerReverts =
     \<lparr>cl_getTransactionCount = (\<lambda>tag w. (Inr (case tag of PendingTag \<Rightarrow> fst w | LatestTag \<Rightarrow> snd w), w)),
      cl_estimateFeesPerGas = (\<lambda>w. (Inr (Some 100, Some 10), w)),
      cl_getGasPrice = (\<lambda>w. (Inr 100, w)),
      cl_safeNonce = (\<lambda>w. (Inr 7, w)),
      cl_getTransactionHash = (\<lambda>_ _ w. (Inr ''0xaa'', w)),
      cl_isOwner = (\<lambda>w. (Inr True, w)),
      cl_signMessage = (\<lambda>_ w. (Inr sample_signature, w)),
      cl_estimateContractGas = (\<lambda>_ _ w. (Inr 21000, w)),
      cl_writeContract = (\<lambda>_ _ _ _ w. (case writeFails of None \<Rightarrow> Inr ''0xbb'' | Some e \<Rightarrow> Inl e, w)),
      cl_sendSelf = (\<lambda>_ _ w. (Inr ''0xcc'', w)),
      cl_waitForTransactionReceipt = (\<lambda>_ w. (Inr \<lparr>cr_success = True, cr_blockNumber = 3, cr_blockHash = ''0xdd'', cr_logs = [42]\<rparr>, w)),
      cl_getTransactionReceipt = (\<lambda>_ w. (Inl (plainError ''not found''), w)),
      cl_call = (\<lambda>_ w. (case innerReverts of None \<Rightarrow> Inr () | Some e \<Rightarrow> Inl e, w)),
      cl_now = (\<lambda>w. (200000, w)),
      cl_sleep = (\<lambda>_ w. w),
      decodeAbi = (\<lambda>_ _. None),
      decodeTaskCreated = (\<lambda>l. Some l)\<rparr>"

definition sample_bc :: broadcaster where
  "sample_bc = \<lparr>bc_chainId = 8453, bc_from = ''0xF0'', bc_safeAddress = ''0x5A'', bc_maxAttempts = 6, bc_baseDelayMs = 400,
     bc_maxDelayMs = 12000, bc_stuckNonceAfterMs = 120000, bc_maxCostWei = Some (\<lambda>_. 5000000)\<rparr>"

definition sample_request :: safe_request where
  "sample_request = \<lparr>rq_to = ''0x01'', rq_value = 0, rq_data = ''0x02'', rq_logicalTx = ''claim'', rq_operation = 0\<rparr>"

definition sample_state :: "nat \<times> nat \<Rightarrow> tx_submissions \<Rightarrow> (nat \<times> nat) bstate" where
  "sample_state w L = \<lparr>bs_world = w, bs_ledger = L, bs_trace = []\<rparr>"

definition stuck_row :: submission_record where
  "stuck_row = \<lparr>sr_chainId = 8453, sr_from = ''0xf0'', sr_nonce = 4, sr_txHash = Some ''0xee'', sr_logicalTx = Some ''old'',
     sr_to = None, sr_value = None, sr_data = None, sr_fees = no_fees\<lparr>fs_maxFeePerGas := Some 200, fs_maxPriorityFeePerGas := Some 20\<rparr>,
     sr_submittedAtMs = 0, sr_resolvedAtMs = None\<rparr>"

lemma sample_sel:
  "cl_getTransactionCount (sample_client a b) tag w = (Inr (case tag of PendingTag \<Rightarrow> fst w | LatestTag \<Rightarrow> snd w), w)"
  "cl_estimateFeesPerGas (sample_client a b) w = (Inr (Some 100, Some 10), w)"
  "cl_safeNonce (sample_client a b) w = (Inr 7, w)"
  "cl_getTransactionHash (sample_client a b) rq i w = (Inr ''0xaa'', w)"
  "cl_signMessage (sample_client a b) x w = (Inr sample_signature, w)"
  "cl_estimateContractGas (sample_client a b) rq x w = (Inr 21000, w)"
  "cl_writeContract (sample_client a b) rq x n f w = (case a of None \<Rightarrow> Inr ''0xbb'' | Some e \<Rightarrow> Inl e, w)"
  "cl_sendSelf (sample_client a b) n f w = (Inr ''0xcc'', w)"
  "cl_waitForTransactionReceipt (sample_client a b) x w
     = (Inr \<lparr>cr_success = True, cr_blockNumber = 3, cr_blockHash = ''0xdd'', cr_logs = [42]\<rparr>, w)"
  "cl_call (sample_client a b) rq w = (case b of None \<Rightarrow> Inr () | Some e \<Rightarrow> Inl e, w)"
  "cl_now (sample_client a b) w = (200000, w)"
  "decodeAbi (sample_client a b) = (\<lambda>_ _. None)"
  by (simp_all add: sample_client_def)

lemma sample_values:
  "toSafeEthSignSignature sample_signature = Inr (''0x'' @ replicate 128 CHR ''0'' @ ''1f'')"
  "bumpFees (feeEstimate (Some 100, Some 10)) None 0 = \<lparr>fs_maxFeePerGas = Some 100, fs_maxPriorityFeePerGas = Some 10, fs_gasPrice = None\<rparr>"
  by code_simp+

lemmas run_simps = andThen_run read_state_def world_def attempt_def ret_def throw_def emit_def modify_def now_def
  recordEntry_def markResolved_def Let_def sample_sel sample_values

lemma sample_evict:
  "evictStuckNonce (sample_client a b) sample_bc t (sample_state (5, 5) []) = (Inr None, sample_state (5, 5) [])"
  by (simp add: evictStuckNonce_def run_simps sample_state_def cong: andThen_weak_cong)

lemma sample_execute:
  "executeInner (sample_client a b) sample_bc sample_request (sample_state (5, 5) [])
     = attemptLoop (sample_client a b) sample_bc sample_request (Suc 5) 0 5 (Nullish ''undefined'') (sample_state (5, 5) [])"
proof -
  have "bc_maxAttempts sample_bc = Suc 5" by (simp add: sample_bc_def)
  moreover have "now (sample_client a b) (sample_state (5, 5) []) = (Inr 200000, sample_state (5, 5) [])"
    "nextNonce (sample_client a b) sample_bc (sample_state (5, 5) []) = (Inr 5, sample_state (5, 5) [])"
    by (simp_all add: now_def nextNonce_def world_def sample_sel sample_state_def)
  ultimately show ?thesis by (simp only: executeInner_def andThen_run sample_evict prod.case sum.case)
qed

lemma sample_success:
  "\<exists>t. executeInner (sample_client None None) sample_bc sample_request (sample_state (5, 5) [])
       = (Inr \<lparr>sf_txHash = ''0xbb'', sf_blockNumber = 3, sf_blockHash = ''0xdd'', sf_logs = [42], sf_alreadySettled = False\<rparr>, t)
     \<and> bs_trace t = [Estimated 21000] @ Wrote 5 \<lparr>fs_maxFeePerGas = Some 100, fs_maxPriorityFeePerGas = Some 10, fs_gasPrice = None\<rparr> # []"
proof -
  have "\<exists>t. attemptOnce (sample_client None None) sample_bc sample_request 0 5 (sample_state (5, 5) [])
       = (Inr (Finished \<lparr>sf_txHash = ''0xbb'', sf_blockNumber = 3, sf_blockHash = ''0xdd'', sf_logs = [42], sf_alreadySettled = False\<rparr>), t)
     \<and> bs_trace t = [Estimated 21000] @ Wrote 5 \<lparr>fs_maxFeePerGas = Some 100, fs_maxPriorityFeePerGas = Some 10, fs_gasPrice = None\<rparr> # []"
    by (simp add: attemptOnce_def estimateFees_def checkCost_def submit_def settle_def run_simps sample_state_def sample_bc_def
        ledger_get_def previousFees_def feePerGas_def minedReceipt_def cong: andThen_weak_cong)
  then show ?thesis unfolding sample_execute attemptLoop.simps by (auto simp: andThen_run ret_def)
qed

theorem executeInner_cost_cap_witness:
  "\<exists>a' gas price. [Estimated 21000] = a' @ [Estimated gas]
     \<and> feePerGas \<lparr>fs_maxFeePerGas = Some 100, fs_maxPriorityFeePerGas = Some 10, fs_gasPrice = None\<rparr> = Some price
     \<and> gas * price \<le> 5000000 \<and> 0 < (5000000 :: int)"
proof -
  let ?s = "sample_state (5, 5) []"
  have "bs_trace (snd (executeInner (sample_client None None) sample_bc sample_request ?s))
      = [Estimated 21000] @ Wrote 5 \<lparr>fs_maxFeePerGas = Some 100, fs_maxPriorityFeePerGas = Some 10, fs_gasPrice = None\<rparr> # []"
    using sample_success by auto
  from executeInner_cost_cap [OF _ _ this, of "\<lambda>_. 5000000"] show ?thesis by (simp add: sample_bc_def sample_state_def)
qed

theorem executeInner_success_witness:
  "\<exists>n row. ledger_get (the_key sample_bc n)
       (bs_ledger (snd (executeInner (sample_client None None) sample_bc sample_request (sample_state (5, 5) [])))) = Some row
     \<and> sr_txHash row = Some ''0xbb'' \<and> ours sample_bc sample_request row \<and> sr_resolvedAtMs row \<noteq> None"
proof -
  obtain t where t: "executeInner (sample_client None None) sample_bc sample_request (sample_state (5, 5) [])
      = (Inr \<lparr>sf_txHash = ''0xbb'', sf_blockNumber = 3, sf_blockHash = ''0xdd'', sf_logs = [42], sf_alreadySettled = False\<rparr>, t)"
    using sample_success by auto
  have "ledger_inv (bs_ledger (sample_state (5, 5) []))" by (simp add: sample_state_def ledger_inv_def)
  from executeInner_success [OF this t] show ?thesis using t by simp
qed

definition gs013 :: js_error where
  "gs013 = plainError ''GS013''"

definition claimed :: js_error where
  "claimed = Err [] None (DataText ''0x22D686D9'') None None"

lemma sample_settled:
  "\<exists>t. executeInner (sample_client (Some gs013) (Some claimed)) sample_bc sample_request (sample_state (5, 5) [])
     = (Inr settledReceipt, t)"
proof -
  have msg: "str_includes (flattenError gs013) ''GS013'' \<and> \<not> str_includes (flattenError gs013) ''GS026''" by code_simp
  have "\<exists>e. innerError (decodeSafeInnerRevert (\<lambda>_ _. None) (Some claimed)) = Some e \<and> classifyBroadcastError e = AlreadySettled"
  proof -
    have "map_option classifyBroadcastError (innerError (decodeSafeInnerRevert (\<lambda>_ _. None) (Some claimed))) = Some AlreadySettled"
      by code_simp
    then show ?thesis by blast
  qed
  then obtain e where "innerError (decodeSafeInnerRevert (\<lambda>_ _. None) (Some claimed)) = Some e" "classifyBroadcastError e = AlreadySettled"
    by blast
  then have "\<exists>t. attemptOnce (sample_client (Some gs013) (Some claimed)) sample_bc sample_request 0 5 (sample_state (5, 5) [])
       = (Inr (Finished settledReceipt), t)"
    by (simp add: attemptOnce_def estimateFees_def checkCost_def submit_def handleWriteError_def decodeInner_def run_simps msg
        sample_state_def sample_bc_def ledger_get_def previousFees_def feePerGas_def cong: andThen_weak_cong)
  then show ?thesis unfolding sample_execute attemptLoop.simps by (auto simp: andThen_run ret_def)
qed

theorem executeInner_settled_witness:
  "\<exists>err d. Simulated (Some err) \<in> set (bs_trace (snd (executeInner (sample_client (Some gs013) (Some claimed))
       sample_bc sample_request (sample_state (5, 5) []))))
     \<and> extractRevertData err = Some d \<and> toLowerCase (take 10 d) \<in> set SETTLED_SELECTORS"
proof -
  obtain t where t: "executeInner (sample_client (Some gs013) (Some claimed)) sample_bc sample_request (sample_state (5, 5) [])
     = (Inr settledReceipt, t)"
    using sample_settled by blast
  have "ledger_inv (bs_ledger (sample_state (5, 5) []))" by (simp add: sample_state_def ledger_inv_def)
  from executeInner_settled [OF this _ t] show ?thesis using t by (simp add: sample_state_def settledReceipt_def)
qed

theorem evictStuckNonce_spec_witness:
  "\<exists>t. evictStuckNonce (sample_client None None) sample_bc 200000 (sample_state (5, 4) (ledger_record stuck_row []))
       = (Inr (Some (4, ''0xcc'')), t)
     \<and> evicted sample_bc 200000 (sample_state (5, 4) (ledger_record stuck_row [])) 4 ''0xcc'' t"
proof -
  let ?s = "sample_state (5, 4) (ledger_record stuck_row [])"
  have entries: "ledger_unresolvedBetween 8453 ''0xF0'' 4 5 (ledger_record stuck_row []) = [stuck_row]" by code_simp
  have "\<exists>t. evictStuckNonce (sample_client None None) sample_bc 200000 ?s = (Inr (Some (4, ''0xcc'')), t)"
    by (simp add: evictStuckNonce_def evictEntry_def run_simps sample_state_def sample_bc_def entries cong: andThen_weak_cong)
      (simp add: stuck_row_def)
  then obtain t where t: "evictStuckNonce (sample_client None None) sample_bc 200000 ?s = (Inr (Some (4, ''0xcc'')), t)" by blast
  have "ledger_inv (ledger_record stuck_row [])" by code_simp
  then have "ledger_inv (bs_ledger ?s)" by (simp add: sample_state_def)
  from evictStuckNonce_spec [OF this t] show ?thesis using t by simp
qed

end
