(* ===== verification/Dsse.thy ===== *)
theory Dsse
  imports Sealing
begin

text \<open>
  DSSE envelopes (discovery/protocol/src/dsse.ts) and the grammar of origins and sequences
  (grammar.ts). \<open>atob\<close> and \<open>btoa\<close> are the standard base64 functions; \<open>BigInt_of\<close> is \<open>BigInt\<close> on a string.

  \<open>base64_reads_btoa\<close>: the strict reader accepts exactly the non-empty texts \<open>btoa\<close> writes, so a byte
  string has one wire spelling. \<open>pae_inj\<close>: the signed bytes determine the payload type and the payload.
  \<open>nextSequence_iff\<close>: the next sequence is the sixteen digits of the successor.
\<close>

section \<open>Base64\<close>

definition b64_alphabet :: string where
  "b64_alphabet = ''ABCDEFGHIJKLMNOPQRSTUVWXYZabcdefghijklmnopqrstuvwxyz0123456789+/''"

definition b64_char :: "nat \<Rightarrow> char" where
  "b64_char n = b64_alphabet ! n"

definition b64_is :: "char \<Rightarrow> bool" where
  "b64_is c \<longleftrightarrow> c \<in> set b64_alphabet"

definition b64_val :: "char \<Rightarrow> nat" where
  "b64_val c = length (takeWhile (\<lambda>d. d \<noteq> c) b64_alphabet)"

fun btoa :: "bytes \<Rightarrow> string" where
  "btoa [] = []"
| "btoa [a] =
     (let x = of_char a
      in [b64_char (x div 4), b64_char (x mod 4 * 16), CHR ''='', CHR ''=''])"
| "btoa [a, b] =
     (let x = of_char a; y = of_char b
      in [b64_char (x div 4), b64_char (x mod 4 * 16 + y div 16), b64_char (y mod 16 * 4), CHR ''=''])"
| "btoa (a # b # c # rest) =
     (let x = of_char a; y = of_char b; z = of_char c
      in b64_char (x div 4) # b64_char (x mod 4 * 16 + y div 16) # b64_char (y mod 16 * 4 + z div 64)
         # b64_char (z mod 64) # btoa rest)"

text \<open>\<open>atob\<close> on the texts the pattern admits; the bits of a last group that do not fill a byte are dropped.\<close>

fun atob :: "string \<Rightarrow> bytes" where
  "atob (p # q # r # s # rest) =
     (let a = b64_val p; b = b64_val q; c = b64_val r; d = b64_val s;
          x = char_of (a * 4 + b div 16); y = char_of (b mod 16 * 16 + c div 4); z = char_of (c mod 4 * 64 + d)
      in if r = CHR ''='' then [x] else if s = CHR ''='' then [x, y] else x # y # z # atob rest)"
| "atob _ = []"

text \<open>The pattern: groups of four, then at most one padded group.\<close>

fun b64_pattern :: "string \<Rightarrow> bool" where
  "b64_pattern [] \<longleftrightarrow> True"
| "b64_pattern (p # q # r # s # rest) \<longleftrightarrow>
     b64_is p \<and> b64_is q
     \<and> (b64_is r \<and> b64_is s \<and> b64_pattern rest
        \<or> rest = [] \<and> s = CHR ''='' \<and> (r = CHR ''='' \<or> b64_is r))"
| "b64_pattern _ \<longleftrightarrow> False"

definition canonicalStandardBase64 :: "json \<Rightarrow> string \<Rightarrow> (exn, bytes) result" where
  "canonicalStandardBase64 value label =
     (case value of
        JStr s \<Rightarrow>
          if s = [] \<or> length s mod 4 \<noteq> 0 \<or> \<not> b64_pattern s then Inl (label @ '' is not canonical standard base64'')
          else if btoa (atob s) \<noteq> s then Inl (label @ '' is not canonical standard base64'')
          else Inr (atob s)
      | _ \<Rightarrow> Inl (label @ '' is not canonical standard base64''))"

section \<open>Envelopes\<close>

definition dssePreAuthEncoding :: "string \<Rightarrow> bytes \<Rightarrow> bytes" where
  "dssePreAuthEncoding payloadType payloadBytes =
     (let typeBytes = utf8_encode payloadType
      in ''DSSEv1 '' @ dec (length typeBytes) @ '' '' @ typeBytes @ '' '' @ dec (length payloadBytes) @ '' '' @ payloadBytes)"

record wire_signature =
  ws_keyid :: "string option"
  ws_signatureBytes :: bytes

record parsed_envelope =
  pe_payloadType :: string
  pe_payloadBytes :: bytes
  pe_signatures :: "wire_signature list"

definition exactKeys :: "json \<Rightarrow> string list \<Rightarrow> bool" where
  "exactKeys v expected =
     (case v of JObj kvs \<Rightarrow> js_sort compareCodeUnitStrings (map fst kvs) = expected | _ \<Rightarrow> False)"

fun is_object :: "json \<Rightarrow> bool" where
  "is_object (JObj _) \<longleftrightarrow> True"
| "is_object _ \<longleftrightarrow> False"

definition parseWireSignature :: "nat \<Rightarrow> json \<Rightarrow> (exn, wire_signature) result" where
  "parseWireSignature index candidate =
     (let label = ''wire DSSE signature '' @ dec index; keyid = get_field candidate ''keyid''
      in if \<not> is_object candidate then Inl (label @ '' must be an object'')
         else if \<not> exactKeys candidate (if keyid = JUndef then [''sig''] else [''keyid'', ''sig''])
         then Inl (label @ '' must contain exactly sig and optional keyid'')
         else if keyid \<noteq> JUndef \<and> json_string keyid = None then Inl (label @ '' keyid must be a string'')
         else bind_result (canonicalStandardBase64 (get_field candidate ''sig'') label)
                (\<lambda>bytes. Inr \<lparr>ws_keyid = json_string keyid, ws_signatureBytes = bytes\<rparr>))"

definition parseWireDsseEnvelope :: "json \<Rightarrow> (exn, parsed_envelope) result" where
  "parseWireDsseEnvelope value =
     (if \<not> is_object value \<or> \<not> exactKeys value [''payload'', ''payloadType'', ''signatures'']
      then Inl ''wire DSSE envelope must contain exactly payload, payloadType, and signatures''
      else case get_string value ''payloadType'' of
        None \<Rightarrow> Inl ''wire DSSE envelope payloadType must be a non-empty string''
      | Some payloadType \<Rightarrow>
          if payloadType = [] then Inl ''wire DSSE envelope payloadType must be a non-empty string''
          else bind_result (canonicalStandardBase64 (get_field value ''payload'') ''wire DSSE payload'') (\<lambda>payloadBytes.
            case get_field value ''signatures'' of
              JArr candidates \<Rightarrow>
                if candidates = [] then Inl ''wire DSSE envelope requires at least one signature''
                else bind_result (map_result (\<lambda>(index, candidate). parseWireSignature index candidate) (enumerate 0 candidates))
                  (\<lambda>decoded. Inr \<lparr>pe_payloadType = payloadType, pe_payloadBytes = payloadBytes, pe_signatures = decoded\<rparr>)
            | _ \<Rightarrow> Inl ''wire DSSE envelope requires at least one signature''))"

section \<open>Origins and sequences\<close>

definition formatOrigin :: "string \<Rightarrow> string \<Rightarrow> string" where
  "formatOrigin agent name = agent @ ''/'' @ name"

text \<open>\<open>origin.lastIndexOf("/")\<close>: the name is what follows the last slash.\<close>

definition splitOrigin :: "string \<Rightarrow> (exn, string \<times> string) result" where
  "splitOrigin origin =
     (if CHR ''/'' \<notin> set origin
      then Inl (''Origin must contain a / separating the agent IRI from the source name: '' @ origin)
      else let name = rev (takeWhile (\<lambda>c. c \<noteq> CHR ''/'') (rev origin))
           in Inr (take (length origin - length name - 1) origin, name))"

definition SEQUENCE_WIDTH :: nat where
  "SEQUENCE_WIDTH = 16"

definition formatSequence_discovery :: "int \<Rightarrow> (exn, string) result" where
  "formatSequence_discovery n =
     (if n < 1 then Inl (''Sequence must be a positive integer: '' @ dec_int n)
      else if length (dec_int n) > SEQUENCE_WIDTH
      then Inl (''Sequence exceeds the fixed 16-digit width: '' @ dec_int n)
      else Inr (padStart SEQUENCE_WIDTH CHR ''0'' (dec_int n)))"

text \<open>\<open>BigInt(s)\<close>: white space around a signed decimal, a prefixed literal, or nothing at all.\<close>

definition js_space :: "char \<Rightarrow> bool" where
  "js_space c \<longleftrightarrow> (of_char c :: nat) \<in> {9, 10, 11, 12, 13, 32, 160}"

definition js_trim :: "string \<Rightarrow> string" where
  "js_trim s = rev (dropWhile js_space (rev (dropWhile js_space s)))"

definition radix_digit :: "char \<Rightarrow> nat" where
  "radix_digit c =
     (let n = of_char c :: nat
      in if 48 \<le> n \<and> n \<le> 57 then n - 48 else if 97 \<le> n \<and> n \<le> 102 then n - 87
         else if 65 \<le> n \<and> n \<le> 70 then n - 55 else 99)"

definition radix_value :: "nat \<Rightarrow> string \<Rightarrow> int option" where
  "radix_value b ds =
     (if ds \<noteq> [] \<and> list_all (\<lambda>c. radix_digit c < b) ds
      then Some (foldl (\<lambda>acc c. acc * int b + int (radix_digit c)) 0 ds) else None)"

definition BigInt_of :: "string \<Rightarrow> int option" where
  "BigInt_of s =
     (case js_trim s of
        [] \<Rightarrow> Some 0
      | [c] \<Rightarrow> radix_value 10 [c]
      | c # p # ds \<Rightarrow>
          if c = CHR ''0'' \<and> p \<in> {CHR ''x'', CHR ''X''} then radix_value 16 ds
          else if c = CHR ''0'' \<and> p \<in> {CHR ''o'', CHR ''O''} then radix_value 8 ds
          else if c = CHR ''0'' \<and> p \<in> {CHR ''b'', CHR ''B''} then radix_value 2 ds
          else if c = CHR ''-'' then map_option uminus (radix_value 10 (p # ds))
          else if c = CHR ''+'' then radix_value 10 (p # ds)
          else radix_value 10 (c # p # ds))"

definition nextSequence :: "string \<Rightarrow> (exn, string) result" where
  "nextSequence prev =
     (case BigInt_of prev of
        None \<Rightarrow> Inl (''SyntaxError: Cannot convert '' @ prev @ '' to a BigInt'')
      | Some n \<Rightarrow> formatSequence_discovery (n + 1))"

section \<open>The strict base64 reader\<close>

lemma length_takeWhile_nth:
  "distinct xs \<Longrightarrow> n < length xs \<Longrightarrow> length (takeWhile (\<lambda>d. d \<noteq> xs ! n) xs) = n"
proof (induction xs arbitrary: n)
  case (Cons x xs)
  then show ?case by (cases n) auto
qed simp

lemma b64_alphabet_facts: "distinct b64_alphabet" "length b64_alphabet = 64" "CHR ''='' \<notin> set b64_alphabet"
  by (simp_all add: b64_alphabet_def)

lemma b64_val_char [simp]: "n < 64 \<Longrightarrow> b64_val (b64_char n) = n"
  by (simp add: b64_val_def b64_char_def length_takeWhile_nth b64_alphabet_facts)

lemma b64_is_char [simp]: "n < 64 \<Longrightarrow> b64_is (b64_char n)"
  by (simp add: b64_is_def b64_char_def b64_alphabet_facts)

lemma b64_char_not_pad [simp]: "n < 64 \<Longrightarrow> b64_char n \<noteq> CHR ''=''"
  using b64_is_char [of n] b64_alphabet_facts(3) by (metis b64_is_def)

lemma byte_parts:
  fixes a b c :: char
  defines "x \<equiv> of_char a :: nat" and "y \<equiv> of_char b :: nat" and "z \<equiv> of_char c :: nat"
  shows "x div 4 < 64" and "x mod 4 * 16 + y div 16 < 64" and "y mod 16 * 4 + z div 64 < 64" and "z mod 64 < 64"
    and "x mod 4 * 16 < 64" and "y mod 16 * 4 < 64"
    and "x div 4 * 4 + (x mod 4 * 16 + y div 16) div 16 = x"
    and "(x mod 4 * 16 + y div 16) mod 16 * 16 + (y mod 16 * 4 + z div 64) div 4 = y"
    and "(x mod 4 * 16 + y div 16) mod 16 * 16 + y mod 16 = y"
    and "(y mod 16 * 4 + z div 64) mod 4 * 64 + z mod 64 = z"
proof -
  have "x < 256" "y < 256" "z < 256" by (simp_all add: x_def y_def z_def)
  then have bounds: "x div 4 < 64" "y div 16 < 16" "z div 64 < 4" by (simp_all add: less_mult_imp_div_less)
  show "x div 4 < 64" by (fact bounds)
  show "z mod 64 < 64" by simp
  show "x mod 4 * 16 < 64" "y mod 16 * 4 < 64" by simp_all
  have "x mod 4 \<le> 3" "y mod 16 \<le> 15" by simp_all
  then show "x mod 4 * 16 + y div 16 < 64" "y mod 16 * 4 + z div 64 < 64" using bounds by linarith+
  show "x div 4 * 4 + (x mod 4 * 16 + y div 16) div 16 = x" using bounds by simp
  show "(x mod 4 * 16 + y div 16) mod 16 * 16 + (y mod 16 * 4 + z div 64) div 4 = y"
    "(x mod 4 * 16 + y div 16) mod 16 * 16 + y mod 16 = y"
    using bounds by simp_all
  show "(y mod 16 * 4 + z div 64) mod 4 * 64 + z mod 64 = z" using bounds by simp
qed

lemma byte_quotients [simp]:
  "(of_char b :: nat) div 16 div 16 = 0" "(of_char b :: nat) div 16 mod 16 = of_char b div 16"
  "(of_char b :: nat) div 64 div 4 = 0" "(of_char b :: nat) div 64 mod 4 = of_char b div 64"
proof -
  have "(of_char b :: nat) div 16 < 16" "(of_char b :: nat) div 64 < 4"
    using of_char_less_256 [of b] by (simp_all add: less_mult_imp_div_less)
  then show "(of_char b :: nat) div 16 div 16 = 0" "(of_char b :: nat) div 16 mod 16 = of_char b div 16"
    "(of_char b :: nat) div 64 div 4 = 0" "(of_char b :: nat) div 64 mod 4 = of_char b div 64"
    by simp_all
qed

lemma atob_btoa [simp]: "atob (btoa bs) = bs"
  by (induction bs rule: btoa.induct) (simp_all add: Let_def byte_parts)

lemma b64_pattern_btoa [simp]: "b64_pattern (btoa bs)"
  by (induction bs rule: btoa.induct) (simp_all add: Let_def byte_parts)

lemma length_btoa: "length (btoa bs) = 4 * ((length bs + 2) div 3)"
proof (induction bs rule: btoa.induct)
  case (4 a b c rest)
  have "(length rest + 2 + 3) div 3 = (length rest + 2) div 3 + 1" by (rule div_add_self2) simp
  with 4 show ?case by (simp add: Let_def)
qed (simp_all add: Let_def)

lemma btoa_Nil_iff [simp]: "btoa bs = [] \<longleftrightarrow> bs = []"
  by (cases bs rule: btoa.cases) (simp_all add: Let_def)

lemma base64_reads_btoa: "canonicalStandardBase64 v l = Inr bs \<longleftrightarrow> bs \<noteq> [] \<and> v = JStr (btoa bs)"
proof
  assume "canonicalStandardBase64 v l = Inr bs"
  then obtain s where s: "v = JStr s" "s \<noteq> []" "btoa (atob s) = s" "bs = atob s"
    by (auto simp: canonicalStandardBase64_def split: json.splits if_splits)
  then show "bs \<noteq> [] \<and> v = JStr (btoa bs)" using btoa_Nil_iff [of bs] by auto
qed (simp add: canonicalStandardBase64_def length_btoa)

section \<open>The pre-authentication encoding\<close>

lemma dec_space_prefix [codec_inj]: "dec m @ CHR '' '' # r = dec n @ CHR '' '' # q \<longleftrightarrow> m = n \<and> r = q"
proof
  assume eq: "dec m @ CHR '' '' # r = dec n @ CHR '' '' # q"
  have "\<not> is_digit (CHR '' '')" by simp
  then have free: "CHR '' '' \<notin> set (dec k)" for k using dec_digits [of k] by blast
  have "dec m = dec n \<and> r = q" using eq unfolding sep_append_inj [OF free free] .
  then show "m = n \<and> r = q" by (simp add: dec_inj)
qed simp

lemma pae_frame_inj:
  "''DSSEv1 '' @ dec (length t) @ '' '' @ t @ '' '' @ dec (length p) @ '' '' @ p
   = ''DSSEv1 '' @ dec (length u) @ '' '' @ u @ '' '' @ dec (length q) @ '' '' @ q \<longleftrightarrow> t = u \<and> p = q"
proof
  assume "''DSSEv1 '' @ dec (length t) @ '' '' @ t @ '' '' @ dec (length p) @ '' '' @ p
    = ''DSSEv1 '' @ dec (length u) @ '' '' @ u @ '' '' @ dec (length q) @ '' '' @ q"
  then have outer: "dec (length t) @ CHR '' '' # t @ CHR '' '' # dec (length p) @ CHR '' '' # p
      = dec (length u) @ CHR '' '' # u @ CHR '' '' # dec (length q) @ CHR '' '' # q" by simp
  then have "length t = length u" and "t @ CHR '' '' # dec (length p) @ CHR '' '' # p = u @ CHR '' '' # dec (length q) @ CHR '' '' # q"
    unfolding dec_space_prefix by blast+
  then have "t = u" and "dec (length p) @ CHR '' '' # p = dec (length q) @ CHR '' '' # q"
    by simp_all
  then show "t = u \<and> p = q" unfolding dec_space_prefix by blast
qed simp

lemma pae_inj [codec_inj]:
  "dssePreAuthEncoding t p = dssePreAuthEncoding u q \<longleftrightarrow> t = u \<and> p = q"
  using pae_frame_inj [of "utf8_encode t" p "utf8_encode u" q] by (simp add: dssePreAuthEncoding_def Let_def utf8_encode_inj)

section \<open>Sequences\<close>

text \<open>A sequence as the schemas admit it: sixteen decimal digits.\<close>

definition is_sequence :: "string \<Rightarrow> bool" where
  "is_sequence s \<longleftrightarrow> length s = SEQUENCE_WIDTH \<and> list_all is_digit s"

lemma dec_is_digit: "list_all is_digit (dec n)"
  using dec_digits [of n] by (simp add: list_all_iff)

lemma js_trim_digits: "list_all is_digit s \<Longrightarrow> js_trim s = s"
proof -
  assume digits: "list_all is_digit s"
  have "dropWhile js_space t = t" if "list_all is_digit t" for t
    using that by (cases t) (auto simp: js_space_def)
  then show ?thesis using digits by (simp add: js_trim_def list_all_iff)
qed

lemma radix_value_digits:
  assumes "s \<noteq> []" and "list_all is_digit s"
  shows "radix_value 10 s = Some (int (nat_of_digits s))"
proof -
  have dig: "radix_digit c = digit_val c" if "is_digit c" for c
    using that by (simp add: radix_digit_def digit_val_def)
  have "foldl (\<lambda>acc c. acc * 10 + int (radix_digit c)) (int k) s = int (foldl (\<lambda>a c. 10 * a + digit_val c) k s)" for k
    using assms(2)
  proof (induction s arbitrary: k)
    case (Cons c s)
    then show ?case using Cons.IH [of "10 * k + digit_val c"] by (simp add: dig mult.commute)
  qed simp
  from this [of 0] show ?thesis using assms by (auto simp: radix_value_def nat_of_digits_def list_all_iff dig)
qed

lemma BigInt_of_digits:
  assumes "s \<noteq> []" and "list_all is_digit s"
  shows "BigInt_of s = Some (int (nat_of_digits s))"
proof -
  have no_mark: "c \<notin> {CHR ''-'', CHR ''+'', CHR ''x'', CHR ''X'', CHR ''o'', CHR ''O'', CHR ''b'', CHR ''B''}"
    if "is_digit c" for c using that by auto
  have trim: "js_trim s = s" using assms(2) by (rule js_trim_digits)
  show ?thesis
  proof (cases "tl s")
    case Nil
    then obtain c where "s = [c]" using assms(1) by (cases s) simp_all
    with trim radix_value_digits [OF assms] show ?thesis by (simp only: BigInt_of_def list.case)
  next
    case (Cons p ds)
    then obtain c where s: "s = c # p # ds" using assms(1) by (cases s) simp_all
    then have "is_digit c" "is_digit p" using assms(2) by simp_all
    then have "c \<noteq> CHR ''-''" "c \<noteq> CHR ''+''" "p \<notin> {CHR ''x'', CHR ''X''}" "p \<notin> {CHR ''o'', CHR ''O''}" "p \<notin> {CHR ''b'', CHR ''B''}"
      using no_mark by blast+
    then show ?thesis using trim radix_value_digits [OF assms]
      by (simp only: BigInt_of_def s list.case if_False simp_thms)
  qed
qed

lemma length_dec_bound: "length (dec n) \<le> k \<Longrightarrow> n < 10 ^ k"
proof -
  assume "length (dec n) \<le> k"
  then have "(10 :: nat) ^ length (dec n) \<le> 10 ^ k" by (simp add: power_increasing)
  moreover have "n < 10 ^ length (dec n)" using nat_of_digits_less [of "dec n"] dec_digits [of n] by simp
  ultimately show ?thesis by (rule less_le_trans [rotated])
qed

lemma formatSequence_iff:
  "formatSequence_discovery n = Inr q
     \<longleftrightarrow> 1 \<le> n \<and> n < 10 ^ SEQUENCE_WIDTH \<and> q = padStart SEQUENCE_WIDTH CHR ''0'' (dec (nat n))"
proof -
  have "length (dec (nat n)) \<le> SEQUENCE_WIDTH \<longleftrightarrow> n < 10 ^ SEQUENCE_WIDTH" if "1 \<le> n"
  proof -
    have "length (dec (nat n)) \<le> SEQUENCE_WIDTH \<longleftrightarrow> nat n < 10 ^ SEQUENCE_WIDTH"
      using length_dec_le [of SEQUENCE_WIDTH "nat n"] length_dec_bound [of "nat n" SEQUENCE_WIDTH]
      by (auto simp: SEQUENCE_WIDTH_def)
    also have "\<dots> \<longleftrightarrow> n < 10 ^ SEQUENCE_WIDTH" using that by (simp add: SEQUENCE_WIDTH_def nat_less_iff)
    finally show ?thesis .
  qed
  then show ?thesis by (auto simp: formatSequence_discovery_def dec_int_def not_less)
qed

lemma formatSequence_is_sequence:
  assumes "formatSequence_discovery n = Inr q"
  shows "is_sequence q" and "nat_of_digits q = nat n"
proof -
  have q: "q = padStart SEQUENCE_WIDTH CHR ''0'' (dec (nat n))" "nat n < 10 ^ SEQUENCE_WIDTH"
    using assms by (auto simp: formatSequence_iff SEQUENCE_WIDTH_def)
  then have "length (dec (nat n)) \<le> SEQUENCE_WIDTH" by (intro length_dec_le) (simp add: SEQUENCE_WIDTH_def)
  moreover have "list_all is_digit q"
    using dec_is_digit [of "nat n"] set_padStart [of SEQUENCE_WIDTH "CHR ''0''" "dec (nat n)"] q(1)
    by (fastforce simp: list_all_iff)
  ultimately show "is_sequence q" using q(1) by (simp add: is_sequence_def)
  show "nat_of_digits q = nat n" using q(1) by simp
qed

lemma is_sequence_BigInt: "is_sequence s \<Longrightarrow> BigInt_of s = Some (int (nat_of_digits s))"
  by (rule BigInt_of_digits) (auto simp: is_sequence_def SEQUENCE_WIDTH_def)

lemma nextSequence_value:
  assumes "nextSequence p = Inr q"
  obtains n where "BigInt_of p = Some n" and "0 \<le> n" and "BigInt_of q = Some (n + 1)" and "is_sequence q"
    and "nat_of_digits q = nat n + 1"
proof -
  from assms obtain n where n: "BigInt_of p = Some n" "formatSequence_discovery (n + 1) = Inr q"
    by (auto simp: nextSequence_def split: option.splits)
  then have "0 \<le> n" by (simp add: formatSequence_iff)
  with n formatSequence_is_sequence [OF n(2)] is_sequence_BigInt [of q]
  show thesis by (intro that [of n]) (simp_all add: nat_add_distrib)
qed

lemma nextSequence_iff:
  assumes "is_sequence p"
  shows "nextSequence p = Inr q \<longleftrightarrow> is_sequence q \<and> nat_of_digits q = Suc (nat_of_digits p)"
proof
  show "nextSequence p = Inr q \<Longrightarrow> is_sequence q \<and> nat_of_digits q = Suc (nat_of_digits p)"
    using is_sequence_BigInt [OF assms] by (elim nextSequence_value) auto
  assume q: "is_sequence q \<and> nat_of_digits q = Suc (nat_of_digits p)"
  let ?t = "padStart SEQUENCE_WIDTH CHR ''0'' (dec (nat_of_digits q))"
  have bound: "nat_of_digits q < 10 ^ SEQUENCE_WIDTH"
    using q nat_of_digits_less [of q] by (simp add: is_sequence_def list_all_iff)
  have form: "formatSequence_discovery (int (nat_of_digits p) + 1) = Inr ?t"
    unfolding formatSequence_iff using q bound by (simp add: SEQUENCE_WIDTH_def nat_add_distrib)
  have "is_sequence ?t" "nat_of_digits ?t = nat_of_digits q" using formatSequence_is_sequence [OF form] q by simp_all
  then have "?t = q" using q digits_eq_iff [of ?t q] by (simp add: is_sequence_def list_all_iff)
  then show "nextSequence p = Inr q" using form is_sequence_BigInt [OF assms] by (simp add: nextSequence_def)
qed

end
