(* ===== verification/Source_Chain.thy ===== *)
theory Source_Chain
  imports Dsse
begin

text \<open>
  Announcement entries and the structural rules of a source chain: discovery/protocol/src/entry.ts,
  item.ts, identifiers.ts and verify/chain-rules.ts.

  An entry is the record of its declared fields; \<open>entry_object\<close> is the object that is sealed.
  \<open>digestEntries\<close>, \<open>checkGlobalChainRules\<close> and \<open>walkLinkage\<close> follow the code branch by branch. A \<open>Map\<close>
  that is only read is a function; \<open>byPrevious\<close>, which is iterated, is an association list. The walk
  recurses on the sequence number: each step it takes was checked to lower it by one, so it ends.

  The lemmas show what a completed walk has established (\<open>walk_sound\<close>), that it visits no entry twice,
  when the global rules accept, and that the digest a walk starts from commits to everything it visits.
\<close>

section \<open>Entries\<close>

record record_ref =
  ref_kind :: string
  ref_digest :: string
  ref_mediaType :: "string option"

record published_location =
  loc_profile :: string
  loc_locator :: string

datatype withdrawal_reason = Delisted | Superseded | Reorged | ErrorReason

datatype announcement =
    Available (announcementId: string) record_ref "published_location list option" "json option"
  | Withdrawn (announcementId: string) (retracts: string) withdrawal_reason

record announcement_entry =
  en_protocol :: string
  en_agent :: string
  en_name :: string
  en_sequence :: string
  en_previous :: "string option"
  en_timestamp :: string
  en_announcements :: "announcement list"

definition optional :: "string \<Rightarrow> json option \<Rightarrow> (string \<times> json) list" where
  "optional key v = (case v of None \<Rightarrow> [] | Some j \<Rightarrow> [(key, j)])"

definition ref_object :: "record_ref \<Rightarrow> json" where
  "ref_object r =
     JObj ([(''kind'', JStr (ref_kind r)), (''digest'', JStr (ref_digest r))]
       @ optional ''mediaType'' (map_option JStr (ref_mediaType r)))"

definition location_object :: "published_location \<Rightarrow> json" where
  "location_object l = JObj [(''profile'', JStr (loc_profile l)), (''locator'', JStr (loc_locator l))]"

fun reason_text :: "withdrawal_reason \<Rightarrow> string" where
  "reason_text Delisted = ''delisted''"
| "reason_text Superseded = ''superseded''"
| "reason_text Reorged = ''reorged''"
| "reason_text ErrorReason = ''error''"

fun announcement_object :: "announcement \<Rightarrow> json" where
  "announcement_object (Available aid r locations facts) =
     JObj ([(''announcementId'', JStr aid), (''action'', JStr ''available''), (''record'', ref_object r)]
       @ optional ''locations'' (map_option (\<lambda>ls. JArr (map location_object ls)) locations)
       @ optional ''facts'' facts)"
| "announcement_object (Withdrawn aid r reason) =
     JObj [(''announcementId'', JStr aid), (''action'', JStr ''withdrawn''), (''retracts'', JStr r),
           (''reason'', JStr (reason_text reason))]"

definition entry_object :: "announcement_entry \<Rightarrow> json" where
  "entry_object e =
     JObj [(''protocol'', JStr (en_protocol e)),
           (''source'', JObj [(''agent'', JStr (en_agent e)), (''name'', JStr (en_name e))]),
           (''sequence'', JStr (en_sequence e)),
           (''previous'', case en_previous e of None \<Rightarrow> JNull | Some d \<Rightarrow> JStr d),
           (''timestamp'', JStr (en_timestamp e)),
           (''announcements'', JArr (map announcement_object (en_announcements e)))]"

definition GENESIS_SEQUENCE :: string where
  "GENESIS_SEQUENCE = ''0000000000000001''"

definition entrySealedBytes :: nat where
  "entrySealedBytes = 2 ^ 20"

definition itemsPerEntry :: nat where
  "itemsPerEntry = 512"

definition factsCardBytes :: nat where
  "factsCardBytes = 4 * 2 ^ 10"

section \<open>Digested entries\<close>

record digested_entry =
  dg_digest :: string
  dg_entry :: announcement_entry
  dg_sealedBytes :: bytes

definition digestEntry :: "(bytes \<Rightarrow> string) \<Rightarrow> announcement_entry \<Rightarrow> (exn, digested_entry) result" where
  "digestEntry sha256Hex entry =
     bind_result (sealJson sha256Hex (entry_object entry))
       (\<lambda>(bytes, digest). Inr \<lparr>dg_digest = digest, dg_entry = entry, dg_sealedBytes = bytes\<rparr>)"

definition digestEntries :: "(bytes \<Rightarrow> string) \<Rightarrow> announcement_entry list \<Rightarrow> (exn, digested_entry list) result" where
  "digestEntries sha256Hex entries = map_result (digestEntry sha256Hex) entries"

text \<open>\<open>new Map(digested.map(d => [d.digest, d]))\<close>: the last of several entries under a digest stays.\<close>

definition byDigestOf :: "digested_entry list \<Rightarrow> (string \<rightharpoonup> digested_entry)" where
  "byDigestOf digested = map_of (rev (map (\<lambda>d. (dg_digest d, d)) digested))"

section \<open>The global rules\<close>

datatype global_failure =
    DuplicateGenesis
  | ForkedEntries announcement_entry announcement_entry
  | DuplicateAnnouncementId string
  | ForeignRetraction string
  | WithdrawalOfWithdrawal string

datatype action = ActAvailable | ActWithdrawn

definition genesisDigests :: "digested_entry list \<Rightarrow> string list" where
  "genesisDigests digested = insertion_order (map dg_digest (filter (\<lambda>d. en_previous (dg_entry d) = None) digested))"

definition byPreviousStep :: "(string \<times> digested_entry list) list \<Rightarrow> digested_entry \<Rightarrow> (string \<times> digested_entry list) list" where
  "byPreviousStep m d =
     (case en_previous (dg_entry d) of
        None \<Rightarrow> m
      | Some p \<Rightarrow> AList.update p ((case map_of m p of None \<Rightarrow> [] | Some siblings \<Rightarrow> siblings) @ [d]) m)"

definition byPrevious :: "digested_entry list \<Rightarrow> (string \<times> digested_entry list) list" where
  "byPrevious digested = foldl byPreviousStep [] digested"

definition distinctByDigest :: "digested_entry list \<Rightarrow> digested_entry list" where
  "distinctByDigest siblings = map snd (foldl (\<lambda>m d. AList.update (dg_digest d) d m) [] siblings)"

fun firstFork :: "(string \<times> digested_entry list) list \<Rightarrow> global_failure option" where
  "firstFork [] = None"
| "firstFork ((_, siblings) # rest) =
     (case distinctByDigest siblings of
        a # b # _ \<Rightarrow> Some (ForkedEntries (dg_entry a) (dg_entry b))
      | _ \<Rightarrow> firstFork rest)"

definition compareBySequence :: "digested_entry \<Rightarrow> digested_entry \<Rightarrow> int" where
  "compareBySequence l r =
     (if en_sequence (dg_entry l) \<noteq> en_sequence (dg_entry r)
      then if en_sequence (dg_entry l) < en_sequence (dg_entry r) then -1 else 1
      else compareCodeUnitStrings (dg_digest l) (dg_digest r))"

fun scanAnnouncements ::
  "(string \<rightharpoonup> action) \<Rightarrow> announcement list \<Rightarrow> (global_failure, string \<rightharpoonup> action) result" where
  "scanAnnouncements actionById [] = Inr actionById"
| "scanAnnouncements actionById (Available aid r l f # rest) =
     (if actionById aid \<noteq> None then Inl (DuplicateAnnouncementId aid)
      else scanAnnouncements (actionById(aid \<mapsto> ActAvailable)) rest)"
| "scanAnnouncements actionById (Withdrawn aid target reason # rest) =
     (if actionById aid \<noteq> None then Inl (DuplicateAnnouncementId aid)
      else case actionById target of
        None \<Rightarrow> Inl (ForeignRetraction aid)
      | Some ActWithdrawn \<Rightarrow> Inl (WithdrawalOfWithdrawal aid)
      | Some ActAvailable \<Rightarrow> scanAnnouncements (actionById(aid \<mapsto> ActWithdrawn)) rest)"

definition orderedAnnouncements :: "digested_entry list \<Rightarrow> announcement list" where
  "orderedAnnouncements digested =
     concat (map (\<lambda>d. en_announcements (dg_entry d)) (js_sort compareBySequence digested))"

definition checkGlobalChainRules :: "digested_entry list \<Rightarrow> global_failure option" where
  "checkGlobalChainRules digested =
     (if length (genesisDigests digested) > 1 then Some DuplicateGenesis
      else case firstFork (byPrevious digested) of
        Some failure \<Rightarrow> Some failure
      | None \<Rightarrow>
          (case scanAnnouncements Map.empty (orderedAnnouncements digested) of
             Inl failure \<Rightarrow> Some failure
           | Inr _ \<Rightarrow> None))"

section \<open>The linkage walk\<close>

datatype linkage_failure = Linkage | SequenceContiguity | EntryCeiling

record linkage_boundary =
  lb_digest :: string
  lb_sequence :: string

fun facts_card :: "json option \<Rightarrow> json" where
  "facts_card None = JObj []"
| "facts_card (Some JUndef) = JObj []"
| "facts_card (Some JNull) = JObj []"
| "facts_card (Some v) = v"

fun cardsWithin :: "announcement list \<Rightarrow> (exn, bool) result" where
  "cardsWithin [] = Inr True"
| "cardsWithin (Withdrawn _ _ _ # rest) = cardsWithin rest"
| "cardsWithin (Available _ _ _ facts # rest) =
     bind_result (sealBytes (facts_card facts))
       (\<lambda>card. if length card > factsCardBytes then Inr False else cardsWithin rest)"

datatype visit = GoOn string | Reached | Refuse linkage_failure

text \<open>The boundary test of one visited node: \<open>None\<close> lets the walk go on.\<close>

definition atBoundary ::
  "(string \<rightharpoonup> digested_entry) \<Rightarrow> linkage_boundary option \<Rightarrow> digested_entry \<Rightarrow> (exn, visit option) result" where
  "atBoundary byDigest stopAt node =
     (case stopAt of
        None \<Rightarrow> Inr None
      | Some b \<Rightarrow>
          if dg_digest node = lb_digest b then Inr (Some Reached)
          else if en_previous (dg_entry node) = Some (lb_digest b) \<and> byDigest (lb_digest b) = None
          then bind_result (nextSequence (lb_sequence b))
                 (\<lambda>s. Inr (Some (if s \<noteq> en_sequence (dg_entry node) then Refuse SequenceContiguity else Reached)))
          else Inr None)"

definition toParent ::
  "(string \<rightharpoonup> digested_entry) \<Rightarrow> linkage_boundary option \<Rightarrow> digested_entry \<Rightarrow> (exn, visit) result" where
  "toParent byDigest stopAt node =
     (case en_previous (dg_entry node) of
        None \<Rightarrow> Inr (if stopAt = None then Reached else Refuse Linkage)
      | Some previous \<Rightarrow>
          (case byDigest previous of
             None \<Rightarrow> Inr (Refuse Linkage)
           | Some parent \<Rightarrow>
               bind_result (nextSequence (en_sequence (dg_entry parent)))
                 (\<lambda>s. Inr (if s \<noteq> en_sequence (dg_entry node) then Refuse SequenceContiguity else GoOn previous))))"

definition visitNode ::
  "(string \<rightharpoonup> digested_entry) \<Rightarrow> linkage_boundary option \<Rightarrow> digested_entry \<Rightarrow> (exn, visit) result" where
  "visitNode byDigest stopAt node =
     (if length (dg_sealedBytes node) > entrySealedBytes then Inr (Refuse EntryCeiling)
      else if length (en_announcements (dg_entry node)) > itemsPerEntry then Inr (Refuse EntryCeiling)
      else bind_result (cardsWithin (en_announcements (dg_entry node))) (\<lambda>within.
        if \<not> within then Inr (Refuse EntryCeiling)
        else bind_result (atBoundary byDigest stopAt node) (\<lambda>stop.
          case stop of Some outcome \<Rightarrow> Inr outcome | None \<Rightarrow> toParent byDigest stopAt node)))"

definition sequence_rank :: "(string \<rightharpoonup> digested_entry) \<Rightarrow> string \<Rightarrow> nat" where
  "sequence_rank byDigest cursor =
     (case byDigest cursor of
        None \<Rightarrow> 0
      | Some node \<Rightarrow> (case BigInt_of (en_sequence (dg_entry node)) of None \<Rightarrow> 0 | Some n \<Rightarrow> nat n))"

lemma atBoundary_no_GoOn: "atBoundary byDigest stopAt node \<noteq> Inr (Some (GoOn c))"
  by (auto simp: atBoundary_def bind_result_Inr_iff split: option.splits)

lemma visitNode_GoOn:
  assumes "visitNode byDigest stopAt node = Inr (GoOn c)"
  obtains parent where "en_previous (dg_entry node) = Some c" and "byDigest c = Some parent"
    and "nextSequence (en_sequence (dg_entry parent)) = Inr (en_sequence (dg_entry node))"
  using assms atBoundary_no_GoOn [of byDigest stopAt node c]
  by (auto simp: visitNode_def toParent_def bind_result_Inr_iff split: if_splits option.splits)

lemma sequence_rank_decreases:
  assumes "byDigest cursor = Some node" and "visitNode byDigest stopAt node = Inr (GoOn c)"
  shows "sequence_rank byDigest c < sequence_rank byDigest cursor"
  using assms(2)
proof (rule visitNode_GoOn)
  fix parent
  assume parent: "byDigest c = Some parent" "nextSequence (en_sequence (dg_entry parent)) = Inr (en_sequence (dg_entry node))"
  from parent(2) show ?thesis
    by (rule nextSequence_value) (simp add: sequence_rank_def assms(1) parent(1) nat_add_distrib)
qed

function walkLoop ::
  "(string \<rightharpoonup> digested_entry) \<Rightarrow> linkage_boundary option \<Rightarrow> string \<Rightarrow> digested_entry list
    \<Rightarrow> (exn, (linkage_failure, digested_entry list) result) result" where
  "walkLoop byDigest stopAt cursor walked =
     (case byDigest cursor of
        None \<Rightarrow> Inr (Inl Linkage)
      | Some node \<Rightarrow>
          (case visitNode byDigest stopAt node of
             Inl e \<Rightarrow> Inl e
           | Inr v \<Rightarrow>
               (case v of
                  Refuse failure \<Rightarrow> Inr (Inl failure)
                | Reached \<Rightarrow> Inr (Inr (walked @ [node]))
                | GoOn previous \<Rightarrow> walkLoop byDigest stopAt previous (walked @ [node]))))"
  by pat_completeness auto
termination
  by (relation "measure (\<lambda>(byDigest, stopAt, cursor, walked). sequence_rank byDigest cursor)")
    (simp_all add: sequence_rank_decreases)

declare walkLoop.simps [simp del]

definition walkLinkage ::
  "(string \<rightharpoonup> digested_entry) \<Rightarrow> string \<Rightarrow> linkage_boundary option
    \<Rightarrow> (exn, (linkage_failure, digested_entry list) result) result" where
  "walkLinkage byDigest headEntryDigest stopAt = walkLoop byDigest stopAt headEntryDigest []"

section \<open>What a walk establishes\<close>

definition within_ceilings :: "digested_entry \<Rightarrow> bool" where
  "within_ceilings n \<longleftrightarrow> length (dg_sealedBytes n) \<le> entrySealedBytes
     \<and> length (en_announcements (dg_entry n)) \<le> itemsPerEntry \<and> cardsWithin (en_announcements (dg_entry n)) = Inr True"

definition child_of :: "(string \<rightharpoonup> digested_entry) \<Rightarrow> digested_entry \<Rightarrow> digested_entry \<Rightarrow> bool" where
  "child_of byDigest n parent \<longleftrightarrow> (case en_previous (dg_entry n) of None \<Rightarrow> False | Some p \<Rightarrow> byDigest p = Some parent)
     \<and> nextSequence (en_sequence (dg_entry parent)) = Inr (en_sequence (dg_entry n))"

definition ends_at :: "(string \<rightharpoonup> digested_entry) \<Rightarrow> linkage_boundary option \<Rightarrow> digested_entry \<Rightarrow> bool" where
  "ends_at byDigest stopAt n \<longleftrightarrow>
     (case stopAt of
        None \<Rightarrow> en_previous (dg_entry n) = None
      | Some b \<Rightarrow> dg_digest n = lb_digest b
          \<or> en_previous (dg_entry n) = Some (lb_digest b) \<and> byDigest (lb_digest b) = None
            \<and> nextSequence (lb_sequence b) = Inr (en_sequence (dg_entry n)))"

definition not_boundary :: "linkage_boundary option \<Rightarrow> digested_entry \<Rightarrow> bool" where
  "not_boundary stopAt n \<longleftrightarrow> (case stopAt of None \<Rightarrow> True | Some b \<Rightarrow> dg_digest n \<noteq> lb_digest b)"

text \<open>The path from a digest: newest first, each entry the child of the next, stopping at the boundary.\<close>

fun walk_path :: "(string \<rightharpoonup> digested_entry) \<Rightarrow> linkage_boundary option \<Rightarrow> digested_entry list \<Rightarrow> bool" where
  "walk_path byDigest stopAt [] \<longleftrightarrow> False"
| "walk_path byDigest stopAt [n] \<longleftrightarrow> within_ceilings n \<and> ends_at byDigest stopAt n"
| "walk_path byDigest stopAt (n # m # ns) \<longleftrightarrow> within_ceilings n \<and> not_boundary stopAt n \<and> child_of byDigest n m
     \<and> walk_path byDigest stopAt (m # ns)"

lemma visitNode_Reached:
  "visitNode byDigest stopAt n = Inr Reached \<longleftrightarrow> within_ceilings n \<and> ends_at byDigest stopAt n"
  by (auto simp: visitNode_def within_ceilings_def atBoundary_def toParent_def ends_at_def bind_result_Inr_iff
      split: if_splits option.splits)

lemma visitNode_GoOn_iff:
  "visitNode byDigest stopAt n = Inr (GoOn c) \<longleftrightarrow> within_ceilings n \<and> not_boundary stopAt n
     \<and> en_previous (dg_entry n) = Some c \<and> (\<exists>m. byDigest c = Some m \<and> child_of byDigest n m)"
  by (auto simp: visitNode_def within_ceilings_def atBoundary_def toParent_def not_boundary_def child_of_def
      bind_result_Inr_iff split: if_splits option.splits)

lemma walkLoop_sound:
  "walkLoop byDigest stopAt cursor walked = Inr (Inr out) \<Longrightarrow>
     \<exists>ns. out = walked @ ns \<and> walk_path byDigest stopAt ns \<and> byDigest cursor = Some (hd ns)"
proof (induction byDigest stopAt cursor walked rule: walkLoop.induct)
  case (1 byDigest stopAt cursor walked)
  then obtain n v where n: "byDigest cursor = Some n" "visitNode byDigest stopAt n = Inr v"
    by (auto simp: walkLoop.simps [of byDigest stopAt cursor] split: option.splits sum.splits)
  show ?case
  proof (cases v)
    case (GoOn c)
    with n "1.prems" have "walkLoop byDigest stopAt c (walked @ [n]) = Inr (Inr out)"
      by (simp add: walkLoop.simps [of byDigest stopAt cursor])
    from "1.IH" [OF n GoOn this] obtain ns where ns: "out = (walked @ [n]) @ ns" "walk_path byDigest stopAt ns"
        "byDigest c = Some (hd ns)" by blast
    from ns(2) obtain m ms where "ns = m # ms" by (cases ns) simp_all
    with ns n GoOn have "walk_path byDigest stopAt (n # ns)" by (auto simp: visitNode_GoOn_iff)
    with ns(1) n(1) show ?thesis by (intro exI [of _ "n # ns"]) simp
  next
    case Reached
    with n "1.prems" have "out = walked @ [n]" by (simp add: walkLoop.simps [of byDigest stopAt cursor])
    with n Reached show ?thesis by (auto simp: visitNode_Reached intro!: exI [of _ "[n]"])
  next
    case (Refuse f)
    with n "1.prems" show ?thesis by (simp add: walkLoop.simps [of byDigest stopAt cursor])
  qed
qed

lemma walkLoop_complete:
  "walk_path byDigest stopAt ns \<Longrightarrow> byDigest cursor = Some (hd ns) \<Longrightarrow>
     walkLoop byDigest stopAt cursor walked = Inr (Inr (walked @ ns))"
proof (induction byDigest stopAt ns arbitrary: cursor walked rule: walk_path.induct)
  case (2 byDigest stopAt n)
  then show ?case using visitNode_Reached [of byDigest stopAt n] by (simp add: walkLoop.simps [of byDigest stopAt cursor])
next
  case (3 byDigest stopAt n m ns)
  then obtain c where c: "en_previous (dg_entry n) = Some c" "byDigest c = Some m"
    by (auto simp: child_of_def split: option.splits)
  with 3 have "visitNode byDigest stopAt n = Inr (GoOn c)" by (auto simp: visitNode_GoOn_iff)
  with 3 c show ?case by (simp add: walkLoop.simps [of byDigest stopAt cursor])
qed simp

lemma walkLinkage_iff:
  "walkLinkage byDigest h stopAt = Inr (Inr ns) \<longleftrightarrow> walk_path byDigest stopAt ns \<and> byDigest h = Some (hd ns)"
  using walkLoop_sound [of byDigest stopAt h "[]" ns] walkLoop_complete [of byDigest stopAt ns h "[]"]
  by (auto simp: walkLinkage_def)

text \<open>Sequence numbers fall by one along a path, so no entry occurs twice.\<close>

definition sequence_number :: "digested_entry \<Rightarrow> int" where
  "sequence_number n = (case BigInt_of (en_sequence (dg_entry n)) of None \<Rightarrow> 0 | Some k \<Rightarrow> k)"

lemma child_of_number: "child_of byDigest n m \<Longrightarrow> sequence_number n = sequence_number m + 1 \<and> 0 \<le> sequence_number m"
  by (auto simp: child_of_def sequence_number_def elim!: nextSequence_value)

lemma walk_path_numbers:
  "walk_path byDigest stopAt ns \<Longrightarrow> i < length ns \<Longrightarrow> sequence_number (ns ! i) = sequence_number (hd ns) - int i"
proof (induction byDigest stopAt ns arbitrary: i rule: walk_path.induct)
  case (3 byDigest stopAt n m ns)
  then show ?case using child_of_number [of byDigest n m] by (cases i) auto
qed simp_all

lemma walk_path_distinct: "walk_path byDigest stopAt ns \<Longrightarrow> distinct ns"
  by (metis (no_types, lifting) distinct_conv_nth of_nat_eq_iff diff_left_imp_eq walk_path_numbers diff_eq_diff_eq
      walk_path_numbers)

lemma walk_path_members:
  "walk_path byDigest stopAt ns \<Longrightarrow> byDigest h = Some (hd ns) \<Longrightarrow> set ns \<subseteq> ran byDigest"
proof (induction byDigest stopAt ns arbitrary: h rule: walk_path.induct)
  case (3 byDigest stopAt n m ns)
  then obtain c where "byDigest c = Some m" by (auto simp: child_of_def split: option.splits)
  with 3 show ?case by (auto simp: ran_def)
qed (auto simp: ran_def)

lemma byDigestOf_Some: "byDigestOf digested d = Some n \<Longrightarrow> n \<in> set digested \<and> dg_digest n = d"
  by (auto simp: byDigestOf_def dest!: map_of_SomeD)

lemma byDigestOf_None: "byDigestOf digested d = None \<longleftrightarrow> d \<notin> dg_digest ` set digested"
  by (auto simp: byDigestOf_def map_of_eq_None_iff image_image)

lemma walk_length:
  assumes "walkLinkage (byDigestOf digested) h stopAt = Inr (Inr ns)"
  shows "distinct ns" and "set ns \<subseteq> set digested" and "length ns \<le> length digested"
proof -
  have path: "walk_path (byDigestOf digested) stopAt ns" "byDigestOf digested h = Some (hd ns)"
    using assms by (simp_all add: walkLinkage_iff)
  show distinct: "distinct ns" using path(1) by (rule walk_path_distinct)
  show sub: "set ns \<subseteq> set digested"
    using walk_path_members [OF path] by (auto simp: ran_def dest: byDigestOf_Some)
  have "length ns = card (set ns)" using distinct by (simp add: distinct_card)
  also have "\<dots> \<le> card (set digested)" using sub by (simp add: card_mono)
  finally show "length ns \<le> length digested" using card_length [of digested] by simp
qed

section \<open>A digest commits to its history\<close>

text \<open>An entry whose facts are well-formed values; the other fields are strings of the record.\<close>

definition entry_ok :: "announcement_entry \<Rightarrow> bool" where
  "entry_ok e \<longleftrightarrow> json_ok (entry_object e)"

definition genuine :: "(bytes \<Rightarrow> string) \<Rightarrow> digested_entry \<Rightarrow> bool" where
  "genuine sha256Hex d \<longleftrightarrow> digestEntry sha256Hex (dg_entry d) = Inr d \<and> entry_ok (dg_entry d)"

definition hash_collision :: "digested_entry list \<Rightarrow> bool" where
  "hash_collision ds \<longleftrightarrow> (\<exists>a \<in> set ds. \<exists>b \<in> set ds. dg_digest a = dg_digest b \<and> dg_sealedBytes a \<noteq> dg_sealedBytes b)"

lemma digestEntry_Inr:
  "digestEntry sha e = Inr d \<longleftrightarrow>
     (\<exists>bytes. sealBytes (entry_object e) = Inr bytes
        \<and> d = \<lparr>dg_digest = recordDigest sha bytes, dg_entry = e, dg_sealedBytes = bytes\<rparr>)"
  by (auto simp: digestEntry_def sealJson_def bind_result_Inr_iff)

lemma digestEntries_genuine:
  assumes "digestEntries sha es = Inr ds" and "list_all entry_ok es"
  shows "list_all (genuine sha) ds" and "map dg_entry ds = es"
proof -
  have all: "list_all2 (\<lambda>e d. digestEntry sha e = Inr d) es ds"
    using assms(1) by (simp add: digestEntries_def map_result_Inr_iff)
  have "dg_entry d = e" if "digestEntry sha e = Inr d" for e d using that by (auto simp: digestEntry_Inr)
  with all assms(2) show "list_all (genuine sha) ds" "map dg_entry ds = es"
    by (induction rule: list_all2_induct) (auto simp: genuine_def)
qed

lemma same_bytes_entry:
  assumes "genuine sha a" and "genuine sha b" and "dg_sealedBytes a = dg_sealedBytes b"
  shows "en_previous (dg_entry a) = en_previous (dg_entry b)"
    and "en_sequence (dg_entry a) = en_sequence (dg_entry b)"
proof -
  let ?u = "entry_object (dg_entry a)" and ?v = "entry_object (dg_entry b)"
  have ok: "json_ok ?u" "json_ok ?v" using assms by (simp_all add: genuine_def entry_ok_def)
  moreover have "sealBytes ?u = Inr (dg_sealedBytes a)" "sealBytes ?v = Inr (dg_sealedBytes b)"
    using assms(1,2) by (auto simp: genuine_def digestEntry_Inr) (metis digested_entry.simps(3))+
  ultimately have "norm_json ?u = norm_json ?v" using sealBytes_eq_iff assms(3) by blast
  then have field: "norm_json (get_field ?u k) = norm_json (get_field ?v k)" for k
    using ok by (metis norm_get_field)
  show "en_previous (dg_entry a) = en_previous (dg_entry b)"
    using field [of "''previous''"] by (auto simp: entry_object_def split: option.splits)
  show "en_sequence (dg_entry a) = en_sequence (dg_entry b)"
    using field [of "''sequence''"] by (simp add: entry_object_def)
qed

lemma walk_path_step:
  assumes "walk_path (byDigestOf ds) stopAt (n # m # ns)"
  shows "en_previous (dg_entry n) = Some (dg_digest m)" and "walk_path (byDigestOf ds) stopAt (m # ns)" and "m \<in> set ds"
proof -
  have "child_of (byDigestOf ds) n m" and tail: "walk_path (byDigestOf ds) stopAt (m # ns)" using assms by simp_all
  then obtain p where "en_previous (dg_entry n) = Some p" "byDigestOf ds p = Some m"
    by (auto simp: child_of_def split: option.splits)
  then show "en_previous (dg_entry n) = Some (dg_digest m)" "m \<in> set ds" using byDigestOf_Some [of ds p m] by simp_all
  show "walk_path (byDigestOf ds) stopAt (m # ns)" by (fact tail)
qed

lemma same_entry_no_collision:
  assumes "\<not> hash_collision ds" and "n \<in> set ds" and "m \<in> set ds" and "dg_digest n = dg_digest m"
    and "list_all (genuine sha) ds"
  shows "dg_sealedBytes n = dg_sealedBytes m" and "en_previous (dg_entry n) = en_previous (dg_entry m)"
proof -
  show bytes: "dg_sealedBytes n = dg_sealedBytes m" using assms(1-4) unfolding hash_collision_def by blast
  show "en_previous (dg_entry n) = en_previous (dg_entry m)"
    using assms(2,3,5) by (intro same_bytes_entry(1) [OF _ _ bytes]) (auto simp: list_all_iff)
qed

lemma walk_path_commits:
  assumes "\<not> hash_collision (ds @ es)" and "list_all (genuine sha) (ds @ es)"
    and "walk_path (byDigestOf ds) None ns" and "walk_path (byDigestOf es) None ms"
    and "hd ns \<in> set ds" and "hd ms \<in> set es" and "dg_digest (hd ns) = dg_digest (hd ms)"
  shows "map dg_sealedBytes ns = map dg_sealedBytes ms"
  using assms(3-7)
proof (induction ns arbitrary: ms)
  case (Cons n ns)
  from Cons.prems(2) obtain m ms' where ms: "ms = m # ms'" by (cases ms) simp_all
  have same: "dg_sealedBytes n = dg_sealedBytes m" "en_previous (dg_entry n) = en_previous (dg_entry m)"
    using same_entry_no_collision [OF assms(1) _ _ _ assms(2), of n m] Cons.prems(3-5) ms by simp_all
  show ?case
  proof (cases ns)
    case Nil
    with Cons.prems(1) same(2) have "en_previous (dg_entry m) = None" by (simp add: ends_at_def)
    with Cons.prems(2) ms have "ms' = []" by (cases ms') (auto simp: child_of_def)
    with Nil ms same(1) show ?thesis by simp
  next
    case n': (Cons n' ns')
    with Cons.prems(1) same(2) walk_path_step [of ds None n n' ns']
    have prev: "en_previous (dg_entry m) = Some (dg_digest n')" by simp
    with Cons.prems(2) ms obtain m' ms'' where ms': "ms' = m' # ms''" by (cases ms') (auto simp: ends_at_def)
    note steps = walk_path_step [of ds None n n' ns'] walk_path_step [of es None m m' ms'']
    have "map dg_sealedBytes ns = map dg_sealedBytes ms'"
      using Cons.prems(1,2) n' ms ms' steps prev by (intro Cons.IH) simp_all
    with ms same(1) show ?thesis by simp
  qed
qed simp

lemma walk_path_extends:
  assumes "\<not> hash_collision (ds @ os @ es)" and "list_all (genuine sha) (ds @ os @ es)"
    and "walk_path (byDigestOf ds) (Some b) ns" and "walk_path (byDigestOf es) None ms"
    and "hd ns \<in> set ds" and "hd ms \<in> set es" and "dg_digest (hd ns) = dg_digest (hd ms)"
    and "walk_path (byDigestOf os) None ps" and "hd ps \<in> set os" and "dg_digest (hd ps) = lb_digest b"
  shows "map dg_sealedBytes ms
    = map dg_sealedBytes (takeWhile (\<lambda>n. dg_digest n \<noteq> lb_digest b) ns) @ map dg_sealedBytes ps"
  using assms(3-7)
proof (induction ns arbitrary: ms)
  case (Cons n ns)
  from Cons.prems(2) obtain m ms' where ms: "ms = m # ms'" by (cases ms) simp_all
  have same: "dg_sealedBytes n = dg_sealedBytes m" "en_previous (dg_entry n) = en_previous (dg_entry m)"
    using same_entry_no_collision [OF assms(1) _ _ _ assms(2), of n m] Cons.prems(3-5) ms by simp_all
  have old: "map dg_sealedBytes ms = map dg_sealedBytes ps"
    if "walk_path (byDigestOf es) None ms" "hd ms \<in> set es" "dg_digest (hd ms) = lb_digest b" for ms
  proof (rule walk_path_commits [of es os sha])
    show "\<not> hash_collision (es @ os)" using assms(1) unfolding hash_collision_def set_append by blast
  qed (use that assms(2,8-10) in simp_all)
  show ?case
  proof (cases "dg_digest n = lb_digest b")
    case True
    then show ?thesis using old [OF Cons.prems(2)] Cons.prems(4,5) by simp
  next
    case False
    obtain p where p: "en_previous (dg_entry m) = Some p" "ns = [] \<longrightarrow> p = lb_digest b"
        "ns \<noteq> [] \<longrightarrow> p = dg_digest (hd ns) \<and> hd ns \<in> set ds \<and> walk_path (byDigestOf ds) (Some b) ns"
      using Cons.prems(1) False same(2) walk_path_step [of ds "Some b" n]
      by (cases ns) (auto simp: ends_at_def)
    with Cons.prems(2) ms obtain m' ms'' where ms': "ms' = m' # ms''" by (cases ms') (auto simp: ends_at_def)
    note step = walk_path_step [of es None m m' ms'']
    show ?thesis
    proof (cases "ns = []")
      case True
      with False ms ms' p step Cons.prems(2) same(1) old [of ms'] show ?thesis by simp
    next
      case ne: False
      with p ms ms' step Cons.prems(2) Cons.IH [of ms'] False same(1) show ?thesis by simp
    qed
  qed
qed simp

section \<open>When the global rules accept\<close>

definition one_genesis :: "digested_entry list \<Rightarrow> bool" where
  "one_genesis ds \<longleftrightarrow> (\<forall>a \<in> set ds. \<forall>b \<in> set ds. en_previous (dg_entry a) = None \<longrightarrow> en_previous (dg_entry b) = None
     \<longrightarrow> dg_digest a = dg_digest b)"

definition no_fork :: "digested_entry list \<Rightarrow> bool" where
  "no_fork ds \<longleftrightarrow> (\<forall>a \<in> set ds. \<forall>b \<in> set ds. en_previous (dg_entry a) \<noteq> None \<longrightarrow>
     en_previous (dg_entry a) = en_previous (dg_entry b) \<longrightarrow> dg_digest a = dg_digest b)"

definition is_available :: "announcement \<Rightarrow> bool" where
  "is_available a \<longleftrightarrow> (case a of Available _ _ _ _ \<Rightarrow> True | Withdrawn _ _ _ \<Rightarrow> False)"

text \<open>Identifiers are used once, and a withdrawal names an earlier available announcement.\<close>

definition announcements_ok :: "announcement list \<Rightarrow> bool" where
  "announcements_ok as \<longleftrightarrow> distinct (map announcementId as)
     \<and> (\<forall>i < length as. is_available (as ! i)
          \<or> (\<exists>b \<in> set (take i as). is_available b \<and> announcementId b = retracts (as ! i)))"

lemma card_le_1_iff: "finite A \<Longrightarrow> card A \<le> 1 \<longleftrightarrow> (\<forall>x \<in> A. \<forall>y \<in> A. x = y)"
  by (metis One_nat_def card_le_Suc0_iff_eq)

lemma length_insertion_order: "length (insertion_order xs) = card (set xs)"
  by (simp add: insertion_order_def card_set [of "rev xs", simplified])

lemma genesisDigests_iff: "length (genesisDigests ds) > 1 \<longleftrightarrow> \<not> one_genesis ds"
proof -
  have "length (genesisDigests ds) \<le> 1 \<longleftrightarrow> one_genesis ds"
    unfolding genesisDigests_def length_insertion_order by (simp only: card_le_1_iff finite_set) (auto simp: one_genesis_def)
  then show ?thesis by linarith
qed

lemma byPrevious_snoc: "byPrevious (ds @ [d]) = byPreviousStep (byPrevious ds) d"
  by (simp add: byPrevious_def)

lemma distinct_byPrevious: "distinct (map fst (byPrevious ds))"
proof (induction ds rule: rev_induct)
  case (snoc d ds)
  then show ?case by (auto simp: byPrevious_snoc byPreviousStep_def intro!: distinct_update split: option.splits)
qed (simp add: byPrevious_def)

lemma map_of_byPrevious:
  "map_of (byPrevious ds) p =
     (let xs = filter (\<lambda>d. en_previous (dg_entry d) = Some p) ds in if xs = [] then None else Some xs)"
proof (induction ds arbitrary: p rule: rev_induct)
  case (snoc d ds)
  then show ?case
    by (auto simp: byPrevious_snoc byPreviousStep_def update_conv' Let_def split: option.splits)
qed (simp add: byPrevious_def)

lemma set_byPrevious:
  "(p, xs) \<in> set (byPrevious ds) \<longleftrightarrow> xs \<noteq> [] \<and> xs = filter (\<lambda>d. en_previous (dg_entry d) = Some p) ds"
proof -
  have "(p, xs) \<in> set (byPrevious ds) \<longleftrightarrow> map_of (byPrevious ds) p = Some xs"
    using distinct_byPrevious [of ds] by (rule map_of_eq_Some_iff [symmetric])
  then show ?thesis by (auto simp: map_of_byPrevious Let_def)
qed

lemma distinctByDigest_table:
  defines "table \<equiv> foldl (\<lambda>m d. AList.update (dg_digest d) d m) []"
  shows "distinct (map fst (table xs))" and "set (map fst (table xs)) = dg_digest ` set xs"
    and "(k, d) \<in> set (table xs) \<Longrightarrow> d \<in> set xs \<and> dg_digest d = k"
proof -
  have snoc: "table (xs @ [d]) = AList.update (dg_digest d) d (table xs)" for xs d by (simp add: table_def)
  have nil: "table [] = []" by (simp add: table_def)
  show distinct: "distinct (map fst (table xs))" for xs
    by (induction xs rule: rev_induct) (simp_all add: snoc nil distinct_update)
  show "set (map fst (table xs)) = dg_digest ` set xs"
    by (induction xs rule: rev_induct) (auto simp: snoc nil dom_update)
  show "(k, d) \<in> set (table xs) \<Longrightarrow> d \<in> set xs \<and> dg_digest d = k"
  proof (induction xs arbitrary: k d rule: rev_induct)
    case (snoc e xs)
    then have "map_of (table (xs @ [e])) k = Some d" using distinct [of "xs @ [e]"] by (simp only: map_of_eq_Some_iff)
    then show ?case using snoc.IH [of k d] by (auto simp: \<open>\<And>xs d. table (xs @ [d]) = _\<close> update_conv' dest: map_of_SomeD split: if_splits)
  qed (simp add: nil)
qed

lemma length_distinctByDigest: "length (distinctByDigest xs) = card (dg_digest ` set xs)"
proof -
  let ?t = "foldl (\<lambda>m d. AList.update (dg_digest d) d m) [] xs"
  have "length (distinctByDigest xs) = length (map fst ?t)" by (simp add: distinctByDigest_def)
  also have "\<dots> = card (set (map fst ?t))" by (rule distinct_card [OF distinctByDigest_table(1), symmetric])
  also have "\<dots> = card (dg_digest ` set xs)" by (simp only: distinctByDigest_table(2))
  finally show ?thesis .
qed

lemma firstFork_None: "firstFork m = None \<longleftrightarrow> (\<forall>(p, xs) \<in> set m. card (dg_digest ` set xs) \<le> 1)"
proof (induction m rule: firstFork.induct)
  case (2 p siblings rest)
  then show ?case
    using length_distinctByDigest [of siblings] by (auto split: list.splits)
qed simp

lemma distinctByDigest_two:
  assumes "distinctByDigest xs = a # b # r"
  shows "a \<in> set xs" and "b \<in> set xs" and "dg_digest a \<noteq> dg_digest b"
proof -
  let ?t = "foldl (\<lambda>m d. AList.update (dg_digest d) d m) [] xs"
  from assms have "map snd ?t = a # b # r" by (simp only: distinctByDigest_def)
  then obtain ka kb r' where t: "?t = (ka, a) # (kb, b) # r'" by (auto simp: map_eq_Cons_conv)
  then have in_t: "(ka, a) \<in> set ?t" "(kb, b) \<in> set ?t" by simp_all
  have members: "a \<in> set xs \<and> dg_digest a = ka" "b \<in> set xs \<and> dg_digest b = kb"
    using distinctByDigest_table(3) [OF in_t(1)] distinctByDigest_table(3) [OF in_t(2)] by blast+
  moreover have "ka \<noteq> kb" using distinctByDigest_table(1) [of xs] unfolding t by simp
  ultimately show "a \<in> set xs" "b \<in> set xs" "dg_digest a \<noteq> dg_digest b" by blast+
qed

lemma firstFork_Some:
  "firstFork m = Some f \<Longrightarrow>
     \<exists>(p, xs) \<in> set m. \<exists>a \<in> set xs. \<exists>b \<in> set xs. f = ForkedEntries (dg_entry a) (dg_entry b) \<and> dg_digest a \<noteq> dg_digest b"
proof (induction m rule: firstFork.induct)
  case (2 p siblings rest)
  consider a b r where "distinctByDigest siblings = a # b # r" | a where "distinctByDigest siblings = [a]"
    | "distinctByDigest siblings = []" by (metis list.exhaust)
  then show ?case
  proof cases
    case (1 a b r)
    then have "f = ForkedEntries (dg_entry a) (dg_entry b)" using "2.prems" by simp
    with distinctByDigest_two [OF 1] show ?thesis by auto
  next
    case (2 a)
    then have "firstFork rest = Some f" using "2.prems" by simp
    with "2.IH" 2 show ?thesis by auto
  next
    case 3
    then have "firstFork rest = Some f" using "2.prems" by simp
    with "2.IH" 3 show ?thesis by auto
  qed
qed simp

lemma sibling_groups:
  "(\<forall>(p, xs) \<in> set (byPrevious ds). Q xs) \<longleftrightarrow>
     (\<forall>p. filter (\<lambda>d. en_previous (dg_entry d) = Some p) ds \<noteq> [] \<longrightarrow>
        Q (filter (\<lambda>d. en_previous (dg_entry d) = Some p) ds))"
  by (force simp: set_byPrevious)

lemma fork_free_iff: "firstFork (byPrevious ds) = None \<longleftrightarrow> no_fork ds"
proof -
  let ?sib = "\<lambda>p. filter (\<lambda>d. en_previous (dg_entry d) = Some p) ds"
  have one: "card (dg_digest ` set xs) \<le> 1 \<longleftrightarrow> (\<forall>a \<in> set xs. \<forall>b \<in> set xs. dg_digest a = dg_digest b)" for xs
    by (subst card_le_1_iff) simp_all
  have "firstFork (byPrevious ds) = None \<longleftrightarrow>
      (\<forall>p. ?sib p \<noteq> [] \<longrightarrow> (\<forall>a \<in> set (?sib p). \<forall>b \<in> set (?sib p). dg_digest a = dg_digest b))"
    unfolding firstFork_None one by (rule sibling_groups)
  also have "\<dots> \<longleftrightarrow> (\<forall>p. \<forall>a \<in> set (?sib p). \<forall>b \<in> set (?sib p). dg_digest a = dg_digest b)"
    by (intro iff_allI) (simp add: filter_empty_conv, blast)
  also have "\<dots> \<longleftrightarrow> no_fork ds"
  proof
    assume all: "\<forall>p. \<forall>a \<in> set (?sib p). \<forall>b \<in> set (?sib p). dg_digest a = dg_digest b"
    show "no_fork ds" unfolding no_fork_def
    proof (intro ballI impI)
      fix a b
      assume "a \<in> set ds" "b \<in> set ds" "en_previous (dg_entry a) \<noteq> None" "en_previous (dg_entry a) = en_previous (dg_entry b)"
      moreover from this obtain p where "en_previous (dg_entry a) = Some p" by blast
      ultimately have "a \<in> set (?sib p)" "b \<in> set (?sib p)" by simp_all
      then show "dg_digest a = dg_digest b" using all by blast
    qed
  next
    assume "no_fork ds"
    then show "\<forall>p. \<forall>a \<in> set (?sib p). \<forall>b \<in> set (?sib p). dg_digest a = dg_digest b"
      unfolding no_fork_def by simp
  qed
  finally show ?thesis .
qed

section \<open>The announcement scan\<close>

fun action_of :: "announcement \<Rightarrow> action" where
  "action_of (Available _ _ _ _) = ActAvailable"
| "action_of (Withdrawn _ _ _) = ActWithdrawn"

definition history :: "announcement list \<Rightarrow> (string \<rightharpoonup> action)" where
  "history as = map_of (rev (map (\<lambda>a. (announcementId a, action_of a)) as))"

lemma scan_append:
  "scanAnnouncements m (as @ bs) = bind_result (scanAnnouncements m as) (\<lambda>m'. scanAnnouncements m' bs)"
proof (induction as arbitrary: m)
  case (Cons a as)
  then show ?case by (cases a) (simp_all del: fun_upd_apply split: option.split action.split)
qed simp

lemma history_snoc: "history (as @ [a]) = (history as)(announcementId a \<mapsto> action_of a)"
  by (simp add: history_def)

lemma history_None: "history as i = None \<longleftrightarrow> i \<notin> announcementId ` set as"
  by (auto simp: history_def map_of_eq_None_iff image_image)

lemma history_Some:
  assumes "distinct (map announcementId as)"
  shows "history as i = Some x \<longleftrightarrow> (\<exists>a \<in> set as. announcementId a = i \<and> action_of a = x)"
proof -
  have "map fst (rev (map (\<lambda>a. (announcementId a, action_of a)) as)) = rev (map announcementId as)"
    by (simp add: rev_map o_def)
  then have "distinct (map fst (rev (map (\<lambda>a. (announcementId a, action_of a)) as)))" using assms by simp
  then show ?thesis unfolding history_def by (subst map_of_eq_Some_iff) auto
qed

lemma action_of_iff: "action_of a = ActAvailable \<longleftrightarrow> is_available a"
  by (cases a) (simp_all add: is_available_def)

lemma announcements_ok_snoc:
  "announcements_ok (as @ [a]) \<longleftrightarrow> announcements_ok as \<and> announcementId a \<notin> announcementId ` set as
     \<and> (is_available a \<or> (\<exists>b \<in> set as. is_available b \<and> announcementId b = retracts a))"
proof -
  have "(\<forall>i < length (as @ [a]). P i) \<longleftrightarrow> (\<forall>i < length as. P i) \<and> P (length as)" for P
    by (auto simp: less_Suc_eq)
  then show ?thesis by (simp add: announcements_ok_def nth_append) blast
qed

lemma scan_iff:
  "scanAnnouncements Map.empty as = Inr m \<longleftrightarrow> announcements_ok as \<and> m = history as"
proof (induction as arbitrary: m rule: rev_induct)
  case Nil
  then show ?case by (auto simp: announcements_ok_def history_def)
next
  case (snoc a as)
  have "scanAnnouncements (history as) [a] = Inr m \<longleftrightarrow>
      announcementId a \<notin> announcementId ` set as
        \<and> (is_available a \<or> (\<exists>b \<in> set as. is_available b \<and> announcementId b = retracts a))
        \<and> m = history (as @ [a])" if "announcements_ok as"
  proof -
    have target: "history as t = Some ActAvailable \<longleftrightarrow> (\<exists>b \<in> set as. is_available b \<and> announcementId b = t)" for t
      using that by (auto simp: announcements_ok_def history_Some action_of_iff)
    show ?thesis
    proof (cases a)
      case (Available i r l f)
      then show ?thesis using history_None [of as i] by (auto simp: history_snoc is_available_def)
    next
      case (Withdrawn i t reason)
      then show ?thesis using history_None [of as i] target [of t]
        by (auto simp: history_snoc is_available_def split: option.splits action.splits)
    qed
  qed
  then show ?case by (auto simp: scan_append bind_result_Inr_iff snoc.IH announcements_ok_snoc)
qed

lemma global_rules_iff:
  "checkGlobalChainRules ds = None \<longleftrightarrow> one_genesis ds \<and> no_fork ds \<and> announcements_ok (orderedAnnouncements ds)"
proof -
  have "(\<exists>m. scanAnnouncements Map.empty (orderedAnnouncements ds) = Inr m) \<longleftrightarrow> announcements_ok (orderedAnnouncements ds)"
    by (simp add: scan_iff)
  then show ?thesis
    unfolding checkGlobalChainRules_def genesisDigests_iff
    using fork_free_iff [of ds] by (auto split: option.split sum.split)
qed

lemma fork_evidence:
  assumes "checkGlobalChainRules ds = Some (ForkedEntries x y)"
  shows "\<exists>a \<in> set ds. \<exists>b \<in> set ds. x = dg_entry a \<and> y = dg_entry b \<and> dg_digest a \<noteq> dg_digest b
    \<and> en_previous x = en_previous y \<and> en_previous x \<noteq> None"
proof -
  have "scanAnnouncements m as \<noteq> Inl (ForkedEntries x y)" for m as
  proof (induction as arbitrary: m)
    case (Cons a as)
    then show ?case by (cases a) (simp_all del: fun_upd_apply split: option.split action.split)
  qed simp
  then have "firstFork (byPrevious ds) = Some (ForkedEntries x y)"
    using assms by (auto simp: checkGlobalChainRules_def split: if_splits option.splits sum.splits)
  from firstFork_Some [OF this] obtain p xs a b
    where f: "(p, xs) \<in> set (byPrevious ds)" "a \<in> set xs" "b \<in> set xs"
      "x = dg_entry a" "y = dg_entry b" "dg_digest a \<noteq> dg_digest b" by auto
  then have "a \<in> set ds" "b \<in> set ds" "en_previous x = Some p" "en_previous y = Some p"
    by (auto simp: set_byPrevious)
  with f show ?thesis by auto
qed

section \<open>The order of the fed entries\<close>

interpretation by_sequence: keyed_comparator compareBySequence "\<lambda>d. (en_sequence (dg_entry d), dg_digest d)"
  by unfold_locales (auto simp: compareBySequence_def compareCodeUnitStrings_def)

lemma global_rules_perm:
  assumes "mset ds = mset es" and "inj_on dg_digest (set ds)"
  shows "checkGlobalChainRules ds = None \<longleftrightarrow> checkGlobalChainRules es = None"
proof -
  have "set ds = set es" using assms(1) by (rule mset_eq_setD)
  moreover have "inj_on (\<lambda>d. (en_sequence (dg_entry d), dg_digest d)) (set ds)"
    using assms(2) by (auto simp: inj_on_def)
  then have "sort_key (\<lambda>d. (en_sequence (dg_entry d), dg_digest d)) ds = sort_key (\<lambda>d. (en_sequence (dg_entry d), dg_digest d)) es"
    by (rule sort_key_inj_perm [OF assms(1)])
  then have "orderedAnnouncements ds = orderedAnnouncements es"
    by (simp only: orderedAnnouncements_def by_sequence.js_sort_eq)
  ultimately show ?thesis by (simp only: global_rules_iff one_genesis_def no_fork_def)
qed

lemma withdrawal_target:
  assumes "announcements_ok as" and "Withdrawn i target reason \<in> set as"
  shows "\<exists>a \<in> set as. is_available a \<and> announcementId a = target"
proof -
  obtain k where k: "k < length as" "as ! k = Withdrawn i target reason" using assms(2) by (auto simp: in_set_conv_nth)
  then have "\<not> is_available (as ! k)" "retracts (as ! k) = target" by (simp_all add: is_available_def)
  then have "\<exists>b \<in> set (take k as). is_available b \<and> announcementId b = target"
    using assms(1) k(1) unfolding announcements_ok_def by metis
  then show ?thesis by (meson in_set_takeD)
qed

end
