(* ===== verification/Text_Encoding.thy ===== *)
theory Text_Encoding
  imports Dsse "HOL-Library.Word"
begin

text \<open>
  Payload types over all of UTF-16: a string is a list of 16-bit code units, and \<open>TextEncoder\<close> writes the UTF-8 of its
  code points, with U+FFFD for every surrogate that is not half of a pair.

  \<open>encode_units_inj\<close>: on strings without such surrogates the encoding is injective, and \<open>payload_type_collision\<close> shows
  that it is not in general. \<open>encode_units_latin\<close>: on code units below 256 it is \<open>utf8_encode\<close>.
\<close>

section \<open>Code units, code points and bytes\<close>

abbreviation high_surrogate :: "16 word \<Rightarrow> bool" where
  "high_surrogate u \<equiv> 55296 \<le> unat u \<and> unat u < 56320"

abbreviation low_surrogate :: "16 word \<Rightarrow> bool" where
  "low_surrogate u \<equiv> 56320 \<le> unat u \<and> unat u < 57344"

fun code_points :: "16 word list \<Rightarrow> nat list" where
  "code_points [] = []"
| "code_points [u] = [if high_surrogate u \<or> low_surrogate u then 65533 else unat u]"
| "code_points (u # v # s) =
     (if high_surrogate u \<and> low_surrogate v
      then (65536 + (unat u - 55296) * 1024 + (unat v - 56320)) # code_points s
      else (if high_surrogate u \<or> low_surrogate u then 65533 else unat u) # code_points (v # s))"

fun well_paired :: "16 word list \<Rightarrow> bool" where
  "well_paired [] \<longleftrightarrow> True"
| "well_paired [u] \<longleftrightarrow> \<not> high_surrogate u \<and> \<not> low_surrogate u"
| "well_paired (u # v # s) \<longleftrightarrow>
     (if high_surrogate u \<and> low_surrogate v then well_paired s
      else \<not> high_surrogate u \<and> \<not> low_surrogate u \<and> well_paired (v # s))"

definition utf8_point :: "nat \<Rightarrow> bytes" where
  "utf8_point n =
     (if n < 128 then [char_of n]
      else if n < 2048 then [char_of (192 + n div 64), char_of (128 + n mod 64)]
      else if n < 65536 then [char_of (224 + n div 4096), char_of (128 + n div 64 mod 64), char_of (128 + n mod 64)]
      else [char_of (240 + n div 262144), char_of (128 + n div 4096 mod 64), char_of (128 + n div 64 mod 64), char_of (128 + n mod 64)])"

definition encode_units :: "16 word list \<Rightarrow> bytes" where
  "encode_units s = concat (map utf8_point (code_points s))"

definition dssePreAuthEncoding_units :: "16 word list \<Rightarrow> bytes \<Rightarrow> bytes" where
  "dssePreAuthEncoding_units payloadType payloadBytes =
     (let typeBytes = encode_units payloadType
      in ''DSSEv1 '' @ dec (length typeBytes) @ '' '' @ typeBytes @ '' '' @ dec (length payloadBytes) @ '' '' @ payloadBytes)"

section \<open>UTF-8 is prefix-free\<close>

lemma digits_64: "m div 64 = n div 64 \<Longrightarrow> m mod 64 = n mod 64 \<Longrightarrow> m = (n :: nat)"
  by (metis div_mult_mod_eq)

lemma utf8_point_prefix:
  assumes "m < 1114112" and "n < 1114112"
  shows "utf8_point m @ r = utf8_point n @ q \<longleftrightarrow> m = n \<and> r = q"
proof
  have div: "k div 262144 = k div 4096 div 64" "k div 4096 = k div 64 div 64" for k :: nat by (simp_all flip: div_mult2_eq)
  assume "utf8_point m @ r = utf8_point n @ q"
  then show "m = n \<and> r = q"
    using assms digits_64 [of m n] digits_64 [of "m div 64" "n div 64"] digits_64 [of "m div 4096" "n div 4096"]
    by (auto simp: utf8_point_def char_of_inj div split: if_splits)
qed simp

lemma utf8_points_inj:
  "\<forall>n \<in> set ms \<union> set ns. n < 1114112 \<Longrightarrow> concat (map utf8_point ms) = concat (map utf8_point ns) \<longleftrightarrow> ms = ns"
proof (induction ms arbitrary: ns)
  case Nil
  then show ?case by (cases ns) (auto simp: utf8_point_def)
next
  case (Cons m ms)
  then show ?case
  proof (cases ns)
    case Nil
    then show ?thesis by (simp add: utf8_point_def)
  next
    case (Cons n ns')
    then show ?thesis using Cons.prems Cons.IH [of ns'] utf8_point_prefix [of m n] by simp
  qed
qed

section \<open>Well-paired strings are their code points\<close>

lemma code_points_less: "n \<in> set (code_points s) \<Longrightarrow> n < 1114112"
proof (induction s rule: code_points.induct)
  case (2 u)
  then show ?case using unsigned_less [of u, where 'a = nat] by (auto split: if_splits)
next
  case (3 u v s)
  then show ?case using unsigned_less [of u, where 'a = nat] by (auto split: if_splits)
qed simp

text \<open>The code units of a code point.\<close>

definition units_of :: "nat \<Rightarrow> 16 word list" where
  "units_of n =
     (if n < 65536 then [of_nat n] else [of_nat (55296 + (n - 65536) div 1024), of_nat (56320 + (n - 65536) mod 1024)])"

lemma units_of_pair:
  assumes "high_surrogate u" and "low_surrogate v"
  shows "units_of (65536 + (unat u - 55296) * 1024 + (unat v - 56320)) = [u, v]"
proof -
  have b: "unat v - 56320 < 1024" using assms by linarith
  have "((unat u - 55296) * 1024 + (unat v - 56320)) div 1024 = unat u - 55296"
    "((unat u - 55296) * 1024 + (unat v - 56320)) mod 1024 = unat v - 56320" using b by simp_all
  moreover have "55296 + (unat u - 55296) = unat u" "56320 + (unat v - 56320) = unat v" using assms by linarith+
  ultimately show ?thesis unfolding units_of_def by (simp only: add.assoc add_diff_cancel_left') (simp flip: of_nat_add)
qed

lemma units_of_code_points: "well_paired s \<Longrightarrow> concat (map units_of (code_points s)) = s"
proof (induction s rule: code_points.induct)
  case (2 u)
  then show ?case using unsigned_less [of u, where 'a = nat] by (auto simp: units_of_def)
next
  case (3 u v s)
  show ?case
  proof (cases "high_surrogate u \<and> low_surrogate v")
    case True
    then show ?thesis using 3 units_of_pair [of u v] by simp
  next
    case False
    then have "\<not> high_surrogate u" "\<not> low_surrogate u" "well_paired (v # s)" using "3.prems" by (auto split: if_splits)
    then show ?thesis using False 3 unsigned_less [of u, where 'a = nat] by (simp add: units_of_def)
  qed
qed simp

lemma encode_units_inj: "well_paired s \<Longrightarrow> well_paired t \<Longrightarrow> encode_units s = encode_units t \<longleftrightarrow> s = t"
  unfolding encode_units_def
  by (subst utf8_points_inj) (auto dest: code_points_less, metis units_of_code_points)

lemma pae_units_inj:
  assumes "well_paired t" and "well_paired u"
  shows "dssePreAuthEncoding_units t p = dssePreAuthEncoding_units u q \<longleftrightarrow> t = u \<and> p = q"
  using pae_frame_inj [of "encode_units t" p "encode_units u" q] encode_units_inj [OF assms]
  by (simp add: dssePreAuthEncoding_units_def Let_def)

section \<open>The part of the model over code units below 256\<close>

lemma encode_units_latin: "encode_units (map (\<lambda>c. of_nat (of_char c)) s) = utf8_encode s"
proof -
  have less: "(of_char c :: nat) < 256" for c by simp
  have small: "unat (of_nat (of_char c) :: 16 word) = of_char c" "\<not> 55296 \<le> (of_char c :: nat)" "\<not> 56320 \<le> (of_char c :: nat)" for c
  proof -
    have "of_char c mod 65536 = (of_char c :: nat)" by (rule mod_less, rule less_trans [OF less]) simp
    then show "unat (of_nat (of_char c) :: 16 word) = of_char c" by (simp add: unsigned_of_nat take_bit_eq_mod)
    show "\<not> 55296 \<le> (of_char c :: nat)" "\<not> 56320 \<le> (of_char c :: nat)" using less [of c] by linarith+
  qed
  have "code_points (map (\<lambda>c. of_nat (of_char c)) s) = map of_char s"
  proof (induction s)
    case (Cons c s)
    then show ?case by (cases s) (simp_all add: small)
  qed simp
  moreover have "utf8_point (of_char c) = utf8_char c" for c
    using less_trans [OF less [of c], of 2048] by (simp add: utf8_point_def utf8_char_def Let_def)
  ultimately show ?thesis by (simp add: encode_units_def utf8_encode_def comp_def)
qed

text \<open>A lone surrogate and U+FFFD are written alike, so two payload types share their signed bytes.\<close>

theorem payload_type_collision: "dssePreAuthEncoding_units [55296] p = dssePreAuthEncoding_units [65533] p"
  by (simp add: dssePreAuthEncoding_units_def encode_units_def)

end
