(* ===== verification/Source_Verification.thy ===== *)
theory Source_Verification
  imports Source_Chain Text_Encoding Calendar_Time Js_Async
begin

text \<open>
  The named verification procedures of the discovery protocol: the freshness window
  (discovery/protocol/src/verify/refresh-bound.ts), \<open>source-chain-verification\<close> (source-chain.ts),
  \<open>source-head-revalidation\<close> (source-head.ts) and the refusal slugs (outcomes.ts), over source heads
  (head.ts) and with the high-water mark store of discovery/client/src/high-water-mark.ts.

  Key resolution, signature checks and the freshness policy are ports of the code and parameters here
  (\<open>key_ports\<close>); each may reject. The high-water mark store is stateful: the procedure runs in the
  asynchronous state monad over whatever state the store keeps, and the locale \<open>mark_store\<close> states what a
  store promises. It is interpreted on the in-memory store, of which the theorems on marks speak. The record of a head
  has the declared members of the loose schema. A millisecond value is an \<open>int option\<close>, where \<open>None\<close> is \<open>NaN\<close>.
\<close>

section \<open>Heads, marks and ports\<close>

record source_head =
  sh_protocol :: string
  sh_origin :: string
  sh_sequence :: string
  sh_entry :: string
  sh_issuedAt :: string
  sh_refreshBy :: string

definition head_object :: "source_head \<Rightarrow> json" where
  "head_object h =
     JObj [(''protocol'', JStr (sh_protocol h)), (''origin'', JStr (sh_origin h)), (''sequence'', JStr (sh_sequence h)),
           (''entry'', JStr (sh_entry h)), (''issuedAt'', JStr (sh_issuedAt h)), (''refreshBy'', JStr (sh_refreshBy h))]"

type_synonym source = "string \<times> string"

record high_water_mark =
  hw_sequence :: string
  hw_entry :: string
  hw_issuedAt :: string

record resolved_key =
  rk_keyid :: string
  rk_publicKey :: string
  rk_algorithm :: string

record envelope_signature =
  es_keyid :: "string option"
  es_sig :: string

record dsse_envelope =
  de_payloadType :: string
  de_payload :: string
  de_signatures :: "envelope_signature list"

definition signature_object :: "envelope_signature \<Rightarrow> json" where
  "signature_object s = JObj (optional ''keyid'' (map_option JStr (es_keyid s)) @ [(''sig'', JStr (es_sig s))])"

definition envelope_object :: "dsse_envelope \<Rightarrow> json" where
  "envelope_object e =
     JObj [(''payloadType'', JStr (de_payloadType e)), (''payload'', JStr (de_payload e)),
           (''signatures'', JArr (map signature_object (de_signatures e)))]"

record key_ports =
  kp_resolve :: "string \<Rightarrow> int \<Rightarrow> (exn, resolved_key list) result"
  kp_everBound :: "string \<Rightarrow> string \<Rightarrow> (exn, bool) result"
  kp_verify :: "bytes \<Rightarrow> bytes \<Rightarrow> resolved_key \<Rightarrow> (exn, bool) result"
  kp_isFresh :: "string \<Rightarrow> int \<Rightarrow> bool"

record 's hwm_store =
  hwm_get :: "source \<Rightarrow> ('s, exn, high_water_mark option) async"
  hwm_put :: "source \<Rightarrow> high_water_mark \<Rightarrow> ('s, exn, unit) async"

definition MEDIA_ENTRY :: string where
  "MEDIA_ENTRY = ''application/vnd.jinn.record-discovery.entry.v1+json''"

definition MEDIA_HEAD :: string where
  "MEDIA_HEAD = ''application/vnd.jinn.record-discovery.head.v1+json''"

section \<open>The freshness window\<close>

definition ms_greater :: "int option \<Rightarrow> int option \<Rightarrow> bool" where
  "ms_greater a b \<longleftrightarrow> (case (a, b) of (Some x, Some y) \<Rightarrow> x > y | _ \<Rightarrow> False)"

definition ms_within :: "int option \<Rightarrow> int option \<Rightarrow> int option \<Rightarrow> bool" where
  "ms_within a b limit \<longleftrightarrow> (case (a, b, limit) of (Some x, Some y, Some c) \<Rightarrow> x - y \<le> c | _ \<Rightarrow> False)"

definition MAX_REFRESH_BY_AHEAD_MS :: int where
  "MAX_REFRESH_BY_AHEAD_MS = 24 * 60 * 60 * 1000"

definition refreshByWithinCeiling :: "string \<Rightarrow> string \<Rightarrow> int option \<Rightarrow> bool" where
  "refreshByWithinCeiling issuedAt refreshBy maxAheadMs =
     ms_within (parseHeadTimestamp refreshBy) (parseHeadTimestamp issuedAt) maxAheadMs"

definition checkRefreshWindow :: "source_head \<Rightarrow> int \<Rightarrow> int option \<Rightarrow> string option" where
  "checkRefreshWindow head now maxAheadMs =
     (let ceilingMs = map_option (min MAX_REFRESH_BY_AHEAD_MS) maxAheadMs;
          issuedAtMs = parseHeadTimestamp (sh_issuedAt head); refreshByMs = parseHeadTimestamp (sh_refreshBy head)
      in if \<not> ms_greater refreshByMs issuedAtMs then Some ''refresh-by-ceiling''
         else if \<not> ms_within refreshByMs issuedAtMs ceilingMs then Some ''refresh-by-ceiling''
         else if \<not> ms_within issuedAtMs (Some now) ceilingMs then Some ''head-issued-ahead''
         else None)"

section \<open>Signatures\<close>

fun anySignature :: "key_ports \<Rightarrow> bytes \<Rightarrow> resolved_key list \<Rightarrow> wire_signature list \<Rightarrow> (exn, bool) result" where
  "anySignature ports pae candidates [] = Inr False"
| "anySignature ports pae candidates (s # rest) =
     (case find (\<lambda>k. Some (rk_keyid k) = ws_keyid s) candidates of
        None \<Rightarrow> anySignature ports pae candidates rest
      | Some key \<Rightarrow>
          bind_result (kp_verify ports pae (ws_signatureBytes s) key)
            (\<lambda>ok. if ok then Inr True else anySignature ports pae candidates rest))"

definition verifySignedBy ::
  "key_ports \<Rightarrow> dsse_envelope \<Rightarrow> bytes \<Rightarrow> string \<Rightarrow> resolved_key list \<Rightarrow> (exn, bool) result" where
  "verifySignedBy ports envelope expectedPayload expectedPayloadType candidates =
     (case parseWireDsseEnvelope (envelope_object envelope) of
        Inl _ \<Rightarrow> Inr False
      | Inr parsed \<Rightarrow>
          if pe_payloadType parsed \<noteq> expectedPayloadType \<or> pe_payloadBytes parsed \<noteq> expectedPayload then Inr False
          else anySignature ports (dssePreAuthEncoding (pe_payloadType parsed) (pe_payloadBytes parsed)) candidates
                 (pe_signatures parsed))"

section \<open>Source-chain verification\<close>

datatype chain_outcome =
    ChainOk source_head high_water_mark
  | Stale
  | Forked announcement_entry announcement_entry
  | BrokenChain string
  | UnauthorizedSigner

fun failure_kind :: "global_failure \<Rightarrow> string" where
  "failure_kind DuplicateGenesis = ''duplicate-genesis''"
| "failure_kind (ForkedEntries a b) = ''forked''"
| "failure_kind (DuplicateAnnouncementId i) = ''duplicate-announcement-id''"
| "failure_kind (ForeignRetraction i) = ''foreign-retraction''"
| "failure_kind (WithdrawalOfWithdrawal i) = ''withdrawal-of-withdrawal''"

fun linkage_kind :: "linkage_failure \<Rightarrow> string" where
  "linkage_kind Linkage = ''linkage''"
| "linkage_kind SequenceContiguity = ''sequence-contiguity''"
| "linkage_kind EntryCeiling = ''entry-ceiling''"

fun firstEverBound :: "key_ports \<Rightarrow> string \<Rightarrow> envelope_signature list \<Rightarrow> (exn, string option) result" where
  "firstEverBound ports agent [] = Inr None"
| "firstEverBound ports agent (s # rest) =
     (case es_keyid s of
        None \<Rightarrow> firstEverBound ports agent rest
      | Some keyid \<Rightarrow>
          bind_result (kp_everBound ports agent keyid)
            (\<lambda>bound. if bound then Inr (Some keyid) else firstEverBound ports agent rest))"

definition checkEntry ::
  "key_ports \<Rightarrow> source \<Rightarrow> (string \<rightharpoonup> dsse_envelope) \<Rightarrow> digested_entry \<Rightarrow> (exn, chain_outcome option) result" where
  "checkEntry ports source signatureByDigest node =
     (if en_agent (dg_entry node) \<noteq> fst source \<or> en_name (dg_entry node) \<noteq> snd source
      then Inr (Some (BrokenChain ''source-mismatch''))
      else case signatureByDigest (dg_digest node) of
        None \<Rightarrow> Inl ''TypeError''
      | Some signature \<Rightarrow>
          if de_signatures signature = [] then Inr (Some (BrokenChain ''missing-entry-signature''))
          else bind_result (firstEverBound ports (fst source) (de_signatures signature)) (\<lambda>everBoundSigner.
            case everBoundSigner of
              None \<Rightarrow> Inr (Some UnauthorizedSigner)
            | Some keyid \<Rightarrow>
                bind_result (sealBytes (entry_object (dg_entry node))) (\<lambda>bytes.
                bind_result (verifySignedBy ports signature bytes MEDIA_ENTRY
                    [\<lparr>rk_keyid = keyid, rk_publicKey = [], rk_algorithm = []\<rparr>]) (\<lambda>corroborated.
                  Inr (if corroborated then None else Some (BrokenChain ''entry-signature-corroboration''))))))"

fun checkEntries ::
  "key_ports \<Rightarrow> source \<Rightarrow> (string \<rightharpoonup> dsse_envelope) \<Rightarrow> digested_entry list \<Rightarrow> (exn, chain_outcome option) result" where
  "checkEntries ports source signatureByDigest [] = Inr None"
| "checkEntries ports source signatureByDigest (node # rest) =
     bind_result (checkEntry ports source signatureByDigest node) (\<lambda>refusal.
       if refusal \<noteq> None then Inr refusal else checkEntries ports source signatureByDigest rest)"

type_synonym fed = "(announcement_entry \<times> dsse_envelope) list"

definition signatureByDigestOf :: "digested_entry list \<Rightarrow> fed \<Rightarrow> (string \<rightharpoonup> dsse_envelope)" where
  "signatureByDigestOf digested fed = map_of (rev (zip (map dg_digest digested) (map snd fed)))"

text \<open>Steps 4 to 6 on the fed entries: \<open>None\<close> accepts them.\<close>

definition judgeEntries ::
  "(bytes \<Rightarrow> string) \<Rightarrow> key_ports \<Rightarrow> source \<Rightarrow> source_head \<Rightarrow> linkage_boundary option \<Rightarrow> fed \<Rightarrow> (exn, chain_outcome option) result" where
  "judgeEntries sha256Hex ports source head stopAt fed =
     bind_result (digestEntries sha256Hex (map fst fed)) (\<lambda>digested.
       case checkGlobalChainRules digested of
         Some (ForkedEntries a b) \<Rightarrow> Inr (Some (Forked a b))
       | Some failure \<Rightarrow> Inr (Some (BrokenChain (failure_kind failure)))
       | None \<Rightarrow>
           bind_result (walkLinkage (byDigestOf digested) (sh_entry head) stopAt) (\<lambda>walk.
             case walk of
               Inl failure \<Rightarrow> Inr (Some (BrokenChain (linkage_kind failure)))
             | Inr walked \<Rightarrow> checkEntries ports source (signatureByDigestOf digested fed) walked))"

definition await :: "('e, 'a) result \<Rightarrow> ('s, 'e, 'a) async" where
  "await r s = (r, s)"

definition issuedAtRegresses :: "source_head \<Rightarrow> high_water_mark option \<Rightarrow> bool" where
  "issuedAtRegresses head mark \<longleftrightarrow>
     (case mark of
        None \<Rightarrow> False
      | Some m \<Rightarrow> \<not> ms_greater (parseHeadTimestamp (sh_issuedAt head)) (parseHeadTimestamp (hw_issuedAt m)))"

definition boundaryOf :: "bool \<Rightarrow> high_water_mark option \<Rightarrow> linkage_boundary option" where
  "boundaryOf firstAdoption mark =
     (if firstAdoption then None else map_option (\<lambda>m. \<lparr>lb_digest = hw_entry m, lb_sequence = hw_sequence m\<rparr>) mark)"

definition advancedMark :: "source_head \<Rightarrow> high_water_mark" where
  "advancedMark head = \<lparr>hw_sequence = sh_sequence head, hw_entry = sh_entry head, hw_issuedAt = sh_issuedAt head\<rparr>"

record chain_request =
  cq_head :: source_head
  cq_headSignature :: dsse_envelope
  cq_entries :: "(exn, fed) result"
  cq_now :: int
  cq_firstAdoption :: bool
  cq_maxRefreshByAheadMs :: "int option option"

definition verifySourceChain ::
  "(bytes \<Rightarrow> string) \<Rightarrow> key_ports \<Rightarrow> 's hwm_store \<Rightarrow> chain_request \<Rightarrow> ('s, exn, chain_outcome) async" where
  "verifySourceChain sha256Hex ports hwm opts =
     (let head = cq_head opts; now = cq_now opts; firstAdoption = cq_firstAdoption opts;
          maxRefreshByAheadMs = (case cq_maxRefreshByAheadMs opts of None \<Rightarrow> Some MAX_REFRESH_BY_AHEAD_MS | Some m \<Rightarrow> m)
      in andThen (await (splitOrigin (sh_origin head))) (\<lambda>source.
         andThen (await (kp_resolve ports (fst source) now)) (\<lambda>currentKeys.
         andThen (await (sealBytes (head_object head))) (\<lambda>bytes.
         andThen (await (verifySignedBy ports (cq_headSignature opts) bytes MEDIA_HEAD currentKeys)) (\<lambda>signed.
           if \<not> signed then ret UnauthorizedSigner
           else case checkRefreshWindow head now maxRefreshByAheadMs of
             Some windowFailure \<Rightarrow> ret (BrokenChain windowFailure)
           | None \<Rightarrow>
               if \<not> kp_isFresh ports (sh_refreshBy head) now then ret Stale
               else andThen (hwm_get hwm source) (\<lambda>highWaterMark.
                 if \<not> firstAdoption \<and> highWaterMark = None then ret (BrokenChain ''missing-high-water-mark'')
                 else if issuedAtRegresses head highWaterMark then ret (BrokenChain ''issued-at-monotonicity'')
                 else andThen (await (cq_entries opts)) (\<lambda>fed.
                      andThen (await (judgeEntries sha256Hex ports source head (boundaryOf firstAdoption highWaterMark) fed))
                        (\<lambda>refusal.
                          case refusal of
                            Some outcome \<Rightarrow> ret outcome
                          | None \<Rightarrow>
                              andThen (hwm_put hwm source (advancedMark head))
                                (\<lambda>_. ret (ChainOk head (advancedMark head)))))))))))"

section \<open>Source-head revalidation\<close>

datatype head_outcome =
    HeadOk
  | HeadStale
  | HeadWindow string
  | HeadUnauthorizedSigner
  | HeadOriginMismatch
  | HeadPayloadMismatch
  | InvalidHeadEnvelope

definition verifySourceHead ::
  "key_ports \<Rightarrow> source \<Rightarrow> source_head \<Rightarrow> dsse_envelope \<Rightarrow> int \<Rightarrow> int option option \<Rightarrow> (exn, head_outcome) result" where
  "verifySourceHead ports source head headSignature now maxRefreshByAheadMs =
     (let limit = (case maxRefreshByAheadMs of None \<Rightarrow> Some MAX_REFRESH_BY_AHEAD_MS | Some m \<Rightarrow> m)
      in case splitOrigin (sh_origin head) of
           Inl _ \<Rightarrow> Inr HeadOriginMismatch
         | Inr origin \<Rightarrow>
             if fst origin \<noteq> fst source \<or> snd origin \<noteq> snd source then Inr HeadOriginMismatch
             else case parseWireDsseEnvelope (envelope_object headSignature) of
               Inl _ \<Rightarrow> Inr InvalidHeadEnvelope
             | Inr parsed \<Rightarrow>
                 bind_result (sealBytes (head_object head)) (\<lambda>expected.
                   if pe_payloadType parsed \<noteq> MEDIA_HEAD \<or> pe_payloadBytes parsed \<noteq> expected then Inr HeadPayloadMismatch
                   else bind_result (kp_resolve ports (fst origin) now) (\<lambda>currentKeys.
                     bind_result (anySignature ports (dssePreAuthEncoding MEDIA_HEAD (pe_payloadBytes parsed)) currentKeys
                         (pe_signatures parsed)) (\<lambda>signed.
                       if \<not> signed then Inr HeadUnauthorizedSigner
                       else case checkRefreshWindow head now limit of
                         Some windowFailure \<Rightarrow> Inr (HeadWindow windowFailure)
                       | None \<Rightarrow> Inr (if kp_isFresh ports (sh_refreshBy head) now then HeadOk else HeadStale)))))"

section \<open>The in-memory store\<close>

definition sourceKey :: "source \<Rightarrow> string" where
  "sourceKey source = fst source @ ''/'' @ snd source"

definition inMemoryStore :: "(string \<rightharpoonup> high_water_mark) hwm_store" where
  "inMemoryStore = \<lparr>hwm_get = (\<lambda>source. read_state (\<lambda>positions. positions (sourceKey source))),
     hwm_put = (\<lambda>source mark. modify (\<lambda>positions. positions(sourceKey source \<mapsto> mark)))\<rparr>"

section \<open>Refusal slugs\<close>

fun sourceChainRefusalReason :: "chain_outcome \<Rightarrow> string option" where
  "sourceChainRefusalReason (ChainOk _ _) = None"
| "sourceChainRefusalReason Stale = Some ''stale-source-head''"
| "sourceChainRefusalReason UnauthorizedSigner = Some ''unauthorized-source-signer''"
| "sourceChainRefusalReason (Forked _ _) = Some ''forked-source-chain''"
| "sourceChainRefusalReason (BrokenChain _) = Some ''discontinuous-source-chain''"

fun sourceHeadRefusalReason :: "head_outcome \<Rightarrow> string option" where
  "sourceHeadRefusalReason HeadOk = None"
| "sourceHeadRefusalReason HeadStale = Some ''stale-source-head''"
| "sourceHeadRefusalReason HeadUnauthorizedSigner = Some ''unauthorized-source-signer''"
| "sourceHeadRefusalReason (HeadWindow status) = Some status"
| "sourceHeadRefusalReason HeadOriginMismatch = Some ''head-origin-mismatch''"
| "sourceHeadRefusalReason HeadPayloadMismatch = Some ''head-payload-mismatch''"
| "sourceHeadRefusalReason InvalidHeadEnvelope = Some ''invalid-head-envelope''"

section \<open>The window\<close>

lemma ms_greater_iff: "ms_greater a b \<longleftrightarrow> (\<exists>x y. a = Some x \<and> b = Some y \<and> x > y)"
  by (auto simp: ms_greater_def split: option.splits)

lemma ms_within_iff: "ms_within a b c \<longleftrightarrow> (\<exists>x y z. a = Some x \<and> b = Some y \<and> c = Some z \<and> x - y \<le> z)"
  by (auto simp: ms_within_def split: option.splits)

lemma window_iff:
  "checkRefreshWindow head now maxAheadMs = None \<longleftrightarrow>
     (\<exists>issued refresh limit. parseHeadTimestamp (sh_issuedAt head) = Some issued
        \<and> parseHeadTimestamp (sh_refreshBy head) = Some refresh \<and> maxAheadMs = Some limit
        \<and> issued < refresh \<and> refresh - issued \<le> min MAX_REFRESH_BY_AHEAD_MS limit
        \<and> issued - now \<le> min MAX_REFRESH_BY_AHEAD_MS limit)"
  by (auto simp: checkRefreshWindow_def Let_def ms_greater_iff ms_within_iff split: if_splits)

section \<open>Signatures\<close>

definition signed_by :: "key_ports \<Rightarrow> resolved_key list \<Rightarrow> string \<Rightarrow> bytes \<Rightarrow> bool" where
  "signed_by ports keys payloadType payload \<longleftrightarrow>
     (\<exists>key \<in> set keys. \<exists>sig. kp_verify ports (dssePreAuthEncoding payloadType payload) sig key = Inr True)"

lemma anySignature_True:
  "anySignature ports pae keys sigs = Inr True \<Longrightarrow> \<exists>key \<in> set keys. \<exists>sig. kp_verify ports pae sig key = Inr True"
proof (induction sigs)
  case (Cons s sigs)
  then show ?case
    by (auto simp: bind_result_Inr_iff find_Some_iff split: option.splits if_splits)
qed simp

lemma verifySignedBy_True:
  "verifySignedBy ports envelope payload payloadType keys = Inr True \<Longrightarrow> signed_by ports keys payloadType payload"
  by (auto simp: verifySignedBy_def signed_by_def split: sum.splits if_splits dest: anySignature_True)

definition corroborated :: "key_ports \<Rightarrow> source \<Rightarrow> digested_entry \<Rightarrow> bool" where
  "corroborated ports source node \<longleftrightarrow> en_agent (dg_entry node) = fst source \<and> en_name (dg_entry node) = snd source
     \<and> (\<exists>keyid bytes. kp_everBound ports (fst source) keyid = Inr True \<and> sealBytes (entry_object (dg_entry node)) = Inr bytes
          \<and> signed_by ports [\<lparr>rk_keyid = keyid, rk_publicKey = [], rk_algorithm = []\<rparr>] MEDIA_ENTRY bytes)"

lemma firstEverBound_Some: "firstEverBound ports agent sigs = Inr (Some k) \<Longrightarrow> kp_everBound ports agent k = Inr True"
  by (induction sigs) (auto simp: bind_result_Inr_iff split: option.splits if_splits)

lemma checkEntry_None:
  assumes "checkEntry ports source sigs node = Inr None"
  shows "corroborated ports source node"
proof -
  from assms obtain signature keyid bytes where *: "en_agent (dg_entry node) = fst source" "en_name (dg_entry node) = snd source"
      "firstEverBound ports (fst source) (de_signatures signature) = Inr (Some keyid)"
      "sealBytes (entry_object (dg_entry node)) = Inr bytes"
      "verifySignedBy ports signature bytes MEDIA_ENTRY [\<lparr>rk_keyid = keyid, rk_publicKey = [], rk_algorithm = []\<rparr>] = Inr True"
    by (auto simp: checkEntry_def bind_result_Inr_iff split: if_splits option.splits)
  from firstEverBound_Some [OF *(3)] verifySignedBy_True [OF *(5)] *(1,2,4) show ?thesis
    unfolding corroborated_def by blast
qed

lemma checkEntries_None: "checkEntries ports source sigs nodes = Inr None \<Longrightarrow> \<forall>n \<in> set nodes. corroborated ports source n"
  by (induction nodes) (auto simp: bind_result_Inr_iff checkEntry_None split: if_splits)

section \<open>What an accepted chain has established\<close>

definition entries_accepted ::
  "(bytes \<Rightarrow> string) \<Rightarrow> key_ports \<Rightarrow> source \<Rightarrow> source_head \<Rightarrow> linkage_boundary option \<Rightarrow> fed \<Rightarrow> digested_entry list \<Rightarrow> bool" where
  "entries_accepted sha256Hex ports source head stopAt fed walked \<longleftrightarrow>
     (\<exists>digested. digestEntries sha256Hex (map fst fed) = Inr digested
        \<and> one_genesis digested \<and> no_fork digested \<and> announcements_ok (orderedAnnouncements digested)
        \<and> walk_path (byDigestOf digested) stopAt walked \<and> byDigestOf digested (sh_entry head) = Some (hd walked))
     \<and> (\<forall>n \<in> set walked. corroborated ports source n)"

lemma judgeEntries_None:
  assumes "judgeEntries sha ports source head stopAt fed = Inr None"
  shows "\<exists>walked. entries_accepted sha ports source head stopAt fed walked"
proof -
  from assms obtain digested where d: "digestEntries sha (map fst fed) = Inr digested"
    by (auto simp: judgeEntries_def bind_result_Inr_iff)
  moreover have rules: "checkGlobalChainRules digested = None"
  proof (cases "checkGlobalChainRules digested")
    case (Some failure)
    with assms d show ?thesis by (cases failure) (simp_all add: judgeEntries_def)
  qed
  ultimately obtain walk where "walkLinkage (byDigestOf digested) (sh_entry head) stopAt = Inr walk"
      "(case walk of Inl failure \<Rightarrow> Inr (Some (BrokenChain (linkage_kind failure)))
        | Inr walked \<Rightarrow> checkEntries ports source (signatureByDigestOf digested fed) walked) = Inr None"
    using assms by (auto simp: judgeEntries_def bind_result_Inr_iff)
  then obtain walked where w: "walkLinkage (byDigestOf digested) (sh_entry head) stopAt = Inr (Inr walked)"
      "checkEntries ports source (signatureByDigestOf digested fed) walked = Inr None"
    by (cases walk) simp_all
  from d rules w checkEntries_None [OF w(2)] show ?thesis
    by (auto simp: entries_accepted_def walkLinkage_iff global_rules_iff)
qed

lemma judgeEntries_refusal: "judgeEntries sha ports source head stopAt fed \<noteq> Inr (Some (ChainOk h m))"
proof -
  have entry: "checkEntry ports source sigs node \<noteq> Inr (Some (ChainOk h m))" for sigs node
    by (auto simp: checkEntry_def bind_result_Inr_iff split: if_splits option.splits)
  have entries: "checkEntries ports source sigs nodes \<noteq> Inr (Some (ChainOk h m))" for sigs nodes
    by (induction nodes) (auto simp: bind_result_Inr_iff entry split: if_splits)
  show ?thesis
    by (auto simp: judgeEntries_def bind_result_Inr_iff entries split: option.splits global_failure.splits sum.splits)
qed

definition head_accepted :: "key_ports \<Rightarrow> source \<Rightarrow> chain_request \<Rightarrow> bool" where
  "head_accepted ports source opts \<longleftrightarrow>
     (\<exists>keys bytes. kp_resolve ports (fst source) (cq_now opts) = Inr keys \<and> sealBytes (head_object (cq_head opts)) = Inr bytes
        \<and> signed_by ports keys MEDIA_HEAD bytes)
     \<and> (\<exists>issued refresh. parseHeadTimestamp (sh_issuedAt (cq_head opts)) = Some issued
        \<and> parseHeadTimestamp (sh_refreshBy (cq_head opts)) = Some refresh \<and> issued < refresh
        \<and> refresh - issued \<le> MAX_REFRESH_BY_AHEAD_MS \<and> issued - cq_now opts \<le> MAX_REFRESH_BY_AHEAD_MS)
     \<and> kp_isFresh ports (sh_refreshBy (cq_head opts)) (cq_now opts)"

definition chain_accepted ::
  "(bytes \<Rightarrow> string) \<Rightarrow> key_ports \<Rightarrow> chain_request \<Rightarrow> source \<Rightarrow> high_water_mark option \<Rightarrow> digested_entry list \<Rightarrow> bool" where
  "chain_accepted sha256Hex ports opts source mark walked \<longleftrightarrow>
     splitOrigin (sh_origin (cq_head opts)) = Inr source \<and> head_accepted ports source opts
     \<and> (cq_firstAdoption opts \<or> mark \<noteq> None) \<and> \<not> issuedAtRegresses (cq_head opts) mark
     \<and> (\<exists>fed. cq_entries opts = Inr fed
          \<and> entries_accepted sha256Hex ports source (cq_head opts) (boundaryOf (cq_firstAdoption opts) mark) fed walked)"

lemma wp_await [wp_rules]:
  "(\<And>a. r = Inr a \<Longrightarrow> Q a s) \<Longrightarrow> (\<And>e. r = Inl e \<Longrightarrow> E e s) \<Longrightarrow> wp (await r) Q E s"
  by (cases r) (simp_all add: wp_def await_def)

lemma head_acceptedI:
  assumes "kp_resolve ports (fst source) (cq_now opts) = Inr keys" and "sealBytes (head_object (cq_head opts)) = Inr bytes"
    and "verifySignedBy ports envelope bytes MEDIA_HEAD keys = Inr True"
    and "checkRefreshWindow (cq_head opts) (cq_now opts) limit = None"
    and "kp_isFresh ports (sh_refreshBy (cq_head opts)) (cq_now opts)"
  shows "head_accepted ports source opts"
proof -
  have "refresh - issued \<le> MAX_REFRESH_BY_AHEAD_MS" if "refresh - issued \<le> min MAX_REFRESH_BY_AHEAD_MS l" for refresh issued l
    using that by simp
  then show ?thesis
    using assms(1,2,5) verifySignedBy_True [OF assms(3)] assms(4)
    unfolding head_accepted_def window_iff by blast
qed

text \<open>A store whose \<open>get\<close> only reads and whose \<open>put\<close> does not fail.\<close>

locale mark_reader =
  fixes store :: "'s hwm_store" and view :: "'s \<Rightarrow> source \<Rightarrow> high_water_mark option"
  assumes get_view: "hwm_get store source s = (Inr (view s source), s)"
    and put_done: "fst (hwm_put store source mark s) = Inr ()"
begin

lemma wp_get: "Q (view s source) s \<Longrightarrow> wp (hwm_get store source) Q E s"
  by (simp add: wp_def get_view)

lemma wp_put: "Q () (snd (hwm_put store source mark s)) \<Longrightarrow> wp (hwm_put store source mark) Q E s"
  using put_done [of source mark s] by (cases "hwm_put store source mark s") (simp add: wp_def)

lemma verify_outcome:
  "wp (verifySourceChain sha ports store opts)
     (\<lambda>outcome t. case outcome of
        ChainOk h m \<Rightarrow> h = cq_head opts \<and> m = advancedMark h
          \<and> (\<exists>source walked. chain_accepted sha ports opts source (view s source) walked
               \<and> t = snd (hwm_put store source m s))
      | _ \<Rightarrow> t = s)
     (\<lambda>_ t. t = s) s"
proof -
  let ?limit = "case cq_maxRefreshByAheadMs opts of None \<Rightarrow> Some MAX_REFRESH_BY_AHEAD_MS | Some m \<Rightarrow> m"
  have accepted: "\<exists>walked. chain_accepted sha ports opts source (view s source) walked"
    if "splitOrigin (sh_origin (cq_head opts)) = Inr source"
      and "kp_resolve ports (fst source) (cq_now opts) = Inr keys" and "sealBytes (head_object (cq_head opts)) = Inr bytes"
      and "verifySignedBy ports (cq_headSignature opts) bytes MEDIA_HEAD keys = Inr True"
      and "checkRefreshWindow (cq_head opts) (cq_now opts) ?limit = None"
      and "kp_isFresh ports (sh_refreshBy (cq_head opts)) (cq_now opts)"
      and "\<not> (\<not> cq_firstAdoption opts \<and> view s source = None)" and "\<not> issuedAtRegresses (cq_head opts) (view s source)"
      and "cq_entries opts = Inr fed"
      and "judgeEntries sha ports source (cq_head opts) (boundaryOf (cq_firstAdoption opts) (view s source)) fed = Inr None"
    for source keys bytes fed
    using that(1,7-9) head_acceptedI [OF that(2-6)] judgeEntries_None [OF that(10)]
    by (auto simp: chain_accepted_def)
  show ?thesis
    unfolding verifySourceChain_def Let_def
    apply (intro wp_rules wp_get wp_put)
                        apply (simp_all only: chain_outcome.case simp_thms)
    subgoal using accepted by blast
    subgoal for source keys bytes signed fed refusal outcome
      using judgeEntries_refusal by (cases outcome) auto
    done
qed

end

text \<open>Names of sources contain no slash, so the key of a source determines it.\<close>

definition proper_source :: "source \<Rightarrow> bool" where
  "proper_source source \<longleftrightarrow> CHR ''/'' \<notin> set (snd source)"

lemma sourceKey_inj:
  assumes "proper_source a" and "proper_source b" and "sourceKey a = sourceKey b"
  shows "a = b"
proof -
  have "rev (snd a) @ CHR ''/'' # rev (fst a) = rev (snd b) @ CHR ''/'' # rev (fst b)"
    using arg_cong [OF assms(3), of rev] by (simp add: sourceKey_def)
  then have "rev (snd a) = rev (snd b) \<and> rev (fst a) = rev (fst b)"
    using assms(1,2) by (subst (asm) sep_append_inj) (simp_all add: proper_source_def)
  then show ?thesis by (simp add: prod_eq_iff)
qed

lemma splitOrigin_iff: "splitOrigin origin = Inr source \<longleftrightarrow> proper_source source \<and> origin = sourceKey source"
proof
  assume split: "splitOrigin origin = Inr source"
  define name where "name = rev (takeWhile (\<lambda>c. c \<noteq> CHR ''/'') (rev origin))"
  from split have slash: "CHR ''/'' \<in> set origin" and source: "source = (take (length origin - length name - 1) origin, name)"
    by (auto simp: splitOrigin_def Let_def name_def split: if_splits)
  let ?r = "rev origin"
  have "dropWhile (\<lambda>c. c \<noteq> CHR ''/'') ?r \<noteq> []" using slash by (simp add: dropWhile_eq_Nil_conv)
  then obtain rest where rest: "dropWhile (\<lambda>c. c \<noteq> CHR ''/'') ?r = CHR ''/'' # rest"
    using hd_dropWhile [of "\<lambda>c. c \<noteq> CHR ''/''" ?r] by (cases "dropWhile (\<lambda>c. c \<noteq> CHR ''/'') ?r") simp_all
  then have "?r = rev name @ CHR ''/'' # rest" using takeWhile_dropWhile_id [of "\<lambda>c. c \<noteq> CHR ''/''" ?r] by (simp add: name_def)
  then have origin: "origin = rev rest @ CHR ''/'' # name" by (simp add: rev_swap)
  have "CHR ''/'' \<notin> set name" by (auto simp: name_def dest: set_takeWhileD)
  then show "proper_source source \<and> origin = sourceKey source" using origin source by (simp add: proper_source_def sourceKey_def)
next
  assume source: "proper_source source \<and> origin = sourceKey source"
  then have "rev origin = rev (snd source) @ CHR ''/'' # rev (fst source)" by (simp add: sourceKey_def)
  moreover have "takeWhile (\<lambda>c. c \<noteq> CHR ''/'') (rev (snd source) @ CHR ''/'' # rev (fst source))
      = rev (snd source) @ takeWhile (\<lambda>c. c \<noteq> CHR ''/'') (CHR ''/'' # rev (fst source))"
    by (rule takeWhile_append2) (use source in \<open>auto simp: proper_source_def\<close>)
  ultimately have "takeWhile (\<lambda>c. c \<noteq> CHR ''/'') (rev origin) = rev (snd source)" by simp
  then show "splitOrigin origin = Inr source" using source by (simp add: splitOrigin_def Let_def sourceKey_def)
qed

text \<open>A store that also keeps what was put, source by source.\<close>

locale mark_store = mark_reader +
  assumes put_view: "proper_source source \<Longrightarrow> proper_source other \<Longrightarrow>
    view (snd (hwm_put store source mark s)) other = (if other = source then Some mark else view s other)"

interpretation memory: mark_store inMemoryStore "\<lambda>positions source. positions (sourceKey source)"
  by unfold_locales (auto simp: inMemoryStore_def read_state_def modify_def dest: sourceKey_inj)

section \<open>Marks over many verifications\<close>

definition mark_grows :: "high_water_mark option \<Rightarrow> high_water_mark option \<Rightarrow> bool" where
  "mark_grows old new \<longleftrightarrow>
     (case old of
        None \<Rightarrow> True
      | Some o' \<Rightarrow> (case new of
          None \<Rightarrow> False
        | Some n \<Rightarrow> n = o' \<or> ms_greater (parseHeadTimestamp (hw_issuedAt n)) (parseHeadTimestamp (hw_issuedAt o'))))"

lemma mark_grows_refl: "mark_grows m m"
  by (auto simp: mark_grows_def split: option.splits)

lemma mark_grows_trans: "mark_grows a b \<Longrightarrow> mark_grows b c \<Longrightarrow> mark_grows a c"
  by (auto simp: mark_grows_def ms_greater_iff split: option.splits)

text \<open>A consumer's life: one verification after another, each with the ports of its moment.\<close>

definition verifyAll ::
  "(bytes \<Rightarrow> string) \<Rightarrow> 's hwm_store \<Rightarrow> (key_ports \<times> chain_request) list \<Rightarrow> 's \<Rightarrow> 's" where
  "verifyAll sha256Hex store requests s =
     foldl (\<lambda>s (ports, opts). snd (verifySourceChain sha256Hex ports store opts s)) s requests"

context mark_store
begin

lemma verify_grows:
  assumes "proper_source other"
  shows "mark_grows (view s other) (view (snd (verifySourceChain sha ports store opts s)) other)"
proof -
  let ?P = "\<lambda>t. mark_grows (view s other) (view t other)"
  have accepted: "?P (snd (hwm_put store source (advancedMark (cq_head opts)) s))"
    if "chain_accepted sha ports opts source (view s source) walked" for source walked
  proof -
    have "proper_source source" "\<not> issuedAtRegresses (cq_head opts) (view s source)"
      using that by (simp_all add: chain_accepted_def splitOrigin_iff)
    then show ?thesis using assms
      by (auto simp: put_view mark_grows_refl mark_grows_def issuedAtRegresses_def advancedMark_def split: option.splits)
  qed
  have "wp (verifySourceChain sha ports store opts) (\<lambda>_. ?P) (\<lambda>_. ?P) s"
    by (rule wp_mono [OF verify_outcome]) (use accepted in \<open>auto simp: mark_grows_refl split: chain_outcome.splits\<close>)
  then show ?thesis by (rule wp_outcome)
qed

lemma verifyAll_grows:
  assumes "proper_source other"
  shows "mark_grows (view s other) (view (verifyAll sha store requests s) other)"
proof (induction requests arbitrary: s)
  case Nil
  show ?case by (simp add: verifyAll_def mark_grows_refl)
next
  case (Cons r requests)
  obtain ports opts where r: "r = (ports, opts)" by (cases r)
  let ?t = "snd (verifySourceChain sha ports store opts s)"
  have "verifyAll sha store (r # requests) s = verifyAll sha store requests ?t" by (simp add: verifyAll_def r)
  then show ?case using mark_grows_trans [OF verify_grows [OF assms] Cons.IH [of ?t]] by simp
qed

end

section \<open>Revalidation is steps 1 to 3\<close>

lemma verifySourceHead_iff:
  "verifySourceHead ports source head sig now limit = Inr HeadOk \<longleftrightarrow>
     splitOrigin (sh_origin head) = Inr source
     \<and> (\<exists>keys bytes. kp_resolve ports (fst source) now = Inr keys \<and> sealBytes (head_object head) = Inr bytes
          \<and> verifySignedBy ports sig bytes MEDIA_HEAD keys = Inr True)
     \<and> checkRefreshWindow head now (case limit of None \<Rightarrow> Some MAX_REFRESH_BY_AHEAD_MS | Some m \<Rightarrow> m) = None
     \<and> kp_isFresh ports (sh_refreshBy head) now"
  by (auto simp: verifySourceHead_def verifySignedBy_def Let_def bind_result_Inr_iff prod_eq_iff
      split: sum.splits if_splits option.splits)

context mark_reader
begin

lemma verify_then_head:
  "wp (verifySourceChain sha ports store opts)
     (\<lambda>outcome _. case outcome of
        ChainOk h m \<Rightarrow> \<exists>source. verifySourceHead ports source (cq_head opts) (cq_headSignature opts) (cq_now opts)
          (cq_maxRefreshByAheadMs opts) = Inr HeadOk
      | _ \<Rightarrow> True)
     (\<lambda>_ _. True) s"
  unfolding verifySourceChain_def Let_def verifySourceHead_iff
  apply (intro wp_rules wp_get wp_put)
                      apply (simp_all only: chain_outcome.case simp_thms)
  subgoal by blast
  subgoal for source keys bytes signed fed refusal outcome
    using judgeEntries_refusal by (cases outcome) auto
  done

end

section \<open>Written envelopes\<close>

lemma parse_written:
  assumes "t \<noteq> []" and "b \<noteq> []" and "sig \<noteq> []"
  shows "parseWireDsseEnvelope (envelope_object \<lparr>de_payloadType = t, de_payload = btoa b,
      de_signatures = [\<lparr>es_keyid = Some k, es_sig = btoa sig\<rparr>]\<rparr>)
    = Inr \<lparr>pe_payloadType = t, pe_payloadBytes = b, pe_signatures = [\<lparr>ws_keyid = Some k, ws_signatureBytes = sig\<rparr>]\<rparr>"
proof -
  have b64: "canonicalStandardBase64 (JStr (btoa x)) l = Inr x" if "x \<noteq> []" for x l
    using that by (simp add: base64_reads_btoa)
  have keys: "js_sort compareCodeUnitStrings [''payloadType'', ''payload'', ''signatures''] = [''payload'', ''payloadType'', ''signatures'']"
    "js_sort compareCodeUnitStrings [''keyid'', ''sig''] = [''keyid'', ''sig'']"
    by code_simp+
  show ?thesis
    using assms
    by (simp add: parseWireDsseEnvelope_def envelope_object_def signature_object_def optional_def exactKeys_def keys
        parseWireSignature_def Let_def b64 enumerate_eq_zip)
qed

section \<open>The converse: what is accepted\<close>

lemma verify_accepts:
  assumes "splitOrigin (sh_origin (cq_head opts)) = Inr source"
    and "kp_resolve ports (fst source) (cq_now opts) = Inr keys" and "sealBytes (head_object (cq_head opts)) = Inr bytes"
    and "verifySignedBy ports (cq_headSignature opts) bytes MEDIA_HEAD keys = Inr True"
    and "checkRefreshWindow (cq_head opts) (cq_now opts)
      (case cq_maxRefreshByAheadMs opts of None \<Rightarrow> Some MAX_REFRESH_BY_AHEAD_MS | Some m \<Rightarrow> m) = None"
    and "kp_isFresh ports (sh_refreshBy (cq_head opts)) (cq_now opts)"
    and "cq_firstAdoption opts \<or> positions (sourceKey source) \<noteq> None"
    and "\<not> issuedAtRegresses (cq_head opts) (positions (sourceKey source))" and "cq_entries opts = Inr fed"
    and "judgeEntries sha ports source (cq_head opts) (boundaryOf (cq_firstAdoption opts) (positions (sourceKey source))) fed = Inr None"
  shows "verifySourceChain sha ports inMemoryStore opts positions
    = (Inr (ChainOk (cq_head opts) (advancedMark (cq_head opts))), positions(sourceKey source \<mapsto> advancedMark (cq_head opts)))"
  using assms(7)
  by (simp add: verifySourceChain_def Let_def andThen_def await_def ret_def inMemoryStore_def read_state_def modify_def
      assms(1-6,8-10) del: fun_upd_apply not_None_eq)

lemma judge_accepts:
  assumes "digestEntries sha (map fst fed) = Inr digested" and "checkGlobalChainRules digested = None"
    and "walkLinkage (byDigestOf digested) (sh_entry head) stopAt = Inr (Inr walked)"
    and "checkEntries ports source (signatureByDigestOf digested fed) walked = Inr None"
  shows "judgeEntries sha ports source head stopAt fed = Inr None"
  using assms by (simp add: judgeEntries_def)

section \<open>An example source\<close>

definition ex_sha :: "bytes \<Rightarrow> string" where
  "ex_sha b = dec (length b)"

definition ex_ann :: "string \<Rightarrow> announcement" where
  "ex_ann i = Available i \<lparr>ref_kind = ''k'', ref_digest = ''d'', ref_mediaType = None\<rparr> None None"

definition ex_entry :: "string \<Rightarrow> string option \<Rightarrow> announcement list \<Rightarrow> announcement_entry" where
  "ex_entry sequence previous announcements =
     \<lparr>en_protocol = ''p'', en_agent = ''a'', en_name = ''s'', en_sequence = sequence, en_previous = previous,
      en_timestamp = ''t'', en_announcements = announcements\<rparr>"

definition ex_first :: announcement_entry where
  "ex_first = ex_entry GENESIS_SEQUENCE None [ex_ann ''x'']"

definition ex_second :: announcement_entry where
  "ex_second = ex_entry ''0000000000000002'' (Some ''sha256:209'') [ex_ann ''y'']"

definition ex_withdrawal :: announcement_entry where
  "ex_withdrawal = ex_entry ''0000000000000002'' (Some ''sha256:209'') [Withdrawn ''z'' ''x'' Superseded]"

definition ex_ports :: key_ports where
  "ex_ports = \<lparr>kp_resolve = (\<lambda>_ _. Inr [\<lparr>rk_keyid = ''k1'', rk_publicKey = [], rk_algorithm = []\<rparr>]),
     kp_everBound = (\<lambda>_ k. Inr (k = ''k1'')), kp_verify = (\<lambda>_ sig _. Inr (sig = ''g'')),
     kp_isFresh = (\<lambda>refreshBy now. ms_greater (parseHeadTimestamp refreshBy) (Some now))\<rparr>"

definition ex_envelope :: "string \<Rightarrow> json \<Rightarrow> dsse_envelope" where
  "ex_envelope payloadType v =
     \<lparr>de_payloadType = payloadType, de_payload = btoa (case sealBytes v of Inr b \<Rightarrow> b | Inl _ \<Rightarrow> []),
      de_signatures = [\<lparr>es_keyid = Some ''k1'', es_sig = btoa ''g''\<rparr>]\<rparr>"

definition ex_signed :: "announcement_entry \<Rightarrow> announcement_entry \<times> dsse_envelope" where
  "ex_signed e = (e, ex_envelope MEDIA_ENTRY (entry_object e))"

definition ex_head :: "string \<Rightarrow> string \<Rightarrow> string \<Rightarrow> string \<Rightarrow> source_head" where
  "ex_head sequence entry issuedAt refreshBy =
     \<lparr>sh_protocol = ''p'', sh_origin = ''a/s'', sh_sequence = sequence, sh_entry = entry, sh_issuedAt = issuedAt, sh_refreshBy = refreshBy\<rparr>"

definition ex_request :: "source_head \<Rightarrow> announcement_entry list \<Rightarrow> bool \<Rightarrow> chain_request" where
  "ex_request head entries firstAdoption =
     \<lparr>cq_head = head, cq_headSignature = ex_envelope MEDIA_HEAD (head_object head), cq_entries = Inr (map ex_signed entries),
      cq_now = 1767225600000, cq_firstAdoption = firstAdoption, cq_maxRefreshByAheadMs = None\<rparr>"

definition ex_cold :: chain_request where
  "ex_cold = ex_request (ex_head ''0000000000000002'' ''sha256:217'' ''2026-01-01T00:00:00Z'' ''2026-01-01T12:00:00Z'') [ex_first, ex_second] True"

definition ex_warm :: chain_request where
  "ex_warm = ex_request (ex_head ''0000000000000002'' ''sha256:217'' ''2026-01-01T00:00:00Z'' ''2026-01-01T12:00:00Z'') [ex_second] False"

definition ex_mark :: high_water_mark where
  "ex_mark = \<lparr>hw_sequence = GENESIS_SEQUENCE, hw_entry = ''sha256:209'', hw_issuedAt = ''2025-12-31T00:00:00Z''\<rparr>"

definition ex_digest :: "announcement_entry \<Rightarrow> digested_entry" where
  "ex_digest e = (case digestEntry ex_sha e of Inr d \<Rightarrow> d | Inl _ \<Rightarrow> undefined)"

lemma ex_sealable: "sealable (entry_object ex_first)" "sealable (entry_object ex_second)" "sealable (entry_object ex_withdrawal)"
  "sealable (head_object h)"
  by (simp_all add: entry_object_def ex_first_def ex_second_def ex_withdrawal_def ex_entry_def ex_ann_def ref_object_def optional_def head_object_def)

lemma ex_seal: "sealable v \<Longrightarrow> sealBytes v = Inr (utf8_encode (serializeCanonicalJson v))"
  by (simp add: sealBytes_iff)

lemma ex_digests: "digestEntry ex_sha ex_first = Inr (ex_digest ex_first)" "digestEntry ex_sha ex_second = Inr (ex_digest ex_second)"
  "digestEntry ex_sha ex_withdrawal = Inr (ex_digest ex_withdrawal)"
  by (simp_all add: ex_digest_def digestEntry_def sealJson_def ex_seal ex_sealable)

lemma ex_digest_fields:
  "dg_digest (ex_digest ex_first) = ''sha256:209''" "dg_digest (ex_digest ex_second) = ''sha256:217''"
  by code_simp+

lemma ex_digest_entry: "dg_entry (ex_digest ex_first) = ex_first" "dg_entry (ex_digest ex_second) = ex_second"
  using ex_digests by (auto simp: digestEntry_Inr)

lemma ex_digest_bytes: "length (dg_sealedBytes (ex_digest ex_first)) = 209" "length (dg_sealedBytes (ex_digest ex_second)) = 217"
  by code_simp+

lemma ex_signs:
  assumes "sealable v" and "serializeCanonicalJson v \<noteq> []" and "t \<noteq> []"
  shows "verifySignedBy ex_ports (ex_envelope t v) (utf8_encode (serializeCanonicalJson v)) t
    [\<lparr>rk_keyid = ''k1'', rk_publicKey = [], rk_algorithm = []\<rparr>] = Inr True"
proof -
  have "utf8_encode (serializeCanonicalJson v) \<noteq> []"
    using assms(2) utf8_encode_inj [of _ "[]"] by (auto simp: utf8_encode_def)
  then show ?thesis
    using parse_written [OF assms(3), of _ "''g''" "''k1''"] assms(1)
    by (simp add: verifySignedBy_def ex_envelope_def ex_seal ex_ports_def)
qed

lemma ex_media: "MEDIA_HEAD \<noteq> []" "MEDIA_ENTRY \<noteq> []"
  by (simp_all add: MEDIA_HEAD_def MEDIA_ENTRY_def)

lemma ex_entry_checked:
  assumes "e \<in> {ex_first, ex_second}" and "sigs (dg_digest (ex_digest e)) = Some (ex_envelope MEDIA_ENTRY (entry_object e))"
  shows "checkEntry ex_ports (''a'', ''s'') sigs (ex_digest e) = Inr None"
proof -
  have "firstEverBound ex_ports ''a'' (de_signatures (ex_envelope MEDIA_ENTRY (entry_object e))) = Inr (Some ''k1'')"
    by (simp add: ex_envelope_def ex_ports_def)
  moreover have "de_signatures (ex_envelope MEDIA_ENTRY (entry_object e)) \<noteq> []" by (simp add: ex_envelope_def)
  moreover have "sealable (entry_object e)" "dg_entry (ex_digest e) = e" "en_agent e = ''a''" "en_name e = ''s''"
    using assms(1) ex_sealable ex_digest_entry by (auto simp: ex_first_def ex_second_def ex_entry_def)
  moreover have "serializeCanonicalJson (entry_object e) \<noteq> []" by (simp add: entry_object_def)
  ultimately show ?thesis using assms(2) ex_signs [of "entry_object e" MEDIA_ENTRY] ex_media
    by (simp add: checkEntry_def ex_seal)
qed

lemma ex_global: "checkGlobalChainRules [ex_digest ex_first, ex_digest ex_second] = None" "checkGlobalChainRules [ex_digest ex_second] = None"
  "checkGlobalChainRules [ex_digest ex_first, ex_digest ex_withdrawal] = None" "checkGlobalChainRules [ex_digest ex_withdrawal] = Some (ForeignRetraction ''z'')"
  by code_simp+

lemma ex_sequences:
  "nextSequence GENESIS_SEQUENCE = Inr ''0000000000000002''" "en_sequence ex_first = GENESIS_SEQUENCE"
  "en_sequence ex_second = ''0000000000000002''" "en_previous ex_first = None" "en_previous ex_second = Some ''sha256:209''"
  by (code_simp, simp_all add: ex_first_def ex_second_def ex_entry_def)

lemma ex_within: "within_ceilings (ex_digest ex_first)" "within_ceilings (ex_digest ex_second)"
proof -
  have "cardsWithin (en_announcements ex_first) = Inr True" "cardsWithin (en_announcements ex_second) = Inr True"
    by code_simp+
  then show "within_ceilings (ex_digest ex_first)" "within_ceilings (ex_digest ex_second)"
    by (simp_all add: within_ceilings_def ex_digest_entry ex_digest_bytes entrySealedBytes_def itemsPerEntry_def)
      (simp_all add: ex_first_def ex_second_def ex_entry_def)
qed

lemma ex_walk:
  assumes "digested = (if cold then [ex_digest ex_first, ex_digest ex_second] else [ex_digest ex_second])"
    and "stopAt = (if cold then None else Some \<lparr>lb_digest = ''sha256:209'', lb_sequence = GENESIS_SEQUENCE\<rparr>)"
  shows "walkLinkage (byDigestOf digested) ''sha256:217'' stopAt = Inr (Inr (rev digested))"
proof -
  have lookup: "byDigestOf [ex_digest ex_first, ex_digest ex_second]
      = [''sha256:217'' \<mapsto> ex_digest ex_second, ''sha256:209'' \<mapsto> ex_digest ex_first]"
    "byDigestOf [ex_digest ex_second] = [''sha256:217'' \<mapsto> ex_digest ex_second]"
    by (auto simp: byDigestOf_def ex_digest_fields)
  show ?thesis
    using assms by (auto simp: walkLinkage_iff lookup ex_within child_of_def ex_digest_entry ex_sequences not_boundary_def ends_at_def ex_digest_fields)
qed

lemma ex_judge:
  assumes "fed = map ex_signed (if cold then [ex_first, ex_second] else [ex_second])" and "sh_entry head = ''sha256:217''"
    and "stopAt = (if cold then None else Some \<lparr>lb_digest = ''sha256:209'', lb_sequence = GENESIS_SEQUENCE\<rparr>)"
  shows "judgeEntries ex_sha ex_ports (''a'', ''s'') head stopAt fed = Inr None"
proof -
  define ds where "ds = (if cold then [ex_digest ex_first, ex_digest ex_second] else [ex_digest ex_second])"
  have "digestEntries ex_sha (map fst fed) = Inr ds"
    using ex_digests by (simp add: digestEntries_def assms(1) ds_def ex_signed_def)
  moreover have "checkGlobalChainRules ds = None" using ex_global by (simp add: ds_def)
  moreover have "walkLinkage (byDigestOf ds) (sh_entry head) stopAt = Inr (Inr (rev ds))"
    using ex_walk [OF ds_def assms(3)] assms(2) by simp
  moreover have "checkEntries ex_ports (''a'', ''s'') (signatureByDigestOf ds fed) (rev ds) = Inr None"
    using ex_entry_checked by (simp add: ds_def signatureByDigestOf_def assms(1) ex_signed_def ex_digest_fields)
  ultimately show ?thesis by (rule judge_accepts)
qed

lemma ex_accepts:
  assumes "opts = ex_request (ex_head sequence ''sha256:217'' ''2026-01-01T00:00:00Z'' ''2026-01-01T12:00:00Z'')
      (if cold then [ex_first, ex_second] else [ex_second]) cold"
    and "positions = (if cold then Map.empty else [''a/s'' \<mapsto> ex_mark])"
  shows "verifySourceChain ex_sha ex_ports inMemoryStore opts positions
    = (Inr (ChainOk (cq_head opts) (advancedMark (cq_head opts))), positions(''a/s'' \<mapsto> advancedMark (cq_head opts)))"
proof -
  define h where "h = ex_head sequence ''sha256:217'' ''2026-01-01T00:00:00Z'' ''2026-01-01T12:00:00Z''"
  have key: "sourceKey (''a'', ''s'') = ''a/s''" by (simp add: sourceKey_def)
  have opts: "cq_head opts = h" "cq_now opts = 1767225600000" "cq_firstAdoption opts = cold" "cq_maxRefreshByAheadMs opts = None"
    "cq_headSignature opts = ex_envelope MEDIA_HEAD (head_object h)"
    "cq_entries opts = Inr (map ex_signed (if cold then [ex_first, ex_second] else [ex_second]))"
    by (simp_all add: assms(1) ex_request_def h_def)
  have "checkRefreshWindow h 1767225600000 (Some MAX_REFRESH_BY_AHEAD_MS) = None"
    "ms_greater (parseHeadTimestamp (sh_refreshBy h)) (Some 1767225600000)"
    "ms_greater (parseHeadTimestamp (sh_issuedAt h)) (parseHeadTimestamp (hw_issuedAt ex_mark))"
    by (simp_all add: checkRefreshWindow_def h_def ex_head_def ex_mark_def) code_simp+
  moreover have "splitOrigin (sh_origin h) = Inr (''a'', ''s'')" "sh_entry h = ''sha256:217''"
    by (simp_all add: h_def ex_head_def splitOrigin_def)
  moreover have "serializeCanonicalJson (head_object h) \<noteq> []" by (simp add: head_object_def)
  ultimately show ?thesis
    using ex_judge [of _ cold h "boundaryOf cold (positions ''a/s'')"] ex_signs [of "head_object h" MEDIA_HEAD] ex_media
    by (subst verify_accepts [where source = "(''a'', ''s'')"])
      (auto simp: opts key ex_seal ex_sealable assms(2) issuedAtRegresses_def boundaryOf_def ex_ports_def ex_mark_def)
qed

text \<open>The outcome of a verification against the in-memory store.\<close>

lemma memory_run:
  assumes "verifySourceChain sha256Hex ports inMemoryStore opts positions = (result, positions')"
  shows "case result of
      Inr (ChainOk h m) \<Rightarrow> h = cq_head opts \<and> m = advancedMark h
        \<and> (\<exists>source walked. chain_accepted sha256Hex ports opts source (positions (sourceKey source)) walked
             \<and> positions' = positions(sourceKey source \<mapsto> m))
    | _ \<Rightarrow> positions' = positions"
proof -
  have put: "snd (hwm_put inMemoryStore source m positions) = positions(sourceKey source \<mapsto> m)" for source m
    by (simp add: inMemoryStore_def modify_def)
  from memory.verify_outcome [of sha256Hex ports opts positions] assms show ?thesis
    by (auto simp: wp_def put split: sum.splits chain_outcome.splits)
qed

section \<open>Properties\<close>

text \<open>
  C9: A source-chain verification that returns ok has split the head's origin into a source, found the
  sealed head signed under the head media type by a key valid now, with a window that is not empty, at
  most 24 hours long and not issued more than 24 hours ahead, and, if a mark was on file, issued after
  it; the fed entries have one genesis, no fork and a consistent announcement history; the walk from
  the cited entry reached the boundary (genesis on first adoption, the high-water mark otherwise)
  through contiguous, hash-linked entries within the ceilings; and every walked entry names this source
  and carries a signature of a key once bound to its agent. Only then is the mark of this source, and
  no other, set to the head's position. Every refusal and every rejection leaves all marks alone.
\<close>

theorem verifySourceChain_sound:
  assumes "verifySourceChain sha256Hex ports inMemoryStore opts positions = (result, positions')"
  shows "case result of
      Inr (ChainOk h m) \<Rightarrow> h = cq_head opts \<and> m = advancedMark h
        \<and> (\<exists>source walked. chain_accepted sha256Hex ports opts source (positions (sourceKey source)) walked
             \<and> positions' = positions(sourceKey source \<mapsto> m))
    | _ \<Rightarrow> positions' = positions"
  using assms by (rule memory_run)

theorem verifySourceChain_sound_witness:
  "\<exists>source walked. chain_accepted ex_sha ex_ports ex_warm source (([''a/s'' \<mapsto> ex_mark]) (sourceKey source)) walked"
proof -
  have "ex_warm = ex_request (ex_head ''0000000000000002'' ''sha256:217'' ''2026-01-01T00:00:00Z'' ''2026-01-01T12:00:00Z'')
      (if False then [ex_first, ex_second] else [ex_second]) False" by (simp add: ex_warm_def)
  from verifySourceChain_sound [OF ex_accepts [OF this, of "[''a/s'' \<mapsto> ex_mark]"]]
  show ?thesis by (simp only: sum.case chain_outcome.case if_False) blast
qed

text \<open>
  C11: The high-water mark of a source never goes back: after any sequence of verifications against the
  in-memory store, accepted or refused, first adoptions included, for this source or others, the mark on
  file is the same one or one whose head was issued later.
\<close>

theorem marks_never_regress:
  assumes "proper_source source"
  shows "mark_grows (positions (sourceKey source)) (verifyAll sha256Hex inMemoryStore requests positions (sourceKey source))"
  using memory.verifyAll_grows [OF assms] .

theorem marks_never_regress_witness:
  "mark_grows (Some ex_mark) (verifyAll ex_sha inMemoryStore [(ex_ports, ex_warm), (ex_ports, ex_cold)] [''a/s'' \<mapsto> ex_mark] ''a/s'')"
  using marks_never_regress [of "(''a'', ''s'')" "[''a/s'' \<mapsto> ex_mark]" ex_sha "[(ex_ports, ex_warm), (ex_ports, ex_cold)]"]
  by (simp add: proper_source_def sourceKey_def)

text \<open>
  C10: The digest a walk starts from commits to the history behind it. Let a returning consumer walk from
  a head's entry back to its boundary, over whatever it was fed, and let the boundary's own history have
  been walked to genesis before. Then any cold walk from the same entry that reaches genesis, over
  whatever it is fed, has seen byte for byte the new entries followed by the old ones, unless the
  entries exhibit two sealed documents with one SHA-256 digest.
\<close>

theorem returning_walk_extends_history:
  assumes "digestEntries sha256Hex newer = Inr ds" and "digestEntries sha256Hex older = Inr os" and "digestEntries sha256Hex all = Inr es"
    and "list_all entry_ok (newer @ older @ all)"
    and "walkLinkage (byDigestOf ds) h (Some b) = Inr (Inr ns)" and "walkLinkage (byDigestOf os) (lb_digest b) None = Inr (Inr ps)"
    and "walkLinkage (byDigestOf es) h None = Inr (Inr ms)"
  shows "map dg_sealedBytes ms
      = map dg_sealedBytes (takeWhile (\<lambda>n. dg_digest n \<noteq> lb_digest b) ns) @ map dg_sealedBytes ps
    \<or> hash_collision (ds @ os @ es)"
proof -
  have genuine: "list_all (genuine sha256Hex) (ds @ os @ es)"
    using digestEntries_genuine(1) [OF assms(1)] digestEntries_genuine(1) [OF assms(2)] digestEntries_genuine(1) [OF assms(3)] assms(4)
    by simp
  have "hd xs \<in> set cs \<and> dg_digest (hd xs) = c" if "walkLinkage (byDigestOf cs) c st = Inr (Inr xs)" for cs c st xs
    using that byDigestOf_Some [of cs c "hd xs"] by (simp add: walkLinkage_iff)
  note heads = this [OF assms(5)] this [OF assms(6)] this [OF assms(7)]
  show ?thesis
  proof (rule disjCI)
    assume "\<not> hash_collision (ds @ os @ es)"
    then show "map dg_sealedBytes ms
        = map dg_sealedBytes (takeWhile (\<lambda>n. dg_digest n \<noteq> lb_digest b) ns) @ map dg_sealedBytes ps"
      by (rule walk_path_extends [OF _ genuine]) (use heads assms(5-7) in \<open>simp_all add: walkLinkage_iff\<close>)
  qed
qed

theorem returning_walk_extends_history_witness:
  "map dg_sealedBytes [ex_digest ex_second, ex_digest ex_first]
      = map dg_sealedBytes (takeWhile (\<lambda>n. dg_digest n \<noteq> ''sha256:209'') [ex_digest ex_second]) @ map dg_sealedBytes [ex_digest ex_first]
    \<or> hash_collision ([ex_digest ex_second] @ [ex_digest ex_first] @ [ex_digest ex_first, ex_digest ex_second])"
proof -
  let ?b = "\<lparr>lb_digest = ''sha256:209'', lb_sequence = GENESIS_SEQUENCE\<rparr>"
  have ok: "list_all entry_ok ([ex_second] @ [ex_first] @ [ex_first, ex_second])"
    by (simp add: entry_ok_def entry_object_def ex_first_def ex_second_def ex_entry_def ex_ann_def ref_object_def optional_def)
  have digests: "digestEntries ex_sha [ex_second] = Inr [ex_digest ex_second]" "digestEntries ex_sha [ex_first] = Inr [ex_digest ex_first]"
    "digestEntries ex_sha [ex_first, ex_second] = Inr [ex_digest ex_first, ex_digest ex_second]"
    using ex_digests by (simp_all add: digestEntries_def)
  have walks: "walkLinkage (byDigestOf [ex_digest ex_second]) ''sha256:217'' (Some ?b) = Inr (Inr [ex_digest ex_second])"
    "walkLinkage (byDigestOf [ex_digest ex_first, ex_digest ex_second]) ''sha256:217'' None = Inr (Inr [ex_digest ex_second, ex_digest ex_first])"
    using ex_walk [of _ False] ex_walk [of _ True] by simp_all
  have "walkLinkage (byDigestOf [ex_digest ex_first]) (lb_digest ?b) None = Inr (Inr [ex_digest ex_first])"
    by (simp add: walkLinkage_iff byDigestOf_def ex_digest_fields ex_within ends_at_def ex_digest_entry ex_sequences)
  from returning_walk_extends_history [OF digests ok walks(1) this walks(2)] show ?thesis by simp
qed

text \<open>
  C12: A chain fed with a withdrawal but not with the announcement it retracts is never accepted. In
  particular a returning consumer, who is fed only the entries above its mark, refuses a sound chain as
  soon as the source withdraws something it announced at or below that mark: the global rules look for
  the target among the fed entries alone.
\<close>

theorem withdrawal_below_mark_refused:
  assumes "cq_entries opts = Inr fed" and "entry \<in> fst ` set fed" and "Withdrawn i target reason \<in> set (en_announcements entry)"
    and "\<forall>e \<in> fst ` set fed. \<forall>a \<in> set (en_announcements e). announcementId a \<noteq> target"
  shows "fst (verifySourceChain sha256Hex ports inMemoryStore opts positions) \<noteq> Inr (ChainOk h m)"
proof
  assume ok: "fst (verifySourceChain sha256Hex ports inMemoryStore opts positions) = Inr (ChainOk h m)"
  obtain positions' where "verifySourceChain sha256Hex ports inMemoryStore opts positions = (Inr (ChainOk h m), positions')"
    using ok by (metis fst_conv surj_pair)
  from memory_run [OF this] obtain source walked
    where "chain_accepted sha256Hex ports opts source (positions (sourceKey source)) walked" by auto
  then obtain digested where d: "digestEntries sha256Hex (map fst fed) = Inr digested"
      "announcements_ok (orderedAnnouncements digested)"
    using assms(1) by (auto simp: chain_accepted_def entries_accepted_def)
  have "map dg_entry digested = map fst fed"
    using d(1) by (auto simp: digestEntries_def map_result_Inr_iff list_all2_conv_all_nth digestEntry_Inr intro!: nth_equalityI)
  then have entries: "dg_entry ` set digested = fst ` set fed" by (metis list.set_map)
  have all: "set (orderedAnnouncements digested) = (\<Union>e \<in> fst ` set fed. set (en_announcements e))"
    unfolding entries [symmetric] by (simp add: orderedAnnouncements_def by_sequence.set_js_sort)
  from assms(2,3) all have "Withdrawn i target reason \<in> set (orderedAnnouncements digested)" by blast
  from withdrawal_target [OF d(2) this] all assms(4) show False by fastforce
qed

theorem withdrawal_below_mark_refused_witness:
  "\<forall>h m. fst (verifySourceChain ex_sha ex_ports inMemoryStore
      (ex_request (ex_head ''0000000000000002'' ''sha256:219'' ''2026-01-01T00:00:00Z'' ''2026-01-01T12:00:00Z'') [ex_withdrawal] False)
      [''a/s'' \<mapsto> ex_mark]) \<noteq> Inr (ChainOk h m)"
proof (intro allI)
  let ?opts = "ex_request (ex_head ''0000000000000002'' ''sha256:219'' ''2026-01-01T00:00:00Z'' ''2026-01-01T12:00:00Z'') [ex_withdrawal] False"
  have "cq_entries ?opts = Inr [ex_signed ex_withdrawal]" by (simp add: ex_request_def)
  moreover have "ex_withdrawal \<in> fst ` set [ex_signed ex_withdrawal]" by (simp add: ex_signed_def)
  moreover have "Withdrawn ''z'' ''x'' Superseded \<in> set (en_announcements ex_withdrawal)"
    "\<forall>e \<in> fst ` set [ex_signed ex_withdrawal]. \<forall>a \<in> set (en_announcements e). announcementId a \<noteq> ''x''"
    by (simp_all add: ex_withdrawal_def ex_entry_def ex_signed_def)
  ultimately show "fst (verifySourceChain ex_sha ex_ports inMemoryStore ?opts [''a/s'' \<mapsto> ex_mark]) \<noteq> Inr (ChainOk h m)" for h m
    by (rule withdrawal_below_mark_refused)
qed

text \<open>
  C15: Head revalidation is the first three steps of chain verification: a head the chain procedure
  accepts is one that revalidation, asked about the same source at the same moment with the same ports,
  reports as ok, whatever the store and the entries.
\<close>

theorem head_revalidation_agrees:
  assumes "fst (verifySourceChain sha256Hex ports inMemoryStore opts positions) = Inr (ChainOk h m)"
  shows "\<exists>source. splitOrigin (sh_origin (cq_head opts)) = Inr source
    \<and> verifySourceHead ports source (cq_head opts) (cq_headSignature opts) (cq_now opts) (cq_maxRefreshByAheadMs opts) = Inr HeadOk"
  using memory.verify_then_head [of sha256Hex ports opts positions] assms
  by (auto simp: wp_def verifySourceHead_iff split: prod.splits)

theorem head_revalidation_agrees_witness:
  "\<exists>source. splitOrigin (sh_origin (cq_head ex_cold)) = Inr source
    \<and> verifySourceHead ex_ports source (cq_head ex_cold) (cq_headSignature ex_cold) (cq_now ex_cold) (cq_maxRefreshByAheadMs ex_cold) = Inr HeadOk"
proof (rule head_revalidation_agrees)
  show "fst (verifySourceChain ex_sha ex_ports inMemoryStore ex_cold Map.empty)
      = Inr (ChainOk (cq_head ex_cold) (advancedMark (cq_head ex_cold)))"
    using ex_accepts [of ex_cold "''0000000000000002''" True] by (simp add: ex_cold_def)
qed

text \<open>
  C13: The global rules accept a set of fed entries exactly when it has at most one genesis digest, no
  two digests with one parent, and an announcement history in sequence order in which every identifier
  occurs once and every withdrawal names an earlier available announcement. When they report a fork,
  the two entries of the evidence are fed entries with one parent and different digests. For entries
  with different digests, whether they accept does not depend on the order in which they were fed.
\<close>

theorem global_chain_rules:
  "(checkGlobalChainRules ds = None \<longleftrightarrow> one_genesis ds \<and> no_fork ds \<and> announcements_ok (orderedAnnouncements ds))
   \<and> (checkGlobalChainRules ds = Some (ForkedEntries x y) \<longrightarrow>
        (\<exists>a \<in> set ds. \<exists>b \<in> set ds. x = dg_entry a \<and> y = dg_entry b \<and> dg_digest a \<noteq> dg_digest b
           \<and> en_previous x = en_previous y \<and> en_previous x \<noteq> None))
   \<and> (mset ds = mset es \<longrightarrow> inj_on dg_digest (set ds) \<longrightarrow> (checkGlobalChainRules ds = None \<longleftrightarrow> checkGlobalChainRules es = None))"
  using global_rules_iff fork_evidence global_rules_perm by blast

theorem global_chain_rules_witness:
  "checkGlobalChainRules [ex_digest ex_second, ex_digest ex_first] = None"
proof -
  have "inj_on dg_digest (set [ex_digest ex_first, ex_digest ex_second])" by (auto simp: inj_on_def ex_digest_fields)
  moreover have "mset [ex_digest ex_first, ex_digest ex_second] = mset [ex_digest ex_second, ex_digest ex_first]" by simp
  ultimately show ?thesis
    using global_chain_rules [of "[ex_digest ex_first, ex_digest ex_second]" ex_first ex_first "[ex_digest ex_second, ex_digest ex_first]"]
      ex_global(1) by blast
qed

text \<open>
  The entries a walk visits, however it ends: the cursor's entry, and on from there while the loop goes on.
\<close>

function walkVisits ::
  "(string \<rightharpoonup> digested_entry) \<Rightarrow> linkage_boundary option \<Rightarrow> string \<Rightarrow> digested_entry list" where
  "walkVisits byDigest stopAt cursor =
     (case byDigest cursor of
        None \<Rightarrow> []
      | Some node \<Rightarrow>
          node # (case visitNode byDigest stopAt node of
                    Inl e \<Rightarrow> []
                  | Inr v \<Rightarrow> (case v of GoOn previous \<Rightarrow> walkVisits byDigest stopAt previous | Reached \<Rightarrow> [] | Refuse f \<Rightarrow> [])))"
  by pat_completeness auto
termination
  by (relation "measure (\<lambda>(byDigest, stopAt, cursor). sequence_rank byDigest cursor)")
    (simp_all add: sequence_rank_decreases)

declare walkVisits.simps [simp del]

text \<open>How a walk with these visits ends.\<close>

definition walk_ending ::
  "(string \<rightharpoonup> digested_entry) \<Rightarrow> linkage_boundary option \<Rightarrow> digested_entry list \<Rightarrow> digested_entry list
    \<Rightarrow> (exn, (linkage_failure, digested_entry list) result) result" where
  "walk_ending byDigest stopAt walked visits =
     (if visits = [] then Inr (Inl Linkage)
      else case visitNode byDigest stopAt (last visits) of
             Inl e \<Rightarrow> Inl e
           | Inr v \<Rightarrow> (case v of Refuse f \<Rightarrow> Inr (Inl f) | Reached \<Rightarrow> Inr (Inr (walked @ visits)) | GoOn c \<Rightarrow> Inr (Inl Linkage)))"

lemma walkVisits_GoOn:
  assumes "byDigest cursor = Some n" and "visitNode byDigest stopAt n = Inr (GoOn c)"
  obtains m ns where "walkVisits byDigest stopAt cursor = n # m # ns" "walkVisits byDigest stopAt c = m # ns" "child_of byDigest n m"
proof -
  obtain m where m: "en_previous (dg_entry n) = Some c" "byDigest c = Some m" "child_of byDigest n m"
    using assms(2) by (auto simp: visitNode_GoOn_iff)
  obtain ns where "walkVisits byDigest stopAt c = m # ns" using m(2) by (subst (asm) walkVisits.simps) simp
  moreover from this have "walkVisits byDigest stopAt cursor = n # m # ns"
    using assms by (subst walkVisits.simps) simp
  ultimately show ?thesis using that m(3) by blast
qed

lemma walkLoop_visits: "walkLoop byDigest stopAt cursor walked = walk_ending byDigest stopAt walked (walkVisits byDigest stopAt cursor)"
proof (induction byDigest stopAt cursor walked rule: walkLoop.induct)
  case (1 byDigest stopAt cursor walked)
  show ?case
  proof (cases "\<exists>n c. byDigest cursor = Some n \<and> visitNode byDigest stopAt n = Inr (GoOn c)")
    case True
    then obtain n c where n: "byDigest cursor = Some n" "visitNode byDigest stopAt n = Inr (GoOn c)" by blast
    obtain m ns where "walkVisits byDigest stopAt cursor = n # m # ns" "walkVisits byDigest stopAt c = m # ns"
      by (rule walkVisits_GoOn [OF n])
    with "1.IH" [OF n refl] n show ?thesis
      by (simp add: walkLoop.simps [of byDigest stopAt cursor] walk_ending_def split: sum.splits visit.splits)
  next
    case False
    then show ?thesis
      by (auto simp: walkLoop.simps [of byDigest stopAt cursor] walkVisits.simps [of byDigest stopAt cursor] walk_ending_def
          split: option.splits sum.splits visit.splits)
  qed
qed

lemma walkVisits_numbers:
  "i < length (walkVisits byDigest stopAt cursor) \<Longrightarrow>
     sequence_number (walkVisits byDigest stopAt cursor ! i) = sequence_number (hd (walkVisits byDigest stopAt cursor)) - int i
     \<and> walkVisits byDigest stopAt cursor ! i \<in> ran byDigest"
proof (induction byDigest stopAt cursor arbitrary: i rule: walkVisits.induct)
  case (1 byDigest stopAt cursor)
  show ?case
  proof (cases "\<exists>n c. byDigest cursor = Some n \<and> visitNode byDigest stopAt n = Inr (GoOn c)")
    case True
    then obtain n c where n: "byDigest cursor = Some n" "visitNode byDigest stopAt n = Inr (GoOn c)" by blast
    obtain m ns where v: "walkVisits byDigest stopAt cursor = n # m # ns" "walkVisits byDigest stopAt c = m # ns" "child_of byDigest n m"
      by (rule walkVisits_GoOn [OF n])
    from 1(1) [OF n refl] have "sequence_number ((m # ns) ! k) = sequence_number m - int k \<and> (m # ns) ! k \<in> ran byDigest"
      if "k < length (m # ns)" for k using that by (simp add: v(2))
    then show ?thesis using "1.prems" child_of_number [OF v(3)] n(1) by (cases i) (auto simp: v(1) ran_def)
  next
    case False
    then have "walkVisits byDigest stopAt cursor = (case byDigest cursor of None \<Rightarrow> [] | Some n \<Rightarrow> [n])"
      by (auto simp: walkVisits.simps [of byDigest stopAt cursor] split: option.splits sum.splits visit.splits)
    then show ?thesis using "1.prems" by (auto simp: ran_def split: option.splits)
  qed
qed

text \<open>
  C14: Every linkage walk ends, and cheaply, whether it is accepted, refused or throws: the entries it visits are fed
  entries, none twice, so at most as many as were fed, with sequence numbers that fall by one from visit to visit, and
  its outcome is that of the last visit. A cycle of parent links cannot hold it.
\<close>

theorem walk_visits_once:
  "walkLinkage (byDigestOf digested) h stopAt = walk_ending (byDigestOf digested) stopAt [] (walkVisits (byDigestOf digested) stopAt h)
   \<and> distinct (walkVisits (byDigestOf digested) stopAt h) \<and> set (walkVisits (byDigestOf digested) stopAt h) \<subseteq> set digested
   \<and> length (walkVisits (byDigestOf digested) stopAt h) \<le> length digested
   \<and> (\<forall>i < length (walkVisits (byDigestOf digested) stopAt h).
        sequence_number (walkVisits (byDigestOf digested) stopAt h ! i)
        = sequence_number (hd (walkVisits (byDigestOf digested) stopAt h)) - int i)"
proof -
  let ?v = "walkVisits (byDigestOf digested) stopAt h"
  have number: "sequence_number (?v ! i) = sequence_number (hd ?v) - int i" "?v ! i \<in> ran (byDigestOf digested)" if "i < length ?v" for i
    using walkVisits_numbers [OF that] by auto
  have distinct: "distinct ?v" unfolding distinct_conv_nth
  proof (intro allI impI)
    fix i j
    assume "i < length ?v" "j < length ?v" "i \<noteq> j"
    then show "?v ! i \<noteq> ?v ! j" using number(1) [of i] number(1) [of j] by auto
  qed
  have sub: "set ?v \<subseteq> set digested"
  proof
    fix n
    assume "n \<in> set ?v"
    then obtain i where "i < length ?v" "n = ?v ! i" by (auto simp: in_set_conv_nth)
    then obtain d where "byDigestOf digested d = Some n" using number(2) [of i] by (auto simp: ran_def)
    then show "n \<in> set digested" by (simp add: byDigestOf_Some)
  qed
  have "length ?v = card (set ?v)" using distinct by (simp add: distinct_card)
  also have "\<dots> \<le> length digested" using card_mono [OF _ sub] card_length [of digested] by simp
  finally have short: "length ?v \<le> length digested" .
  have "walkLinkage (byDigestOf digested) h stopAt = walk_ending (byDigestOf digested) stopAt [] ?v"
    by (simp only: walkLinkage_def walkLoop_visits)
  then show ?thesis using distinct sub short number(1) by blast
qed

theorem walk_visits_once_witness:
  "length (walkVisits (byDigestOf [ex_digest ex_first, ex_digest ex_second]) None (dg_digest (ex_digest ex_second))) \<le> 2"
  using walk_visits_once [of "[ex_digest ex_first, ex_digest ex_second]" "dg_digest (ex_digest ex_second)" None] by simp

lemma signatures_base64:
  "map_result (\<lambda>(index, candidate). parseWireSignature index candidate) (enumerate n (map signature_object ss)) = Inr decoded \<Longrightarrow>
     map es_sig ss = map (\<lambda>s. btoa (ws_signatureBytes s)) decoded"
proof (induction ss arbitrary: n decoded)
  case (Cons s ss)
  then obtain d ds where d: "parseWireSignature n (signature_object s) = Inr d" "decoded = d # ds"
      "map_result (\<lambda>(index, candidate). parseWireSignature index candidate) (enumerate (Suc n) (map signature_object ss)) = Inr ds"
    by (auto simp: bind_result_Inr_iff)
  have "get_field (signature_object s) ''sig'' = JStr (es_sig s)" by (cases "es_keyid s") (simp_all add: signature_object_def optional_def)
  then have "es_sig s = btoa (ws_signatureBytes d)"
    using d(1) by (auto simp: parseWireSignature_def Let_def bind_result_Inr_iff base64_reads_btoa split: if_splits)
  then show ?case using Cons.IH [OF d(3)] d(2) by simp
qed simp

lemma envelope_base64:
  assumes "parseWireDsseEnvelope (envelope_object e) = Inr parsed"
  shows "de_payload e = btoa (pe_payloadBytes parsed) \<and> map es_sig (de_signatures e) = map (\<lambda>s. btoa (ws_signatureBytes s)) (pe_signatures parsed)"
proof -
  from assms obtain decoded where "de_payload e = btoa (pe_payloadBytes parsed)" "pe_signatures parsed = decoded"
      "map_result (\<lambda>(index, candidate). parseWireSignature index candidate) (enumerate 0 (map signature_object (de_signatures e))) = Inr decoded"
    by (auto simp: parseWireDsseEnvelope_def envelope_object_def bind_result_Inr_iff base64_reads_btoa
        split: if_splits option.splits json.splits)
  then show ?thesis using signatures_base64 by blast
qed

text \<open>
  C16: The signed bytes of an envelope determine what is signed, for payload types over all of UTF-16 without lone
  surrogates: for documents that seal, equal pre-authentication encodings mean equal payload types and documents that
  agree up to the order of their keys. An envelope that parses spells its payload and each of its signatures in the
  one base64 text that encodes them.
\<close>

theorem signed_bytes_determine_document:
  assumes "json_ok v" and "json_ok w" and "sealBytes v = Inr a" and "sealBytes w = Inr b" and "well_paired t" and "well_paired u"
  shows "(dssePreAuthEncoding_units t a = dssePreAuthEncoding_units u b \<longleftrightarrow> t = u \<and> norm_json v = norm_json w)
    \<and> (parseWireDsseEnvelope (envelope_object e) = Inr parsed \<longrightarrow> de_payload e = btoa (pe_payloadBytes parsed)
         \<and> map es_sig (de_signatures e) = map (\<lambda>s. btoa (ws_signatureBytes s)) (pe_signatures parsed))"
  using envelope_base64 [of e parsed] pae_units_inj [OF assms(5,6)] by (simp add: sealBytes_eq_iff [OF assms(1-4)])

theorem signed_bytes_determine_document_witness:
  "\<exists>a b. sealBytes (JObj [(''y'', JNull), (''x'', JBool True)]) = Inr a \<and> sealBytes (JObj [(''x'', JBool True), (''y'', JNull)]) = Inr b
    \<and> dssePreAuthEncoding_units [116, 55357, 56832] a = dssePreAuthEncoding_units [116, 55357, 56832] b"
proof -
  let ?v = "JObj [(''y'', JNull), (''x'', JBool True)]" and ?w = "JObj [(''x'', JBool True), (''y'', JNull)]"
  let ?bytes = "\<lambda>v. utf8_encode (serializeCanonicalJson v)"
  have "json_ok ?v" "json_ok ?w" "sealBytes ?v = Inr (?bytes ?v)" "sealBytes ?w = Inr (?bytes ?w)"
    by (simp_all add: sealBytes_iff)
  moreover have "norm_json ?v = norm_json ?w" by code_simp
  moreover have "well_paired [116, 55357, 56832]" by simp
  ultimately show ?thesis using signed_bytes_determine_document [of ?v ?w "?bytes ?v" "?bytes ?w" "[116, 55357, 56832]" "[116, 55357, 56832]"] by blast
qed

text \<open>
  The chain procedure never compares the head's sequence with the sequence of the entry it cites: a
  head that claims any other sequence is accepted, and the claim becomes the mark.
\<close>

theorem head_sequence_unchecked:
  "hw_sequence (the ((snd (verifySourceChain ex_sha ex_ports inMemoryStore
      (ex_request (ex_head ''0000000000000009'' ''sha256:217'' ''2026-01-01T00:00:00Z'' ''2026-01-01T12:00:00Z'') [ex_first, ex_second] True)
      Map.empty)) ''a/s'')) = ''0000000000000009'' \<and> en_sequence ex_second = ''0000000000000002''"
  using ex_accepts [of _ "''0000000000000009''" True] by (simp add: ex_sequences ex_request_def ex_head_def advancedMark_def)

end
