(* ===== verification/Js_Parse.thy ===== *)
theory Js_Parse
  imports Sealing
begin

text \<open>
  Reading JSON: \<open>TextDecoder\<close> and \<open>JSON.parse\<close> as the modelled code uses them. Members of an object stay in
  the order of the text, a repeated key keeps its place and takes the last value. A number whose value
  is a safe integer is read exactly, whatever its spelling; any other literal stays as it is spelled,
  which no sealed document contains. Texts with code units above 255 are not read.

  The round trip: a sealed document decodes and parses to the normal form of the value that was
  sealed.
\<close>

section \<open>Decoding UTF-8\<close>

fun utf8_decode :: "bytes \<Rightarrow> string option" where
  "utf8_decode [] = Some []"
| "utf8_decode [b] = (if (of_char b :: nat) < 128 then Some [b] else None)"
| "utf8_decode (b # c # rest) =
     (if (of_char b :: nat) < 128 then map_option ((#) b) (utf8_decode (c # rest))
      else if (of_char b :: nat) \<in> {194, 195} \<and> 128 \<le> (of_char c :: nat) \<and> (of_char c :: nat) < 192
      then map_option ((#) (char_of ((of_char b - 192) * 64 + (of_char c - 128) :: nat))) (utf8_decode rest)
      else None)"

section \<open>Lexemes\<close>

definition json_space :: "char \<Rightarrow> bool" where
  "json_space c \<longleftrightarrow> (of_char c :: nat) \<in> {9, 10, 13, 32}"

definition skip_ws :: "string \<Rightarrow> string" where
  "skip_ws s = dropWhile json_space s"

definition simple_escape :: "char \<Rightarrow> char option" where
  "simple_escape c =
     (if c \<in> {CHR 0x22, CHR 0x5C, CHR ''/''} then Some c
      else if c = CHR ''b'' then Some (CHR 0x08) else if c = CHR ''f'' then Some (CHR 0x0C)
      else if c = CHR ''n'' then Some (CHR 0x0A) else if c = CHR ''r'' then Some (CHR 0x0D)
      else if c = CHR ''t'' then Some (CHR 0x09) else None)"

definition json_hex_digit :: "char \<Rightarrow> nat option" where
  "json_hex_digit c =
     (let n = of_char c :: nat
      in if 48 \<le> n \<and> n \<le> 57 then Some (n - 48) else if 97 \<le> n \<and> n \<le> 102 then Some (n - 87)
         else if 65 \<le> n \<and> n \<le> 70 then Some (n - 55) else None)"

text \<open>The characters of a string up to and including its closing quote.\<close>

fun parse_chars :: "string \<Rightarrow> (string \<times> string) option" where
  "parse_chars [] = None"
| "parse_chars (c # rest) =
     (if c = CHR 0x22 then Some ([], rest)
      else if c = CHR 0x5C
      then (case rest of
              e # rest' \<Rightarrow>
                (if e = CHR ''u''
                 then (case rest' of
                         p # q # x # y # rest'' \<Rightarrow>
                           (case (json_hex_digit p, json_hex_digit q, json_hex_digit x, json_hex_digit y) of
                              (Some 0, Some 0, Some i, Some j) \<Rightarrow>
                                map_option (map_prod ((#) (char_of (16 * i + j))) id) (parse_chars rest'')
                            | _ \<Rightarrow> None)
                       | _ \<Rightarrow> None)
                 else (case simple_escape e of
                         Some d \<Rightarrow> map_option (map_prod ((#) d) id) (parse_chars rest')
                       | None \<Rightarrow> None))
            | [] \<Rightarrow> None)
      else if (of_char c :: nat) < 32 then None
      else map_option (map_prod ((#) c) id) (parse_chars rest))"

text \<open>The number literal at the front of a text.\<close>

definition take_int :: "string \<Rightarrow> (string \<times> string) option" where
  "take_int s =
     (case s of
        [] \<Rightarrow> None
      | c # rest \<Rightarrow>
          if c = CHR ''0'' then Some ([c], rest)
          else if is_digit c then Some (c # takeWhile is_digit rest, dropWhile is_digit rest)
          else None)"

definition take_digits1 :: "string \<Rightarrow> (string \<times> string) option" where
  "take_digits1 s = (if takeWhile is_digit s = [] then None else Some (takeWhile is_digit s, dropWhile is_digit s))"

definition take_frac :: "string \<Rightarrow> (string \<times> string) option" where
  "take_frac s =
     (case s of
        c # rest \<Rightarrow> if c = CHR ''.'' then map_option (map_prod ((#) c) id) (take_digits1 rest) else Some ([], s)
      | [] \<Rightarrow> Some ([], s))"

definition take_exp :: "string \<Rightarrow> (string \<times> string) option" where
  "take_exp s =
     (case s of
        c # rest \<Rightarrow>
          if c = CHR ''e'' \<or> c = CHR ''E''
          then (case rest of
                  d # rest' \<Rightarrow>
                    if d = CHR ''+'' \<or> d = CHR ''-'' then map_option (map_prod (\<lambda>ds. CHR ''e'' # d # ds) id) (take_digits1 rest')
                    else map_option (map_prod ((#) (CHR ''e'')) id) (take_digits1 rest)
                | [] \<Rightarrow> None)
          else Some ([], s)
      | [] \<Rightarrow> Some ([], s))"

text \<open>
  \<open>String(Number(literal))\<close> where the value is a safe integer. The literal is \<open>p / q\<close>; the double nearest
  to it is an integer when the distance is at most half a unit in the last place, and the tie between
  two integers goes to the even one.
\<close>

fun log2_floor :: "int \<Rightarrow> nat" where
  "log2_floor n = (if n < 2 then 0 else Suc (log2_floor (n div 2)))"

declare log2_floor.simps [simp del]

definition nearest_integer :: "int \<Rightarrow> int \<Rightarrow> int option" where
  "nearest_integer p q =
     (let n = (2 * p + q) div (2 * q);
          d = \<bar>p - n * q\<bar>;
          b = (if p < q then 54 else 53 - log2_floor (p div q))
      in if p * 2 ^ 1075 \<le> q then Some 0
         else if n = 0 \<or> 2 ^ 53 \<le> p div q then None
         else if d * 2 ^ b \<le> q then Some (if 2 * d = q \<and> odd n then n - 1 else n)
         else None)"

definition literal_exponent :: "string \<Rightarrow> int" where
  "literal_exponent exponent =
     (case exponent of
        _ # c # ds \<Rightarrow>
          if c = CHR ''-'' then - int (nat_of_digits ds)
          else if c = CHR ''+'' then int (nat_of_digits ds) else int (nat_of_digits (c # ds))
      | _ \<Rightarrow> 0)"

definition number_text :: "bool \<Rightarrow> string \<Rightarrow> string \<Rightarrow> string \<Rightarrow> string" where
  "number_text negative whole frac exponent =
     (let m = int (nat_of_digits (whole @ drop 1 frac));
          e = literal_exponent exponent - int (length (drop 1 frac));
          literal = (if negative then ''-'' else []) @ whole @ frac @ exponent
      in case (if 0 \<le> e then nearest_integer (m * 10 ^ nat e) 1 else nearest_integer m (10 ^ nat (- e))) of
           None \<Rightarrow> literal
         | Some n \<Rightarrow>
             if n \<le> 9007199254740991 then dec_int (if negative then - n else n) else literal)"

definition parse_number :: "string \<Rightarrow> (string \<times> string) option" where
  "parse_number s =
     (let negative = (case s of c # _ \<Rightarrow> c = CHR ''-'' | [] \<Rightarrow> False)
      in case take_int (if negative then tl s else s) of
           None \<Rightarrow> None
         | Some (whole, t) \<Rightarrow>
             case take_frac t of
               None \<Rightarrow> None
             | Some (frac, u) \<Rightarrow>
                 case take_exp u of
                   None \<Rightarrow> None
                 | Some (exponent, r) \<Rightarrow> Some (number_text negative whole frac exponent, r))"

section \<open>Values\<close>

definition parse_literal :: "string \<Rightarrow> json \<Rightarrow> string \<Rightarrow> (json \<times> string) option" where
  "parse_literal word v s = (if take (length word) s = word then Some (v, drop (length word) s) else None)"

text \<open>
  The comparisons of lengths make the recursion end and never fail: what is left after a value is
  shorter than the text (\<open>parse_shrinks\<close>).
\<close>

lemma length_skip_ws: "length (skip_ws s) \<le> length s"
  by (simp add: skip_ws_def length_dropWhile_le)

lemma skip_ws_Cons_length: "skip_ws s = c # t \<Longrightarrow> length t < length s"
  using length_skip_ws [of s] by simp

function parse_value :: "string \<Rightarrow> (json \<times> string) option"
  and parse_items :: "string \<Rightarrow> (json list \<times> string) option"
  and parse_members :: "(string \<times> json) list \<Rightarrow> string \<Rightarrow> ((string \<times> json) list \<times> string) option" where
  "parse_value s =
     (case skip_ws s of
        [] \<Rightarrow> None
      | c # rest \<Rightarrow>
          if c = CHR ''{''
          then (case skip_ws rest of
                  d # rest' \<Rightarrow>
                    if d = CHR ''}'' then Some (JObj [], rest')
                    else map_option (map_prod JObj id) (parse_members [] rest)
                | [] \<Rightarrow> None)
          else if c = CHR ''[''
          then (case skip_ws rest of
                  d # rest' \<Rightarrow>
                    if d = CHR '']'' then Some (JArr [], rest') else map_option (map_prod JArr id) (parse_items rest)
                | [] \<Rightarrow> None)
          else if c = CHR 0x22 then map_option (map_prod JStr id) (parse_chars rest)
          else if c = CHR ''n'' then parse_literal ''null'' JNull (c # rest)
          else if c = CHR ''t'' then parse_literal ''true'' (JBool True) (c # rest)
          else if c = CHR ''f'' then parse_literal ''false'' (JBool False) (c # rest)
          else map_option (map_prod JNum id) (parse_number (c # rest)))"
| "parse_items s =
     (case parse_value s of
        None \<Rightarrow> None
      | Some (v, r) \<Rightarrow>
          (case skip_ws r of
             c # r' \<Rightarrow>
               if c = CHR '']'' then Some ([v], r')
               else if c = CHR '','' \<and> length r' < length s then map_option (map_prod ((#) v) id) (parse_items r')
               else None
           | [] \<Rightarrow> None))"
| "parse_members acc s =
     (case skip_ws s of
        [] \<Rightarrow> None
      | q # t \<Rightarrow>
          if q \<noteq> CHR 0x22 then None
          else case parse_chars t of
            None \<Rightarrow> None
          | Some (k, u) \<Rightarrow>
              (case skip_ws u of
                 [] \<Rightarrow> None
               | c # w \<Rightarrow>
                   if c \<noteq> CHR '':'' \<or> \<not> length w < length s then None
                   else case parse_value w of
                     None \<Rightarrow> None
                   | Some (v, x) \<Rightarrow>
                       (case skip_ws x of
                          d # y \<Rightarrow>
                            if d = CHR ''}'' then Some (AList.update k v acc, y)
                            else if d = CHR '','' \<and> length y < length s then parse_members (AList.update k v acc) y
                            else None
                        | [] \<Rightarrow> None)))"
  by pat_completeness auto
termination
  by (relation "measure (\<lambda>x. case x of Inl s \<Rightarrow> 2 * length s | Inr (Inl s) \<Rightarrow> 2 * length s + 1
      | Inr (Inr (acc, s)) \<Rightarrow> 2 * length s + 1)")
    (auto dest: skip_ws_Cons_length)

declare parse_value.simps [simp del] parse_items.simps [simp del] parse_members.simps [simp del]

definition JSON_parse :: "string \<Rightarrow> (exn, json) result" where
  "JSON_parse s =
     (case parse_value s of
        Some (v, r) \<Rightarrow> if skip_ws r = [] then Inr v else Inl ''SyntaxError''
      | None \<Rightarrow> Inl ''SyntaxError'')"

definition decodeJson :: "bytes \<Rightarrow> (exn, json) result" where
  "decodeJson bytes = (case utf8_decode bytes of Some s \<Rightarrow> JSON_parse s | None \<Rightarrow> Inl ''code unit above 255'')"

section \<open>What is printed is read back\<close>

lemma utf8_decode_char: "utf8_decode (utf8_char c @ s) = map_option ((#) c) (utf8_decode s)"
proof (cases "(of_char c :: nat) < 128")
  case True
  then show ?thesis by (cases s) (simp_all add: utf8_char_def)
next
  case False
  define n where "n = (of_char c :: nat)"
  have n: "128 \<le> n" "n < 256" using False of_char_less_256 [of c] by (simp_all add: n_def)
  then have d: "n div 64 = 2 \<or> n div 64 = 3" by linarith
  have parts: "(192 + n div 64 - 192) * 64 + (128 + n mod 64 - 128) = n" by simp
  have "(of_char (char_of (192 + n div 64) :: char) :: nat) = 192 + n div 64"
    "(of_char (char_of (128 + n mod 64) :: char) :: nat) = 128 + n mod 64"
    using d by auto
  moreover have "char_of n = c" by (simp add: n_def)
  moreover have "utf8_char c = [char_of (192 + n div 64), char_of (128 + n mod 64)]"
    using False by (simp add: utf8_char_def n_def Let_def)
  ultimately show ?thesis using d parts by auto
qed

lemma utf8_decode_encode [simp]: "utf8_decode (utf8_encode s) = Some s"
  by (induction s) (simp_all add: utf8_encode_def utf8_decode_char)

lemma json_hex_digit_hex_digit: "n < 16 \<Longrightarrow> json_hex_digit (hex_digit n) = Some n"
  by (simp add: json_hex_digit_def hex_digit_def Let_def)

lemma json_hex_digit_0 [simp]: "json_hex_digit (CHR ''0'') = Some 0"
  by (simp add: json_hex_digit_def)

lemma parse_esc_char: "parse_chars (esc_char c @ t) = map_option (map_prod ((#) c) id) (parse_chars t)"
proof -
  have hex: "json_hex_digit (hex_digit (of_char c div 16)) = Some (of_char c div 16)"
    "json_hex_digit (hex_digit (of_char c mod 16)) = Some (of_char c mod 16)"
    "16 * (of_char c div 16) + of_char c mod 16 = (of_char c :: nat)"
    if "(of_char c :: nat) < 32" using that by (simp_all add: json_hex_digit_hex_digit)
  have char: "(of_char c :: nat) = of_char d \<longleftrightarrow> c = d" for d by (simp add: of_char_eq_iff)
  note chars = char [of "CHR 0x22"] char [of "CHR 0x5C"] char [of "CHR 0x08"] char [of "CHR 0x09"]
    char [of "CHR 0x0A"] char [of "CHR 0x0C"] char [of "CHR 0x0D"]
  show ?thesis
    by (simp add: esc_char_def Let_def simple_escape_def hex) (auto simp: chars [simplified])
qed

lemma parse_quoted: "parse_chars (concat (map esc_char s) @ CHR 0x22 # r) = Some (s, r)"
  by (induction s) (simp_all add: parse_esc_char)

lemma parse_json_quote: "parse_value (json_quote s @ r) = Some (JStr s, r)"
  by (subst parse_value.simps) (simp add: json_quote_def skip_ws_def json_space_def parse_quoted)

lemma nearest_integer_exact: "0 < n \<Longrightarrow> n < 2 ^ 53 \<Longrightarrow> nearest_integer n 1 = Some n"
  by (simp add: nearest_integer_def Let_def)

lemma nearest_integer_0: "nearest_integer 0 1 = Some 0"
  by (simp add: nearest_integer_def)

lemma dec_leading_zero: "hd (dec n) = CHR ''0'' \<longleftrightarrow> n = 0"
proof (induction n rule: dec.induct)
  case (1 n)
  have zero: "digit_char n = CHR ''0'' \<longleftrightarrow> n = 0" if "n < 10"
    using that by (simp add: char_eq_iff digit_char_def)
  show ?case using 1 zero by (subst dec.simps) auto
qed

lemma take_int_dec:
  assumes "r = [] \<or> \<not> is_digit (hd r)"
  shows "take_int (dec n @ r) = Some (dec n, r)"
proof (cases "dec n")
  case Nil
  then show ?thesis by simp
next
  case (Cons c ds)
  have digits: "is_digit c" "\<forall>d \<in> set ds. is_digit d" using dec_digits [of n] Cons by auto
  have zero: "ds = []" if "c = CHR ''0''"
    using that dec_leading_zero [of n] Cons by (auto simp: dec.simps [of 0])
  have stop: "takeWhile is_digit (ds @ r) = ds" "dropWhile is_digit (ds @ r) = r"
    using digits(2) assms by (cases r; auto simp: takeWhile_append dropWhile_append)+
  show ?thesis
    by (cases "c = CHR ''0''") (use Cons digits(1) zero stop in \<open>simp_all add: take_int_def\<close>)
qed

lemma delimited_stops:
  "delimited r \<Longrightarrow> r = [] \<or> \<not> is_digit (hd r)"
  "delimited r \<Longrightarrow> take_frac r = Some ([], r)"
  "delimited r \<Longrightarrow> take_exp r = Some ([], r)"
  by (cases r; auto simp: delimited_def take_frac_def take_exp_def)+

lemma number_text_dec:
  assumes "n \<le> 9007199254740991"
  shows "number_text negative (dec n) [] [] = dec_int (if negative then - int n else int n)"
proof -
  have "nearest_integer (int n) 1 = Some (int n)"
    using assms by (cases "n = 0") (simp_all add: nearest_integer_0 nearest_integer_exact)
  then show ?thesis using assms by (simp add: number_text_def literal_exponent_def Let_def)
qed

lemma parse_dec_int:
  assumes "\<bar>i\<bar> \<le> 9007199254740991" and "delimited r"
  shows "parse_number (dec_int i @ r) = Some (dec_int i, r)"
proof -
  note stops = delimited_stops [OF assms(2)]
  have digit: "hd (dec n) \<noteq> CHR ''-''" for n using dec_digits [of n] by (cases "dec n") auto
  show ?thesis
  proof (cases "i < 0")
    case True
    then have "dec_int i = CHR ''-'' # dec (nat (- i))" by (simp add: dec_int_def)
    then show ?thesis using True assms(1) stops
      by (simp add: parse_number_def take_int_dec number_text_dec del: take_int_def)
  next
    case False
    then have i: "dec_int i = dec (nat i)" by (simp add: dec_int_def)
    have "\<not> (case dec (nat i) @ r of c # _ \<Rightarrow> c = CHR ''-'' | [] \<Rightarrow> False)"
      using digit [of "nat i"] by (cases "dec (nat i)") auto
    then show ?thesis using False assms(1) stops
      unfolding i parse_number_def Let_def by (simp add: take_int_dec number_text_dec i)
  qed
qed

text \<open>The first character of a printed value, which decides how it is read.\<close>

lemma safe_number_hd:
  assumes "safeIntegerText t"
  obtains c u where "t = c # u" and "is_digit c \<or> c = CHR ''-''"
proof -
  obtain i where t: "t = dec_int i" using assms by (auto simp: safeIntegerText_def Let_def)
  obtain c u where c: "dec_int i = c # u" by (cases "dec_int i") (auto simp: dec_int_def split: if_splits)
  have "is_digit c \<or> c = CHR ''-''"
    using c dec_digits [of "nat i"] by (auto simp: dec_int_def split: if_splits)
  with t c that show ?thesis by simp
qed

lemma safe_number_parse:
  assumes "safeIntegerText t" and "delimited r"
  shows "parse_value (t @ r) = Some (JNum t, r)"
proof -
  obtain i where t: "t = dec_int i" and i: "\<bar>i\<bar> \<le> 9007199254740991"
    using assms(1) by (auto simp: safeIntegerText_def Let_def)
  obtain c u where c: "dec_int i = c # u" and "is_digit c \<or> c = CHR ''-''"
    using assms(1) unfolding t by (rule safe_number_hd)
  then have "\<not> json_space c" "c \<notin> {CHR ''{'', CHR ''['', CHR 0x22, CHR ''n'', CHR ''t'', CHR ''f''}"
    by (auto simp: json_space_def)
  then show ?thesis using parse_dec_int [OF i assms(2)] c t
    by (subst parse_value.simps) (simp add: skip_ws_def)
qed


text \<open>Values whose keys are distinct at every depth and that are sealable are read back as printed.\<close>

fun parseable :: "json \<Rightarrow> bool" where
  "parseable (JNum t) \<longleftrightarrow> safeIntegerText t"
| "parseable JUndef \<longleftrightarrow> False"
| "parseable (JArr xs) \<longleftrightarrow> list_all parseable xs"
| "parseable (JObj kvs) \<longleftrightarrow> distinct (map fst kvs) \<and> list_all (\<lambda>kv. parseable (snd kv)) kvs"
| "parseable _ \<longleftrightarrow> True"

lemma skip_ws_token [simp]: "\<not> json_space c \<Longrightarrow> skip_ws (c # s) = c # s"
  by (simp add: skip_ws_def)

lemma json_space_tokens [simp]:
  "\<not> json_space CHR ''{''" "\<not> json_space CHR ''}''" "\<not> json_space CHR ''[''" "\<not> json_space CHR '']''"
  "\<not> json_space CHR '',''" "\<not> json_space CHR '':''" "\<not> json_space CHR 0x22"
  by (simp_all add: json_space_def)

lemma update_new: "k \<notin> fst ` set acc \<Longrightarrow> AList.update k v acc = acc @ [(k, v)]"
  by (induction acc) auto

lemma parse_items_printed:
  assumes "\<And>x r. x \<in> set xs \<Longrightarrow> delimited r \<Longrightarrow> parse_value (json_text x @ r) = Some (x, r)"
    and "xs \<noteq> []"
  shows "parse_items (joinWith '','' (map json_text xs) @ CHR '']'' # r) = Some (xs, r)"
  using assms
proof (induction xs)
  case Nil
  then show ?case by simp
next
  case (Cons x xs)
  show ?case
  proof (cases xs)
    case Nil
    then show ?thesis using Cons.prems(1) [of x "CHR '']'' # r"] by (subst parse_items.simps) simp
  next
    case (Cons y ys)
    let ?rest = "joinWith '','' (map json_text xs) @ CHR '']'' # r"
    have "parse_items ?rest = Some (xs, r)" using Cons Cons.IH Cons.prems(1) by simp
    moreover have "parse_value (json_text x @ CHR '','' # ?rest) = Some (x, CHR '','' # ?rest)"
      using Cons.prems(1) [of x] by simp
    ultimately show ?thesis using Cons by (subst parse_items.simps) (simp add: joinWith_Cons)
  qed
qed

lemma parse_members_printed:
  assumes "\<And>kv r. kv \<in> set kvs \<Longrightarrow> delimited r \<Longrightarrow> parse_value (json_text (snd kv) @ r) = Some (snd kv, r)"
    and "kvs \<noteq> []" and "distinct (map fst (acc @ kvs))"
  shows "parse_members acc (joinWith '','' (map (\<lambda>(k, v). json_quote k @ CHR '':'' # json_text v) kvs) @ CHR ''}'' # r)
    = Some (acc @ kvs, r)"
  using assms
proof (induction kvs arbitrary: acc)
  case Nil
  then show ?case by simp
next
  case (Cons kv kvs)
  obtain k v where kv: "kv = (k, v)" by (cases kv)
  have update: "AList.update k v acc = acc @ [(k, v)]" using Cons.prems(3) kv by (auto intro: update_new)
  have v: "delimited q \<Longrightarrow> parse_value (json_text v @ q) = Some (v, q)" for q using Cons.prems(1) [of kv q] kv by simp
  show ?case
  proof (cases kvs)
    case Nil
    then show ?thesis using kv v [of "CHR ''}'' # r"] update
      by (subst parse_members.simps) (simp add: json_quote_def parse_quoted)
  next
    case (Cons y ys)
    let ?rest = "joinWith '','' (map (\<lambda>(k, v). json_quote k @ CHR '':'' # json_text v) kvs) @ CHR ''}'' # r"
    have "parse_members (acc @ [(k, v)]) ?rest = Some (acc @ kv # kvs, r)"
      using Cons Cons.IH [of "acc @ [(k, v)]"] Cons.prems kv by simp
    then show ?thesis using Cons kv v [of "CHR '','' # ?rest"] update
      by (subst parse_members.simps) (simp add: json_quote_def parse_quoted joinWith_Cons)
  qed
qed

lemma json_text_first:
  assumes "parseable v"
  obtains c u where "json_text v = c # u" and "\<not> json_space c" and "c \<noteq> CHR '']''"
proof (cases v)
  case (JNum t)
  then have "safeIntegerText t" using assms by simp
  then obtain c u where t: "t = c # u" and c: "is_digit c \<or> c = CHR ''-''" by (rule safe_number_hd)
  have "\<not> json_space c" "c \<noteq> CHR '']''" using c by (auto simp: json_space_def)
  then show ?thesis using JNum t that by simp
next
  case (JBool b)
  then show ?thesis using that by (cases b) (auto simp: json_space_def)
qed (use assms that in \<open>auto simp: json_quote_def json_space_def split: if_splits\<close>)

lemma parse_printed: "parseable v \<Longrightarrow> delimited r \<Longrightarrow> parse_value (json_text v @ r) = Some (v, r)"
proof (induction v arbitrary: r)
  case (JArr xs)
  show ?case
  proof (cases xs)
    case Nil
    then show ?thesis by (subst parse_value.simps) simp
  next
    case (Cons x ys)
    have "parseable x" using JArr.prems Cons by simp
    then obtain c u where "json_text x = c # u" "\<not> json_space c" "c \<noteq> CHR '']''" by (rule json_text_first)
    moreover have "parse_items (joinWith '','' (map json_text xs) @ CHR '']'' # r) = Some (xs, r)"
      using JArr Cons by (intro parse_items_printed) (auto simp: list_all_iff)
    ultimately show ?thesis using Cons by (subst parse_value.simps) (simp add: joinWith_Cons)
  qed
next
  case (JObj kvs)
  show ?case
  proof (cases kvs)
    case Nil
    then show ?thesis by (subst parse_value.simps) simp
  next
    case (Cons kv ys)
    have "parse_value (json_text (snd kv) @ q) = Some (snd kv, q)" if "kv \<in> set kvs" "delimited q" for kv q
      using JObj.IH [OF that(1), of "snd kv" q] JObj.prems that by (auto simp: list_all_iff snds.intros)
    then have "parse_members [] (joinWith '','' (map (\<lambda>(k, v). json_quote k @ CHR '':'' # json_text v) kvs) @ CHR ''}'' # r)
        = Some ([] @ kvs, r)"
      using JObj.prems Cons by (intro parse_members_printed) auto
    then show ?thesis using Cons
      by (subst parse_value.simps) (simp add: joinWith_Cons split_beta json_quote_def)
  qed
next
  case (JNum t)
  then show ?case by (simp add: safe_number_parse)
next
  case (JStr s)
  then show ?case by (simp add: parse_json_quote)
next
  case (JBool b)
  then show ?case by (subst parse_value.simps) (simp add: skip_ws_def json_space_def parse_literal_def)
next
  case JNull
  then show ?case by (subst parse_value.simps) (simp add: skip_ws_def json_space_def parse_literal_def)
qed simp

lemma parseable_iff: "json_ok v \<Longrightarrow> sealable v \<Longrightarrow> parseable v"
proof (induction v)
  case (JObj kvs)
  then show ?case by (fastforce simp: list_all_iff)
qed (auto simp: list_all_iff)

lemma sealable_norm: "sealable v \<Longrightarrow> sealable (norm_json v)"
proof (induction v rule: norm_json.induct)
  case (2 kvs)
  then show ?case by (auto simp: list_all_iff set_present_sorted)
qed (auto simp: list_all_iff)

lemma JSON_parse_printed: "parseable v \<Longrightarrow> JSON_parse (json_text v) = Inr v"
  using parse_printed [of v "[]"] by (simp add: JSON_parse_def skip_ws_def)

lemma decodeJson_sealed:
  assumes "json_ok v" and "sealBytes v = Inr b"
  shows "decodeJson b = Inr (norm_json v)"
proof -
  have "sealable v" and b: "b = utf8_encode (serializeCanonicalJson v)" using assms(2) by (simp_all add: sealBytes_iff)
  then have "parseable (norm_json v)" using assms(1) by (intro parseable_iff norm_json_ok sealable_norm)
  then show ?thesis using \<open>sealable v\<close> by (simp add: decodeJson_def b serialize_canon JSON_parse_printed)
qed

section \<open>Reading a value consumes text\<close>

lemma take_int_shrinks: "take_int s = Some (w, t) \<Longrightarrow> length t < length s"
  by (auto simp: take_int_def length_dropWhile_le less_Suc_eq_le split: list.splits if_splits)

lemma take_digits1_shrinks: "take_digits1 s = Some (w, t) \<Longrightarrow> length t \<le> length s"
  by (auto simp: take_digits1_def length_dropWhile_le split: if_splits)

lemma take_frac_shrinks: "take_frac s = Some (w, t) \<Longrightarrow> length t \<le> length s"
  by (auto simp: take_frac_def dest!: take_digits1_shrinks split: list.splits if_splits)

lemma take_exp_shrinks: "take_exp s = Some (w, t) \<Longrightarrow> length t \<le> length s"
  by (auto simp: take_exp_def dest!: take_digits1_shrinks split: list.splits if_splits)

lemma parse_number_shrinks: "parse_number s = Some (w, r) \<Longrightarrow> length r < length s"
  by (cases s) (auto simp: parse_number_def Let_def dest!: take_int_shrinks take_frac_shrinks take_exp_shrinks
      split: option.splits if_splits)

lemma parse_chars_shrinks: "parse_chars s = Some (k, u) \<Longrightarrow> length u < length s"
proof (induction s arbitrary: k rule: parse_chars.induct)
  case (2 c rest)
  show ?case using 2 
    by (auto split: if_splits list.splits option.splits nat.splits) fastforce+
qed simp

lemma parse_shrinks:
  "parse_value s = Some (v, r) \<Longrightarrow> length r < length s"
  "parse_items s = Some (vs, r) \<Longrightarrow> length r < length s"
  "parse_members acc s = Some (kvs, r) \<Longrightarrow> length r < length s"
proof (induction s and s and acc s arbitrary: v r and vs r and kvs r rule: parse_value_parse_items_parse_members.induct)
  case (1 s)
  show ?case
  proof (cases "skip_ws s")
    case (Cons c rest)
    note rest = skip_ws_Cons_length [OF Cons]
    show ?thesis
    proof (cases "c = CHR ''{'' \<or> c = CHR ''[''")
      case True
      obtain d rest' where d: "skip_ws rest = d # rest'" and
        r: "r = rest' \<or> (\<exists>kvs. c = CHR ''{'' \<and> d \<noteq> CHR ''}'' \<and> parse_members [] rest = Some (kvs, r))
          \<or> (\<exists>vs. c = CHR ''['' \<and> d \<noteq> CHR '']'' \<and> parse_items rest = Some (vs, r))"
        using 1(3) Cons True by (subst (asm) parse_value.simps) (auto split: list.splits if_splits)
      show ?thesis using r
      proof (elim disjE exE conjE)
        show "length r < length s" if "r = rest'" using that skip_ws_Cons_length [OF d] rest by simp
        show "length r < length s" if "c = CHR ''{''" "d \<noteq> CHR ''}''" "parse_members [] rest = Some (kvs, r)" for kvs
          using 1(1) [OF Cons that(1) d that(2,3)] rest by simp
        show "length r < length s" if "c = CHR ''[''" "d \<noteq> CHR '']''" "parse_items rest = Some (vs, r)" for vs
          using 1(2) [OF Cons _ that(1) d that(2,3)] that(1) rest by simp
      qed
    next
      case False
      then show ?thesis using 1(3) Cons rest
        by (subst (asm) parse_value.simps)
          (auto dest!: parse_number_shrinks parse_chars_shrinks simp: parse_literal_def split: if_splits)
    qed
  qed (use 1(3) in \<open>subst (asm) parse_value.simps, simp\<close>)
next
  case (2 s)
  from 2(3) obtain w q c r' where w: "parse_value s = Some (w, q)" and q: "skip_ws q = c # r'"
    and r: "(r = r' \<and> c = CHR '']'') \<or> (c = CHR '','' \<and> length r' < length s \<and> (\<exists>ws. parse_items r' = Some (ws, r)))"
    by (subst (asm) parse_items.simps) (auto split: option.splits prod.splits list.splits if_splits)
  have "length q < length s" using 2(1) w .
  moreover have "length r \<le> length r'" using r 2(2) [OF w] q by fastforce
  ultimately show ?case using skip_ws_Cons_length [OF q] by simp
next
  case (3 acc s)
  from 3(3) obtain q t where t: "skip_ws s = q # t" "q = CHR 0x22"
    by (subst (asm) parse_members.simps) (auto split: list.splits if_splits)
  obtain k u where u: "parse_chars t = Some (k, u)"
    using 3(3) t by (subst (asm) parse_members.simps) (auto split: option.splits)
  obtain c w where w: "skip_ws u = c # w" "c = CHR '':''" "length w < length s"
    using 3(3) t u by (subst (asm) parse_members.simps) (auto split: list.splits if_splits)
  obtain v x where x: "parse_value w = Some (v, x)"
    using 3(3) t u w by (subst (asm) parse_members.simps) (auto split: option.splits)
  obtain d y where y: "skip_ws x = d # y"
    and r: "r = y \<or> (d = CHR '','' \<and> length y < length s \<and> parse_members (AList.update k v acc) y = Some (kvs, r))"
    using 3(3) t u w x by (subst (asm) parse_members.simps) (auto split: list.splits if_splits)
  have "length x < length w" using 3(1) t u w x by simp
  moreover have "length r \<le> length y" using r 3(2) t u w x y by fastforce
  ultimately show ?case using skip_ws_Cons_length [OF y] w(3) by simp
qed

end
