(* ===== verification/Discovery_Records.thy ===== *)
theory Discovery_Records
  imports Js_Parse Source_Verification
begin

text \<open>
  Reading the protocol's documents: \<open>parseAnnouncementEntry\<close> (discovery/protocol/src/entry.ts) and
  \<open>parseSourceHead\<close> (head.ts) over arbitrary JSON, with the source-name grammar of grammar.ts and
  identifiers.ts.

  The zod schemas are loose: they check the declared fields and keep the others, so a parsed document is
  the value itself. Their failures are one error. \<open>entry_of\<close> and \<open>head_of\<close> are the typed view the code
  casts to; it has the declared members only. The lemmas show what a parsed document promises, that every record of the
  protocol's shape is accepted, and that sealing and parsing are inverse up to key order, extra members included.
\<close>

section \<open>Schemas\<close>

definition RECORD_DISCOVERY_VERSION :: string where
  "RECORD_DISCOVERY_VERSION = ''https://spec.jinn.network/record-discovery/v1''"

definition string_field :: "(string \<Rightarrow> bool) \<Rightarrow> string \<Rightarrow> json \<Rightarrow> bool" where
  "string_field P k v = (case get_field v k of JStr s \<Rightarrow> P s | _ \<Rightarrow> False)"

definition optional_field :: "(json \<Rightarrow> bool) \<Rightarrow> string \<Rightarrow> json \<Rightarrow> bool" where
  "optional_field P k v = (case get_field v k of JUndef \<Rightarrow> True | f \<Rightarrow> P f)"

fun is_string :: "json \<Rightarrow> bool" where
  "is_string (JStr _) \<longleftrightarrow> True"
| "is_string _ \<longleftrightarrow> False"

fun array_of :: "(json \<Rightarrow> bool) \<Rightarrow> json \<Rightarrow> bool" where
  "array_of P (JArr xs) \<longleftrightarrow> list_all P xs"
| "array_of P _ \<longleftrightarrow> False"

abbreviation name_char :: "char \<Rightarrow> bool" where
  "name_char c \<equiv> is_digit c \<or> (97::nat) \<le> of_char c \<and> (of_char c :: nat) \<le> 122"

definition isSourceName :: "string \<Rightarrow> bool" where
  "isSourceName name \<longleftrightarrow>
     name \<noteq> [] \<and> length name \<le> 64 \<and> name_char (hd name) \<and> name_char (last name)
     \<and> list_all (\<lambda>c. name_char c \<or> c = CHR ''-'') name"

definition RecordDigestSchema :: "string \<Rightarrow> bool" where
  "RecordDigestSchema s \<longleftrightarrow>
     take 7 s = ''sha256:'' \<and> length s = 71
     \<and> list_all (\<lambda>c. is_digit c \<or> (97::nat) \<le> of_char c \<and> (of_char c :: nat) \<le> 102) (drop 7 s)"

definition SequenceSchema :: "string \<Rightarrow> bool" where
  "SequenceSchema s \<longleftrightarrow> length s = 16 \<and> list_all is_digit s"

abbreviation non_empty :: "string \<Rightarrow> bool" where
  "non_empty s \<equiv> s \<noteq> []"

definition RecordRefSchema :: "json \<Rightarrow> bool" where
  "RecordRefSchema v \<longleftrightarrow>
     is_object v \<and> string_field non_empty ''kind'' v \<and> string_field RecordDigestSchema ''digest'' v
     \<and> optional_field is_string ''mediaType'' v"

definition PublishedLocationSchema :: "json \<Rightarrow> bool" where
  "PublishedLocationSchema v \<longleftrightarrow>
     is_object v \<and> string_field non_empty ''profile'' v \<and> string_field non_empty ''locator'' v"

definition AvailableAnnouncementSchema :: "json \<Rightarrow> bool" where
  "AvailableAnnouncementSchema v \<longleftrightarrow>
     is_object v \<and> string_field non_empty ''announcementId'' v \<and> string_field ((=) ''available'') ''action'' v
     \<and> RecordRefSchema (get_field v ''record'')
     \<and> optional_field (array_of PublishedLocationSchema) ''locations'' v"

definition WITHDRAWAL_REASONS :: "string list" where
  "WITHDRAWAL_REASONS = [''delisted'', ''superseded'', ''reorged'', ''error'']"

definition WithdrawnAnnouncementSchema :: "json \<Rightarrow> bool" where
  "WithdrawnAnnouncementSchema v \<longleftrightarrow>
     is_object v \<and> string_field non_empty ''announcementId'' v \<and> string_field ((=) ''withdrawn'') ''action'' v
     \<and> string_field non_empty ''retracts'' v \<and> string_field (\<lambda>r. r \<in> set WITHDRAWAL_REASONS) ''reason'' v"

definition AnnouncementSchema :: "json \<Rightarrow> bool" where
  "AnnouncementSchema v \<longleftrightarrow> AvailableAnnouncementSchema v \<or> WithdrawnAnnouncementSchema v"

definition AnnouncementEntrySchema :: "json \<Rightarrow> bool" where
  "AnnouncementEntrySchema v \<longleftrightarrow>
     is_object v \<and> string_field ((=) RECORD_DISCOVERY_VERSION) ''protocol'' v
     \<and> is_object (get_field v ''source'')
     \<and> string_field non_empty ''agent'' (get_field v ''source'') \<and> string_field non_empty ''name'' (get_field v ''source'')
     \<and> string_field SequenceSchema ''sequence'' v
     \<and> (string_field RecordDigestSchema ''previous'' v \<or> get_field v ''previous'' = JNull)
     \<and> string_field non_empty ''timestamp'' v
     \<and> (case get_field v ''announcements'' of JArr as \<Rightarrow> as \<noteq> [] \<and> list_all AnnouncementSchema as | _ \<Rightarrow> False)"

definition SourceHeadSchema :: "json \<Rightarrow> bool" where
  "SourceHeadSchema v \<longleftrightarrow>
     is_object v \<and> string_field ((=) RECORD_DISCOVERY_VERSION) ''protocol'' v
     \<and> string_field non_empty ''origin'' v \<and> string_field SequenceSchema ''sequence'' v
     \<and> string_field RecordDigestSchema ''entry'' v
     \<and> string_field isHeadTimestamp ''issuedAt'' v \<and> string_field isHeadTimestamp ''refreshBy'' v"

section \<open>Parsing\<close>

definition text_of :: "json \<Rightarrow> string" where
  "text_of v = (case v of JStr s \<Rightarrow> s | _ \<Rightarrow> [])"

fun items_of :: "json \<Rightarrow> json list" where
  "items_of (JArr xs) = xs"
| "items_of _ = []"

text \<open>The first \<open>announcementId\<close> that an earlier item of the entry has.\<close>

fun firstDuplicate :: "string list \<Rightarrow> string list \<Rightarrow> string option" where
  "firstDuplicate seen [] = None"
| "firstDuplicate seen (i # rest) = (if i \<in> set seen then Some i else firstDuplicate (seen @ [i]) rest)"

definition announcementIds :: "json \<Rightarrow> string list" where
  "announcementIds v = map (\<lambda>a. text_of (get_field a ''announcementId'')) (items_of (get_field v ''announcements''))"

definition parseAnnouncementEntry :: "json \<Rightarrow> (exn, json) result" where
  "parseAnnouncementEntry v =
     (if \<not> AnnouncementEntrySchema v then Inl ''ZodError''
      else if \<not> isSourceName (text_of (get_field (get_field v ''source'') ''name''))
      then Inl (''Entry source name is not source-name-shaped: '' @ text_of (get_field (get_field v ''source'') ''name''))
      else case firstDuplicate [] (announcementIds v) of
        Some i \<Rightarrow> Inl (''Duplicate announcementId within one entry: '' @ i)
      | None \<Rightarrow>
          (let isGenesis = text_of (get_field v ''sequence'') = GENESIS_SEQUENCE
           in if isGenesis \<and> get_field v ''previous'' \<noteq> JNull
              then Inl ''The genesis entry (sequence === GENESIS_SEQUENCE) must have previous === null.''
              else if \<not> isGenesis \<and> get_field v ''previous'' = JNull
              then Inl ''Only the genesis entry may have previous === null.''
              else Inr v))"

definition parseSourceHead :: "json \<Rightarrow> (exn, json) result" where
  "parseSourceHead v =
     (if \<not> SourceHeadSchema v then Inl ''ZodError''
      else bind_result (splitOrigin (text_of (get_field v ''origin''))) (\<lambda>(agent, name).
        if agent = [] then Inl (''Origin must carry a non-empty agent IRI before the last /: '' @ text_of (get_field v ''origin''))
        else if \<not> isSourceName name then Inl (''Origin's source-name segment is not source-name-shaped: '' @ name)
        else Inr v))"

section \<open>Reading does not depend on key order\<close>

named_theorems norm_simps \<open>what reading a normal form gives\<close>

lemma json_ok_get_field [simp]: "json_ok v \<Longrightarrow> json_ok (get_field v k)"
  by (cases v) (auto simp: list_all_iff split: option.splits dest!: map_of_SomeD)

lemma norm_shape [norm_simps]:
  "is_object (norm_json v) = is_object v" "is_string (norm_json v) = is_string v"
  "norm_json v = JNull \<longleftrightarrow> v = JNull" "norm_json v = JStr s \<longleftrightarrow> v = JStr s"
  "text_of (norm_json v) = text_of v" "items_of (norm_json v) = map norm_json (items_of v)"
  by (cases v; simp add: text_of_def)+

lemma string_field_norm [norm_simps]: "json_ok v \<Longrightarrow> string_field P k (norm_json v) = string_field P k v"
  by (cases "get_field v k") (simp_all add: string_field_def norm_get_field)

lemma optional_field_iff: "optional_field P k v \<longleftrightarrow> get_field v k = JUndef \<or> P (get_field v k)"
  by (cases "get_field v k") (simp_all add: optional_field_def)

lemma optional_field_norm:
  "json_ok v \<Longrightarrow> (\<And>j. json_ok j \<Longrightarrow> P (norm_json j) = P j) \<Longrightarrow> optional_field P k (norm_json v) = optional_field P k v"
  by (simp add: optional_field_iff norm_get_field)

lemma list_all_norm:
  "json_ok (JArr xs) \<Longrightarrow> (\<And>j. json_ok j \<Longrightarrow> P (norm_json j) = P j) \<Longrightarrow> list_all P (map norm_json xs) = list_all P xs"
  by (auto simp: list_all_iff)

lemma array_of_norm:
  "json_ok v \<Longrightarrow> (\<And>j. json_ok j \<Longrightarrow> P (norm_json j) = P j) \<Longrightarrow> array_of P (norm_json v) = array_of P v"
  using list_all_norm [of _ P] by (cases v) auto

lemma RecordRefSchema_norm [norm_simps]: "json_ok v \<Longrightarrow> RecordRefSchema (norm_json v) = RecordRefSchema v"
  by (simp add: RecordRefSchema_def norm_simps optional_field_norm)

lemma PublishedLocationSchema_norm [norm_simps]:
  "json_ok v \<Longrightarrow> PublishedLocationSchema (norm_json v) = PublishedLocationSchema v"
  by (simp add: PublishedLocationSchema_def norm_simps)

lemma AnnouncementSchema_norm [norm_simps]: "json_ok v \<Longrightarrow> AnnouncementSchema (norm_json v) = AnnouncementSchema v"
  by (simp add: AnnouncementSchema_def AvailableAnnouncementSchema_def WithdrawnAnnouncementSchema_def norm_simps
      norm_get_field optional_field_norm array_of_norm)

lemma AnnouncementEntrySchema_norm [norm_simps]:
  assumes "json_ok v"
  shows "AnnouncementEntrySchema (norm_json v) = AnnouncementEntrySchema v"
proof -
  have "json_ok (get_field v ''announcements'')" using assms by simp
  then have "(case norm_json (get_field v ''announcements'') of
        JArr as \<Rightarrow> as \<noteq> [] \<and> list_all AnnouncementSchema as | _ \<Rightarrow> False)
      = (case get_field v ''announcements'' of JArr as \<Rightarrow> as \<noteq> [] \<and> list_all AnnouncementSchema as | _ \<Rightarrow> False)"
    using list_all_norm [of _ AnnouncementSchema] by (cases "get_field v ''announcements''") (auto simp: norm_simps)
  then show ?thesis
    using assms by (simp add: AnnouncementEntrySchema_def norm_get_field norm_simps)
qed

lemma SourceHeadSchema_norm [norm_simps]: "json_ok v \<Longrightarrow> SourceHeadSchema (norm_json v) = SourceHeadSchema v"
  by (simp add: SourceHeadSchema_def norm_simps)

lemma announcementIds_norm [norm_simps]:
  assumes "json_ok v"
  shows "announcementIds (norm_json v) = announcementIds v"
proof -
  have "json_ok (get_field v ''announcements'')" using assms by simp
  then have "map (\<lambda>a. text_of (get_field a k)) (items_of (norm_json (get_field v ''announcements'')))
      = map (\<lambda>a. text_of (get_field a k)) (items_of (get_field v ''announcements''))" for k
    by (cases "get_field v ''announcements''") (auto simp: list_all_iff norm_get_field norm_simps)
  then show ?thesis using assms by (simp add: announcementIds_def norm_get_field)
qed

lemma parseAnnouncementEntry_norm:
  assumes "json_ok v" and "parseAnnouncementEntry v = Inr w"
  shows "w = v" and "parseAnnouncementEntry (norm_json v) = Inr (norm_json v)"
proof -
  show "w = v" using assms(2) by (auto simp: parseAnnouncementEntry_def Let_def split: if_splits option.splits)
  show "parseAnnouncementEntry (norm_json v) = Inr (norm_json v)"
    using assms
    by (auto simp: parseAnnouncementEntry_def Let_def norm_get_field norm_simps split: if_splits option.splits)
qed

lemma parseSourceHead_norm:
  assumes "json_ok v" and "parseSourceHead v = Inr w"
  shows "w = v" and "parseSourceHead (norm_json v) = Inr (norm_json v)"
  using assms
  by (auto simp: parseSourceHead_def norm_get_field norm_simps bind_result_Inr_iff split: if_splits)

section \<open>The typed view\<close>

definition option_field :: "string \<Rightarrow> (json \<Rightarrow> 'a) \<Rightarrow> json \<Rightarrow> 'a option" where
  "option_field k f v = (if get_field v k = JUndef then None else Some (f (get_field v k)))"

definition ref_of :: "json \<Rightarrow> record_ref" where
  "ref_of v = \<lparr>ref_kind = text_of (get_field v ''kind''), ref_digest = text_of (get_field v ''digest''),
     ref_mediaType = option_field ''mediaType'' text_of v\<rparr>"

definition location_of :: "json \<Rightarrow> published_location" where
  "location_of v = \<lparr>loc_profile = text_of (get_field v ''profile''), loc_locator = text_of (get_field v ''locator'')\<rparr>"

definition reason_of :: "string \<Rightarrow> withdrawal_reason" where
  "reason_of s =
     (if s = ''delisted'' then Delisted else if s = ''superseded'' then Superseded
      else if s = ''reorged'' then Reorged else ErrorReason)"

definition announcement_of :: "json \<Rightarrow> announcement" where
  "announcement_of v =
     (if get_field v ''action'' = JStr ''available''
      then Available (text_of (get_field v ''announcementId'')) (ref_of (get_field v ''record''))
             (option_field ''locations'' (\<lambda>ls. map location_of (items_of ls)) v) (option_field ''facts'' (\<lambda>f. f) v)
      else Withdrawn (text_of (get_field v ''announcementId'')) (text_of (get_field v ''retracts''))
             (reason_of (text_of (get_field v ''reason''))))"

definition entry_of :: "json \<Rightarrow> announcement_entry" where
  "entry_of v =
     \<lparr>en_protocol = text_of (get_field v ''protocol''), en_agent = text_of (get_field (get_field v ''source'') ''agent''),
      en_name = text_of (get_field (get_field v ''source'') ''name''), en_sequence = text_of (get_field v ''sequence''),
      en_previous = (if get_field v ''previous'' = JNull then None else Some (text_of (get_field v ''previous''))),
      en_timestamp = text_of (get_field v ''timestamp''),
      en_announcements = map announcement_of (items_of (get_field v ''announcements''))\<rparr>"

definition head_of :: "json \<Rightarrow> source_head" where
  "head_of v =
     \<lparr>sh_protocol = text_of (get_field v ''protocol''), sh_origin = text_of (get_field v ''origin''),
      sh_sequence = text_of (get_field v ''sequence''), sh_entry = text_of (get_field v ''entry''),
      sh_issuedAt = text_of (get_field v ''issuedAt''), sh_refreshBy = text_of (get_field v ''refreshBy'')\<rparr>"

text \<open>An entry with the keys of its facts sorted: what a reader of sealed bytes holds.\<close>

fun facts_normalized :: "announcement \<Rightarrow> announcement" where
  "facts_normalized (Available aid r locations facts) = Available aid r locations (map_option norm_json facts)"
| "facts_normalized (Withdrawn aid target reason) = Withdrawn aid target reason"

definition entry_normalized :: "announcement_entry \<Rightarrow> announcement_entry" where
  "entry_normalized e = e\<lparr>en_announcements := map facts_normalized (en_announcements e)\<rparr>"

section \<open>What the parsers accept\<close>

definition ref_valid :: "record_ref \<Rightarrow> bool" where
  "ref_valid r \<longleftrightarrow> ref_kind r \<noteq> [] \<and> RecordDigestSchema (ref_digest r)"

fun announcement_valid :: "announcement \<Rightarrow> bool" where
  "announcement_valid (Available aid r locations facts) \<longleftrightarrow>
     aid \<noteq> [] \<and> ref_valid r
     \<and> (\<forall>ls \<in> set_option locations. \<forall>l \<in> set ls. loc_profile l \<noteq> [] \<and> loc_locator l \<noteq> [])"
| "announcement_valid (Withdrawn aid target reason) \<longleftrightarrow> aid \<noteq> [] \<and> target \<noteq> []"

definition entry_valid :: "announcement_entry \<Rightarrow> bool" where
  "entry_valid e \<longleftrightarrow>
     en_protocol e = RECORD_DISCOVERY_VERSION \<and> en_agent e \<noteq> [] \<and> isSourceName (en_name e)
     \<and> SequenceSchema (en_sequence e) \<and> (\<forall>d \<in> set_option (en_previous e). RecordDigestSchema d) \<and> en_timestamp e \<noteq> []
     \<and> en_announcements e \<noteq> [] \<and> (\<forall>a \<in> set (en_announcements e). announcement_valid a)
     \<and> distinct (map announcementId (en_announcements e))
     \<and> (en_sequence e = GENESIS_SEQUENCE \<longleftrightarrow> en_previous e = None)"

definition head_valid :: "source_head \<Rightarrow> bool" where
  "head_valid h \<longleftrightarrow>
     sh_protocol h = RECORD_DISCOVERY_VERSION \<and> SequenceSchema (sh_sequence h) \<and> RecordDigestSchema (sh_entry h)
     \<and> isHeadTimestamp (sh_issuedAt h) \<and> isHeadTimestamp (sh_refreshBy h)
     \<and> (\<exists>agent name. splitOrigin (sh_origin h) = Inr (agent, name) \<and> agent \<noteq> [] \<and> isSourceName name)"

lemma firstDuplicate_iff: "firstDuplicate seen ids = None \<longleftrightarrow> distinct ids \<and> set ids \<inter> set seen = {}"
  by (induction seen ids rule: firstDuplicate.induct) auto

lemma optional_simps [simp]: "optional k None = []" "optional k (Some v) = [(k, v)]"
  by (simp_all add: optional_def)

lemma announcement_schema: "AnnouncementSchema (announcement_object a) = announcement_valid a"
proof (cases a)
  case (Available aid r locations facts)
  have "RecordRefSchema (ref_object r) = ref_valid r"
    by (cases "ref_mediaType r")
      (auto simp: RecordRefSchema_def ref_object_def ref_valid_def string_field_def optional_field_def)
  moreover have "array_of PublishedLocationSchema (JArr (map location_object ls))
      \<longleftrightarrow> (\<forall>l \<in> set ls. loc_profile l \<noteq> [] \<and> loc_locator l \<noteq> [])" for ls
    by (auto simp: PublishedLocationSchema_def location_object_def string_field_def list_all_iff)
  ultimately show ?thesis using Available
    by (cases locations; cases facts)
      (auto simp: AnnouncementSchema_def AvailableAnnouncementSchema_def WithdrawnAnnouncementSchema_def
        string_field_def optional_field_def)
next
  case (Withdrawn aid target reason)
  then show ?thesis
    by (cases reason)
      (auto simp: AnnouncementSchema_def AvailableAnnouncementSchema_def WithdrawnAnnouncementSchema_def
        string_field_def WITHDRAWAL_REASONS_def)
qed

lemma announcement_object_id: "text_of (get_field (announcement_object a) ''announcementId'') = announcementId a"
  by (cases a) (simp_all add: text_of_def)

lemma entry_fields [simp]:
  "get_field (entry_object e) ''protocol'' = JStr (en_protocol e)"
  "get_field (entry_object e) ''source'' = JObj [(''agent'', JStr (en_agent e)), (''name'', JStr (en_name e))]"
  "get_field (entry_object e) ''sequence'' = JStr (en_sequence e)"
  "get_field (entry_object e) ''previous'' = (case en_previous e of None \<Rightarrow> JNull | Some d \<Rightarrow> JStr d)"
  "get_field (entry_object e) ''timestamp'' = JStr (en_timestamp e)"
  "get_field (entry_object e) ''announcements'' = JArr (map announcement_object (en_announcements e))"
  "is_object (entry_object e)"
  by (simp_all add: entry_object_def)

lemma text_of_JStr [simp]: "text_of (JStr s) = s"
  by (simp add: text_of_def)

lemma entry_ids: "announcementIds (entry_object e) = map announcementId (en_announcements e)"
  by (simp add: announcementIds_def announcement_object_id)

lemma entry_shape:
  "AnnouncementEntrySchema (entry_object e) \<longleftrightarrow>
      en_protocol e = RECORD_DISCOVERY_VERSION \<and> en_agent e \<noteq> [] \<and> en_name e \<noteq> [] \<and> SequenceSchema (en_sequence e)
      \<and> (\<forall>d \<in> set_option (en_previous e). RecordDigestSchema d) \<and> en_timestamp e \<noteq> []
      \<and> en_announcements e \<noteq> [] \<and> (\<forall>a \<in> set (en_announcements e). announcement_valid a)"
  by (cases "en_previous e")
    (auto simp: AnnouncementEntrySchema_def string_field_def list_all_iff announcement_schema)

lemma entry_schema:
  "parseAnnouncementEntry (entry_object e) = Inr (entry_object e) \<longleftrightarrow> entry_valid e"
  unfolding parseAnnouncementEntry_def entry_valid_def entry_shape entry_ids Let_def
  by (cases "en_previous e"; cases "firstDuplicate [] (map announcementId (en_announcements e))")
    (use firstDuplicate_iff [of "[]" "map announcementId (en_announcements e)"] in \<open>auto simp: isSourceName_def\<close>)

lemma head_schema: "parseSourceHead (head_object h) = Inr (head_object h) \<longleftrightarrow> head_valid h"
  by (auto simp: parseSourceHead_def head_valid_def SourceHeadSchema_def head_object_def string_field_def text_of_def
      bind_result_Inr_iff splitOrigin_def)

section \<open>Sealing and parsing are inverse\<close>

text \<open>Fields of a normal form are read through \<open>norm_get_field\<close>, not by sorting the members.\<close>

declare norm_json.simps(2) [simp del]

lemma ref_object_ok: "json_ok (ref_object r)" "sealable (ref_object r)" "ref_of (norm_json (ref_object r)) = r"
proof -
  show ok: "json_ok (ref_object r)" "sealable (ref_object r)"
    by (cases "ref_mediaType r"; simp add: ref_object_def)+
  show "ref_of (norm_json (ref_object r)) = r"
    using ok by (cases r; cases "ref_mediaType r")
      (simp_all add: ref_of_def option_field_def norm_get_field, simp_all add: ref_object_def)
qed

lemma location_object_ok:
  "json_ok (location_object l)" "sealable (location_object l)" "location_of (norm_json (location_object l)) = l"
proof -
  show ok: "json_ok (location_object l)" "sealable (location_object l)" by (simp_all add: location_object_def)
  show "location_of (norm_json (location_object l)) = l"
    using ok by (cases l) (simp add: location_of_def norm_get_field, simp add: location_object_def)
qed

lemma head_object_ok: "json_ok (head_object h)" "sealable (head_object h)" "head_of (norm_json (head_object h)) = h"
proof -
  show ok: "json_ok (head_object h)" "sealable (head_object h)" by (simp_all add: head_object_def)
  show "head_of (norm_json (head_object h)) = h"
    using ok by (cases h) (simp add: head_of_def norm_get_field, simp add: head_object_def)
qed

lemma parse_norm_iff:
  "json_ok v \<Longrightarrow> parseAnnouncementEntry (norm_json v) = Inr (norm_json v) \<longleftrightarrow> parseAnnouncementEntry v = Inr v"
  "json_ok v \<Longrightarrow> parseSourceHead (norm_json v) = Inr (norm_json v) \<longleftrightarrow> parseSourceHead v = Inr v"
  by (auto simp: parseAnnouncementEntry_def parseSourceHead_def Let_def norm_get_field norm_simps bind_result_Inr_iff
      split: if_splits option.splits)

lemma option_field_norm: "json_ok v \<Longrightarrow> option_field k f (norm_json v) = option_field k (\<lambda>w. f (norm_json w)) v"
  by (simp add: option_field_def norm_get_field norm_json_undef_iff)

lemma items_json_ok: "json_ok v \<Longrightarrow> w \<in> set (items_of v) \<Longrightarrow> json_ok w"
  by (cases v) (auto simp: list_all_iff)

lemma ref_of_norm: "json_ok v \<Longrightarrow> ref_of (norm_json v) = ref_of v"
  by (simp add: ref_of_def option_field_norm norm_get_field norm_simps)

lemma locations_of_norm: "json_ok v \<Longrightarrow> map location_of (items_of (norm_json v)) = map location_of (items_of v)"
  using items_json_ok [of v] by (simp add: norm_simps location_of_def norm_get_field)

lemma announcement_of_norm:
  assumes "json_ok v"
  shows "announcement_of (norm_json v) = facts_normalized (announcement_of v)"
proof -
  have locations: "option_field ''locations'' (\<lambda>ls. map location_of (items_of ls)) (norm_json v)
      = option_field ''locations'' (\<lambda>ls. map location_of (items_of ls)) v"
    by (simp only: option_field_norm [OF assms])
      (simp only: option_field_def locations_of_norm [OF json_ok_get_field [OF assms]])
  have facts: "option_field ''facts'' (\<lambda>f. f) (norm_json v) = map_option norm_json (option_field ''facts'' (\<lambda>f. f) v)"
    by (simp only: option_field_norm [OF assms]) (simp add: option_field_def)
  have fields: "get_field (norm_json v) k = norm_json (get_field v k)" for k by (rule norm_get_field [OF assms])
  show ?thesis
    unfolding announcement_of_def locations facts fields norm_shape ref_of_norm [OF json_ok_get_field [OF assms]]
    by (cases "get_field v ''action'' = JStr ''available''") simp_all
qed

lemma norm_typed_views:
  assumes "json_ok v"
  shows "entry_of (norm_json v) = entry_normalized (entry_of v)" and "head_of (norm_json v) = head_of v"
proof -
  have fields: "get_field (norm_json u) k = norm_json (get_field u k)" if "json_ok u" for u k by (rule norm_get_field [OF that])
  have "announcement_of (norm_json a) = facts_normalized (announcement_of a)" if "a \<in> set (items_of (get_field v ''announcements''))" for a
    by (rule announcement_of_norm [OF items_json_ok [OF json_ok_get_field [OF assms] that]])
  then have items: "map announcement_of (map norm_json (items_of (get_field v ''announcements'')))
      = map facts_normalized (map announcement_of (items_of (get_field v ''announcements'')))" by simp
  show "entry_of (norm_json v) = entry_normalized (entry_of v)"
    unfolding entry_of_def fields [OF assms] fields [OF json_ok_get_field [OF assms]] norm_shape items entry_normalized_def by simp
  show "head_of (norm_json v) = head_of v" unfolding head_of_def fields [OF assms] norm_shape ..
qed

section \<open>Properties\<close>

text \<open>
  C17: The documents of the protocol survive the wire. Of a JSON value without repeated keys, with any facts and any
  members beyond the declared ones, sealing throws exactly when the value is not sealable (such as a fractional
  number). Otherwise decoding and parsing the sealed bytes gives the value with its keys sorted; its typed view as a head
  is the same and as an entry the same up to the key order inside facts; and \<open>parseAnnouncementEntry\<close> and
  \<open>parseSourceHead\<close> accept what was read exactly when they accept what was sealed.
\<close>

theorem sealed_documents_roundtrip:
  assumes "json_ok v"
  shows "((\<exists>b. sealBytes v = Inr b) \<longleftrightarrow> sealable v)
    \<and> (\<forall>b. sealBytes v = Inr b \<longrightarrow> decodeJson b = Inr (norm_json v)
         \<and> entry_of (norm_json v) = entry_normalized (entry_of v) \<and> head_of (norm_json v) = head_of v
         \<and> (parseAnnouncementEntry (norm_json v) = Inr (norm_json v) \<longleftrightarrow> parseAnnouncementEntry v = Inr v)
         \<and> (parseSourceHead (norm_json v) = Inr (norm_json v) \<longleftrightarrow> parseSourceHead v = Inr v))"
  using decodeJson_sealed [OF assms] norm_typed_views [OF assms] parse_norm_iff [OF assms] by (simp add: sealBytes_iff)

definition sample_entry :: announcement_entry where
  "sample_entry = \<lparr>en_protocol = RECORD_DISCOVERY_VERSION, en_agent = ''did:key:zA'', en_name = ''tasks'',
     en_sequence = GENESIS_SEQUENCE, en_previous = None, en_timestamp = ''2026-01-01T00:00:00Z'',
     en_announcements =
       [Available ''a1'' \<lparr>ref_kind = ''k'', ref_digest = ''sha256:'' @ replicate 64 CHR ''a'', ref_mediaType = None\<rparr>
          (Some [\<lparr>loc_profile = ''p'', loc_locator = ''l''\<rparr>]) (Some (JObj [(''t'', JStr ''x''), (''n'', JNum ''-7'')])),
        Withdrawn ''a2'' ''a1'' Superseded]\<rparr>"

text \<open>The entry with a member that the schema does not declare.\<close>

definition sample_document :: json where
  "sample_document = (case entry_object sample_entry of JObj kvs \<Rightarrow> JObj ((''zone'', JStr ''eu'') # kvs) | v \<Rightarrow> v)"

theorem sealed_documents_roundtrip_witness:
  "\<exists>b. sealBytes sample_document = Inr b \<and> decodeJson b = Inr (norm_json sample_document)
     \<and> parseAnnouncementEntry (norm_json sample_document) = Inr (norm_json sample_document)"
proof -
  have ok: "json_ok sample_document" "sealable sample_document" by code_simp+
  moreover have "parseAnnouncementEntry sample_document = Inr sample_document" by code_simp
  ultimately show ?thesis using sealed_documents_roundtrip [OF ok(1)] by blast
qed

end
