(* ===== verification/Iso_Time.thy ===== *)
theory Iso_Time
  imports Calendar_Time
begin

text \<open>
  \<open>Date.prototype.toISOString\<close>: the millisecond value as a date-time in UTC with three fraction digits,
  the year with a sign and six digits outside 0 to 9999. The date of a day number is found from the
  mean length of a Gregorian year, corrected by one where the estimate is off.

  The round trip: \<open>parseHeadTimestamp\<close> reads back what \<open>toISOString\<close> writes for every instant of the years
  1 to 9999.
\<close>

section \<open>The date of a day\<close>

definition civil_year :: "int \<Rightarrow> int" where
  "civil_year n =
     (let y = (400 * n) div 146097 + 1
      in if n < daysBeforeYear y then y - 1 else if daysBeforeYear (y + 1) \<le> n then y + 1 else y)"

function month_from :: "int \<Rightarrow> int \<Rightarrow> int \<Rightarrow> int" where
  "month_from y r m = (if r < month_start y m + daysInMonth y m \<or> 12 \<le> m then m else month_from y r (m + 1))"
  by pat_completeness auto
termination
  by (relation "measure (\<lambda>(y, r, m). nat (12 - m))") auto

declare month_from.simps [simp del]

definition civil_month :: "int \<Rightarrow> int \<Rightarrow> int" where
  "civil_month y r = month_from y r 1"

definition year_text :: "int \<Rightarrow> string" where
  "year_text y =
     (if 0 \<le> y \<and> y \<le> 9999 then padStart 4 CHR ''0'' (dec (nat y))
      else (if y < 0 then CHR ''-'' else CHR ''+'') # padStart 6 CHR ''0'' (dec (nat \<bar>y\<bar>)))"

definition field_text :: "nat \<Rightarrow> int \<Rightarrow> string" where
  "field_text w n = padStart w CHR ''0'' (dec (nat n))"

definition toISOString :: "int \<Rightarrow> string" where
  "toISOString ms =
     (let n = ms div 86400000 + 719162; t = ms mod 86400000;
          y = civil_year n; r = n - daysBeforeYear y; m = civil_month y r; d = r - month_start y m + 1
      in year_text y @ ''-'' @ field_text 2 m @ ''-'' @ field_text 2 d @ ''T'' @ field_text 2 (t div 3600000)
         @ '':'' @ field_text 2 (t div 60000 mod 60) @ '':'' @ field_text 2 (t div 1000 mod 60)
         @ ''.'' @ field_text 3 (t mod 1000) @ ''Z'')"

section \<open>The date is right\<close>

lemma daysBeforeYear_bounds:
  "400 * daysBeforeYear y \<le> 146097 * (y - 1) + 399" "146097 * (y - 1) - 699 \<le> 400 * daysBeforeYear y"
proof -
  define k where "k = y - 1"
  have "4 * (k div 4) + k mod 4 = k" "100 * (k div 100) + k mod 100 = k" "400 * (k div 400) + k mod 400 = k"
    by simp_all
  moreover have "0 \<le> k mod 4" "k mod 4 \<le> 3" "0 \<le> k mod 100" "k mod 100 \<le> 99" "0 \<le> k mod 400" "k mod 400 \<le> 399"
    by simp_all
  moreover have "400 * daysBeforeYear y = 146000 * k + 400 * (k div 4) - 400 * (k div 100) + 400 * (k div 400)"
    by (simp add: daysBeforeYear_eq k_def)
  ultimately show "400 * daysBeforeYear y \<le> 146097 * (y - 1) + 399" "146097 * (y - 1) - 699 \<le> 400 * daysBeforeYear y"
    unfolding k_def [symmetric] by linarith+
qed

lemma civil_year_bounds: "daysBeforeYear (civil_year n) \<le> n" "n < daysBeforeYear (civil_year n + 1)"
proof -
  define y where "y = (400 * n) div 146097 + 1"
  have e: "146097 * (y - 1) \<le> 400 * n" "400 * n < 146097 * y"
    using div_mult_mod_eq [of "400 * n" 146097] pos_mod_bound [of 146097 "400 * n"] pos_mod_sign [of 146097 "400 * n"]
    by (simp_all add: y_def)
  have cy: "civil_year n = (if n < daysBeforeYear y then y - 1 else if daysBeforeYear (y + 1) \<le> n then y + 1 else y)"
    by (simp add: civil_year_def Let_def y_def)
  note b = daysBeforeYear_bounds [of "y - 1"] daysBeforeYear_bounds [of "y + 2"]
  have "400 * daysBeforeYear (y - 1) \<le> 400 * n" using e(1) b(1) by simp
  moreover have "400 * n < 400 * daysBeforeYear (y + 2)" using e(2) b(4) by simp
  ultimately show "daysBeforeYear (civil_year n) \<le> n" "n < daysBeforeYear (civil_year n + 1)"
    unfolding cy by (auto simp: ac_simps)
qed

lemma month_from_bounds:
  assumes "1 \<le> m" and "m \<le> 12" and "month_start y m \<le> r" and "r < year_length y"
  shows "1 \<le> month_from y r m \<and> month_from y r m \<le> 12 \<and> month_start y (month_from y r m) \<le> r
    \<and> r < month_start y (month_from y r m) + daysInMonth y (month_from y r m)"
  using assms
proof (induction y r m rule: month_from.induct)
  case (1 y r m)
  have dec: "month_start y 12 + daysInMonth y 12 = year_length y"
    by (simp add: month_start_def daysBeforeMonth_def daysInMonth_def year_length_def)
  show ?case
  proof (cases "r < month_start y m + daysInMonth y m \<or> 12 \<le> m")
    case True
    then show ?thesis using 1 dec by (subst (1 2 3 4 5) month_from.simps) auto
  next
    case False
    then show ?thesis using 1 month_start_Suc [of m y] by (subst (1 2 3 4 5) month_from.simps) simp
  qed
qed

lemma civil_month_bounds:
  assumes "0 \<le> r" and "r < year_length y"
  shows "1 \<le> civil_month y r \<and> civil_month y r \<le> 12 \<and> month_start y (civil_month y r) \<le> r
    \<and> r < month_start y (civil_month y r) + daysInMonth y (civil_month y r)"
  unfolding civil_month_def using assms
  by (intro month_from_bounds) (simp_all add: month_start_def daysBeforeMonth_def)

lemma civil_date:
  fixes n :: int
  defines "y \<equiv> civil_year n"
  defines "r \<equiv> n - daysBeforeYear y"
  defines "m \<equiv> civil_month y r"
  shows "valid_date y m (r - month_start y m + 1)" and "dayIndex y m (r - month_start y m + 1) = n"
proof -
  have r: "0 \<le> r" "r < year_length y"
    using civil_year_bounds [of n] daysBeforeYear_Suc [of y] by (simp_all add: r_def y_def)
  note m = civil_month_bounds [OF r, folded m_def]
  show "valid_date y m (r - month_start y m + 1)" using m by (simp add: valid_date_def)
  show "dayIndex y m (r - month_start y m + 1) = n" by (simp add: dayIndex_month_start r_def)
qed


section \<open>What is written is read back\<close>

lemma field_text_facts:
  assumes "0 \<le> n" and "n < 10 ^ w" and "0 < w"
  shows "length (field_text w n) = w" and "nat_of_digits (field_text w n) = nat n"
    and "\<forall>c \<in> set (field_text w n). is_digit c"
proof -
  have "nat n < 10 ^ w" using assms(1,2) by (simp add: nat_less_iff)
  then have "length (dec (nat n)) \<le> w" by (rule length_dec_le [OF assms(3)])
  then show "length (field_text w n) = w" by (simp add: field_text_def)
  show "nat_of_digits (field_text w n) = nat n" by (simp add: field_text_def)
  show "\<forall>c \<in> set (field_text w n). is_digit c"
    using set_padStart [of w "CHR ''0''" "dec (nat n)"] dec_digits [of "nat n"] by (auto simp: field_text_def)
qed

lemma tpl_cat: "tpl_match a s \<Longrightarrow> tpl_match b t \<Longrightarrow> tpl_match (a @ b) (s @ t)"
  using tpl_match_append [of a s b t] tpl_match_length [of a s] by simp

lemma tpl_digits:
  "length s = 2 \<Longrightarrow> (\<forall>c \<in> set s. is_digit c) \<Longrightarrow> tpl_match ''dd'' s"
  "length s = 4 \<Longrightarrow> (\<forall>c \<in> set s. is_digit c) \<Longrightarrow> tpl_match ''dddd'' s"
  by (auto simp: numeral_eq_Suc length_Suc_conv)

lemma num_at_front: "length a = n \<Longrightarrow> num_at 0 n (a @ b) = nat_of_digits a"
  by (simp add: num_at_def)

lemma num_at_skip: "length a \<le> i \<Longrightarrow> num_at i n (a @ b) = num_at (i - length a) n b"
  by (simp add: num_at_def)

lemma tpl_separators: "tpl_match ''-'' ''-''" "tpl_match ''T'' ''T''" "tpl_match '':'' '':''"
  by simp_all

lemma written_date_time:
  assumes "1 \<le> y" "y \<le> 9999" and "valid_date y m d" and "0 \<le> hh" "hh \<le> 23" "0 \<le> mi" "mi \<le> 59" "0 \<le> ss" "ss \<le> 59"
    and "0 \<le> f" "f \<le> 999"
  shows "parseCalendarStrictRfc3339 (field_text 4 y @ ''-'' @ field_text 2 m @ ''-'' @ field_text 2 d @ ''T'' @ field_text 2 hh
      @ '':'' @ field_text 2 mi @ '':'' @ field_text 2 ss @ ''.'' @ field_text 3 f @ ''Z'') =
    Some \<lparr>p_year = y, p_month = m, p_day = d, p_hour = hh, p_minute = mi, p_second = ss,
      p_fraction = Some (field_text 3 f), p_offsetSign = None, p_offsetHour = 0, p_offsetMinute = 0\<rparr>"
proof -
  have dm: "1 \<le> m" "m \<le> 12" "1 \<le> d" "d \<le> 31" "d \<le> daysInMonth y m"
    using assms(3) by (auto simp: valid_date_def daysInMonth_def split: if_splits)
  note two = field_text_facts [of _ 2]
  have y: "length (field_text 4 y) = 4" "nat_of_digits (field_text 4 y) = nat y" "\<forall>c \<in> set (field_text 4 y). is_digit c"
    using assms field_text_facts [of y 4] by simp_all
  have m: "length (field_text 2 m) = 2" "nat_of_digits (field_text 2 m) = nat m" "\<forall>c \<in> set (field_text 2 m). is_digit c"
    using dm two [of m] by simp_all
  have d: "length (field_text 2 d) = 2" "nat_of_digits (field_text 2 d) = nat d" "\<forall>c \<in> set (field_text 2 d). is_digit c"
    using dm two [of d] by simp_all
  have hh: "length (field_text 2 hh) = 2" "nat_of_digits (field_text 2 hh) = nat hh" "\<forall>c \<in> set (field_text 2 hh). is_digit c"
    using assms two [of hh] by simp_all
  have mi: "length (field_text 2 mi) = 2" "nat_of_digits (field_text 2 mi) = nat mi" "\<forall>c \<in> set (field_text 2 mi). is_digit c"
    using assms two [of mi] by simp_all
  have ss: "length (field_text 2 ss) = 2" "nat_of_digits (field_text 2 ss) = nat ss" "\<forall>c \<in> set (field_text 2 ss). is_digit c"
    using assms two [of ss] by simp_all
  have f: "length (field_text 3 f) = 3" "\<forall>c \<in> set (field_text 3 f). is_digit c"
    using assms field_text_facts [of f 3] by simp_all
  let ?h = "field_text 4 y @ ''-'' @ field_text 2 m @ ''-'' @ field_text 2 d @ ''T'' @ field_text 2 hh
      @ '':'' @ field_text 2 mi @ '':'' @ field_text 2 ss"
  have "tpl_match (''dddd'' @ ''-'' @ ''dd'' @ ''-'' @ ''dd'' @ ''T'' @ ''dd'' @ '':'' @ ''dd'' @ '':'' @ ''dd'') ?h"
    using y m d hh mi ss by (intro tpl_cat tpl_digits tpl_separators)
  then have "tpl_match ''dddd-dd-ddTdd:dd:dd'' ?h" by simp
  then have split: "rfc_split (?h @ ''.'' @ field_text 3 f @ ''Z'') = Some (?h, Some (field_text 3 f), ''Z'')"
    using f by (intro rfc_split_fraction) (auto simp: offset_ok_def simp del: append.simps)
  have fields: "int (num_at 0 4 ?h) = y" "int (num_at 5 2 ?h) = m" "int (num_at 8 2 ?h) = d" "int (num_at 11 2 ?h) = hh"
    "int (num_at 14 2 ?h) = mi" "int (num_at 17 2 ?h) = ss"
    using y(1,2) m(1,2) d(1,2) hh(1,2) mi(1,2) ss(1,2) assms dm
    by (simp_all add: num_at_skip num_at_front num_at_front [where b = "[]", simplified] del: append_Cons append_Nil)
  have "parseCalendarStrictRfc3339 (?h @ ''.'' @ field_text 3 f @ ''Z'') =
    Some \<lparr>p_year = y, p_month = m, p_day = d, p_hour = hh, p_minute = mi, p_second = ss,
      p_fraction = Some (field_text 3 f), p_offsetSign = None, p_offsetHour = 0, p_offsetMinute = 0\<rparr>"
    unfolding parseCalendarStrictRfc3339_def split option.case prod.case fields Let_def using assms(1,2,4-9) dm by simp
  then show ?thesis by simp
qed

lemma civil_year_range:
  assumes "-62135596800000 \<le> ms" and "ms < 253402300800000"
  shows "1 \<le> civil_year (ms div 86400000 + 719162)" and "civil_year (ms div 86400000 + 719162) \<le> 9999"
proof -
  let ?n = "ms div 86400000 + 719162"
  have "0 \<le> ?n" "?n < 3652059"
    using assms by simp_all
  moreover have "daysBeforeYear 1 = 0" "daysBeforeYear 10000 = 3652059" by (simp_all add: daysBeforeYear_eq)
  moreover have mono: "daysBeforeYear y \<le> daysBeforeYear z" if "y \<le> z" for y z
    using that daysBeforeYear_mono [of y z] year_length_pos [of y] by (cases "y = z") auto
  ultimately have "\<not> civil_year ?n + 1 \<le> 1" "\<not> 10000 \<le> civil_year ?n"
    using civil_year_bounds [of ?n] mono [of "civil_year ?n + 1" 1] mono [of 10000 "civil_year ?n"] by linarith+
  then show "1 \<le> civil_year ?n" "civil_year ?n \<le> 9999" by simp_all
qed

text \<open>The parts of a day.\<close>

lemma day_parts:
  fixes t :: int
  assumes "0 \<le> t" and "t < 86400000"
  shows "0 \<le> t div 3600000 \<and> t div 3600000 \<le> 23"
    and "t div 3600000 * 3600000 + t div 60000 mod 60 * 60000 + t div 1000 mod 60 * 1000 + t mod 1000 = t"
proof -
  show "0 \<le> t div 3600000 \<and> t div 3600000 \<le> 23" using assms by (simp add: pos_imp_zdiv_nonneg_iff)
  define a where "a = t div 1000"
  define b where "b = a div 60"
  have hours: "t div 3600000 = b div 60" and minutes: "t div 60000 = b"
    by (simp_all add: a_def b_def zdiv_zmult2_eq [symmetric])
  have "t = 1000 * a + t mod 1000" "a = 60 * b + a mod 60" "b = 60 * (b div 60) + b mod 60"
    by (simp_all add: a_def b_def)
  then show "t div 3600000 * 3600000 + t div 60000 mod 60 * 60000 + t div 1000 mod 60 * 1000 + t mod 1000 = t"
    unfolding hours minutes a_def [symmetric] by linarith
qed

lemma seconds_and_ms:
  "hh * 3600000 + mi * 60000 + ss * 1000 + f = (t :: int) \<Longrightarrow>
     (n * 86400 + (hh * 3600 + mi * 60 + ss) - 719162 * 86400) * 1000 + f = (n - 719162) * 86400000 + t"
  by (simp add: algebra_simps)

lemma parse_toISOString:
  assumes "-62135596800000 \<le> ms" and "ms < 253402300800000"
  shows "parseHeadTimestamp (toISOString ms) = Some ms"
proof -
  define n where "n = ms div 86400000 + 719162"
  define t where "t = ms mod 86400000"
  define y where "y = civil_year n"
  define m where "m = civil_month y (n - daysBeforeYear y)"
  define d where "d = n - daysBeforeYear y - month_start y m + 1"
  define p where "p = \<lparr>p_year = y, p_month = m, p_day = d, p_hour = t div 3600000, p_minute = t div 60000 mod 60,
      p_second = t div 1000 mod 60, p_fraction = Some (field_text 3 (t mod 1000)), p_offsetSign = None,
      p_offsetHour = 0, p_offsetMinute = 0\<rparr>"
  have t: "0 \<le> t" "t < 86400000" by (simp_all add: t_def)
  note parts = day_parts [OF t]
  have clock: "0 \<le> t div 60000 mod 60" "t div 60000 mod 60 \<le> 59" "0 \<le> t div 1000 mod 60" "t div 1000 mod 60 \<le> 59"
    "0 \<le> t mod 1000" "t mod 1000 \<le> 999"
    by simp_all
  have y: "1 \<le> y" "y \<le> 9999" using civil_year_range [OF assms] by (simp_all add: y_def n_def)
  have date: "valid_date y m d" "dayIndex y m d = n" using civil_date [of n] by (simp_all add: y_def m_def d_def)
  have year: "year_text y = field_text 4 y" using y by (simp add: year_text_def field_text_def)
  have iso: "toISOString ms = field_text 4 y @ ''-'' @ field_text 2 m @ ''-'' @ field_text 2 d @ ''T''
      @ field_text 2 (t div 3600000) @ '':'' @ field_text 2 (t div 60000 mod 60) @ '':'' @ field_text 2 (t div 1000 mod 60)
      @ ''.'' @ field_text 3 (t mod 1000) @ ''Z''"
    unfolding toISOString_def Let_def n_def [symmetric] t_def [symmetric] y_def [symmetric] m_def [symmetric]
      d_def [symmetric] year by (rule refl)
  have parsed: "parseCalendarStrictRfc3339 (toISOString ms) = Some p"
    unfolding iso p_def
    by (rule written_date_time [OF y date(1) conjunct1 [OF parts(1)] conjunct2 [OF parts(1)] clock])
  have frac: "fraction_ms (Some (field_text 3 (t mod 1000))) = t mod 1000"
    using field_text_facts [of "t mod 1000" 3] by (simp add: fraction_ms_def padEnd_def)
  have "p_second p < 60" by (simp add: p_def)
  then have "head_ms p = (localSecondAt p (p_second p) - 719162 * 86400) * 1000 + t mod 1000"
    using frac by (simp add: head_ms_def p_def)
  also have "localSecondAt p (p_second p) = n * 86400 + (t div 3600000 * 3600 + t div 60000 mod 60 * 60 + t div 1000 mod 60)"
    unfolding localSecondAt_def using date(2) by (simp add: p_def)
  also have "(\<dots> - 719162 * 86400) * 1000 + t mod 1000 = (n - 719162) * 86400000 + t"
    using parts(2) by (rule seconds_and_ms)
  also have "\<dots> = ms" by (simp add: n_def t_def)
  finally show ?thesis using parsed by (simp add: parseHeadTimestamp_eq)
qed

end
