(* ===== verification/Head_Maintenance.thy ===== *)
theory Head_Maintenance
  imports Discovery_Records Iso_Time Complex_Main
begin

text \<open>
  Signing entries and keeping a head fresh: discovery/serve/src/entry-signing.ts and head.ts.

  The signer, the clock and the blob store are ports. A signer is a function in the asynchronous
  state monad; \<open>serve_error\<close> has the two error classes of the package and every other thrown error.
  Durations are rational numbers of milliseconds, and \<open>None\<close> is one that is not finite; \<open>js_trunc\<close> is what \<open>Date\<close> makes
  of a fraction. They are added exactly, where the code rounds to doubles; rounding is monotone and keeps whole numbers
  of this size, so a duration between one millisecond and the ceiling stays between them. Clocks read whole
  milliseconds. The record of a head has its declared members; the code also copies the others.

  The lemmas show that a refreshed head is one that consumers accept, for durations of at least one millisecond: it is
  issued strictly after its predecessor, and its window is non-empty and within the ceiling. For a shorter one the
  window is empty (\<open>submillisecond_refresh_refused\<close>).
\<close>

section \<open>Errors and effects\<close>

datatype serve_error =
    Failure exn
  | SourceWriterIntegrityError string
  | SourceAnnouncementConflictError string string

definition lifted :: "(exn, 'a) result \<Rightarrow> ('w, serve_error, 'a) async" where
  "lifted r s = ((case r of Inl e \<Rightarrow> Inl (Failure e) | Inr a \<Rightarrow> Inr a), s)"

definition DISCOVERY_SIGNING_SCOPE :: string where
  "DISCOVERY_SIGNING_SCOPE = ''jinn:discovery-announcements''"

record 'w dsse_signer =
  sg_scope :: string
  sg_sign :: "bytes \<Rightarrow> ('w, serve_error, (string option \<times> bytes) list) async"

section \<open>Base64 as the platform reads it\<close>

definition stripPadding :: "string \<Rightarrow> string" where
  "stripPadding s =
     (if length s mod 4 \<noteq> 0 then s
      else if 2 \<le> length s \<and> drop (length s - 2) s = ''=='' then take (length s - 2) s
      else if s \<noteq> [] \<and> last s = CHR ''='' then butlast s else s)"

definition decodeBase64 :: "string \<Rightarrow> (exn, bytes) result" where
  "decodeBase64 value =
     (let s = stripPadding (filter (\<lambda>c. (of_char c :: nat) \<notin> {9, 10, 12, 13, 32}) value)
      in if length s mod 4 = 1 \<or> \<not> list_all b64_is s then Inl ''InvalidCharacterError''
         else Inr (atob (s @ replicate ((4 - length s mod 4) mod 4) CHR ''='')))"

section \<open>Signing\<close>

definition wire_signatures :: "(string option \<times> bytes) list \<Rightarrow> envelope_signature list" where
  "wire_signatures signatures = map (\<lambda>(keyid, sig). \<lparr>es_keyid = keyid, es_sig = btoa sig\<rparr>) signatures"

definition signAnnouncementEntry :: "json \<Rightarrow> 'w dsse_signer \<Rightarrow> ('w, serve_error, dsse_envelope) async" where
  "signAnnouncementEntry entry signer =
     (if sg_scope signer \<noteq> DISCOVERY_SIGNING_SCOPE
      then throw (Failure ''announcement signer must be bound to DISCOVERY_SIGNING_SCOPE'')
      else andThen (lifted (sealBytes entry)) (\<lambda>bytes.
           andThen (sg_sign signer (dssePreAuthEncoding MEDIA_ENTRY bytes)) (\<lambda>signatures.
             ret \<lparr>de_payloadType = MEDIA_ENTRY, de_payload = btoa bytes, de_signatures = wire_signatures signatures\<rparr>)))"

definition signHead :: "source_head \<Rightarrow> 'w dsse_signer \<Rightarrow> ('w, serve_error, dsse_envelope) async" where
  "signHead head signer =
     andThen (lifted (sealBytes (head_object head))) (\<lambda>bytes.
     andThen (sg_sign signer (dssePreAuthEncoding MEDIA_HEAD bytes)) (\<lambda>signatures.
       ret \<lparr>de_payloadType = MEDIA_HEAD, de_payload = btoa bytes, de_signatures = wire_signatures signatures\<rparr>))"

section \<open>Refreshing\<close>

text \<open>
  \<open>new Date(ms).toISOString()\<close>: a time value is cut to whole milliseconds, towards zero, and \<open>toISOString\<close> throws outside the
  range of time values.
\<close>

definition js_trunc :: "rat \<Rightarrow> int" where
  "js_trunc x = (if 0 \<le> x then \<lfloor>x\<rfloor> else \<lceil>x\<rceil>)"

definition isoText :: "rat \<Rightarrow> (exn, string) result" where
  "isoText ms = (if \<bar>ms\<bar> \<le> 8640000000000000 then Inr (toISOString (js_trunc ms)) else Inl ''RangeError: Invalid time value'')"

definition refreshHead :: "source_head \<Rightarrow> int \<Rightarrow> rat option \<Rightarrow> (exn, source_head) result" where
  "refreshHead prev nowMs refreshWithinMs =
     (case parseHeadTimestamp (sh_issuedAt prev) of
        None \<Rightarrow> Inl (''refreshHead: previous head's issuedAt '' @ sh_issuedAt prev @ '' is not an offset-bearing RFC 3339 date-time.'')
      | Some prevIssuedAtMs \<Rightarrow>
          (let issuedAtMs = max nowMs (prevIssuedAtMs + 1);
               requestedAheadMs = (case refreshWithinMs of
                   Some r \<Rightarrow> if r > 0 then r else of_int MAX_REFRESH_BY_AHEAD_MS
                 | None \<Rightarrow> of_int MAX_REFRESH_BY_AHEAD_MS);
               boundedAheadMs = min requestedAheadMs (of_int MAX_REFRESH_BY_AHEAD_MS)
           in bind_result (isoText (of_int issuedAtMs)) (\<lambda>issuedAt.
              bind_result (isoText (of_int issuedAtMs + boundedAheadMs)) (\<lambda>refreshBy.
                Inr (prev\<lparr>sh_issuedAt := issuedAt, sh_refreshBy := refreshBy\<rparr>)))))"

definition headPath :: "string \<Rightarrow> string" where
  "headPath sourceName = ''/sources/'' @ sourceName @ ''/head''"

definition maintainHead ::
  "(string \<Rightarrow> bytes \<Rightarrow> string \<Rightarrow> ('w, serve_error, unit) async) \<Rightarrow> 'w dsse_signer option \<Rightarrow> ('w, serve_error, int) async
     \<Rightarrow> source \<Rightarrow> source_head \<Rightarrow> rat option \<Rightarrow> ('w, serve_error, source_head \<times> dsse_envelope option) async" where
  "maintainHead put signer clock source prevHead refreshWithinMs =
     (let expectedOrigin = formatOrigin (fst source) (snd source)
      in if sh_origin prevHead \<noteq> expectedOrigin
         then throw (Failure (''maintainHead: head origin '' @ sh_origin prevHead @ '' does not match the maintained source '' @ expectedOrigin))
         else andThen clock (\<lambda>now.
              andThen (lifted (refreshHead prevHead now refreshWithinMs)) (\<lambda>head.
              andThen (case signer of None \<Rightarrow> ret None | Some s \<Rightarrow> andThen (signHead head s) (\<lambda>e. ret (Some e))) (\<lambda>envelope.
              andThen (lifted (sealBytes (case envelope of None \<Rightarrow> head_object head | Some e \<Rightarrow> envelope_object e))) (\<lambda>body.
              andThen (put (headPath (snd source)) body MEDIA_HEAD) (\<lambda>_.
                ret (head, envelope)))))))"

definition refreshByWithinBound :: "string \<Rightarrow> string \<Rightarrow> int \<Rightarrow> bool" where
  "refreshByWithinBound issuedAt refreshBy maxAheadHours =
     refreshByWithinCeiling issuedAt refreshBy (Some (maxAheadHours * 60 * 60 * 1000))"

text \<open>\<open>value.key\<close>, which throws on \<open>null\<close> and \<open>undefined\<close>.\<close>

definition read_field :: "json \<Rightarrow> string \<Rightarrow> (exn, json) result" where
  "read_field v k = (if v = JNull \<or> v = JUndef then Inl ''TypeError'' else Inr (get_field v k))"

definition field_ms :: "json \<Rightarrow> string \<Rightarrow> (exn, int option) result" where
  "field_ms v k =
     bind_result (read_field v k) (\<lambda>f. Inr (case f of JStr s \<Rightarrow> parseHeadTimestamp s | _ \<Rightarrow> None))"

definition decodeHeadTimestamps :: "string \<Rightarrow> (exn, json) result" where
  "decodeHeadTimestamps payload =
     (case JSON_parse payload of
        Inr v \<Rightarrow> Inr v
      | Inl _ \<Rightarrow> bind_result (decodeBase64 payload) decodeJson)"

fun issuedAtIncreases :: "json list \<Rightarrow> (exn, bool) result" where
  "issuedAtIncreases (a # b # rest) =
     bind_result (field_ms b ''issuedAt'') (\<lambda>later. bind_result (field_ms a ''issuedAt'') (\<lambda>earlier.
       if \<not> ms_greater later earlier then Inr False else issuedAtIncreases (b # rest)))"
| "issuedAtIncreases _ = Inr True"

fun everyWindowOpen :: "json list \<Rightarrow> (exn, bool) result" where
  "everyWindowOpen [] = Inr True"
| "everyWindowOpen (h # rest) =
     bind_result (field_ms h ''refreshBy'') (\<lambda>refreshBy. bind_result (field_ms h ''issuedAt'') (\<lambda>issuedAt.
       if ms_greater refreshBy issuedAt then everyWindowOpen rest else Inr False))"

definition maintainsFreshness :: "string list \<Rightarrow> (exn, bool) result" where
  "maintainsFreshness payloads =
     bind_result (map_result decodeHeadTimestamps payloads) (\<lambda>heads.
     bind_result (issuedAtIncreases heads) (\<lambda>increases.
       if \<not> increases then Inr False else everyWindowOpen heads))"

section \<open>Base64 round trip\<close>

lemma b64_is_facts: "b64_is c \<Longrightarrow> c \<noteq> CHR ''='' \<and> (of_char c :: nat) \<notin> {9, 10, 12, 13, 32}"
proof -
  have "list_all (\<lambda>c. c \<noteq> CHR ''='' \<and> (of_char c :: nat) \<notin> {9, 10, 12, 13, 32}) b64_alphabet" by code_simp
  then show "b64_is c \<Longrightarrow> ?thesis" by (auto simp: b64_is_def list_all_iff)
qed

lemma b64_shapeI:
  "s = core @ replicate k CHR ''='' \<Longrightarrow> list_all b64_is core \<Longrightarrow> k \<le> 2 \<Longrightarrow> (length core + k) mod 4 = 0 \<Longrightarrow>
     \<exists>core k. s = core @ replicate k CHR ''='' \<and> list_all b64_is core \<and> k \<le> 2 \<and> (length core + k) mod 4 = 0"
  by (intro exI conjI)

lemma btoa_shape: "\<exists>core k. btoa bs = core @ replicate k CHR ''='' \<and> list_all b64_is core \<and> k \<le> 2 \<and> (length core + k) mod 4 = 0"
proof (induction bs rule: btoa.induct)
  case 1
  show ?case by (rule exI [of _ "[]"], rule exI [of _ 0]) simp
next
  case (2 a)
  have "btoa [a] = [b64_char (of_char a div 4), b64_char (of_char a mod 4 * 16)] @ replicate 2 CHR ''=''"
    by (simp add: numeral_2_eq_2 Let_def)
  moreover have "list_all b64_is [b64_char (of_char a div 4), b64_char (of_char a mod 4 * 16)]"
    by (simp add: byte_parts(1,5))
  ultimately show ?case by (rule b64_shapeI) simp_all
next
  case (3 a b)
  have "btoa [a, b] = [b64_char (of_char a div 4), b64_char (of_char a mod 4 * 16 + of_char b div 16),
      b64_char (of_char b mod 16 * 4)] @ replicate 1 CHR ''=''"
    by (simp add: Let_def)
  moreover have "list_all b64_is [b64_char (of_char a div 4), b64_char (of_char a mod 4 * 16 + of_char b div 16),
      b64_char (of_char b mod 16 * 4)]"
    by (simp add: byte_parts(1,2,6))
  ultimately show ?case by (rule b64_shapeI) simp_all
next
  case (4 a b c rest)
  let ?q = "[b64_char (of_char a div 4), b64_char (of_char a mod 4 * 16 + of_char b div 16),
          b64_char (of_char b mod 16 * 4 + of_char c div 64), b64_char (of_char c mod 64)]"
  obtain core k where core: "btoa rest = core @ replicate k CHR ''=''" "list_all b64_is core" "k \<le> 2" "(length core + k) mod 4 = 0"
    using 4 [OF refl refl refl] by (elim exE conjE)
  have "btoa (a # b # c # rest) = (?q @ core) @ replicate k CHR ''=''" by (simp add: Let_def core(1))
  moreover have "list_all b64_is (?q @ core)" using core(2) by (simp add: byte_parts(1-4))
  ultimately show ?case by (rule b64_shapeI) (use core(3,4) in simp_all)
qed

lemma stripPadding_core:
  assumes "list_all b64_is core" and "k \<le> 2" and "(length core + k) mod 4 = 0"
  shows "stripPadding (core @ replicate k CHR ''='') = core"
proof -
  have no_pad: "c \<noteq> CHR ''=''" if "c \<in> set core" for c using assms(1) that b64_is_facts by (auto simp: list_all_iff)
  consider "k = 0" | "k = 1" | "k = 2" using assms(2) by linarith
  then show ?thesis
  proof cases
    case 1
    have "drop (length core - 2) core \<noteq> ''==''" using no_pad by (metis in_set_dropD list.set_intros(1))
    moreover have "core \<noteq> [] \<Longrightarrow> last core \<noteq> CHR ''=''" using no_pad by simp
    ultimately show ?thesis using 1 by (auto simp: stripPadding_def)
  next
    case 2
    then have "core \<noteq> []" using assms(3) by auto
    then have "drop (length core - 1) core = [last core]" by (metis append_butlast_last_id append_eq_conv_conj length_butlast)
    then show ?thesis using 2 assms(3) no_pad \<open>core \<noteq> []\<close> by (auto simp: stripPadding_def)
  next
    case 3
    then show ?thesis using assms(3) by (simp add: stripPadding_def numeral_2_eq_2)
  qed
qed

lemma decodeBase64_btoa [simp]: "decodeBase64 (btoa bs) = Inr bs"
proof -
  obtain core k where b: "btoa bs = core @ replicate k CHR ''=''" "list_all b64_is core" "k \<le> 2" "(length core + k) mod 4 = 0"
    using btoa_shape [of bs] by (elim exE conjE)
  have plain: "filter (\<lambda>c. (of_char c :: nat) \<notin> {9, 10, 12, 13, 32}) (btoa bs) = core @ replicate k CHR ''=''"
  proof -
    have "filter (\<lambda>c. (of_char c :: nat) \<notin> {9, 10, 12, 13, 32}) core = core"
      using b(2) b64_is_facts by (auto simp: list_all_iff filter_id_conv)
    then show ?thesis by (simp add: b(1))
  qed
  consider "k = 0" | "k = 1" | "k = 2" using b(3) by linarith
  then have len: "length core mod 4 \<noteq> 1 \<and> (4 - length core mod 4) mod 4 = k"
  proof cases
  case 1
  then show ?thesis using b(4) by simp
  next
  case 2
  then have "Suc (length core) mod 4 = 0" using b(4) by simp
  then show ?thesis using 2 by (cases "length core mod 4 = 3") (auto simp: mod_Suc split: if_splits)
  next
  case 3
  then have "Suc (Suc (length core)) mod 4 = 0" using b(4) by simp
  then show ?thesis using 3 by (auto simp: mod_Suc split: if_splits)
  qed
  have bytes: "atob (core @ replicate k CHR ''='') = bs" using atob_btoa [of bs] by (simp only: b(1))
  show ?thesis
    unfolding decodeBase64_def plain stripPadding_core [OF b(2-4)] Let_def conjunct2 [OF len] bytes using len b(2) by simp
qed

section \<open>A refreshed head is acceptable\<close>

definition ahead_ms :: "rat option \<Rightarrow> rat" where
  "ahead_ms refreshWithinMs = min (case refreshWithinMs of
       Some r \<Rightarrow> if r > 0 then r else of_int MAX_REFRESH_BY_AHEAD_MS | None \<Rightarrow> of_int MAX_REFRESH_BY_AHEAD_MS) (of_int MAX_REFRESH_BY_AHEAD_MS)"

text \<open>The width of the window that is minted, and the durations that do not fall short of a millisecond.\<close>

definition window_ms :: "rat option \<Rightarrow> int" where
  "window_ms refreshWithinMs = \<lfloor>ahead_ms refreshWithinMs\<rfloor>"

definition usable :: "rat option \<Rightarrow> bool" where
  "usable refreshWithinMs = (case refreshWithinMs of None \<Rightarrow> True | Some r \<Rightarrow> r \<le> 0 \<or> 1 \<le> r)"

lemma ahead_ms_bounds: "0 < ahead_ms w" "ahead_ms w \<le> of_int MAX_REFRESH_BY_AHEAD_MS"
  by (auto simp: ahead_ms_def MAX_REFRESH_BY_AHEAD_MS_def split: option.splits)

lemma window_ms_bounds: "0 \<le> window_ms w" "window_ms w \<le> MAX_REFRESH_BY_AHEAD_MS" "usable w \<Longrightarrow> 0 < window_ms w"
proof -
  show "0 \<le> window_ms w" using ahead_ms_bounds(1) [of w] by (simp add: window_ms_def)
  show "window_ms w \<le> MAX_REFRESH_BY_AHEAD_MS" using floor_mono [OF ahead_ms_bounds(2) [of w]] by (simp add: window_ms_def)
  assume "usable w"
  then have "1 \<le> ahead_ms w" by (auto simp: usable_def ahead_ms_def MAX_REFRESH_BY_AHEAD_MS_def split: option.splits)
  then show "0 < window_ms w" by (simp add: window_ms_def)
qed

lemma refreshHead_value:
  assumes "parseHeadTimestamp (sh_issuedAt prev) = Some p" and "0 \<le> now"
    and "max now (p + 1) + MAX_REFRESH_BY_AHEAD_MS < 253402300800000"
  shows "refreshHead prev now w = Inr (prev\<lparr>sh_issuedAt := toISOString (max now (p + 1)),
      sh_refreshBy := toISOString (max now (p + 1) + window_ms w)\<rparr>)"
    and "parseHeadTimestamp (toISOString (max now (p + 1))) = Some (max now (p + 1))"
    and "parseHeadTimestamp (toISOString (max now (p + 1) + window_ms w)) = Some (max now (p + 1) + window_ms w)"
proof -
  let ?i = "max now (p + 1)"
  note w = window_ms_bounds(1,2) [of w] and a = ahead_ms_bounds [of w]
  have range: "0 \<le> ?i" "?i < 253402300800000" "0 \<le> ?i + window_ms w" "?i + window_ms w < 253402300800000"
    using assms(2,3) w unfolding MAX_REFRESH_BY_AHEAD_MS_def by linarith+
  then show "parseHeadTimestamp (toISOString ?i) = Some ?i" "parseHeadTimestamp (toISOString (?i + window_ms w)) = Some (?i + window_ms w)"
    by (intro parse_toISOString; simp)+
  have wide: "(0 :: rat) \<le> of_int ?i" "(of_int ?i :: rat) + ahead_ms w \<le> of_int (?i + MAX_REFRESH_BY_AHEAD_MS)"
    using range(1) a(2) by (simp_all only: of_int_0_le_iff of_int_add add_left_mono)
  have bound: "(of_int (?i + MAX_REFRESH_BY_AHEAD_MS) :: rat) \<le> 8640000000000000"
    using assms(3) of_int_le_iff [of "?i + MAX_REFRESH_BY_AHEAD_MS" 8640000000000000, where 'a = rat] by simp
  have "isoText (of_int j) = Inr (toISOString j)" "isoText (of_int j + ahead_ms w) = Inr (toISOString (j + window_ms w))"
    if "j = ?i" for j
  proof -
    have "\<bar>of_int j\<bar> \<le> (8640000000000000 :: rat)" "0 \<le> of_int j + ahead_ms w" "\<bar>of_int j + ahead_ms w\<bar> \<le> 8640000000000000"
      using wide bound a unfolding that [symmetric] by linarith+
    then show "isoText (of_int j) = Inr (toISOString j)" "isoText (of_int j + ahead_ms w) = Inr (toISOString (j + window_ms w))"
      using range(1) unfolding that [symmetric] by (simp_all add: isoText_def js_trunc_def window_ms_def)
  qed
  from this [OF refl]
  show "refreshHead prev now w = Inr (prev\<lparr>sh_issuedAt := toISOString ?i, sh_refreshBy := toISOString (?i + window_ms w)\<rparr>)"
    using assms(1) by (simp add: refreshHead_def Let_def flip: ahead_ms_def)
qed

text \<open>A head and its successive refreshes at the given clock readings.\<close>

fun refreshes :: "source_head \<Rightarrow> (int \<times> rat option) list \<Rightarrow> (exn, source_head list) result" where
  "refreshes h [] = Inr [h]"
| "refreshes h ((now, w) # rest) =
     bind_result (refreshHead h now w) (\<lambda>next. bind_result (refreshes next rest) (\<lambda>hs. Inr (h # hs)))"

definition signed_payload :: "source_head \<Rightarrow> string" where
  "signed_payload h = btoa (utf8_encode (serializeCanonicalJson (head_object h)))"

lemma btoa_hd: "btoa (b # bs) = b64_char (of_char b div 4) # tl (btoa (b # bs))"
  by (cases bs; cases "tl bs") (simp_all add: Let_def)

lemma decode_signed_payload: "decodeHeadTimestamps (signed_payload h) = Inr (norm_json (head_object h))"
proof -
  have "serializeCanonicalJson (head_object h) = CHR ''{'' # tl (serializeCanonicalJson (head_object h))"
    by (simp add: head_object_def)
  then obtain t where "serializeCanonicalJson (head_object h) = CHR ''{'' # t" ..
  then obtain bs where bs: "utf8_encode (serializeCanonicalJson (head_object h)) = CHR ''{'' # bs"
    by (simp add: utf8_encode_def utf8_char_def)
  have "b64_char (of_char CHR ''{'' div 4) = CHR ''e''" by code_simp
  then obtain r where "signed_payload h = CHR ''e'' # r" using btoa_hd [of "CHR ''{''" bs] by (simp add: signed_payload_def bs)
  then have "JSON_parse (signed_payload h) = Inl ''SyntaxError''"
    by (simp add: JSON_parse_def, subst parse_value.simps) (simp add: json_space_def parse_number_def take_int_def)
  moreover have "decodeJson (utf8_encode (serializeCanonicalJson (head_object h))) = Inr (norm_json (head_object h))"
    using head_object_ok by (intro decodeJson_sealed) (simp_all add: sealBytes_iff)
  ultimately show ?thesis by (simp add: decodeHeadTimestamps_def signed_payload_def)
qed

lemma field_ms_head:
  "field_ms (norm_json (head_object h)) ''issuedAt'' = Inr (parseHeadTimestamp (sh_issuedAt h))"
  "field_ms (norm_json (head_object h)) ''refreshBy'' = Inr (parseHeadTimestamp (sh_refreshBy h))"
  using head_object_ok(1) [of h]
  by (simp_all add: field_ms_def read_field_def norm_get_field norm_simps, simp_all add: head_object_def)

lemma refreshes_fresh:
  assumes "parseHeadTimestamp (sh_issuedAt h) = Some p" and "ms_greater (parseHeadTimestamp (sh_refreshBy h)) (Some p)"
    and "\<forall>(now, w) \<in> set steps. 0 \<le> now \<and> now \<le> b \<and> usable w" and "p \<le> b"
    and "b + int (length steps) + MAX_REFRESH_BY_AHEAD_MS < 253402300800000"
  shows "\<exists>rest. refreshes h steps = Inr (h # rest)
    \<and> issuedAtIncreases (map (\<lambda>h. norm_json (head_object h)) (h # rest)) = Inr True
    \<and> everyWindowOpen (map (\<lambda>h. norm_json (head_object h)) (h # rest)) = Inr True"
  using assms
proof (induction steps arbitrary: h p b)
  case Nil
  then show ?case by (auto simp: field_ms_head)
next
  case (Cons step steps)
  obtain now w where step: "step = (now, w)" by (cases step)
  let ?i = "max now (p + 1)"
  have now: "0 \<le> now" "now \<le> b" and w: "usable w" using Cons.prems(3) step by auto
  have range: "?i + MAX_REFRESH_BY_AHEAD_MS < 253402300800000" "?i \<le> b + 1" using now Cons.prems(4,5) by auto
  note refreshed = refreshHead_value(1) [OF Cons.prems(1) now(1) range(1), of w]
    refreshHead_value(2) [OF Cons.prems(1) now(1) range(1)] refreshHead_value(3) [OF Cons.prems(1) now(1) range(1), of w]
  let ?next = "h\<lparr>sh_issuedAt := toISOString ?i, sh_refreshBy := toISOString (?i + window_ms w)\<rparr>"
  have later: "ms_greater (Some ?i) (Some p)" by (simp add: ms_greater_def)
  have open_window: "ms_greater (parseHeadTimestamp (sh_refreshBy ?next)) (Some ?i)"
    using refreshed(3) window_ms_bounds(3) [OF w] by (simp add: ms_greater_def)
  have "\<exists>rest. refreshes ?next steps = Inr (?next # rest)
    \<and> issuedAtIncreases (map (\<lambda>h. norm_json (head_object h)) (?next # rest)) = Inr True
    \<and> everyWindowOpen (map (\<lambda>h. norm_json (head_object h)) (?next # rest)) = Inr True"
    by (rule Cons.IH [of _ ?i "b + 1"]) (use refreshed(2) open_window range(2) Cons.prems(3,5) in auto)
  then obtain rest where "refreshes ?next steps = Inr (?next # rest)"
    "issuedAtIncreases (map (\<lambda>h. norm_json (head_object h)) (?next # rest)) = Inr True"
    "everyWindowOpen (map (\<lambda>h. norm_json (head_object h)) (?next # rest)) = Inr True" by (elim exE conjE)
  then show ?case
    using refreshed(1,2) later Cons.prems(1,2) by (intro exI [of _ "?next # rest"]) (simp add: step field_ms_head)
qed

section \<open>Properties\<close>

text \<open>
  C18: A refreshed head is one consumers accept, for every requested duration of at least one millisecond and for
  those that fall back to the ceiling (negative, zero and infinite ones). From a head with a readable \<open>issuedAt\<close>
  and a clock between 1970 and the year 9999, \<open>refreshHead\<close> succeeds and keeps the source position; the new \<open>issuedAt\<close> is
  strictly later than the old one, whatever the clock says; and the new head passes \<open>checkRefreshWindow\<close> at every
  reading that is at most one ceiling behind the new \<open>issuedAt\<close>.
\<close>

theorem refreshed_head_accepted:
  assumes "parseHeadTimestamp (sh_issuedAt prev) = Some p" and "0 \<le> now"
    and "max now (p + 1) + MAX_REFRESH_BY_AHEAD_MS < 253402300800000" and "usable refreshWithinMs"
  shows "\<exists>h. refreshHead prev now refreshWithinMs = Inr h
    \<and> sh_origin h = sh_origin prev \<and> sh_sequence h = sh_sequence prev \<and> sh_entry h = sh_entry prev
    \<and> ms_greater (parseHeadTimestamp (sh_issuedAt h)) (parseHeadTimestamp (sh_issuedAt prev))
    \<and> refreshByWithinBound (sh_issuedAt h) (sh_refreshBy h) 24
    \<and> (\<forall>reading. max now (p + 1) - reading \<le> MAX_REFRESH_BY_AHEAD_MS \<longrightarrow>
         checkRefreshWindow h reading (Some MAX_REFRESH_BY_AHEAD_MS) = None)"
proof -
  note refreshed = refreshHead_value(1) [OF assms(1-3), of refreshWithinMs] refreshHead_value(2) [OF assms(1-3)]
    refreshHead_value(3) [OF assms(1-3), of refreshWithinMs]
  note ahead = window_ms_bounds(2) [of refreshWithinMs] window_ms_bounds(3) [OF assms(4)]
  let ?h = "prev\<lparr>sh_issuedAt := toISOString (max now (p + 1)),
      sh_refreshBy := toISOString (max now (p + 1) + window_ms refreshWithinMs)\<rparr>"
  have "refreshByWithinBound (sh_issuedAt ?h) (sh_refreshBy ?h) 24"
    using refreshed(2,3) ahead
    by (simp add: refreshByWithinBound_def refreshByWithinCeiling_def ms_within_iff MAX_REFRESH_BY_AHEAD_MS_def)
  moreover have "checkRefreshWindow ?h reading (Some MAX_REFRESH_BY_AHEAD_MS) = None"
    if "max now (p + 1) - reading \<le> MAX_REFRESH_BY_AHEAD_MS" for reading
    using refreshed(2,3) ahead that by (simp add: window_iff)
  moreover have "ms_greater (parseHeadTimestamp (sh_issuedAt ?h)) (parseHeadTimestamp (sh_issuedAt prev))"
    using refreshed(2) assms(1) by (simp add: ms_greater_def)
  ultimately show ?thesis using refreshed(1) by (intro exI [of _ ?h]) simp
qed

definition sample_head :: source_head where
  "sample_head = \<lparr>sh_protocol = RECORD_DISCOVERY_VERSION, sh_origin = ''did:key:zA/tasks'', sh_sequence = GENESIS_SEQUENCE,
     sh_entry = ''sha256:'' @ replicate 64 CHR ''a'', sh_issuedAt = ''2026-01-01T00:00:00Z'',
     sh_refreshBy = ''2026-01-02T00:00:00Z''\<rparr>"

lemma sample_head_times:
  "parseHeadTimestamp (sh_issuedAt sample_head) = Some 1767225600000"
  "parseHeadTimestamp (sh_refreshBy sample_head) = Some 1767312000000"
  by code_simp+

theorem refreshed_head_accepted_witness:
  "\<exists>h. refreshHead sample_head 1767225599000 (Some (- 5)) = Inr h
     \<and> checkRefreshWindow h 1767225599000 (Some MAX_REFRESH_BY_AHEAD_MS) = None"
  using refreshed_head_accepted [OF sample_head_times(1), of 1767225599000 "Some (- 5)"]
  by (auto simp: MAX_REFRESH_BY_AHEAD_MS_def usable_def)

text \<open>
  A positive duration below one millisecond is neither refused nor widened: the minted window is empty, and the head is
  one that every consumer refuses.
\<close>

theorem submillisecond_refresh_refused:
  "\<exists>h. refreshHead sample_head 1767225600500 (Some (1 / 2)) = Inr h \<and> sh_refreshBy h = sh_issuedAt h
     \<and> checkRefreshWindow h 1767225600500 (Some MAX_REFRESH_BY_AHEAD_MS) \<noteq> None"
proof -
  note refreshed = refreshHead_value(1,3) [OF sample_head_times(1), where now = 1767225600500 and w = "Some (1 / 2)"]
    refreshHead_value(2) [OF sample_head_times(1), where now = 1767225600500]
  have "window_ms (Some (1 / 2)) = 0" by (simp add: window_ms_def ahead_ms_def MAX_REFRESH_BY_AHEAD_MS_def min_def floor_eq_iff)
  then show ?thesis using refreshed by (simp add: MAX_REFRESH_BY_AHEAD_MS_def window_iff)
qed

text \<open>
  C19: A maintained source passes its own conformance check. However often a head is refreshed, at whatever
  clock readings between 1970 and the year 9999 and requested durations other than positive ones below one millisecond,
  the sequence of signed payloads satisfies
  \<open>maintainsFreshness\<close>: each decodes to the head that was signed, \<open>issuedAt\<close> strictly increases and every
  \<open>refreshBy\<close> lies after its \<open>issuedAt\<close>.
\<close>

theorem maintained_heads_stay_fresh:
  assumes "parseHeadTimestamp (sh_issuedAt h) = Some p" and "ms_greater (parseHeadTimestamp (sh_refreshBy h)) (Some p)"
    and "\<forall>(now, w) \<in> set steps. 0 \<le> now \<and> now \<le> b \<and> usable w" and "p \<le> b"
    and "b + int (length steps) + MAX_REFRESH_BY_AHEAD_MS < 253402300800000"
  shows "\<exists>hs. refreshes h steps = Inr hs \<and> length hs = Suc (length steps)
    \<and> maintainsFreshness (map signed_payload hs) = Inr True"
proof -
  obtain rest where rest: "refreshes h steps = Inr (h # rest)"
    "issuedAtIncreases (map (\<lambda>h. norm_json (head_object h)) (h # rest)) = Inr True"
    "everyWindowOpen (map (\<lambda>h. norm_json (head_object h)) (h # rest)) = Inr True"
    using refreshes_fresh [OF assms] by (elim exE conjE)
  have count: "refreshes g ss = Inr gs \<Longrightarrow> length gs = Suc (length ss)" for g ss gs
    by (induction ss arbitrary: g gs) (auto simp: bind_result_Inr_iff)
  have "map_result decodeHeadTimestamps (map signed_payload hs) = Inr (map (\<lambda>h. norm_json (head_object h)) hs)" for hs
    by (induction hs) (simp_all add: decode_signed_payload)
  then have "maintainsFreshness (map signed_payload (h # rest)) = Inr True"
    unfolding maintainsFreshness_def using rest(2,3) by (simp del: list.map issuedAtIncreases.simps everyWindowOpen.simps)
  then show ?thesis using rest(1) count by blast
qed

theorem maintained_heads_stay_fresh_witness:
  "\<exists>hs. refreshes sample_head [(1767225600500, None), (1767225600500, Some 1000), (0, Some (- 1))] = Inr hs
     \<and> length hs = 4 \<and> maintainsFreshness (map signed_payload hs) = Inr True"
  using maintained_heads_stay_fresh [OF sample_head_times(1), of
      "[(1767225600500, None), (1767225600500, Some 1000), (0, Some (- 1))]" 1767225600500]
  by (simp add: sample_head_times ms_greater_def MAX_REFRESH_BY_AHEAD_MS_def usable_def numeral_eq_Suc del: refreshes.simps)

end
