(* ===== verification/Source_Writer.thy ===== *)
theory Source_Writer
  imports Head_Maintenance
begin

text \<open>
  The durable source writer: discovery/serve/src/source-writer.ts. An append freezes the signed archive page
  and the signed head into an intent, claims the intent with a compare-and-swap, and commits it: page,
  head, state, and the intent's removal, in this order. Recovery commits whatever intent is pending.

  \<^item> The blob store, the state and intent stores, the signer, the clock and the fault injector are
    ports: operations of \<open>writer_options\<close> in the asynchronous state monad over any world \<open>'w\<close>. Every call may
    throw. A compare-and-swap returns the new revision, or \<open>None\<close> when it lost. SHA-256 is the
    field \<open>wo_sha256Hex\<close>.
  \<^item> Stored documents are read back as JSON values, the way the code casts them: \<open>read_field\<close> throws on
    \<open>null\<close> and \<open>undefined\<close>, and a condition of several disjuncts is evaluated from left to right
    (\<open>any_of\<close>), so an error in one disjunct escapes unless an earlier one already holds.
  \<^item> The announcements of a state are a plain object: a name of \<open>Object.prototype\<close> reads as an inherited
    member (\<open>Inherited\<close>), whose fields are \<open>undefined\<close>.
  \<^item> The retry loops are recursions on the attempts left.
  \<^item> \<open>refreshWithinMs\<close> is any rational number of milliseconds, so a duration below one millisecond reaches the
    truncation of \<open>Date\<close> (\<open>isoText\<close>) and the refusal of the empty window it mints. Error messages leave out the
    values that the code interpolates.
\<close>

section \<open>Durable documents\<close>

record stored_blob =
  sb_bytes :: bytes
  sb_contentType :: string

record source_position =
  po_sequence :: string
  po_entryDigest :: string
  po_page :: string

record record_receipt =
  rr_digest :: string
  rr_path :: string
  rr_contentType :: string

record source_receipt =
  rc_source :: source
  rc_announcementId :: string
  rc_fingerprint :: string
  rc_sequence :: string
  rc_entryDigest :: string
  rc_page :: string
  rc_record :: "record_receipt option"

record published_announcement =
  pb_action :: string
  pb_fingerprint :: string
  pb_receipt :: source_receipt

record source_state =
  st_version :: int
  st_source :: source
  st_signerKeyId :: string
  st_last :: "source_position option"
  st_announcements :: "(string \<times> published_announcement) list"

record frozen_blob =
  fb_path :: string
  fb_contentType :: string
  fb_digest :: string
  fb_bytesBase64 :: string

record append_intent =
  ai_version :: int
  ai_source :: source
  ai_signerKeyId :: string
  ai_announcementId :: string
  ai_fingerprint :: string
  ai_expectedStateRevision :: "string option"
  ai_previousStateDigest :: "string option"
  ai_previousPosition :: "source_position option"
  ai_expectedHeadDigest :: "string option"
  ai_previousHeadIssuedAt :: "string option"
  ai_record :: "record_receipt option"
  ai_page :: frozen_blob
  ai_head :: frozen_blob
  ai_nextState :: source_state
  ai_receipt :: source_receipt

record append_command =
  ac_announcement :: announcement
  ac_timestamp :: string
  ac_record :: "(bytes \<times> string option) option"

datatype fault_boundary =
    AfterRecordBeforeIntent
  | AfterIntentBeforePage
  | AfterPageBeforeHead
  | AfterHeadBeforeState
  | AfterStateBeforeIntentClear

datatype recovery_report = Idle | Recovered source_receipt

record 'w writer_options =
  wo_sha256Hex :: "bytes \<Rightarrow> string"
  wo_source :: source
  wo_keyId :: string
  wo_signer :: "'w dsse_signer"
  wo_verify :: "bytes \<Rightarrow> bytes \<Rightarrow> ('w, serve_error, bool) async"
  wo_get :: "string \<Rightarrow> ('w, serve_error, stored_blob option) async"
  wo_put :: "string \<Rightarrow> bytes \<Rightarrow> string \<Rightarrow> ('w, serve_error, unit) async"
  wo_putImmutable :: "string \<Rightarrow> bytes \<Rightarrow> string \<Rightarrow> ('w, serve_error, unit) async"
  wo_readState :: "string \<Rightarrow> ('w, serve_error, (string \<times> source_state) option) async"
  wo_casState :: "string \<Rightarrow> string option \<Rightarrow> source_state \<Rightarrow> ('w, serve_error, string option) async"
  wo_readIntent :: "string \<Rightarrow> ('w, serve_error, (string \<times> append_intent) option) async"
  wo_casIntent :: "string \<Rightarrow> string option \<Rightarrow> append_intent option \<Rightarrow> ('w, serve_error, string option) async"
  wo_fault :: "fault_boundary \<Rightarrow> ('w, serve_error, unit) async"
  wo_refreshWithinMs :: "rat option option"
  wo_now :: "('w, serve_error, int) async"

section \<open>The objects that are sealed\<close>

definition source_object :: "source \<Rightarrow> json" where
  "source_object s = JObj [(''agent'', JStr (fst s)), (''name'', JStr (snd s))]"

definition nullable :: "string option \<Rightarrow> json" where
  "nullable v = (case v of None \<Rightarrow> JNull | Some s \<Rightarrow> JStr s)"

definition position_object :: "source_position \<Rightarrow> json" where
  "position_object p =
     JObj [(''sequence'', JStr (po_sequence p)), (''entryDigest'', JStr (po_entryDigest p)), (''page'', JStr (po_page p))]"

definition record_object :: "record_receipt \<Rightarrow> json" where
  "record_object r =
     JObj [(''digest'', JStr (rr_digest r)), (''path'', JStr (rr_path r)), (''contentType'', JStr (rr_contentType r))]"

definition receipt_object :: "source_receipt \<Rightarrow> json" where
  "receipt_object r =
     JObj ([(''source'', source_object (rc_source r)), (''announcementId'', JStr (rc_announcementId r)),
            (''fingerprint'', JStr (rc_fingerprint r)), (''sequence'', JStr (rc_sequence r)),
            (''entryDigest'', JStr (rc_entryDigest r)), (''page'', JStr (rc_page r))]
       @ optional ''record'' (map_option record_object (rc_record r)))"

definition published_object :: "published_announcement \<Rightarrow> json" where
  "published_object p =
     JObj [(''action'', JStr (pb_action p)), (''fingerprint'', JStr (pb_fingerprint p)), (''receipt'', receipt_object (pb_receipt p))]"

definition state_object :: "source_state \<Rightarrow> json" where
  "state_object s =
     JObj [(''version'', JNum (dec_int (st_version s))), (''source'', source_object (st_source s)),
           (''signerKeyId'', JStr (st_signerKeyId s)),
           (''last'', case st_last s of None \<Rightarrow> JNull | Some p \<Rightarrow> position_object p),
           (''announcements'', JObj (map (map_prod id published_object) (st_announcements s)))]"

definition frozen_object :: "frozen_blob \<Rightarrow> json" where
  "frozen_object b =
     JObj [(''path'', JStr (fb_path b)), (''bytesBase64'', JStr (fb_bytesBase64 b)), (''contentType'', JStr (fb_contentType b)),
           (''digest'', JStr (fb_digest b))]"

definition intent_object :: "append_intent \<Rightarrow> json" where
  "intent_object i =
     JObj [(''version'', JNum (dec_int (ai_version i))), (''source'', source_object (ai_source i)),
           (''signerKeyId'', JStr (ai_signerKeyId i)), (''announcementId'', JStr (ai_announcementId i)),
           (''fingerprint'', JStr (ai_fingerprint i)), (''expectedStateRevision'', nullable (ai_expectedStateRevision i)),
           (''previousStateDigest'', nullable (ai_previousStateDigest i)),
           (''previousPosition'', case ai_previousPosition i of None \<Rightarrow> JNull | Some p \<Rightarrow> position_object p),
           (''expectedHeadDigest'', nullable (ai_expectedHeadDigest i)),
           (''previousHeadIssuedAt'', nullable (ai_previousHeadIssuedAt i)),
           (''record'', case ai_record i of None \<Rightarrow> JNull | Some r \<Rightarrow> record_object r),
           (''page'', frozen_object (ai_page i)), (''head'', frozen_object (ai_head i)),
           (''nextState'', state_object (ai_nextState i)), (''receipt'', receipt_object (ai_receipt i))]"

definition page_object :: "string \<Rightarrow> string \<Rightarrow> string option \<Rightarrow> json \<Rightarrow> dsse_envelope \<Rightarrow> json" where
  "page_object sourceName page prevArchive entry signature =
     JObj [(''protocol'', JStr RECORD_DISCOVERY_VERSION), (''source'', JStr sourceName), (''page'', JStr page),
           (''prevArchive'', nullable prevArchive),
           (''entries'', JArr [JObj [(''entry'', entry), (''signature'', envelope_object signature)]])]"

section \<open>Reading documents back\<close>

text \<open>\<open>String(v)\<close>, as \<open>atob\<close> converts its argument.\<close>

fun js_string :: "json \<Rightarrow> string" where
  "js_string JUndef = ''undefined''"
| "js_string JNull = ''null''"
| "js_string (JBool b) = (if b then ''true'' else ''false'')"
| "js_string (JNum t) = t"
| "js_string (JStr s) = s"
| "js_string (JArr xs) = joinWith '','' (map (\<lambda>x. if x = JNull \<or> x = JUndef then [] else js_string x) xs)"
| "js_string (JObj _) = ''[object Object]''"

text \<open>\<open>v[i]\<close>, \<open>v.length\<close> and the elements of \<open>for (... of v)\<close>.\<close>

definition read_index :: "json \<Rightarrow> nat \<Rightarrow> (exn, json) result" where
  "read_index v i =
     (case v of
        JUndef \<Rightarrow> Inl ''TypeError''
      | JNull \<Rightarrow> Inl ''TypeError''
      | JArr xs \<Rightarrow> Inr (if i < length xs then xs ! i else JUndef)
      | JStr s \<Rightarrow> Inr (if i < length s then JStr [s ! i] else JUndef)
      | _ \<Rightarrow> Inr (get_field v (dec i)))"

definition read_length :: "json \<Rightarrow> (exn, json) result" where
  "read_length v =
     (case v of
        JUndef \<Rightarrow> Inl ''TypeError''
      | JNull \<Rightarrow> Inl ''TypeError''
      | JArr xs \<Rightarrow> Inr (JNum (dec (length xs)))
      | JStr s \<Rightarrow> Inr (JNum (dec (length s)))
      | _ \<Rightarrow> Inr (get_field v ''length''))"

definition elements_of :: "json \<Rightarrow> (exn, json list) result" where
  "elements_of v =
     (case v of
        JArr xs \<Rightarrow> Inr xs
      | JStr s \<Rightarrow> Inr (map (\<lambda>c. JStr [c]) s)
      | _ \<Rightarrow> Inl ''TypeError'')"

fun any_of :: "(exn, bool) result list \<Rightarrow> (exn, bool) result" where
  "any_of [] = Inr False"
| "any_of (c # rest) = bind_result c (\<lambda>b. if b then Inr True else any_of rest)"

definition differs :: "(exn, json) result \<Rightarrow> json \<Rightarrow> (exn, bool) result" where
  "differs r expected = bind_result r (\<lambda>v. Inr (v \<noteq> expected))"

definition read_path :: "json \<Rightarrow> string list \<Rightarrow> (exn, json) result" where
  "read_path v ks = foldl (\<lambda>r k. bind_result r (\<lambda>u. read_field u k)) (Inr v) ks"

datatype 'a member = Absent | Own 'a | Inherited

definition OBJECT_PROTOTYPE :: "string list" where
  "OBJECT_PROTOTYPE =
     [''constructor'', ''__defineGetter__'', ''__defineSetter__'', ''hasOwnProperty'', ''__lookupGetter__'', ''__lookupSetter__'',
      ''isPrototypeOf'', ''propertyIsEnumerable'', ''toString'', ''valueOf'', ''__proto__'', ''toLocaleString'']"

definition object_member :: "(string \<times> 'a) list \<Rightarrow> string \<Rightarrow> 'a member" where
  "object_member kvs k =
     (case map_of kvs k of
        Some v \<Rightarrow> Own v
      | None \<Rightarrow> if k \<in> set OBJECT_PROTOTYPE then Inherited else Absent)"

section \<open>Paths and ceilings\<close>

definition recordPath :: "string \<Rightarrow> string" where
  "recordPath digest = ''/records/'' @ drop (length ''sha256:'') digest"

definition archivePagePath :: "string \<Rightarrow> string \<Rightarrow> string" where
  "archivePagePath sourceName page = ''/sources/'' @ sourceName @ ''/entries/'' @ page"

definition archivePageBytes :: nat where
  "archivePageBytes = 4 * 2 ^ 20"

definition ARCHIVE_PAGE_CONTENT_TYPE :: string where
  "ARCHIVE_PAGE_CONTENT_TYPE = ''application/json''"

definition DEFAULT_RECORD_CONTENT_TYPE :: string where
  "DEFAULT_RECORD_CONTENT_TYPE = ''application/octet-stream''"

definition MAX_CAS_ATTEMPTS :: nat where
  "MAX_CAS_ATTEMPTS = 32"

section \<open>Checks\<close>

definition refuse :: "bool \<Rightarrow> string \<Rightarrow> ('w, serve_error, unit) async" where
  "refuse b message = (if b then throw (SourceWriterIntegrityError message) else ret ())"

definition refuse_if :: "(exn, bool) result \<Rightarrow> string \<Rightarrow> ('w, serve_error, unit) async" where
  "refuse_if r message = andThen (lifted r) (\<lambda>b. refuse b message)"

definition digest_of :: "'w writer_options \<Rightarrow> bytes \<Rightarrow> string" where
  "digest_of opts bytes = recordDigest (wo_sha256Hex opts) bytes"

definition seal_digest :: "'w writer_options \<Rightarrow> json \<Rightarrow> (exn, string) result" where
  "seal_digest opts v = bind_result (sealBytes v) (\<lambda>bytes. Inr (digest_of opts bytes))"

definition stateDigest :: "'w writer_options \<Rightarrow> source_state \<Rightarrow> (exn, string) result" where
  "stateDigest opts state = seal_digest opts (state_object state)"

definition freezeJson :: "json \<Rightarrow> (exn, json) result" where
  "freezeJson v = bind_result (sealBytes v) decodeJson"

fun checkSignatures :: "'w writer_options \<Rightarrow> string \<Rightarrow> bytes \<Rightarrow> json list \<Rightarrow> ('w, serve_error, unit) async" where
  "checkSignatures opts label pae [] = ret ()"
| "checkSignatures opts label pae (signature # rest) =
     andThen (refuse_if (differs (read_field signature ''keyid'') (JStr (wo_keyId opts)))
       (label @ '' signature keyid does not match source signer'')) (\<lambda>_.
     andThen (lifted (bind_result (read_field signature ''sig'') (\<lambda>sig. decodeBase64 (js_string sig)))) (\<lambda>sig.
     andThen (wo_verify opts pae sig) (\<lambda>valid.
     andThen (refuse (\<not> valid) (label @ '' signature is not valid for the owned source key'')) (\<lambda>_.
       checkSignatures opts label pae rest))))"

definition assertSignerEnvelope ::
  "'w writer_options \<Rightarrow> json \<Rightarrow> string \<Rightarrow> string \<Rightarrow> bytes \<Rightarrow> ('w, serve_error, unit) async" where
  "assertSignerEnvelope opts envelope label payloadType expectedPayload =
     andThen (refuse_if (any_of [
         differs (read_field envelope ''payloadType'') (JStr payloadType),
         bind_result (read_field envelope ''payload'') (\<lambda>p.
           bind_result (decodeBase64 (js_string p)) (\<lambda>bytes. Inr (bytes \<noteq> expectedPayload)))])
       (label @ '' envelope does not carry the exact expected payload bytes'')) (\<lambda>_.
     andThen (lifted (bind_result (read_field envelope ''signatures'') elements_of)) (\<lambda>signatures.
     andThen (refuse (signatures = []) (label @ '' signer returned no signatures'')) (\<lambda>_.
       checkSignatures opts label (dssePreAuthEncoding payloadType expectedPayload) signatures)))"

definition assertStoredBlob :: "stored_blob option \<Rightarrow> bytes \<Rightarrow> string \<Rightarrow> string \<Rightarrow> ('w, serve_error, unit) async" where
  "assertStoredBlob stored expectedBytes expectedContentType label =
     (case stored of
        None \<Rightarrow> throw (SourceWriterIntegrityError (label @ '' was not readable after write''))
      | Some blob \<Rightarrow>
          refuse (sb_contentType blob \<noteq> expectedContentType \<or> sb_bytes blob \<noteq> expectedBytes)
            (label @ '' readback did not match the exact bytes and content type written''))"

definition putImmutableExact ::
  "'w writer_options \<Rightarrow> string \<Rightarrow> bytes \<Rightarrow> string \<Rightarrow> string \<Rightarrow> ('w, serve_error, unit) async" where
  "putImmutableExact opts path bytes contentType label =
     andThen (wo_putImmutable opts path bytes contentType) (\<lambda>_.
     andThen (wo_get opts path) (\<lambda>stored. assertStoredBlob stored bytes contentType label))"

definition parseHeadEnvelope :: "bytes \<Rightarrow> ('w, serve_error, json \<times> json \<times> bytes) async" where
  "parseHeadEnvelope bytes =
     andThen (lifted (decodeJson bytes)) (\<lambda>envelope.
     andThen (refuse_if (differs (read_field envelope ''payloadType'') (JStr MEDIA_HEAD))
       ''source head envelope payloadType must be application/vnd.jinn.record-discovery.head.v1+json'') (\<lambda>_.
     andThen (lifted (decodeBase64 (js_string (get_field envelope ''payload'')))) (\<lambda>headBytes.
     andThen (lifted (bind_result (decodeJson headBytes) parseSourceHead)) (\<lambda>head.
     andThen (lifted (sealBytes head)) (\<lambda>sealed.
     andThen (refuse (sealed \<noteq> headBytes) ''source head payload is not the exact sealed Source Head bytes'') (\<lambda>_.
       ret (envelope, head, headBytes)))))))"

abbreviation field_text_of :: "json \<Rightarrow> string \<Rightarrow> string" where
  "field_text_of v k \<equiv> text_of (get_field v k)"

definition assertHeadMatchesState ::
  "'w writer_options \<Rightarrow> stored_blob option \<Rightarrow> source_state \<Rightarrow> ('w, serve_error, (string \<times> string) option) async" where
  "assertHeadMatchesState opts stored state =
     (case st_last state of
        None \<Rightarrow>
          andThen (refuse (stored \<noteq> None) ''source has no committed state position but a head already exists'') (\<lambda>_. ret None)
      | Some pos \<Rightarrow>
          (case stored of
             None \<Rightarrow> throw (SourceWriterIntegrityError ''committed source state has no readable head'')
           | Some blob \<Rightarrow>
               andThen (refuse (sb_contentType blob \<noteq> MEDIA_HEAD) ''source head content type must be the head media type'') (\<lambda>_.
               andThen (parseHeadEnvelope (sb_bytes blob)) (\<lambda>(envelope, head, headBytes).
               andThen (assertSignerEnvelope opts envelope ''existing head'' MEDIA_HEAD headBytes) (\<lambda>_.
               andThen (refuse (field_text_of head ''origin'' \<noteq> formatOrigin (fst (wo_source opts)) (snd (wo_source opts))
                   \<or> field_text_of head ''sequence'' \<noteq> po_sequence pos \<or> field_text_of head ''entry'' \<noteq> po_entryDigest pos)
                 ''source head does not match the committed source position'') (\<lambda>_.
                 ret (Some (digest_of opts (sb_bytes blob), field_text_of head ''issuedAt''))))))))"

definition assertStateOwnership :: "'w writer_options \<Rightarrow> source_state \<Rightarrow> ('w, serve_error, unit) async" where
  "assertStateOwnership opts state =
     andThen (refuse (st_version state \<noteq> 1 \<or> st_source state \<noteq> wo_source opts)
       ''durable source state belongs to a different source identity'') (\<lambda>_.
       refuse (st_signerKeyId state \<noteq> wo_keyId opts) ''durable source state belongs to a different signer key'')"

definition frozenBlob :: "'w writer_options \<Rightarrow> string \<Rightarrow> bytes \<Rightarrow> string \<Rightarrow> frozen_blob" where
  "frozenBlob opts path bytes contentType =
     \<lparr>fb_path = path, fb_contentType = contentType, fb_digest = digest_of opts bytes, fb_bytesBase64 = btoa bytes\<rparr>"

definition thawFrozenBlob :: "'w writer_options \<Rightarrow> frozen_blob \<Rightarrow> string \<Rightarrow> ('w, serve_error, bytes) async" where
  "thawFrozenBlob opts blob label =
     andThen (lifted (decodeBase64 (fb_bytesBase64 blob))) (\<lambda>bytes.
     andThen (refuse (digest_of opts bytes \<noteq> fb_digest blob) (label @ '' frozen bytes do not match their digest'')) (\<lambda>_.
       ret bytes))"

definition pageAnnouncementAction :: "'w writer_options \<Rightarrow> append_intent \<Rightarrow> ('w, serve_error, json) async" where
  "pageAnnouncementAction opts intent =
     andThen (thawFrozenBlob opts (ai_page intent) ''archive page'') (\<lambda>bytes.
     andThen (lifted (bind_result (decodeJson bytes) (\<lambda>page.
       bind_result (read_field page ''entries'') (\<lambda>entries.
       bind_result (read_index entries 0) (\<lambda>first.
         if first = JUndef \<or> first = JNull then Inr JUndef
         else bind_result (read_path first [''entry'', ''announcements'']) (\<lambda>announcements. read_index announcements 0)))))) (\<lambda>announcement.
     andThen (refuse (announcement = JUndef) ''frozen archive page contains no announcement'') (\<lambda>_.
       lifted (read_field announcement ''action''))))"

definition MAX_AHEAD :: "int option" where
  "MAX_AHEAD = Some MAX_REFRESH_BY_AHEAD_MS"

section \<open>Ownership of an intent\<close>

definition publishedMatches :: "'w writer_options \<Rightarrow> append_intent \<Rightarrow> ('w, serve_error, bool) async" where
  "publishedMatches opts intent =
     (case object_member (st_announcements (ai_nextState intent)) (ai_announcementId intent) of
        Absent \<Rightarrow> ret False
      | Inherited \<Rightarrow> andThen (pageAnnouncementAction opts intent) (\<lambda>_. ret False)
      | Own published \<Rightarrow>
          andThen (pageAnnouncementAction opts intent) (\<lambda>action.
            if JStr (pb_action published) \<noteq> action \<or> pb_fingerprint published \<noteq> ai_fingerprint intent then ret False
            else andThen (lifted (seal_digest opts (receipt_object (pb_receipt published)))) (\<lambda>left.
                 andThen (lifted (seal_digest opts (receipt_object (ai_receipt intent)))) (\<lambda>right. ret (left = right)))))"

definition assertIntentIdentity :: "'w writer_options \<Rightarrow> append_intent \<Rightarrow> ('w, serve_error, unit) async" where
  "assertIntentIdentity opts intent =
     andThen (refuse (ai_version intent \<noteq> 1 \<or> ai_source intent \<noteq> wo_source opts)
       ''durable append intent belongs to a different source identity'') (\<lambda>_.
     andThen (refuse (ai_signerKeyId intent \<noteq> wo_keyId opts) ''durable append intent belongs to a different signer key'') (\<lambda>_.
     andThen (refuse (rc_announcementId (ai_receipt intent) \<noteq> ai_announcementId intent
         \<or> rc_fingerprint (ai_receipt intent) \<noteq> ai_fingerprint intent \<or> rc_source (ai_receipt intent) \<noteq> wo_source opts)
       ''durable append intent receipt does not match its operation identity'') (\<lambda>_.
     andThen (refuse ((ai_previousPosition intent = None) \<noteq> (ai_previousHeadIssuedAt intent = None))
       ''durable append intent previous position/head timestamp disagree'') (\<lambda>_.
     andThen (assertStateOwnership opts (ai_nextState intent)) (\<lambda>_.
     andThen (publishedMatches opts intent) (\<lambda>matches.
     andThen (refuse (\<not> matches) ''durable append intent next state does not contain its exact receipt'') (\<lambda>_.
       refuse (case st_last (ai_nextState intent) of
           None \<Rightarrow> True
         | Some pos \<Rightarrow> po_sequence pos \<noteq> rc_sequence (ai_receipt intent)
             \<or> po_entryDigest pos \<noteq> rc_entryDigest (ai_receipt intent) \<or> po_page pos \<noteq> rc_page (ai_receipt intent))
         ''durable append intent next position does not match its receipt'')))))))"

definition fingerprint_object :: "source \<Rightarrow> json \<Rightarrow> json \<Rightarrow> string option \<Rightarrow> json" where
  "fingerprint_object source timestamp announcement recordContentType =
     JObj [(''source'', source_object source), (''timestamp'', timestamp), (''announcement'', announcement),
           (''recordContentType'', nullable recordContentType)]"

definition expectedSequenceOf :: "source_position option \<Rightarrow> (exn, string) result" where
  "expectedSequenceOf previous = (case previous of None \<Rightarrow> Inr GENESIS_SEQUENCE | Some p \<Rightarrow> nextSequence (po_sequence p))"

text \<open>The frozen page: it returns the entry it carries.\<close>

definition assertIntentPage :: "'w writer_options \<Rightarrow> append_intent \<Rightarrow> ('w, serve_error, json) async" where
  "assertIntentPage opts intent =
     (let receipt = ai_receipt intent; source = wo_source opts; page_position = ai_previousPosition intent
      in andThen (thawFrozenBlob opts (ai_page intent) ''archive page'') (\<lambda>pageBytes.
         andThen (lifted (decodeJson pageBytes)) (\<lambda>page.
         andThen (refuse (length pageBytes > archivePageBytes) ''frozen archive page exceeds the published-source byte ceiling'') (\<lambda>_.
         andThen (lifted (sealBytes page)) (\<lambda>sealed.
         andThen (refuse (sealed \<noteq> pageBytes) ''frozen archive page is not exact sealed I-JSON'') (\<lambda>_.
         andThen (refuse_if (any_of [
             Inr (fb_path (ai_page intent) \<noteq> archivePagePath (snd source) (rc_page receipt)),
             Inr (fb_contentType (ai_page intent) \<noteq> ARCHIVE_PAGE_CONTENT_TYPE),
             differs (read_field page ''protocol'') (JStr RECORD_DISCOVERY_VERSION),
             differs (read_field page ''source'') (JStr (snd source)),
             differs (read_field page ''page'') (JStr (rc_page receipt)),
             differs (read_field page ''page'') (JStr (rc_sequence receipt)),
             differs (read_field page ''prevArchive'') (nullable (map_option po_page page_position)),
             differs (bind_result (read_field page ''entries'') read_length) (JNum ''1'')])
           ''frozen archive page does not match the intended source position'') (\<lambda>_.
         andThen (lifted (bind_result (read_field page ''entries'') (\<lambda>entries. read_index entries 0))) (\<lambda>signedEntry.
         andThen (lifted (read_field signedEntry ''entry'')) (\<lambda>entry.
         andThen (lifted (sealBytes entry)) (\<lambda>entryBytes.
         andThen (refuse (length entryBytes > entrySealedBytes) ''frozen announcement entry exceeds the published-source byte ceiling'') (\<lambda>_.
         andThen (lifted (expectedSequenceOf page_position)) (\<lambda>expectedSequence.
         andThen (refuse_if (any_of [
             Inr (digest_of opts entryBytes \<noteq> rc_entryDigest receipt),
             differs (read_path entry [''source'', ''agent'']) (JStr (fst source)),
             differs (read_path entry [''source'', ''name'']) (JStr (snd source)),
             differs (read_field entry ''sequence'') (JStr (rc_sequence receipt)),
             differs (read_field entry ''sequence'') (JStr expectedSequence),
             differs (read_field entry ''previous'') (nullable (map_option po_entryDigest page_position)),
             differs (bind_result (read_field entry ''announcements'') read_length) (JNum ''1''),
             differs (bind_result (read_field entry ''announcements'') (\<lambda>as.
               bind_result (read_index as 0) (\<lambda>a. read_field a ''announcementId''))) (JStr (ai_announcementId intent)),
             Inr (get_field (get_field signedEntry ''signature'') ''payloadType'' \<noteq> JStr MEDIA_ENTRY),
             bind_result (read_path signedEntry [''signature'', ''payload'']) (\<lambda>p.
               bind_result (decodeBase64 (js_string p)) (\<lambda>bytes. Inr (bytes \<noteq> entryBytes)))])
           ''frozen archive page entry does not match the intended announcement'') (\<lambda>_.
         andThen (assertSignerEnvelope opts (get_field signedEntry ''signature'') ''announcement entry'' MEDIA_ENTRY entryBytes) (\<lambda>_.
           ret entry))))))))))))))"

definition assertIntentAnnouncement :: "'w writer_options \<Rightarrow> append_intent \<Rightarrow> json \<Rightarrow> ('w, serve_error, unit) async" where
  "assertIntentAnnouncement opts intent entry =
     andThen (lifted (bind_result (read_field entry ''announcements'') (\<lambda>as. read_index as 0))) (\<lambda>announcement.
     andThen (lifted (seal_digest opts (fingerprint_object (wo_source opts) (get_field entry ''timestamp'') announcement
         (map_option rr_contentType (ai_record intent))))) (\<lambda>expectedFingerprint.
     andThen (refuse (expectedFingerprint \<noteq> ai_fingerprint intent)
       ''append intent fingerprint does not match its exact announcement input'') (\<lambda>_.
       if get_field announcement ''action'' = JStr ''available''
       then refuse_if (case ai_record intent of
               None \<Rightarrow> Inr True
             | Some r \<Rightarrow> any_of [
                 differs (read_path announcement [''record'', ''digest'']) (JStr (rr_digest r)),
                 differs (read_path announcement [''record'', ''digest''])
                   (case rc_record (ai_receipt intent) of None \<Rightarrow> JUndef | Some q \<Rightarrow> JStr (rr_digest q))])
              ''available intent does not bind its exact record digest''
       else refuse (ai_record intent \<noteq> None \<or> rc_record (ai_receipt intent) \<noteq> None)
              ''withdrawn intent unexpectedly carries record material'')))"

definition assertIntentHead :: "'w writer_options \<Rightarrow> append_intent \<Rightarrow> json \<Rightarrow> ('w, serve_error, unit) async" where
  "assertIntentHead opts intent entry =
     (let receipt = ai_receipt intent; source = wo_source opts
      in andThen (thawFrozenBlob opts (ai_head intent) ''source head'') (\<lambda>headBytes.
         andThen (refuse (fb_path (ai_head intent) \<noteq> headPath (snd source) \<or> fb_contentType (ai_head intent) \<noteq> MEDIA_HEAD)
           ''frozen source head path does not match the source identity'') (\<lambda>_.
         andThen (parseHeadEnvelope headBytes) (\<lambda>(envelope, head, exactHeadPayload).
         andThen (assertSignerEnvelope opts envelope ''source head'' MEDIA_HEAD exactHeadPayload) (\<lambda>_.
           refuse (field_text_of head ''origin'' \<noteq> formatOrigin (fst source) (snd source)
               \<or> field_text_of head ''sequence'' \<noteq> rc_sequence receipt \<or> field_text_of head ''entry'' \<noteq> rc_entryDigest receipt
               \<or> get_field head ''issuedAt'' \<noteq> get_field entry ''timestamp''
               \<or> (case ai_previousHeadIssuedAt intent of
                    None \<Rightarrow> False
                  | Some previous \<Rightarrow>
                      \<not> ms_greater (parseHeadTimestamp (field_text_of head ''issuedAt'')) (parseHeadTimestamp previous))
               \<or> \<not> ms_greater (parseHeadTimestamp (field_text_of head ''refreshBy'')) (parseHeadTimestamp (field_text_of head ''issuedAt''))
               \<or> \<not> refreshByWithinCeiling (field_text_of head ''issuedAt'') (field_text_of head ''refreshBy'') MAX_AHEAD)
             ''frozen source head does not match the intended source position'')))))"

definition assertIntentOwnership :: "'w writer_options \<Rightarrow> append_intent \<Rightarrow> ('w, serve_error, unit) async" where
  "assertIntentOwnership opts intent =
     andThen (assertIntentIdentity opts intent) (\<lambda>_.
     andThen (assertIntentPage opts intent) (\<lambda>entry.
     andThen (assertIntentAnnouncement opts intent entry) (\<lambda>_.
       assertIntentHead opts intent entry)))"

definition exactCommittedState :: "'w writer_options \<Rightarrow> source_state \<Rightarrow> append_intent \<Rightarrow> (exn, bool) result" where
  "exactCommittedState opts state intent =
     bind_result (stateDigest opts state) (\<lambda>left. bind_result (stateDigest opts (ai_nextState intent)) (\<lambda>right. Inr (left = right)))"

definition makeInitialState :: "source \<Rightarrow> string \<Rightarrow> source_state" where
  "makeInitialState source keyId =
     \<lparr>st_version = 1, st_source = source, st_signerKeyId = keyId, st_last = None, st_announcements = []\<rparr>"

section \<open>Committing\<close>

definition createDurableSourceWriter :: "'w writer_options \<Rightarrow> (serve_error, rat) result" where
  "createDurableSourceWriter opts =
     (let requested = (case wo_refreshWithinMs opts of None \<Rightarrow> Some (of_int MAX_REFRESH_BY_AHEAD_MS) | Some r \<Rightarrow> r)
      in case requested of
           None \<Rightarrow> Inl (SourceWriterIntegrityError ''refreshWithinMs must be a positive finite duration'')
         | Some r \<Rightarrow>
             if r \<le> 0 then Inl (SourceWriterIntegrityError ''refreshWithinMs must be a positive finite duration'')
             else if wo_keyId opts = [] then Inl (SourceWriterIntegrityError ''durable source signer keyId must not be empty'')
             else if sg_scope (wo_signer opts) \<noteq> DISCOVERY_SIGNING_SCOPE
             then Inl (SourceWriterIntegrityError ''durable source signer must be bound to jinn:discovery-announcements'')
             else Inr (min r (of_int MAX_REFRESH_BY_AHEAD_MS)))"

abbreviation sourceId :: "'w writer_options \<Rightarrow> string" where
  "sourceId opts \<equiv> formatOrigin (fst (wo_source opts)) (snd (wo_source opts))"

definition loadState :: "'w writer_options \<Rightarrow> ('w, serve_error, string option \<times> source_state) async" where
  "loadState opts =
     andThen (wo_readState opts (sourceId opts)) (\<lambda>stored.
       case stored of
         None \<Rightarrow> ret (None, makeInitialState (wo_source opts) (wo_keyId opts))
       | Some (revision, state) \<Rightarrow> andThen (assertStateOwnership opts state) (\<lambda>_. ret (Some revision, state)))"

text \<open>The check and the write of the head are two steps: another process may act between them.\<close>

definition checkHeadUnchanged :: "'w writer_options \<Rightarrow> append_intent \<Rightarrow> ('w, serve_error, bytes) async" where
  "checkHeadUnchanged opts intent =
     andThen (thawFrozenBlob opts (ai_head intent) ''source head'') (\<lambda>bytes.
     andThen (wo_get opts (fb_path (ai_head intent))) (\<lambda>current.
     andThen (refuse (map_option (\<lambda>b. digest_of opts (sb_bytes b)) current \<noteq> ai_expectedHeadDigest intent
         \<and> map_option (\<lambda>b. digest_of opts (sb_bytes b)) current \<noteq> Some (fb_digest (ai_head intent)))
       ''source head changed after the append intent was claimed'') (\<lambda>_.
     andThen (refuse (case current of None \<Rightarrow> False | Some b \<Rightarrow> sb_contentType b \<noteq> MEDIA_HEAD)
       ''source head content type must be the head media type'') (\<lambda>_.
       ret bytes))))"

definition writeHeadFromIntent :: "'w writer_options \<Rightarrow> append_intent \<Rightarrow> ('w, serve_error, unit) async" where
  "writeHeadFromIntent opts intent =
     andThen (checkHeadUnchanged opts intent) (\<lambda>bytes.
     andThen (wo_put opts (fb_path (ai_head intent)) bytes (fb_contentType (ai_head intent))) (\<lambda>_.
     andThen (wo_get opts (fb_path (ai_head intent))) (\<lambda>stored.
       assertStoredBlob stored bytes (fb_contentType (ai_head intent)) ''source head'')))"

definition verifyIntentRecord :: "'w writer_options \<Rightarrow> append_intent \<Rightarrow> ('w, serve_error, unit) async" where
  "verifyIntentRecord opts intent =
     (case ai_record intent of
        None \<Rightarrow> ret ()
      | Some r \<Rightarrow>
          andThen (wo_get opts (rr_path r)) (\<lambda>stored.
            refuse (case stored of
                None \<Rightarrow> True
              | Some b \<Rightarrow> sb_contentType b \<noteq> rr_contentType r \<or> digest_of opts (sb_bytes b) \<noteq> rr_digest r
                  \<or> rr_path r \<noteq> recordPath (rr_digest r))
              ''append intent record is missing or does not match its exact digest path''))"

definition commitState :: "'w writer_options \<Rightarrow> append_intent \<Rightarrow> ('w, serve_error, unit) async" where
  "commitState opts intent =
     andThen (loadState opts) (\<lambda>(revision, state).
     andThen (lifted (exactCommittedState opts state intent)) (\<lambda>exact.
       if exact then ret ()
       else andThen (refuse_if (any_of [
                Inr (revision \<noteq> ai_expectedStateRevision intent),
                (if revision = None then Inr (ai_previousStateDigest intent \<noteq> None)
                 else bind_result (stateDigest opts state) (\<lambda>d. Inr (Some d \<noteq> ai_previousStateDigest intent)))])
              ''source state changed after the append intent was claimed'') (\<lambda>_.
            andThen (wo_casState opts (sourceId opts) (ai_expectedStateRevision intent) (ai_nextState intent)) (\<lambda>committed.
              if committed \<noteq> None then ret ()
              else andThen (loadState opts) (\<lambda>(_, later).
                   andThen (lifted (exactCommittedState opts later intent)) (\<lambda>exact'.
                     refuse (\<not> exact') ''source state CAS lost to a different append''))))))"

fun clearIntent :: "'w writer_options \<Rightarrow> append_intent \<Rightarrow> nat \<Rightarrow> string \<Rightarrow> ('w, serve_error, source_receipt) async" where
  "clearIntent opts intent 0 intentRevision =
     throw (SourceWriterIntegrityError ''append intent clear exceeded the CAS retry bound'')"
| "clearIntent opts intent (Suc attempts) intentRevision =
     andThen (wo_casIntent opts (sourceId opts) (Some intentRevision) None) (\<lambda>cleared.
       if cleared \<noteq> None then ret (ai_receipt intent)
       else andThen (wo_readIntent opts (sourceId opts)) (\<lambda>current.
         case current of
           None \<Rightarrow> ret (ai_receipt intent)
         | Some (revision, pending) \<Rightarrow>
             andThen (lifted (seal_digest opts (intent_object pending))) (\<lambda>left.
             andThen (lifted (seal_digest opts (intent_object intent))) (\<lambda>right.
             andThen (refuse (left \<noteq> right) ''append intent changed before it could be cleared'') (\<lambda>_.
               clearIntent opts intent attempts revision)))))"

definition commitIntent :: "'w writer_options \<Rightarrow> string \<Rightarrow> append_intent \<Rightarrow> ('w, serve_error, source_receipt) async" where
  "commitIntent opts intentRevision intent =
     andThen (assertIntentOwnership opts intent) (\<lambda>_.
     andThen (verifyIntentRecord opts intent) (\<lambda>_.
     andThen (thawFrozenBlob opts (ai_page intent) ''archive page'') (\<lambda>pageBytes.
     andThen (putImmutableExact opts (fb_path (ai_page intent)) pageBytes (fb_contentType (ai_page intent)) ''archive page'') (\<lambda>_.
     andThen (wo_fault opts AfterPageBeforeHead) (\<lambda>_.
     andThen (writeHeadFromIntent opts intent) (\<lambda>_.
     andThen (wo_fault opts AfterHeadBeforeState) (\<lambda>_.
     andThen (commitState opts intent) (\<lambda>_.
     andThen (wo_fault opts AfterStateBeforeIntentClear) (\<lambda>_.
       clearIntent opts intent MAX_CAS_ATTEMPTS intentRevision)))))))))"

fun recoverLoop :: "'w writer_options \<Rightarrow> nat \<Rightarrow> ('w, serve_error, recovery_report) async" where
  "recoverLoop opts 0 = throw (SourceWriterIntegrityError ''append intent recovery exceeded the CAS retry bound'')"
| "recoverLoop opts (Suc attempts) =
     andThen (wo_readIntent opts (sourceId opts)) (\<lambda>pending.
       case pending of
         None \<Rightarrow> ret Idle
       | Some (revision, intent) \<Rightarrow>
           andThen (commitIntent opts revision intent) (\<lambda>receipt.
           andThen (wo_readIntent opts (sourceId opts)) (\<lambda>left.
             if left = None then ret (Recovered receipt) else recoverLoop opts attempts)))"

definition recover :: "'w writer_options \<Rightarrow> ('w, serve_error, recovery_report) async" where
  "recover opts = recoverLoop opts MAX_CAS_ATTEMPTS"

definition readState :: "'w writer_options \<Rightarrow> ('w, serve_error, source_state option) async" where
  "readState opts =
     andThen (wo_readState opts (sourceId opts)) (\<lambda>stored.
       case stored of
         None \<Rightarrow> ret None
       | Some (_, state) \<Rightarrow> andThen (assertStateOwnership opts state) (\<lambda>_. ret (Some state)))"

section \<open>Appending\<close>

definition window_head :: "string \<Rightarrow> string \<Rightarrow> source_head" where
  "window_head issuedAt refreshBy =
     \<lparr>sh_protocol = [], sh_origin = [], sh_sequence = [], sh_entry = [], sh_issuedAt = issuedAt, sh_refreshBy = refreshBy\<rparr>"

definition refuseMintedWindow :: "string \<Rightarrow> ('w, serve_error, unit) async" where
  "refuseMintedWindow failure =
     throw (SourceWriterIntegrityError
       (if failure = ''head-issued-ahead''
        then ''announcement timestamp is further ahead of this source's clock than the freshness window allows''
        else ''announcement timestamp yields a head freshness window no consumer accepts''))"

text \<open>The record an available announcement is published with, from the frozen announcement and the command.\<close>

definition recordOf ::
  "'w writer_options \<Rightarrow> json \<Rightarrow> (bytes \<times> string option) option \<Rightarrow> ('w, serve_error, record_receipt option) async" where
  "recordOf opts announcement commandRecord =
     (if get_field announcement ''action'' = JStr ''available''
      then (case commandRecord of
              None \<Rightarrow> throw (SourceWriterIntegrityError ''available announcement requires exact record bytes'')
            | Some (bytes, contentType) \<Rightarrow>
                (let digest = digest_of opts bytes; mediaType = get_field (get_field announcement ''record'') ''mediaType''
                 in andThen (refuse_if (differs (read_path announcement [''record'', ''digest'']) (JStr digest))
                      ''available announcement record digest does not match the exact record bytes'') (\<lambda>_.
                    andThen (refuse (mediaType \<noteq> JUndef \<and> contentType \<noteq> None \<and> mediaType \<noteq> JStr (the contentType))
                      ''available announcement mediaType conflicts with the record content type'') (\<lambda>_.
                      ret (Some \<lparr>rr_digest = digest, rr_path = recordPath digest,
                        rr_contentType = (case contentType of
                            Some t \<Rightarrow> t
                          | None \<Rightarrow> if mediaType = JUndef \<or> mediaType = JNull then DEFAULT_RECORD_CONTENT_TYPE
                              else text_of mediaType)\<rparr>)))))
      else andThen (refuse (commandRecord \<noteq> None) ''withdrawn announcement must not carry record bytes'') (\<lambda>_. ret None))"

definition entry_json :: "source \<Rightarrow> string \<Rightarrow> string option \<Rightarrow> string \<Rightarrow> json \<Rightarrow> json" where
  "entry_json source sequence previous timestamp announcement =
     JObj [(''protocol'', JStr RECORD_DISCOVERY_VERSION), (''source'', source_object source), (''sequence'', JStr sequence),
           (''previous'', nullable previous), (''timestamp'', JStr timestamp), (''announcements'', JArr [announcement])]"

text \<open>Signing the entry and the head and freezing them into an intent. The world changes only by signing.\<close>

definition mintIntent ::
  "'w writer_options \<Rightarrow> string \<Rightarrow> string \<Rightarrow> json \<Rightarrow> record_receipt option \<Rightarrow> string \<Rightarrow> string option \<Rightarrow> source_state
     \<Rightarrow> (string \<times> string) option \<Rightarrow> ('w, serve_error, append_intent) async" where
  "mintIntent opts timestamp refreshBy announcement record_part fingerprint stateRevision state previousHead =
     (let source = wo_source opts; position = st_last state; announcementId = field_text_of announcement ''announcementId''
      in andThen (lifted (expectedSequenceOf position)) (\<lambda>sequence.
         andThen (lifted (parseAnnouncementEntry (entry_json source sequence (map_option po_entryDigest position) timestamp announcement))) (\<lambda>entry.
         andThen (lifted (sealBytes entry)) (\<lambda>entryBytes.
         andThen (refuse (length entryBytes > entrySealedBytes) ''announcement entry exceeds the published-source byte ceiling'') (\<lambda>_.
         andThen (signAnnouncementEntry entry (wo_signer opts)) (\<lambda>entryEnvelope.
         andThen (assertSignerEnvelope opts (envelope_object entryEnvelope) ''announcement entry'' MEDIA_ENTRY entryBytes) (\<lambda>_.
         andThen (lifted (sealBytes (page_object (snd source) sequence (map_option po_page position) entry entryEnvelope))) (\<lambda>pageBytes.
         andThen (refuse (length pageBytes > archivePageBytes) ''archive page exceeds the published-source byte ceiling'') (\<lambda>_.
           let entryDigest = digest_of opts entryBytes;
               head = \<lparr>sh_protocol = RECORD_DISCOVERY_VERSION, sh_origin = sourceId opts, sh_sequence = sequence,
                 sh_entry = entryDigest, sh_issuedAt = timestamp, sh_refreshBy = refreshBy\<rparr>
           in andThen (signHead head (wo_signer opts)) (\<lambda>headEnvelope.
              andThen (lifted (sealBytes (head_object head))) (\<lambda>headPayload.
              andThen (assertSignerEnvelope opts (envelope_object headEnvelope) ''source head'' MEDIA_HEAD headPayload) (\<lambda>_.
              andThen (lifted (sealBytes (envelope_object headEnvelope))) (\<lambda>headBytes.
              andThen (lifted (if stateRevision = None then Inr None
                  else bind_result (stateDigest opts state) (\<lambda>d. Inr (Some d)))) (\<lambda>previousStateDigest.
                let receipt = \<lparr>rc_source = source, rc_announcementId = announcementId, rc_fingerprint = fingerprint,
                      rc_sequence = sequence, rc_entryDigest = entryDigest, rc_page = sequence, rc_record = record_part\<rparr>
                in ret \<lparr>ai_version = 1, ai_source = source, ai_signerKeyId = wo_keyId opts, ai_announcementId = announcementId,
                     ai_fingerprint = fingerprint, ai_expectedStateRevision = stateRevision,
                     ai_previousStateDigest = previousStateDigest, ai_previousPosition = position,
                     ai_expectedHeadDigest = map_option fst previousHead, ai_previousHeadIssuedAt = map_option snd previousHead,
                     ai_record = record_part,
                     ai_page = frozenBlob opts (archivePagePath (snd source) sequence) pageBytes ARCHIVE_PAGE_CONTENT_TYPE,
                     ai_head = frozenBlob opts (headPath (snd source)) headBytes MEDIA_HEAD,
                     ai_nextState = state\<lparr>st_last := Some \<lparr>po_sequence = sequence, po_entryDigest = entryDigest, po_page = sequence\<rparr>,
                       st_announcements := AList.update announcementId
                         \<lparr>pb_action = field_text_of announcement ''action'', pb_fingerprint = fingerprint, pb_receipt = receipt\<rparr>
                         (st_announcements state)\<rparr>,
                     ai_receipt = receipt\<rparr>))))))))))))))"

fun appendLoop ::
  "'w writer_options \<Rightarrow> append_command \<Rightarrow> int \<Rightarrow> string \<Rightarrow> string option \<Rightarrow> json \<Rightarrow> record_receipt option \<Rightarrow> string
     \<Rightarrow> nat \<Rightarrow> ('w, serve_error, source_receipt) async" where
  "appendLoop opts command timestampMs refreshBy windowFailure announcement record_part fingerprint 0 =
     throw (SourceWriterIntegrityError ''source append exceeded the CAS retry bound'')"
| "appendLoop opts command timestampMs refreshBy windowFailure announcement record_part fingerprint (Suc attempts) =
     (let announcementId = field_text_of announcement ''announcementId''
      in andThen (recover opts) (\<lambda>_.
         andThen (loadState opts) (\<lambda>(stateRevision, state).
           case object_member (st_announcements state) announcementId of
             Own existing \<Rightarrow>
               if pb_fingerprint existing \<noteq> fingerprint
               then throw (SourceAnnouncementConflictError announcementId ''the source already committed different exact input bytes'')
               else ret (pb_receipt existing)
           | Inherited \<Rightarrow>
               throw (SourceAnnouncementConflictError announcementId ''the source already committed different exact input bytes'')
           | Absent \<Rightarrow>
               andThen (case windowFailure of None \<Rightarrow> ret () | Some failure \<Rightarrow> refuseMintedWindow failure) (\<lambda>_.
               andThen (if get_field announcement ''action'' = JStr ''withdrawn''
                   \<and> (case object_member (st_announcements state) (field_text_of announcement ''retracts'') of
                        Own target \<Rightarrow> pb_action target \<noteq> ''available''
                      | _ \<Rightarrow> True)
                 then throw (SourceAnnouncementConflictError announcementId
                   (''withdrawal target '' @ field_text_of announcement ''retracts'' @ '' is not an available announcement in this source''))
                 else ret ()) (\<lambda>_.
               andThen (case record_part of
                   None \<Rightarrow> ret ()
                 | Some r \<Rightarrow> putImmutableExact opts (rr_path r) (fst (the (ac_record command))) (rr_contentType r) ''record'') (\<lambda>_.
               andThen (wo_fault opts AfterRecordBeforeIntent) (\<lambda>_.
               andThen (wo_get opts (headPath (snd (wo_source opts)))) (\<lambda>stored.
               andThen (assertHeadMatchesState opts stored state) (\<lambda>previousHead.
               andThen (refuse (case previousHead of
                     None \<Rightarrow> False
                   | Some (_, issuedAt) \<Rightarrow> \<not> ms_greater (Some timestampMs) (parseHeadTimestamp issuedAt))
                 ''announcement timestamp must strictly advance the signed source head'') (\<lambda>_.
               andThen (mintIntent opts (ac_timestamp command) refreshBy announcement record_part fingerprint stateRevision state previousHead)
                 (\<lambda>intent.
               andThen (wo_casIntent opts (sourceId opts) None (Some intent)) (\<lambda>claimed.
                 case claimed of
                   None \<Rightarrow> appendLoop opts command timestampMs refreshBy windowFailure announcement record_part fingerprint attempts
                 | Some intentRevision \<Rightarrow>
                     andThen (wo_fault opts AfterIntentBeforePage) (\<lambda>_. commitIntent opts intentRevision intent)))))))))))))"

definition append_source ::
  "'w writer_options \<Rightarrow> rat \<Rightarrow> append_command \<Rightarrow> ('w, serve_error, source_receipt) async" where
  "append_source opts refreshWithinMs command =
     (case parseHeadTimestamp (ac_timestamp command) of
        None \<Rightarrow> throw (SourceWriterIntegrityError (''announcement timestamp is invalid: '' @ ac_timestamp command))
      | Some timestampMs \<Rightarrow>
          andThen (lifted (isoText (of_int timestampMs + refreshWithinMs))) (\<lambda>refreshBy.
          andThen (wo_now opts) (\<lambda>now.
            let windowFailure = checkRefreshWindow (window_head (ac_timestamp command) refreshBy) now MAX_AHEAD
            in andThen (lifted (freezeJson (announcement_object (ac_announcement command)))) (\<lambda>announcement.
               andThen (if get_field announcement ''action'' = JStr ''available''
                 then andThen (lifted (sealBytes (let facts = get_field announcement ''facts''
                        in if facts = JUndef \<or> facts = JNull then JObj [] else facts))) (\<lambda>bytes.
                      refuse (length bytes > factsCardBytes) ''available announcement facts exceed the published-source byte ceiling'')
                 else ret ()) (\<lambda>_.
               andThen (recordOf opts announcement (ac_record command)) (\<lambda>record_part.
               andThen (lifted (seal_digest opts (fingerprint_object (wo_source opts) (JStr (ac_timestamp command)) announcement
                   (map_option rr_contentType record_part)))) (\<lambda>fingerprint.
                 appendLoop opts command timestampMs refreshBy windowFailure announcement record_part fingerprint MAX_CAS_ATTEMPTS)))))))"

end
