(* ===== verification/Writer_Intent.thy ===== *)
theory Writer_Intent
  imports Source_Writer
begin

text \<open>
  What an append freezes. The documents of an append are functions of the committed state, the command and
  the signer (\<open>planned_entry\<close>, \<open>planned_page\<close>, \<open>planned_head\<close>, \<open>planned_intent\<close>), and the locale \<open>signing_ports\<close> is the
  contract of the ports that do not touch durable data: signing is deterministic and valid under the
  source's key, as it is for Ed25519, verification is a function of the signed bytes, and a call throws only
  when the host fails (\<open>calm\<close> says that it does not).

  The lemmas show that \<open>mintIntent\<close> returns exactly the planned intent, and that a planned intent passes every
  check of \<open>assertIntentOwnership\<close> after its documents have been through sealing, base64 and
  \<open>JSON.parse\<close>: what an append persists is never refused by a later recovery.
\<close>

section \<open>Documents\<close>

definition document :: "json \<Rightarrow> bool" where
  "document v \<longleftrightarrow> json_ok v \<and> sealable v"

definition seal_text :: "json \<Rightarrow> bytes" where
  "seal_text v = utf8_encode (serializeCanonicalJson v)"

lemma seal_document [simp]: "document v \<Longrightarrow> sealBytes v = Inr (seal_text v)"
  by (simp add: document_def seal_text_def sealBytes_iff)

lemma present_sorted_sorted:
  assumes "sorted (map fst kvs)" and "\<forall>kv \<in> set kvs. snd kv \<noteq> JUndef"
  shows "present_sorted kvs = kvs"
proof -
  have "filter (\<lambda>kv. snd kv \<noteq> JUndef) kvs = kvs" using assms(2) by (simp add: filter_id_conv)
  then show ?thesis using assms(1) by (simp add: present_sorted_def keyed_props.js_sort_eq sort_key_id_if_sorted)
qed

lemma norm_json_idem [simp]: "norm_json (norm_json v) = norm_json v"
proof (induction v rule: norm_json.induct)
  case (1 xs)
  then show ?case by simp
next
  case (2 kvs)
  let ?ms = "map (\<lambda>kv. (fst kv, norm_json (snd kv))) (present_sorted kvs)"
  have "sorted (map fst ?ms)"
    using keyed_props.sorted_js_sort [of "filter (\<lambda>kv. snd kv \<noteq> JUndef) kvs"] by (simp add: present_sorted_def o_def)
  moreover have "\<forall>kv \<in> set ?ms. snd kv \<noteq> JUndef" by (auto simp: set_present_sorted)
  ultimately have "present_sorted ?ms = ?ms" by (rule present_sorted_sorted)
  then show ?case using 2 by (simp add: norm_json.simps(2))
qed simp_all

lemma document_norm [simp]: "document v \<Longrightarrow> document (norm_json v)"
  by (simp add: document_def norm_json_ok sealable_norm)

lemma seal_text_norm [simp]: "document v \<Longrightarrow> seal_text (norm_json v) = seal_text v"
  using document_norm [of v] by (simp add: seal_text_def document_def serialize_canon)

lemma decode_document [simp]: "document v \<Longrightarrow> decodeJson (seal_text v) = Inr (norm_json v)"
  using decodeJson_sealed [of v "seal_text v"] by (simp add: document_def)

lemma freeze_document [simp]: "document v \<Longrightarrow> freezeJson v = Inr (norm_json v)"
  by (simp add: freezeJson_def)

lemma document_Obj: "document (JObj kvs) \<longleftrightarrow> distinct (map fst kvs) \<and> (\<forall>kv \<in> set kvs. document (snd kv))"
  by (auto simp: document_def list_all_iff)

lemma document_Arr: "document (JArr xs) \<longleftrightarrow> (\<forall>x \<in> set xs. document x)"
  by (auto simp: document_def list_all_iff)

lemma document_simps [simp]: "document (JStr s)" "document JNull" "document (nullable v)" "document (source_object src)"
  by (auto simp: document_def nullable_def source_object_def split: option.splits)

lemma document_get_field: "document v \<Longrightarrow> get_field v k \<noteq> JUndef \<Longrightarrow> document (get_field v k)"
  by (cases v) (auto simp: document_def list_all_iff split: option.splits dest!: map_of_SomeD)

lemma document_json_ok [simp]: "document v \<Longrightarrow> json_ok v"
  by (simp add: document_def)

lemma read_norm_field:
  "document v \<Longrightarrow> is_object v \<Longrightarrow> read_field (norm_json v) k = Inr (norm_json (get_field v k))"
proof -
  assume v: "document v" "is_object v"
  then have "norm_json v \<noteq> JNull" "norm_json v \<noteq> JUndef" by (cases v; simp add: norm_simps)+
  then show ?thesis using v by (simp add: read_field_def norm_get_field)
qed

lemma envelope_document [simp]: "document (envelope_object e)"
proof -
  have "document (signature_object s)" for s
    by (cases "es_keyid s") (simp_all add: signature_object_def document_Obj)
  then show ?thesis by (simp add: envelope_object_def document_Obj document_Arr)
qed

lemma head_document [simp]: "document (head_object h)"
  using head_object_ok by (simp add: document_def)

lemma position_document [simp]: "document (position_object p)"
  by (simp add: position_object_def document_Obj)

lemma receipt_document [simp]: "document (receipt_object r)"
  by (cases "rc_record r") (simp_all add: receipt_object_def document_Obj record_object_def)

lemma version_document [simp]: "document (JNum (dec_int 1))"
  by code_simp

definition state_ok :: "'w writer_options \<Rightarrow> source_state \<Rightarrow> bool" where
  "state_ok opts state \<longleftrightarrow>
     st_version state = 1 \<and> st_source state = wo_source opts \<and> st_signerKeyId state = wo_keyId opts
     \<and> distinct (map fst (st_announcements state))"

lemma state_document: "state_ok opts state \<Longrightarrow> document (state_object state)"
proof -
  have "document (published_object p)" for p by (simp add: published_object_def document_Obj)
  then show "state_ok opts state \<Longrightarrow> ?thesis"
    by (auto simp: state_ok_def state_object_def document_Obj o_def split: option.splits)
qed

lemma intent_document: "ai_version i = 1 \<Longrightarrow> state_ok opts (ai_nextState i) \<Longrightarrow> document (intent_object i)"
  by (simp add: intent_object_def document_Obj frozen_object_def record_object_def state_document split: option.splits)

section \<open>What an append plans\<close>

record mint_context =
  mc_timestamp :: string
  mc_refreshBy :: string
  mc_announcement :: json
  mc_record :: "record_receipt option"
  mc_fingerprint :: string
  mc_revision :: "string option"
  mc_state :: source_state
  mc_previousHead :: "(string \<times> string) option"

type_synonym signatures = "bytes \<Rightarrow> (string option \<times> bytes) list"

definition planned_sequence :: "mint_context \<Rightarrow> string" where
  "planned_sequence m = (case expectedSequenceOf (st_last (mc_state m)) of Inr q \<Rightarrow> q | Inl _ \<Rightarrow> [])"

definition planned_entry :: "'w writer_options \<Rightarrow> mint_context \<Rightarrow> json" where
  "planned_entry opts m =
     entry_json (wo_source opts) (planned_sequence m) (map_option po_entryDigest (st_last (mc_state m))) (mc_timestamp m)
       (mc_announcement m)"

definition signed_envelope :: "signatures \<Rightarrow> string \<Rightarrow> json \<Rightarrow> dsse_envelope" where
  "signed_envelope sigs payloadType v =
     \<lparr>de_payloadType = payloadType, de_payload = btoa (seal_text v),
      de_signatures = wire_signatures (sigs (dssePreAuthEncoding payloadType (seal_text v)))\<rparr>"

definition planned_page :: "'w writer_options \<Rightarrow> signatures \<Rightarrow> mint_context \<Rightarrow> json" where
  "planned_page opts sigs m =
     page_object (snd (wo_source opts)) (planned_sequence m) (map_option po_page (st_last (mc_state m))) (planned_entry opts m)
       (signed_envelope sigs MEDIA_ENTRY (planned_entry opts m))"

definition planned_digest :: "'w writer_options \<Rightarrow> mint_context \<Rightarrow> string" where
  "planned_digest opts m = digest_of opts (seal_text (planned_entry opts m))"

definition planned_head :: "'w writer_options \<Rightarrow> mint_context \<Rightarrow> source_head" where
  "planned_head opts m =
     \<lparr>sh_protocol = RECORD_DISCOVERY_VERSION, sh_origin = sourceId opts, sh_sequence = planned_sequence m,
      sh_entry = planned_digest opts m, sh_issuedAt = mc_timestamp m, sh_refreshBy = mc_refreshBy m\<rparr>"

definition planned_envelope :: "'w writer_options \<Rightarrow> signatures \<Rightarrow> mint_context \<Rightarrow> json" where
  "planned_envelope opts sigs m = envelope_object (signed_envelope sigs MEDIA_HEAD (head_object (planned_head opts m)))"

definition planned_receipt :: "'w writer_options \<Rightarrow> mint_context \<Rightarrow> source_receipt" where
  "planned_receipt opts m =
     \<lparr>rc_source = wo_source opts, rc_announcementId = field_text_of (mc_announcement m) ''announcementId'',
      rc_fingerprint = mc_fingerprint m, rc_sequence = planned_sequence m, rc_entryDigest = planned_digest opts m,
      rc_page = planned_sequence m, rc_record = mc_record m\<rparr>"

definition planned_state :: "'w writer_options \<Rightarrow> mint_context \<Rightarrow> source_state" where
  "planned_state opts m =
     (mc_state m)\<lparr>st_last := Some \<lparr>po_sequence = planned_sequence m, po_entryDigest = planned_digest opts m,
         po_page = planned_sequence m\<rparr>,
       st_announcements := AList.update (field_text_of (mc_announcement m) ''announcementId'')
         \<lparr>pb_action = field_text_of (mc_announcement m) ''action'', pb_fingerprint = mc_fingerprint m,
          pb_receipt = planned_receipt opts m\<rparr> (st_announcements (mc_state m))\<rparr>"

definition planned_intent :: "'w writer_options \<Rightarrow> signatures \<Rightarrow> mint_context \<Rightarrow> append_intent" where
  "planned_intent opts sigs m =
     \<lparr>ai_version = 1, ai_source = wo_source opts, ai_signerKeyId = wo_keyId opts,
      ai_announcementId = field_text_of (mc_announcement m) ''announcementId'', ai_fingerprint = mc_fingerprint m,
      ai_expectedStateRevision = mc_revision m,
      ai_previousStateDigest = (if mc_revision m = None then None else Some (digest_of opts (seal_text (state_object (mc_state m))))),
      ai_previousPosition = st_last (mc_state m), ai_expectedHeadDigest = map_option fst (mc_previousHead m),
      ai_previousHeadIssuedAt = map_option snd (mc_previousHead m), ai_record = mc_record m,
      ai_page = frozenBlob opts (archivePagePath (snd (wo_source opts)) (planned_sequence m)) (seal_text (planned_page opts sigs m))
        ARCHIVE_PAGE_CONTENT_TYPE,
      ai_head = frozenBlob opts (headPath (snd (wo_source opts))) (seal_text (planned_envelope opts sigs m)) MEDIA_HEAD,
      ai_nextState = planned_state opts m, ai_receipt = planned_receipt opts m\<rparr>"

text \<open>The conditions under which an append mints an intent.\<close>

definition plan_ok :: "'w writer_options \<Rightarrow> signatures \<Rightarrow> mint_context \<Rightarrow> bool" where
  "plan_ok opts sigs m \<longleftrightarrow>
     (\<exists>q. expectedSequenceOf (st_last (mc_state m)) = Inr q)
     \<and> parseAnnouncementEntry (planned_entry opts m) = Inr (planned_entry opts m)
     \<and> length (seal_text (planned_entry opts m)) \<le> entrySealedBytes
     \<and> length (seal_text (planned_page opts sigs m)) \<le> archivePageBytes"

lemma planned_documents:
  assumes "document (mc_announcement m)"
  shows "document (planned_entry opts m)" "document (planned_page opts sigs m)" "document (planned_envelope opts sigs m)"
proof -
  show entry: "document (planned_entry opts m)" using assms by (simp add: planned_entry_def entry_json_def document_Obj document_Arr)
  show "document (planned_page opts sigs m)" using entry by (simp add: planned_page_def page_object_def document_Obj document_Arr)
  show "document (planned_envelope opts sigs m)" by (simp add: planned_envelope_def)
qed

section \<open>Calls that leave the durable data alone\<close>

named_theorems returns_rules \<open>what a program that leaves the durable data alone returns\<close>

text \<open>From every world with the durable data \<open>v\<close> the program returns \<open>a\<close>, or throws because the host fails.\<close>

definition returns :: "('w \<Rightarrow> 'v) \<Rightarrow> ('w \<Rightarrow> bool) \<Rightarrow> 'v \<Rightarrow> ('w, serve_error, 'a) async \<Rightarrow> 'a \<Rightarrow> bool" where
  "returns view calm v m a \<longleftrightarrow>
     (\<forall>s. view s = v \<longrightarrow>
        wp m (\<lambda>r t. r = a \<and> view t = v \<and> (calm s \<longrightarrow> calm t)) (\<lambda>e t. view t = v \<and> \<not> calm s) s)"

lemma returns_ret [returns_rules]: "a = b \<Longrightarrow> returns view calm v (ret a) b"
  by (auto simp: returns_def intro: wp_ret)

lemma returns_lifted [returns_rules]: "r = Inr a \<Longrightarrow> returns view calm v (lifted r) a"
  by (auto simp: returns_def wp_def lifted_def)

lemma returns_refuse [returns_rules]: "\<not> b \<Longrightarrow> returns view calm v (refuse b msg) ()"
  by (simp add: refuse_def returns_ret)

lemma returns_andThen:
  assumes "returns view calm v m a" and "returns view calm v (f a) b"
  shows "returns view calm v (andThen m f) b"
  unfolding returns_def
proof (intro allI impI)
  fix s
  assume "view s = v"
  then have m: "wp m (\<lambda>r t. r = a \<and> view t = v \<and> (calm s \<longrightarrow> calm t)) (\<lambda>e t. view t = v \<and> \<not> calm s) s"
    using assms(1) by (simp add: returns_def)
  show "wp (andThen m f) (\<lambda>r t. r = b \<and> view t = v \<and> (calm s \<longrightarrow> calm t)) (\<lambda>e t. view t = v \<and> \<not> calm s) s"
  proof (rule wp_seq [OF m])
    fix r t
    assume r: "r = a \<and> view t = v \<and> (calm s \<longrightarrow> calm t)"
    then have "wp (f r) (\<lambda>r u. r = b \<and> view u = v \<and> (calm t \<longrightarrow> calm u)) (\<lambda>e u. view u = v \<and> \<not> calm t) t"
      using assms(2) by (simp add: returns_def)
    then show "wp (f r) (\<lambda>r t. r = b \<and> view t = v \<and> (calm s \<longrightarrow> calm t)) (\<lambda>e t. view t = v \<and> \<not> calm s) t"
      by (rule wp_mono) (use r in auto)
  qed simp
qed

lemma returns_refuse_if [returns_rules]: "r = Inr False \<Longrightarrow> returns view calm v (refuse_if r msg) ()"
  unfolding refuse_if_def by (rule returns_andThen) (auto intro: returns_rules)

locale signing_ports =
  fixes opts :: "'w writer_options"
    and view :: "'w \<Rightarrow> 'v"
    and calm :: "'w \<Rightarrow> bool"
    and good :: "bytes \<Rightarrow> bytes \<Rightarrow> bool"
    and sigs :: signatures
  assumes sign_law: "returns view calm v (sg_sign (wo_signer opts) pae) (sigs pae)"
    and verify_law: "returns view calm v (wo_verify opts pae sig) (good pae sig)"
    and scope_law: "sg_scope (wo_signer opts) = DISCOVERY_SIGNING_SCOPE"
    and sigs_nonempty: "sigs pae \<noteq> []"
    and sigs_valid: "(k, sig) \<in> set (sigs pae) \<Longrightarrow> k = Some (wo_keyId opts) \<and> good pae sig"
    and digest_hex: "RecordDigestSchema (digest_of opts b)"
begin

lemma checkSignatures_returns:
  assumes "\<forall>j \<in> set js. read_field j ''keyid'' = Inr (JStr (wo_keyId opts))
    \<and> (\<exists>sig. read_field j ''sig'' = Inr (JStr (btoa sig)) \<and> good pae sig)"
  shows "returns view calm v (checkSignatures opts label pae js) ()"
  using assms
proof (induction js)
  case Nil
  then show ?case by (simp add: returns_ret)
next
  case (Cons j js)
  obtain sig where sig: "read_field j ''sig'' = Inr (JStr (btoa sig))" "good pae sig" using Cons.prems by auto
  show ?case unfolding checkSignatures.simps
  proof (intro returns_andThen)
    show "returns view calm v (refuse_if (differs (read_field j ''keyid'') (JStr (wo_keyId opts)))
        (label @ '' signature keyid does not match source signer'')) ()"
      using Cons.prems by (intro returns_rules) (simp add: differs_def)
    show "returns view calm v (lifted (bind_result (read_field j ''sig'') (\<lambda>sig. decodeBase64 (js_string sig)))) sig"
      using sig by (intro returns_rules) simp
    show "returns view calm v (wo_verify opts pae sig) True" using verify_law [of v pae sig] sig(2) by simp
    show "returns view calm v (refuse (\<not> True) (label @ '' signature is not valid for the owned source key'')) ()"
      by (simp add: returns_refuse)
    show "returns view calm v (checkSignatures opts label pae js) ()" using Cons by simp
  qed
qed

lemma signature_reads:
  assumes "(k, sig) \<in> set (sigs pae)" and "j = signature_object \<lparr>es_keyid = k, es_sig = btoa sig\<rparr> \<or> j = norm_json (signature_object \<lparr>es_keyid = k, es_sig = btoa sig\<rparr>)"
  shows "read_field j ''keyid'' = Inr (JStr (wo_keyId opts)) \<and> (\<exists>sig. read_field j ''sig'' = Inr (JStr (btoa sig)) \<and> good pae sig)"
proof -
  note valid = sigs_valid [OF assms(1)]
  let ?o = "JObj [(''keyid'', JStr (wo_keyId opts)), (''sig'', JStr (btoa sig))]"
  have o: "signature_object \<lparr>es_keyid = k, es_sig = btoa sig\<rparr> = ?o" using valid by (simp add: signature_object_def)
  have "document ?o" by (simp add: document_Obj)
  then have "read_field (norm_json ?o) ''keyid'' = Inr (JStr (wo_keyId opts))" "read_field (norm_json ?o) ''sig'' = Inr (JStr (btoa sig))"
    by (simp_all add: read_norm_field)
  moreover have "read_field ?o ''keyid'' = Inr (JStr (wo_keyId opts))" "read_field ?o ''sig'' = Inr (JStr (btoa sig))"
    by (simp_all add: read_field_def)
  ultimately show ?thesis using assms(2) valid unfolding o by blast
qed

lemma assertSignerEnvelope_returns:
  assumes "j = envelope_object (signed_envelope sigs payloadType doc) \<or> j = norm_json (envelope_object (signed_envelope sigs payloadType doc))"
  shows "returns view calm v (assertSignerEnvelope opts j label payloadType (seal_text doc)) ()"
proof -
  let ?e = "signed_envelope sigs payloadType doc" and ?pae = "dssePreAuthEncoding payloadType (seal_text doc)"
  let ?ss = "map (\<lambda>(k, sig). signature_object \<lparr>es_keyid = k, es_sig = btoa sig\<rparr>) (sigs ?pae)"
  have ss: "map signature_object (de_signatures ?e) = ?ss" by (simp add: signed_envelope_def wire_signatures_def o_def case_prod_beta)
  have obj: "is_object (envelope_object ?e)" by (simp add: envelope_object_def)
  have fields: "get_field (envelope_object ?e) ''payloadType'' = JStr payloadType"
    "get_field (envelope_object ?e) ''payload'' = JStr (btoa (seal_text doc))"
    "get_field (envelope_object ?e) ''signatures'' = JArr ?ss"
    unfolding ss [symmetric] by (simp_all add: envelope_object_def, simp_all add: signed_envelope_def)
  have "read_field (norm_json (envelope_object ?e)) k = Inr (norm_json (get_field (envelope_object ?e) k))" for k
    using obj by (intro read_norm_field) simp_all
  then have norm: "read_field (norm_json (envelope_object ?e)) ''payloadType'' = Inr (JStr payloadType)"
    "read_field (norm_json (envelope_object ?e)) ''payload'' = Inr (JStr (btoa (seal_text doc)))"
    "read_field (norm_json (envelope_object ?e)) ''signatures'' = Inr (JArr (map norm_json ?ss))"
    by (simp_all add: fields)
  have plain: "read_field (envelope_object ?e) ''payloadType'' = Inr (JStr payloadType)"
    "read_field (envelope_object ?e) ''payload'' = Inr (JStr (btoa (seal_text doc)))"
    "read_field (envelope_object ?e) ''signatures'' = Inr (JArr ?ss)"
    using obj fields by (cases "envelope_object ?e"; simp add: read_field_def)+
  have "\<exists>js. read_field j ''payloadType'' = Inr (JStr payloadType) \<and> read_field j ''payload'' = Inr (JStr (btoa (seal_text doc)))
      \<and> read_field j ''signatures'' = Inr (JArr js) \<and> js \<noteq> []
      \<and> (\<forall>x \<in> set js. read_field x ''keyid'' = Inr (JStr (wo_keyId opts))
          \<and> (\<exists>sig. read_field x ''sig'' = Inr (JStr (btoa sig)) \<and> good ?pae sig))"
    using assms
  proof
    assume j: "j = envelope_object ?e"
    show ?thesis by (rule exI [of _ ?ss]) (use plain j sigs_nonempty signature_reads in \<open>auto split: prod.splits\<close>)
  next
    assume j: "j = norm_json (envelope_object ?e)"
    show ?thesis
      by (rule exI [of _ "map norm_json ?ss"])
        (use norm j sigs_nonempty signature_reads in \<open>auto split: prod.splits\<close>)
  qed
  then obtain js where js: "read_field j ''payloadType'' = Inr (JStr payloadType)" "read_field j ''payload'' = Inr (JStr (btoa (seal_text doc)))"
      "read_field j ''signatures'' = Inr (JArr js)" "js \<noteq> []"
      "\<forall>x \<in> set js. read_field x ''keyid'' = Inr (JStr (wo_keyId opts))
          \<and> (\<exists>sig. read_field x ''sig'' = Inr (JStr (btoa sig)) \<and> good ?pae sig)" by blast
  show ?thesis unfolding assertSignerEnvelope_def
    by (rule returns_andThen [OF returns_refuse_if returns_andThen [OF returns_lifted returns_andThen [OF returns_refuse]]])
      (use js checkSignatures_returns in \<open>auto simp: differs_def elements_of_def\<close>)
qed

end

text \<open>The program throws and leaves the durable data alone.\<close>

definition fails :: "('w \<Rightarrow> 'v) \<Rightarrow> ('w \<Rightarrow> bool) \<Rightarrow> 'v \<Rightarrow> ('w, serve_error, 'a) async \<Rightarrow> bool" where
  "fails view calm v m \<longleftrightarrow>
     (\<forall>s. view s = v \<longrightarrow> wp m (\<lambda>r t. False) (\<lambda>e t. view t = v \<and> (calm s \<longrightarrow> calm t)) s)"

lemma fails_throw: "fails view calm v (throw e)"
  by (auto simp: fails_def intro: wp_throw)

lemma fails_lifted: "r = Inl e \<Longrightarrow> fails view calm v (lifted r)"
  by (auto simp: fails_def wp_def lifted_def)

lemma fails_refuse: "b \<Longrightarrow> fails view calm v (refuse b msg)"
  by (simp add: refuse_def fails_throw)

lemma fails_here: "fails view calm v m \<Longrightarrow> fails view calm v (andThen m f)"
  unfolding fails_def by (auto intro: wp_seq)

lemma fails_later: "returns view calm v m a \<Longrightarrow> fails view calm v (f a) \<Longrightarrow> fails view calm v (andThen m f)"
  unfolding fails_def returns_def
  by (auto intro!: wp_seq [where Q' = "\<lambda>r t. False"] elim: wp_mono)

context signing_ports
begin

abbreviation runs :: "'v \<Rightarrow> ('w, serve_error, 'a) async \<Rightarrow> 'a \<Rightarrow> bool" where
  "runs \<equiv> returns view calm"

lemma signAnnouncementEntry_returns:
  "document entry \<Longrightarrow> runs v (signAnnouncementEntry entry (wo_signer opts)) (signed_envelope sigs MEDIA_ENTRY entry)"
  unfolding signAnnouncementEntry_def
  by (simp add: scope_law)
    (rule returns_andThen [OF returns_lifted], rule refl,
      rule returns_andThen [OF sign_law], rule returns_ret, simp add: signed_envelope_def)

lemma signHead_returns: "runs v (signHead head (wo_signer opts)) (signed_envelope sigs MEDIA_HEAD (head_object head))"
  unfolding signHead_def
  by (rule returns_andThen [OF returns_lifted], rule seal_document, rule head_document,
      rule returns_andThen [OF sign_law], rule returns_ret, simp add: signed_envelope_def)

abbreviation mint :: "mint_context \<Rightarrow> ('w, serve_error, append_intent) async" where
  "mint m \<equiv> mintIntent opts (mc_timestamp m) (mc_refreshBy m) (mc_announcement m) (mc_record m) (mc_fingerprint m)
     (mc_revision m) (mc_state m) (mc_previousHead m)"

lemma mint_documents:
  assumes "expectedSequenceOf (st_last (mc_state m)) = Inr q"
  shows "planned_sequence m = q"
    and "entry_json (wo_source opts) q (map_option po_entryDigest (st_last (mc_state m))) (mc_timestamp m) (mc_announcement m)
      = planned_entry opts m"
    and "page_object (snd (wo_source opts)) q (map_option po_page (st_last (mc_state m))) (planned_entry opts m)
      (signed_envelope sigs MEDIA_ENTRY (planned_entry opts m)) = planned_page opts sigs m"
    and "\<lparr>sh_protocol = RECORD_DISCOVERY_VERSION, sh_origin = sourceId opts, sh_sequence = q,
      sh_entry = digest_of opts (seal_text (planned_entry opts m)), sh_issuedAt = mc_timestamp m, sh_refreshBy = mc_refreshBy m\<rparr>
      = planned_head opts m"
  using assms by (simp_all add: planned_sequence_def planned_entry_def planned_page_def planned_head_def planned_digest_def)

lemma mint_returns:
  assumes "document (mc_announcement m)" and "state_ok opts (mc_state m)" and "plan_ok opts sigs m"
  shows "runs v (mint m) (planned_intent opts sigs m)"
proof -
  obtain q where q: "expectedSequenceOf (st_last (mc_state m)) = Inr q" using assms(3) by (auto simp: plan_ok_def)
  note pq = mint_documents(1) [OF q] and entry = mint_documents(2) [OF q] and page = mint_documents(3) [OF q]
    and head = mint_documents(4) [OF q]
  note docs = planned_documents [OF assms(1)] and state = state_document [OF assms(2)]
  show ?thesis
    unfolding mintIntent_def Let_def
    apply (rule returns_andThen [OF returns_lifted], rule q)
    apply (rule returns_andThen [OF returns_lifted], unfold entry, use assms(3) in \<open>simp add: plan_ok_def\<close>)
    apply (rule returns_andThen [OF returns_lifted], rule seal_document, rule docs)
    apply (rule returns_andThen [OF returns_refuse], use assms(3) in \<open>simp add: plan_ok_def\<close>)
    apply (rule returns_andThen [OF signAnnouncementEntry_returns], rule docs)
    apply (rule returns_andThen [OF assertSignerEnvelope_returns], simp)
    apply (rule returns_andThen [OF returns_lifted], unfold page, rule seal_document, rule docs)
    apply (rule returns_andThen [OF returns_refuse], use assms(3) in \<open>simp add: plan_ok_def\<close>)
    apply (unfold head, rule returns_andThen [OF signHead_returns])
    apply (rule returns_andThen [OF returns_lifted], rule seal_document, rule head_document)
    apply (rule returns_andThen [OF assertSignerEnvelope_returns], simp)
    apply (rule returns_andThen [OF returns_lifted], rule seal_document, rule envelope_document)
    apply (rule returns_andThen [OF returns_lifted [where a = "ai_previousStateDigest (planned_intent opts sigs m)"]])
     apply (simp add: planned_intent_def stateDigest_def seal_digest_def state)
    apply (rule returns_ret)
    apply (simp add: planned_intent_def planned_receipt_def planned_state_def planned_digest_def planned_envelope_def pq)
    done
qed

lemma mint_fails:
  assumes "document (mc_announcement m)" and "\<not> plan_ok opts sigs m"
  shows "fails view calm v (mint m)"
proof (cases "expectedSequenceOf (st_last (mc_state m))")
  case (Inl e)
  then show ?thesis unfolding mintIntent_def Let_def by (intro fails_here fails_lifted)
next
  case (Inr q)
  note entry = mint_documents(2) [OF Inr] and page = mint_documents(3) [OF Inr]
  note docs = planned_documents [OF assms(1)]
  show ?thesis
  proof (cases "parseAnnouncementEntry (planned_entry opts m)")
    case (Inl e)
    then show ?thesis unfolding mintIntent_def Let_def
      by (intro fails_later [OF returns_lifted [OF Inr]] fails_here fails_lifted) (simp add: entry)
  next
    case (Inr w)
    then have w: "parseAnnouncementEntry (planned_entry opts m) = Inr (planned_entry opts m)"
      using parseAnnouncementEntry_norm(1) [OF document_json_ok [OF docs(1)]] by blast
    show ?thesis
      unfolding mintIntent_def Let_def
      apply (rule fails_later [OF returns_lifted [OF \<open>expectedSequenceOf (st_last (mc_state m)) = Inr q\<close>]])
      apply (rule fails_later [OF returns_lifted], unfold entry, rule w)
      apply (rule fails_later [OF returns_lifted], rule seal_document, rule docs)
      apply (cases "length (seal_text (planned_entry opts m)) \<le> entrySealedBytes")
       apply (rule fails_later [OF returns_refuse], simp)
       apply (rule fails_later [OF signAnnouncementEntry_returns], rule docs)
       apply (rule fails_later [OF assertSignerEnvelope_returns], simp)
       apply (rule fails_later [OF returns_lifted], unfold page, rule seal_document, rule docs)
       apply (rule fails_here [OF fails_refuse], use assms(2) Inr w \<open>expectedSequenceOf (st_last (mc_state m)) = Inr q\<close> in \<open>simp add: plan_ok_def\<close>)
      apply (rule fails_here [OF fails_refuse], simp)
      done
  qed
qed

end

section \<open>A planned intent owns itself\<close>

text \<open>What an append has established when it mints.\<close>

definition context_ok :: "'w writer_options \<Rightarrow> signatures \<Rightarrow> mint_context \<Rightarrow> bool" where
  "context_ok opts sigs m \<longleftrightarrow>
     document (mc_announcement m) \<and> norm_json (mc_announcement m) = mc_announcement m
     \<and> state_ok opts (mc_state m) \<and> plan_ok opts sigs m
     \<and> mc_fingerprint m = digest_of opts (seal_text (fingerprint_object (wo_source opts) (JStr (mc_timestamp m))
         (mc_announcement m) (map_option rr_contentType (mc_record m))))
     \<and> (st_last (mc_state m) = None \<longleftrightarrow> mc_previousHead m = None)
     \<and> (\<forall>d p. mc_previousHead m = Some (d, p) \<longrightarrow> ms_greater (parseHeadTimestamp (mc_timestamp m)) (parseHeadTimestamp p))
     \<and> ms_greater (parseHeadTimestamp (mc_refreshBy m)) (parseHeadTimestamp (mc_timestamp m))
     \<and> refreshByWithinCeiling (mc_timestamp m) (mc_refreshBy m) MAX_AHEAD
     \<and> (if get_field (mc_announcement m) ''action'' = JStr ''available''
        then \<exists>r. mc_record m = Some r \<and> get_field (get_field (mc_announcement m) ''record'') ''digest'' = JStr (rr_digest r)
        else mc_record m = None)"

lemma entry_json_fields [simp]:
  "get_field (entry_json src q p ts a) ''protocol'' = JStr RECORD_DISCOVERY_VERSION"
  "get_field (entry_json src q p ts a) ''source'' = source_object src"
  "get_field (entry_json src q p ts a) ''sequence'' = JStr q"
  "get_field (entry_json src q p ts a) ''previous'' = nullable p"
  "get_field (entry_json src q p ts a) ''timestamp'' = JStr ts"
  "get_field (entry_json src q p ts a) ''announcements'' = JArr [a]"
  "is_object (entry_json src q p ts a)"
  by (simp_all add: entry_json_def)

lemma source_object_fields [simp]:
  "get_field (source_object src) ''agent'' = JStr (fst src)" "get_field (source_object src) ''name'' = JStr (snd src)"
  "is_object (source_object src)"
  by (simp_all add: source_object_def)

lemma page_object_fields [simp]:
  "get_field (page_object n q p e s) ''protocol'' = JStr RECORD_DISCOVERY_VERSION"
  "get_field (page_object n q p e s) ''source'' = JStr n"
  "get_field (page_object n q p e s) ''page'' = JStr q"
  "get_field (page_object n q p e s) ''prevArchive'' = nullable p"
  "get_field (page_object n q p e s) ''entries'' = JArr [JObj [(''entry'', e), (''signature'', envelope_object s)]]"
  "is_object (page_object n q p e s)"
  by (simp_all add: page_object_def)

lemma nullable_norm [simp]: "norm_json (nullable v) = nullable v"
  by (cases v) (simp_all add: nullable_def)

text \<open>What an accepted entry of one announcement says.\<close>

lemma parsed_single_entry:
  assumes "parseAnnouncementEntry (entry_json src q p ts a) = Inr w"
  shows "fst src \<noteq> []" "isSourceName (snd src)" "SequenceSchema q" "is_object a"
    "\<exists>i. get_field a ''announcementId'' = JStr i \<and> i \<noteq> []"
    "get_field a ''action'' = JStr ''available'' \<or> get_field a ''action'' = JStr ''withdrawn''"
    "get_field a ''action'' = JStr ''available'' \<Longrightarrow> is_object (get_field a ''record'')"
proof -
  have schema: "AnnouncementEntrySchema (entry_json src q p ts a)" and name: "isSourceName (snd src)"
    using assms by (auto simp: parseAnnouncementEntry_def split: if_splits)
  show "isSourceName (snd src)" by (fact name)
  have str: "string_field P k v \<longleftrightarrow> (\<exists>s. get_field v k = JStr s \<and> P s)" for P k v
    by (cases "get_field v k") (simp_all add: string_field_def)
  show "fst src \<noteq> []" "SequenceSchema q" using schema by (auto simp: AnnouncementEntrySchema_def str)
  have a: "AnnouncementSchema a" using schema by (simp add: AnnouncementEntrySchema_def)
  then show "is_object a" "\<exists>i. get_field a ''announcementId'' = JStr i \<and> i \<noteq> []"
    "get_field a ''action'' = JStr ''available'' \<or> get_field a ''action'' = JStr ''withdrawn''"
    by (auto simp: AnnouncementSchema_def AvailableAnnouncementSchema_def WithdrawnAnnouncementSchema_def str)
  show "is_object (get_field a ''record'')" if "get_field a ''action'' = JStr ''available''"
    using a that by (auto simp: AnnouncementSchema_def AvailableAnnouncementSchema_def WithdrawnAnnouncementSchema_def
        RecordRefSchema_def str)
qed

lemma read_object: "is_object v \<Longrightarrow> read_field v k = Inr (get_field v k)"
  by (cases v) (simp_all add: read_field_def)

lemma is_object_norm [simp]: "is_object (norm_json v) = is_object v"
  by (rule norm_shape)

lemma read_index_one [simp]: "read_index (JArr [x]) 0 = Inr x"
  by (simp add: read_index_def)

lemma read_length_one [simp]: "read_length (JArr [x]) = Inr (JNum ''1'')"
proof -
  have "dec 1 = ''1''" by code_simp
  then show ?thesis by (simp add: read_length_def)
qed

context signing_ports
begin

lemma thaw_returns [simp]: "runs v (thawFrozenBlob opts (frozenBlob opts path bytes contentType) label) bytes"
  unfolding thawFrozenBlob_def
  by (rule returns_andThen [OF returns_lifted], simp add: frozenBlob_def, rule returns_andThen [OF returns_refuse],
      simp add: frozenBlob_def, rule returns_ret, rule refl)

end

context signing_ports
begin

definition planned_signed_entry :: "mint_context \<Rightarrow> json" where
  "planned_signed_entry m =
     JObj [(''entry'', planned_entry opts m), (''signature'', envelope_object (signed_envelope sigs MEDIA_ENTRY (planned_entry opts m)))]"

lemma context_facts:
  assumes "context_ok opts sigs m"
  shows "document (mc_announcement m)" "norm_json (mc_announcement m) = mc_announcement m" "state_ok opts (mc_state m)"
    "document (planned_entry opts m)" "document (planned_page opts sigs m)" "document (planned_signed_entry m)"
    "parseAnnouncementEntry (planned_entry opts m) = Inr (planned_entry opts m)"
    "expectedSequenceOf (st_last (mc_state m)) = Inr (planned_sequence m)"
    "length (seal_text (planned_entry opts m)) \<le> entrySealedBytes"
    "length (seal_text (planned_page opts sigs m)) \<le> archivePageBytes"
proof -
  show "document (mc_announcement m)" "norm_json (mc_announcement m) = mc_announcement m" "state_ok opts (mc_state m)"
    using assms by (simp_all add: context_ok_def)
  then show "document (planned_entry opts m)" "document (planned_page opts sigs m)" "document (planned_signed_entry m)"
    by (simp_all add: planned_documents planned_signed_entry_def document_Obj)
  have plan: "plan_ok opts sigs m" using assms by (simp add: context_ok_def)
  then obtain q where "expectedSequenceOf (st_last (mc_state m)) = Inr q" by (auto simp: plan_ok_def)
  then show "expectedSequenceOf (st_last (mc_state m)) = Inr (planned_sequence m)" by (simp add: planned_sequence_def)
  show "parseAnnouncementEntry (planned_entry opts m) = Inr (planned_entry opts m)"
    "length (seal_text (planned_entry opts m)) \<le> entrySealedBytes" "length (seal_text (planned_page opts sigs m)) \<le> archivePageBytes"
    using plan by (simp_all add: plan_ok_def)
qed

lemma announcement_facts:
  assumes "context_ok opts sigs m"
  shows "fst (wo_source opts) \<noteq> []" "isSourceName (snd (wo_source opts))" "SequenceSchema (planned_sequence m)"
    "is_object (mc_announcement m)"
    "get_field (mc_announcement m) ''announcementId'' = JStr (field_text_of (mc_announcement m) ''announcementId'')"
    "get_field (mc_announcement m) ''action'' = JStr (field_text_of (mc_announcement m) ''action'')"
  using parsed_single_entry [OF context_facts(7) [OF assms, unfolded planned_entry_def]] by auto

lemma page_reads:
  assumes "context_ok opts sigs m"
  shows "read_field (norm_json (planned_page opts sigs m)) ''protocol'' = Inr (JStr RECORD_DISCOVERY_VERSION)"
    "read_field (norm_json (planned_page opts sigs m)) ''source'' = Inr (JStr (snd (wo_source opts)))"
    "read_field (norm_json (planned_page opts sigs m)) ''page'' = Inr (JStr (planned_sequence m))"
    "read_field (norm_json (planned_page opts sigs m)) ''prevArchive'' = Inr (nullable (map_option po_page (st_last (mc_state m))))"
    "read_field (norm_json (planned_page opts sigs m)) ''entries'' = Inr (JArr [norm_json (planned_signed_entry m)])"
    "read_field (norm_json (planned_signed_entry m)) ''entry'' = Inr (norm_json (planned_entry opts m))"
    "get_field (norm_json (planned_signed_entry m)) ''signature''
       = norm_json (envelope_object (signed_envelope sigs MEDIA_ENTRY (planned_entry opts m)))"
    "is_object (norm_json (planned_signed_entry m))"
proof -
  note docs = context_facts(5,6) [OF assms]
  have obj: "is_object (planned_page opts sigs m)" "is_object (planned_signed_entry m)"
    by (simp_all add: planned_page_def planned_signed_entry_def)
  note page = read_norm_field [OF docs(1) obj(1)] and signed = read_norm_field [OF docs(2) obj(2)]
  show "read_field (norm_json (planned_page opts sigs m)) ''protocol'' = Inr (JStr RECORD_DISCOVERY_VERSION)"
    "read_field (norm_json (planned_page opts sigs m)) ''source'' = Inr (JStr (snd (wo_source opts)))"
    "read_field (norm_json (planned_page opts sigs m)) ''page'' = Inr (JStr (planned_sequence m))"
    "read_field (norm_json (planned_page opts sigs m)) ''prevArchive'' = Inr (nullable (map_option po_page (st_last (mc_state m))))"
    "read_field (norm_json (planned_page opts sigs m)) ''entries'' = Inr (JArr [norm_json (planned_signed_entry m)])"
    unfolding page by (simp_all add: planned_page_def planned_signed_entry_def)
  show "read_field (norm_json (planned_signed_entry m)) ''entry'' = Inr (norm_json (planned_entry opts m))"
    unfolding signed by (simp add: planned_signed_entry_def)
  show "get_field (norm_json (planned_signed_entry m)) ''signature''
       = norm_json (envelope_object (signed_envelope sigs MEDIA_ENTRY (planned_entry opts m)))"
    using docs(2) by (simp add: norm_get_field) (simp add: planned_signed_entry_def)
  show "is_object (norm_json (planned_signed_entry m))" using obj(2) by simp
qed

lemma entry_reads:
  assumes "context_ok opts sigs m"
  shows "read_path (norm_json (planned_entry opts m)) [''source'', ''agent''] = Inr (JStr (fst (wo_source opts)))"
    "read_path (norm_json (planned_entry opts m)) [''source'', ''name''] = Inr (JStr (snd (wo_source opts)))"
    "read_field (norm_json (planned_entry opts m)) ''sequence'' = Inr (JStr (planned_sequence m))"
    "read_field (norm_json (planned_entry opts m)) ''previous'' = Inr (nullable (map_option po_entryDigest (st_last (mc_state m))))"
    "read_field (norm_json (planned_entry opts m)) ''announcements'' = Inr (JArr [mc_announcement m])"
    "get_field (norm_json (planned_entry opts m)) ''timestamp'' = JStr (mc_timestamp m)"
    "read_path (norm_json (planned_signed_entry m)) [''entry'', ''announcements''] = Inr (JArr [mc_announcement m])"
    "read_path (norm_json (planned_signed_entry m)) [''signature'', ''payload''] = Inr (JStr (btoa (seal_text (planned_entry opts m))))"
    "get_field (get_field (norm_json (planned_signed_entry m)) ''signature'') ''payloadType'' = JStr MEDIA_ENTRY"
proof -
  have obj: "is_object (planned_entry opts m)" by (simp add: planned_entry_def)
  note entry = read_norm_field [OF context_facts(4) [OF assms] obj] and src = read_norm_field [of "source_object (wo_source opts)"]
  have fields: "read_field (norm_json (planned_entry opts m)) ''source'' = Inr (norm_json (source_object (wo_source opts)))"
    unfolding entry by (simp add: planned_entry_def)
  show "read_field (norm_json (planned_entry opts m)) ''sequence'' = Inr (JStr (planned_sequence m))"
    "read_field (norm_json (planned_entry opts m)) ''previous'' = Inr (nullable (map_option po_entryDigest (st_last (mc_state m))))"
    unfolding entry by (simp_all add: planned_entry_def)
  show as: "read_field (norm_json (planned_entry opts m)) ''announcements'' = Inr (JArr [mc_announcement m])"
    unfolding entry by (simp add: planned_entry_def context_facts(2) [OF assms])
  show "read_path (norm_json (planned_entry opts m)) [''source'', ''agent''] = Inr (JStr (fst (wo_source opts)))"
    "read_path (norm_json (planned_entry opts m)) [''source'', ''name''] = Inr (JStr (snd (wo_source opts)))"
    by (simp_all add: read_path_def fields src)
  show "get_field (norm_json (planned_entry opts m)) ''timestamp'' = JStr (mc_timestamp m)"
    using context_facts(4) [OF assms] by (simp add: norm_get_field) (simp add: planned_entry_def)
  show "read_path (norm_json (planned_signed_entry m)) [''entry'', ''announcements''] = Inr (JArr [mc_announcement m])"
    by (simp add: read_path_def page_reads(6) [OF assms] as)
  let ?e = "envelope_object (signed_envelope sigs MEDIA_ENTRY (planned_entry opts m))"
  have env: "is_object ?e" "get_field ?e ''payload'' = JStr (btoa (seal_text (planned_entry opts m)))"
      "get_field ?e ''payloadType'' = JStr MEDIA_ENTRY"
    by (simp_all add: envelope_object_def signed_envelope_def)
  have sig: "read_field (norm_json (planned_signed_entry m)) ''signature'' = Inr (norm_json ?e)"
    using read_object [OF page_reads(8) [OF assms]] page_reads(7) [OF assms] by simp
  then show "read_path (norm_json (planned_signed_entry m)) [''signature'', ''payload''] = Inr (JStr (btoa (seal_text (planned_entry opts m))))"
    using env(1,2) read_norm_field [of ?e] by (simp add: read_path_def)
  show "get_field (get_field (norm_json (planned_signed_entry m)) ''signature'') ''payloadType'' = JStr MEDIA_ENTRY"
    using env(3) by (simp add: page_reads(7) [OF assms] norm_get_field)
qed

end

lemma planned_intent_fields [simp]:
  "ai_version (planned_intent opts sigs m) = 1" "ai_source (planned_intent opts sigs m) = wo_source opts"
  "ai_signerKeyId (planned_intent opts sigs m) = wo_keyId opts"
  "ai_announcementId (planned_intent opts sigs m) = field_text_of (mc_announcement m) ''announcementId''"
  "ai_fingerprint (planned_intent opts sigs m) = mc_fingerprint m"
  "ai_expectedStateRevision (planned_intent opts sigs m) = mc_revision m"
  "ai_previousPosition (planned_intent opts sigs m) = st_last (mc_state m)"
  "ai_expectedHeadDigest (planned_intent opts sigs m) = map_option fst (mc_previousHead m)"
  "ai_previousHeadIssuedAt (planned_intent opts sigs m) = map_option snd (mc_previousHead m)"
  "ai_record (planned_intent opts sigs m) = mc_record m"
  "ai_page (planned_intent opts sigs m) = frozenBlob opts (archivePagePath (snd (wo_source opts)) (planned_sequence m))
     (seal_text (planned_page opts sigs m)) ARCHIVE_PAGE_CONTENT_TYPE"
  "ai_head (planned_intent opts sigs m) = frozenBlob opts (headPath (snd (wo_source opts)))
     (seal_text (planned_envelope opts sigs m)) MEDIA_HEAD"
  "ai_nextState (planned_intent opts sigs m) = planned_state opts m"
  "ai_receipt (planned_intent opts sigs m) = planned_receipt opts m"
  by (simp_all add: planned_intent_def)

lemma planned_receipt_fields [simp]:
  "rc_source (planned_receipt opts m) = wo_source opts"
  "rc_announcementId (planned_receipt opts m) = field_text_of (mc_announcement m) ''announcementId''"
  "rc_fingerprint (planned_receipt opts m) = mc_fingerprint m" "rc_sequence (planned_receipt opts m) = planned_sequence m"
  "rc_entryDigest (planned_receipt opts m) = planned_digest opts m" "rc_page (planned_receipt opts m) = planned_sequence m"
  "rc_record (planned_receipt opts m) = mc_record m"
  by (simp_all add: planned_receipt_def)

lemma planned_state_fields [simp]:
  "st_version (planned_state opts m) = st_version (mc_state m)" "st_source (planned_state opts m) = st_source (mc_state m)"
  "st_signerKeyId (planned_state opts m) = st_signerKeyId (mc_state m)"
  "st_last (planned_state opts m) = Some \<lparr>po_sequence = planned_sequence m, po_entryDigest = planned_digest opts m, po_page = planned_sequence m\<rparr>"
  "map_of (st_announcements (planned_state opts m)) (field_text_of (mc_announcement m) ''announcementId'')
     = Some \<lparr>pb_action = field_text_of (mc_announcement m) ''action'', pb_fingerprint = mc_fingerprint m, pb_receipt = planned_receipt opts m\<rparr>"
  by (simp_all add: planned_state_def update_conv')

lemma planned_state_ok: "state_ok opts (mc_state m) \<Longrightarrow> state_ok opts (planned_state opts m)"
  by (simp add: state_ok_def planned_state_def distinct_update)

lemma frozenBlob_fields [simp]:
  "fb_path (frozenBlob opts p b c) = p" "fb_contentType (frozenBlob opts p b c) = c" "fb_digest (frozenBlob opts p b c) = digest_of opts b"
  by (simp_all add: frozenBlob_def)

lemma assertStateOwnership_returns: "state_ok opts state \<Longrightarrow> returns view calm v (assertStateOwnership opts state) ()"
  unfolding assertStateOwnership_def
  by (rule returns_andThen [OF returns_refuse returns_refuse]) (simp_all add: state_ok_def)

context signing_ports
begin

lemma pageAnnouncementAction_returns:
  assumes "context_ok opts sigs m"
  shows "runs v (pageAnnouncementAction opts (planned_intent opts sigs m)) (get_field (mc_announcement m) ''action'')"
proof -
  have obj: "norm_json (planned_signed_entry m) \<noteq> JUndef" "norm_json (planned_signed_entry m) \<noteq> JNull"
    using page_reads(8) [OF assms] by (auto simp del: is_object_norm)
  have ann: "is_object (mc_announcement m)" by (rule announcement_facts [OF assms])
  then have ne: "mc_announcement m \<noteq> JUndef" by auto
  show ?thesis unfolding pageAnnouncementAction_def planned_intent_fields
    apply (rule returns_andThen [OF thaw_returns])
    apply (rule returns_andThen [OF returns_lifted [where a = "mc_announcement m"]])
     apply (simp add: context_facts(5) [OF assms] page_reads(5) [OF assms] obj entry_reads(7) [OF assms] del: norm_json_undef_iff)
    apply (rule returns_andThen [OF returns_refuse], simp add: ne)
    apply (rule returns_lifted, rule read_object [OF ann])
    done
qed

lemma assertIntentIdentity_returns:
  assumes "context_ok opts sigs m"
  shows "runs v (assertIntentIdentity opts (planned_intent opts sigs m)) ()"
proof -
  have null: "(st_last (mc_state m) = None) = (map_option snd (mc_previousHead m) = None)" using assms by (simp add: context_ok_def)
  have digest: "seal_digest opts (receipt_object r) = Inr (digest_of opts (seal_text (receipt_object r)))" for r
    by (simp add: seal_digest_def)
  have published: "runs v (publishedMatches opts (planned_intent opts sigs m)) True"
    unfolding publishedMatches_def object_member_def planned_intent_fields planned_state_fields option.case member.case
    apply (rule returns_andThen [OF pageAnnouncementAction_returns [OF assms]])
    apply (simp add: announcement_facts(6) [OF assms, symmetric])
    apply (rule returns_andThen [OF returns_lifted], rule digest)
    apply (rule returns_andThen [OF returns_lifted], rule digest)
    apply (rule returns_ret, simp)
    done
  show ?thesis unfolding assertIntentIdentity_def
    apply (rule returns_andThen [OF returns_refuse], simp)
    apply (rule returns_andThen [OF returns_refuse], simp)
    apply (rule returns_andThen [OF returns_refuse], simp)
    apply (rule returns_andThen [OF returns_refuse], use null in simp)
    apply (rule returns_andThen [OF assertStateOwnership_returns], use context_facts(3) [OF assms] in \<open>simp add: planned_state_ok\<close>)
    apply (rule returns_andThen [OF published])
    apply (rule returns_andThen [OF returns_refuse], simp)
    apply (rule returns_refuse, simp)
    done
qed

lemma assertIntentPage_returns:
  assumes "context_ok opts sigs m"
  shows "runs v (assertIntentPage opts (planned_intent opts sigs m)) (norm_json (planned_entry opts m))"
proof -
  note c = context_facts [OF assms] and p = page_reads [OF assms] and e = entry_reads [OF assms]
  have aid: "read_field (mc_announcement m) ''announcementId'' = Inr (JStr (field_text_of (mc_announcement m) ''announcementId''))"
    using read_object [OF announcement_facts(4) [OF assms]] announcement_facts(5) [OF assms] by simp
  show ?thesis unfolding assertIntentPage_def Let_def planned_intent_fields
    apply (rule returns_andThen [OF thaw_returns])
    apply (rule returns_andThen [OF returns_lifted], rule decode_document, rule c)
    apply (rule returns_andThen [OF returns_refuse], use c(10) in simp)
    apply (rule returns_andThen [OF returns_lifted], rule seal_document, rule document_norm, rule c)
    apply (rule returns_andThen [OF returns_refuse], use c(5) in simp)
    apply (rule returns_andThen [OF returns_refuse_if], simp add: differs_def p)
    apply (rule returns_andThen [OF returns_lifted [where a = "norm_json (planned_signed_entry m)"]], simp add: p)
    apply (rule returns_andThen [OF returns_lifted], rule p)
    apply (rule returns_andThen [OF returns_lifted], rule seal_document, rule document_norm, rule c)
    apply (rule returns_andThen [OF returns_refuse], use c(4,9) in simp)
    apply (rule returns_andThen [OF returns_lifted], rule c)
    apply (rule returns_andThen [OF returns_refuse_if], simp add: differs_def e aid c(4) planned_digest_def)
    apply (unfold p(7) seal_text_norm [OF c(4)], rule returns_andThen [OF assertSignerEnvelope_returns], simp)
    apply (rule returns_ret, rule refl)
    done
qed

lemma assertIntentAnnouncement_returns:
  assumes "context_ok opts sigs m"
  shows "runs v (assertIntentAnnouncement opts (planned_intent opts sigs m) (norm_json (planned_entry opts m))) ()"
proof -
  note c = context_facts [OF assms] and e = entry_reads [OF assms]
  have fp: "mc_fingerprint m = digest_of opts (seal_text (fingerprint_object (wo_source opts) (JStr (mc_timestamp m))
      (mc_announcement m) (map_option rr_contentType (mc_record m))))"
    and rec: "if get_field (mc_announcement m) ''action'' = JStr ''available''
      then \<exists>r. mc_record m = Some r \<and> get_field (get_field (mc_announcement m) ''record'') ''digest'' = JStr (rr_digest r)
      else mc_record m = None"
    using assms by (simp_all add: context_ok_def)
  have doc: "document (fingerprint_object (wo_source opts) (JStr (mc_timestamp m)) (mc_announcement m) (map_option rr_contentType (mc_record m)))"
    using c(1) by (simp add: fingerprint_object_def document_Obj)
  have path: "read_path (mc_announcement m) [''record'', ''digest''] = Inr (get_field (get_field (mc_announcement m) ''record'') ''digest'')"
    if "get_field (mc_announcement m) ''action'' = JStr ''available''"
    using parsed_single_entry(4,7) [OF c(7) [unfolded planned_entry_def]] that by (simp add: read_path_def read_object)
  show ?thesis unfolding assertIntentAnnouncement_def planned_intent_fields
    apply (rule returns_andThen [OF returns_lifted [where a = "mc_announcement m"]], simp add: e)
    apply (rule returns_andThen [OF returns_lifted [where a = "mc_fingerprint m"]])
     apply (simp add: seal_digest_def e doc fp)
    apply (rule returns_andThen [OF returns_refuse], simp)
    using rec path
    apply (auto simp: differs_def intro!: returns_refuse_if returns_refuse split: if_splits)
    done
qed

lemma planned_head_valid:
  assumes "context_ok opts sigs m"
  shows "head_valid (planned_head opts m)"
proof -
  note a = announcement_facts [OF assms]
  have "CHR ''/'' \<notin> set (snd (wo_source opts))" using a(2) by (auto simp: isSourceName_def list_all_iff)
  then have "splitOrigin (sourceId opts) = Inr (wo_source opts)"
    by (cases "wo_source opts") (simp add: splitOrigin_iff proper_source_def sourceKey_def formatOrigin_def)
  then have "\<exists>agent name. splitOrigin (sourceId opts) = Inr (agent, name) \<and> agent \<noteq> [] \<and> isSourceName name"
    using a(1,2) by (cases "wo_source opts") auto
  moreover have "isHeadTimestamp (mc_timestamp m)" "isHeadTimestamp (mc_refreshBy m)"
    using assms by (auto simp: context_ok_def isHeadTimestamp_def ms_greater_iff)
  ultimately show ?thesis using a(3) by (simp add: head_valid_def planned_head_def planned_digest_def digest_hex)
qed

lemma planned_head_fields [simp]:
  "sh_origin (planned_head opts m) = sourceId opts" "sh_sequence (planned_head opts m) = planned_sequence m"
  "sh_entry (planned_head opts m) = planned_digest opts m" "sh_issuedAt (planned_head opts m) = mc_timestamp m"
  "sh_refreshBy (planned_head opts m) = mc_refreshBy m"
  by (simp_all add: planned_head_def)

lemma head_reads [simp]:
  "get_field (norm_json (head_object h)) ''origin'' = JStr (sh_origin h)"
  "get_field (norm_json (head_object h)) ''sequence'' = JStr (sh_sequence h)"
  "get_field (norm_json (head_object h)) ''entry'' = JStr (sh_entry h)"
  "get_field (norm_json (head_object h)) ''issuedAt'' = JStr (sh_issuedAt h)"
  "get_field (norm_json (head_object h)) ''refreshBy'' = JStr (sh_refreshBy h)"
  using head_object_ok(1) [of h] by (simp_all add: norm_get_field, simp_all add: head_object_def)

text \<open>A head that this source signed is read back.\<close>

lemma parseHeadEnvelope_returns:
  assumes "head_valid h"
  shows "runs v (parseHeadEnvelope (seal_text (envelope_object (signed_envelope sigs MEDIA_HEAD (head_object h)))))
    (norm_json (envelope_object (signed_envelope sigs MEDIA_HEAD (head_object h))), norm_json (head_object h), seal_text (head_object h))"
proof -
  let ?e = "envelope_object (signed_envelope sigs MEDIA_HEAD (head_object h))"
  have env: "is_object ?e" "get_field ?e ''payload'' = JStr (btoa (seal_text (head_object h)))" "get_field ?e ''payloadType'' = JStr MEDIA_HEAD"
    by (simp_all add: envelope_object_def signed_envelope_def)
  have parsed: "parseSourceHead (norm_json (head_object h)) = Inr (norm_json (head_object h))"
    using assms head_schema parse_norm_iff(2) [OF head_object_ok(1)] by blast
  show ?thesis unfolding parseHeadEnvelope_def
    apply (rule returns_andThen [OF returns_lifted], rule decode_document, rule envelope_document)
    apply (rule returns_andThen [OF returns_refuse_if], use env read_norm_field [of ?e] in \<open>simp add: differs_def\<close>)
    apply (rule returns_andThen [OF returns_lifted [where a = "seal_text (head_object h)"]], use env(2) in \<open>simp add: norm_get_field\<close>)
    apply (rule returns_andThen [OF returns_lifted [where a = "norm_json (head_object h)"]], use parsed in simp)
    apply (rule returns_andThen [OF returns_lifted], rule seal_document, simp)
    apply (rule returns_andThen [OF returns_refuse], simp)
    apply (rule returns_ret, rule refl)
    done
qed

lemma assertIntentHead_returns:
  assumes "context_ok opts sigs m"
  shows "runs v (assertIntentHead opts (planned_intent opts sigs m) (norm_json (planned_entry opts m))) ()"
proof -
  have prev: "\<not> (case map_option snd (mc_previousHead m) of None \<Rightarrow> False
      | Some p \<Rightarrow> \<not> ms_greater (parseHeadTimestamp (mc_timestamp m)) (parseHeadTimestamp p))"
    and window: "ms_greater (parseHeadTimestamp (mc_refreshBy m)) (parseHeadTimestamp (mc_timestamp m))"
      "refreshByWithinCeiling (mc_timestamp m) (mc_refreshBy m) MAX_AHEAD"
    using assms by (auto simp: context_ok_def split: option.splits)
  show ?thesis unfolding assertIntentHead_def Let_def planned_intent_fields
    apply (rule returns_andThen [OF thaw_returns])
    apply (rule returns_andThen [OF returns_refuse], simp)
    apply (unfold planned_envelope_def, rule returns_andThen [OF parseHeadEnvelope_returns [OF planned_head_valid [OF assms]]])
    apply (unfold prod.case, rule returns_andThen [OF assertSignerEnvelope_returns], simp)
    apply (rule returns_refuse, use prev window entry_reads(6) [OF assms] in \<open>cases "mc_previousHead m"; simp\<close>)
    done
qed

lemma assertIntentOwnership_returns:
  assumes "context_ok opts sigs m"
  shows "runs v (assertIntentOwnership opts (planned_intent opts sigs m)) ()"
  unfolding assertIntentOwnership_def
  by (rule returns_andThen [OF assertIntentIdentity_returns [OF assms]],
      rule returns_andThen [OF assertIntentPage_returns [OF assms]],
      rule returns_andThen [OF assertIntentAnnouncement_returns [OF assms]], rule assertIntentHead_returns [OF assms])

end

end
