(* ===== verification/Writer_Append.thy ===== *)
theory Writer_Append
  imports Writer_Recovery
begin

text \<open>
  Appending, from every reachable condition of the durable data. \<open>replayed\<close> and \<open>admitted\<close> are the two ways an
  append returns, and an append that is neither is refused. An admitted append reaches the settled data or is
  left by a crash at a stage from which the same command, or any recovery, reaches the same data.
\<close>

section \<open>What an append decides by\<close>

abbreviation record_bytes :: "append_command \<Rightarrow> bytes" where
  "record_bytes command \<equiv> fst (the (ac_record command))"

definition with_record :: "append_command \<Rightarrow> mint_context \<Rightarrow> durable \<Rightarrow> durable" where
  "with_record command m v =
     (case mc_record m of None \<Rightarrow> v | Some r \<Rightarrow> stored_at (rr_path r) (record_bytes command) (rr_contentType r) v)"

definition record_fits :: "append_command \<Rightarrow> mint_context \<Rightarrow> durable \<Rightarrow> bool" where
  "record_fits command m v =
     (case mc_record m of None \<Rightarrow> True | Some r \<Rightarrow> compatible (rr_path r) (record_bytes command) (rr_contentType r) v)"

definition record_stage :: "append_command \<Rightarrow> mint_context \<Rightarrow> durable \<Rightarrow> durable \<Rightarrow> bool" where
  "record_stage command m v u \<longleftrightarrow>
     u = v \<or> u = with_record command m v
     \<or> (\<exists>r. mc_record m = Some r \<and> u = claimed (rr_path r) (rr_contentType r) v)"

definition only_record :: "mint_context \<Rightarrow> durable \<Rightarrow> durable \<Rightarrow> bool" where
  "only_record m v u \<longleftrightarrow> u = v \<or> (\<exists>r. mc_record m = Some r \<and> off_path (rr_path r) v u) \<and> typed u"

text \<open>What \<open>append\<close> has established of its arguments before the loop.\<close>

definition prepared :: "'w writer_options \<Rightarrow> append_command \<Rightarrow> int \<Rightarrow> string option \<Rightarrow> mint_context \<Rightarrow> bool" where
  "prepared opts command ms failure m \<longleftrightarrow>
     document (mc_announcement m) \<and> norm_json (mc_announcement m) = mc_announcement m
     \<and> mc_fingerprint m = digest_of opts (seal_text (fingerprint_object (wo_source opts) (JStr (mc_timestamp m))
         (mc_announcement m) (map_option rr_contentType (mc_record m))))
     \<and> ac_timestamp command = mc_timestamp m \<and> parseHeadTimestamp (mc_timestamp m) = Some ms
     \<and> (failure = None \<longrightarrow> ms_greater (parseHeadTimestamp (mc_refreshBy m)) (parseHeadTimestamp (mc_timestamp m))
          \<and> refreshByWithinCeiling (mc_timestamp m) (mc_refreshBy m) MAX_AHEAD)
     \<and> (if get_field (mc_announcement m) ''action'' = JStr ''available''
        then \<exists>r. mc_record m = Some r \<and> rr_digest r = digest_of opts (record_bytes command) \<and> rr_path r = recordPath (rr_digest r)
               \<and> get_field (get_field (mc_announcement m) ''record'') ''digest'' = JStr (rr_digest r)
        else mc_record m = None)"

text \<open>What the loop reads of the durable data.\<close>

definition poised :: "'w writer_options \<Rightarrow> signatures \<Rightarrow> (source_state \<Rightarrow> string) \<Rightarrow> mint_context \<Rightarrow> durable \<Rightarrow> bool" where
  "poised opts sigs stateRev m v \<longleftrightarrow>
     mc_state m = state_of opts v \<and> mc_revision m = map_option stateRev (du_state v)
     \<and> head_matches opts sigs v (state_of opts v) (mc_previousHead m)"

abbreviation announcement_id :: "mint_context \<Rightarrow> string" where
  "announcement_id m \<equiv> field_text_of (mc_announcement m) ''announcementId''"

definition replayed :: "mint_context \<Rightarrow> source_receipt \<Rightarrow> bool" where
  "replayed m receipt \<longleftrightarrow>
     (\<exists>e. object_member (st_announcements (mc_state m)) (announcement_id m) = Own e
        \<and> pb_fingerprint e = mc_fingerprint m \<and> receipt = pb_receipt e)"

definition targeted :: "mint_context \<Rightarrow> bool" where
  "targeted m \<longleftrightarrow>
     get_field (mc_announcement m) ''action'' = JStr ''withdrawn'' \<longrightarrow>
       (\<exists>t. object_member (st_announcements (mc_state m)) (field_text_of (mc_announcement m) ''retracts'') = Own t
          \<and> pb_action t = ''available'')"

definition admitted ::
  "'w writer_options \<Rightarrow> signatures \<Rightarrow> append_command \<Rightarrow> int \<Rightarrow> string option \<Rightarrow> mint_context \<Rightarrow> durable \<Rightarrow> bool" where
  "admitted opts sigs command ms failure m v \<longleftrightarrow>
     object_member (st_announcements (mc_state m)) (announcement_id m) = Absent \<and> failure = None \<and> targeted m
     \<and> record_fits command m v
     \<and> (case mc_previousHead m of None \<Rightarrow> True | Some (_, issuedAt) \<Rightarrow> ms_greater (Some ms) (parseHeadTimestamp issuedAt))
     \<and> plan_ok opts sigs m"

text \<open>The state and its successor have different digests.\<close>

definition told_apart :: "'w writer_options \<Rightarrow> mint_context \<Rightarrow> bool" where
  "told_apart opts m \<longleftrightarrow> stateDigest opts (mc_state m) \<noteq> stateDigest opts (planned_state opts m)"

section \<open>The record does not disturb the source\<close>

lemma off_path_reads:
  assumes "off_path (recordPath d) v u"
  shows "state_of opts u = state_of opts v" "head_matches opts sigs u st prev = head_matches opts sigs v st prev"
    "head_declared opts u = head_declared opts v" "free_after opts u n = free_after opts v n"
    "du_state u = du_state v" "du_intent u = du_intent v" "archive_chain opts u k e = archive_chain opts v k e"
proof -
  note o = assms [unfolded off_path_def]
  show "archive_chain opts u k e = archive_chain opts v k e" by (rule archive_chain_cong) (use o in simp)
  show "du_state u = du_state v" "du_intent u = du_intent v" using o by simp_all
  then show "state_of opts u = state_of opts v" by (simp add: state_of_def)
  show "head_matches opts sigs u st prev = head_matches opts sigs v st prev" by (rule head_matches_cong) (use o in simp)
  show "head_declared opts u = head_declared opts v" using o by (simp add: head_declared_def)
  show "free_after opts u n = free_after opts v n" using o by (simp add: free_after_def)
qed

lemma idle_off_path: "off_path (recordPath d) v u \<Longrightarrow> typed u \<Longrightarrow> idle opts sigs v \<Longrightarrow> idle opts sigs u"
  by (simp add: idle_def off_path_reads)

lemma poised_off_path: "off_path (recordPath d) v u \<Longrightarrow> poised opts sigs stateRev m u = poised opts sigs stateRev m v"
  by (simp add: poised_def off_path_reads)

lemma prepared_record:
  assumes "prepared opts command ms failure m" and "mc_record m = Some r"
  shows "rr_digest r = digest_of opts (record_bytes command)" "rr_path r = recordPath (rr_digest r)"
  using assms by (auto simp: prepared_def split: if_splits)

lemma record_stages:
  assumes "prepared opts command ms failure m" and "typed v" and "record_fits command m v" and "record_stage command m v u"
  shows "typed u" "record_fits command m u" "with_record command m u = with_record command m v"
    "u \<noteq> v \<Longrightarrow> \<exists>d. off_path (recordPath d) v u"
proof -
  consider "u = v" | r where "mc_record m = Some r" "u = claimed (rr_path r) (rr_contentType r) v"
    | r where "mc_record m = Some r" "u = stored_at (rr_path r) (record_bytes command) (rr_contentType r) v"
    using assms(4) by (auto simp: record_stage_def with_record_def split: option.splits)
  then have "typed u \<and> record_fits command m u \<and> with_record command m u = with_record command m v
      \<and> (u \<noteq> v \<longrightarrow> (\<exists>d. off_path (recordPath d) v u))"
  proof cases
    case 1
    then show ?thesis using assms by simp
  next
    case (2 r)
    have "du_claimed v (rr_path r) = None \<or> du_claimed v (rr_path r) = Some (utf8_encode (rr_contentType r))"
      using assms(3) 2(1) by (simp add: record_fits_def compatible_def)
    then have "typed u" using 2(2) typed_writes(2) [OF assms(2)] by simp
    moreover have "with_record command m u = with_record command m v"
      using 2 by (intro durable_eqI) (simp_all add: with_record_def)
    moreover have "off_path (recordPath (rr_digest r)) v u"
      using 2 prepared_record(2) [OF assms(1) 2(1)] by (simp add: off_path_def)
    ultimately show ?thesis using 2 assms(3) by (auto simp: record_fits_def compatible_def)
  next
    case (3 r)
    have "with_record command m u = with_record command m v"
      using 3 by (intro durable_eqI) (simp_all add: with_record_def)
    moreover have "off_path (recordPath (rr_digest r)) v u"
      using 3 prepared_record(2) [OF assms(1) 3(1)] by (simp add: off_path_def)
    ultimately show ?thesis using 3 typed_writes(1) [OF assms(2)] by (auto simp: record_fits_def compatible_def)
  qed
  then show "typed u" "record_fits command m u" "with_record command m u = with_record command m v"
    "u \<noteq> v \<Longrightarrow> \<exists>d. off_path (recordPath d) v u" by blast+
qed

section \<open>Claiming the intent\<close>

lemma planned_number:
  assumes "head_matches opts sigs v (mc_state m) prev" and "expectedSequenceOf (st_last (mc_state m)) = Inr q"
  shows "nat_of_digits (planned_sequence m) = Suc (last_number (mc_state m))"
proof (cases "st_last (mc_state m)")
  case None
  have "nat_of_digits GENESIS_SEQUENCE = 1" by code_simp
  then show ?thesis using None assms(2) by (simp add: planned_sequence_def expectedSequenceOf_def last_number_def)
next
  case (Some pos)
  then have "is_sequence (po_sequence pos)" using assms(1)
    by (simp add: head_matches_def SequenceSchema_def is_sequence_def SEQUENCE_WIDTH_def)
  moreover have next_q: "nextSequence (po_sequence pos) = Inr q" using Some assms(2) by (simp add: expectedSequenceOf_def)
  ultimately have "nat_of_digits q = Suc (nat_of_digits (po_sequence pos))" by (simp add: nextSequence_iff)
  then show ?thesis using Some next_q by (simp add: planned_sequence_def expectedSequenceOf_def last_number_def)
qed

lemma with_record_off:
  assumes "prepared opts command ms failure m"
  shows "with_record command m v = v \<or> (\<exists>d. off_path (recordPath d) v (with_record command m v))"
  using prepared_record(2) [OF assms] by (auto simp: with_record_def off_path_def split: option.splits)

lemma with_record_reads:
  assumes "prepared opts command ms failure m"
  shows "state_of opts (with_record command m v) = state_of opts v"
    "head_matches opts sigs (with_record command m v) st prev = head_matches opts sigs v st prev"
    "head_declared opts (with_record command m v) = head_declared opts v"
    "free_after opts (with_record command m v) n = free_after opts v n"
    "du_state (with_record command m v) = du_state v" "du_intent (with_record command m v) = du_intent v"
    "typed v \<Longrightarrow> typed (with_record command m v)"
    "archive_chain opts (with_record command m v) k e = archive_chain opts v k e"
proof -
  obtain d where o: "off_path (recordPath d) v (with_record command m v)"
    using with_record_off [OF assms, of v] by (auto simp: off_path_def)
  show "state_of opts (with_record command m v) = state_of opts v"
      "head_matches opts sigs (with_record command m v) st prev = head_matches opts sigs v st prev"
      "head_declared opts (with_record command m v) = head_declared opts v"
      "free_after opts (with_record command m v) n = free_after opts v n"
      "du_state (with_record command m v) = du_state v" "du_intent (with_record command m v) = du_intent v"
      "archive_chain opts (with_record command m v) k e = archive_chain opts v k e"
    by (rule off_path_reads [OF o])+
  show "typed v \<Longrightarrow> typed (with_record command m v)" by (simp add: with_record_def typed_writes split: option.splits)
qed

lemma intent_reads [simp]:
  "state_of opts (v\<lparr>du_intent := x\<rparr>) = state_of opts v" "head_declared opts (v\<lparr>du_intent := x\<rparr>) = head_declared opts v"
  "free_after opts (v\<lparr>du_intent := x\<rparr>) n = free_after opts v n"
  "head_matches opts sigs (v\<lparr>du_intent := x\<rparr>) st prev = head_matches opts sigs v st prev"
  "archive_chain opts (v\<lparr>du_intent := x\<rparr>) k e = archive_chain opts v k e"
proof -
  show "archive_chain opts (v\<lparr>du_intent := x\<rparr>) k e = archive_chain opts v k e" by (rule archive_chain_cong) simp
  show "head_matches opts sigs (v\<lparr>du_intent := x\<rparr>) st prev = head_matches opts sigs v st prev" by (rule head_matches_cong) simp
qed (simp_all add: state_of_def head_declared_def free_after_def)

context durable_ports
begin

abbreviation stands :: "mint_context \<Rightarrow> durable \<Rightarrow> bool" where
  "stands m v \<equiv> poised opts sigs stateRev m v"

lemma admitted_context:
  assumes "prepared opts command ms failure m" and "stands m v" and "idle opts sigs v"
    and "admitted opts sigs command ms failure m v"
  shows "context_ok opts sigs m"
proof -
  have "st_last (mc_state m) = None \<longleftrightarrow> mc_previousHead m = None"
    using assms(2) by (auto simp: poised_def head_matches_def split: option.splits)
  moreover have "state_ok opts (mc_state m)" using assms(2,3) by (simp add: poised_def idle_def)
  ultimately show ?thesis
    using assms(1,4) by (auto simp: context_ok_def prepared_def admitted_def split: option.splits prod.splits if_splits)
qed

lemma claim_pending:
  assumes "prepared opts command ms failure m" and "stands m v" and "idle opts sigs v"
    and "admitted opts sigs command ms failure m v" and "told_apart opts m"
  shows "awaiting m ((with_record command m v)\<lparr>du_intent := Some (planned_intent opts sigs m)\<rparr>)"
proof -
  let ?u = "with_record command m v"
  let ?w = "?u\<lparr>du_intent := Some (planned_intent opts sigs m)\<rparr>"
  have c: "context_ok opts sigs m" by (rule admitted_context [OF assms(1-4)])
  note i = assms(3) [unfolded idle_def] and a = assms(2) [unfolded poised_def]
  obtain q where q: "expectedSequenceOf (st_last (mc_state m)) = Inr q" using assms(4) by (auto simp: admitted_def plan_ok_def)
  have number: "nat_of_digits (planned_sequence m) = Suc (last_number (state_of opts v))"
    using planned_number [OF _ q, of opts sigs v "mc_previousHead m"] a by simp
  have same: "head_matches opts sigs ?w st prev = head_matches opts sigs v st prev" "state_of opts ?w = state_of opts v"
      "head_declared opts ?w = head_declared opts v" "free_after opts ?w n = free_after opts v n" "typed ?w" "archive_chain opts ?w n e = archive_chain opts v n e"
      for st prev n e
    using with_record_reads [OF assms(1), where v = v] i
    by (simp_all add: typed_writes)
  have free: "free_after opts v (Suc (last_number (state_of opts v)))"
    "du_blobs v (page_path opts (planned_sequence m)) = None" "du_claimed v (page_path opts (planned_sequence m)) = None"
    using i number announcement_facts(3) [OF c] by (auto simp: free_after_def)
  have page: "compatible (page_path opts (planned_sequence m)) (page_bytes opts sigs m) ARCHIVE_PAGE_CONTENT_TYPE ?w"
    using free(2,3) prepared_record(2) [OF assms(1)] by (auto simp: compatible_def with_record_def split: option.splits)
  have held: "record_held opts ?w (mc_record m)"
    using prepared_record [OF assms(1)] digest_hex
    by (auto simp: record_held_def with_record_def split: option.splits)
  show ?thesis unfolding pending_def
    using c i a same page held free(1) number assms(5) with_record_reads(5) [OF assms(1), where v = v] by (simp add: told_apart_def)
qed

end

section \<open>Outcomes of an append\<close>

context durable_ports
begin

text \<open>From the data \<open>v\<close> the program returns \<open>a\<close> with the data \<open>w\<close>, or the host fails and leaves data in \<open>H\<close>.\<close>

definition progress :: "(durable \<Rightarrow> bool) \<Rightarrow> durable \<Rightarrow> ('w, serve_error, 'a) async \<Rightarrow> 'a \<Rightarrow> durable \<Rightarrow> bool" where
  "progress H v p a w \<longleftrightarrow>
     (\<forall>s. view s = v \<longrightarrow>
        wp p (\<lambda>r t. r = a \<and> view t = w \<and> (calm s \<longrightarrow> calm t)) (\<lambda>e t. \<not> calm s \<and> H (view t)) s)"

text \<open>From the data \<open>v\<close> the program throws and leaves data in \<open>H\<close>.\<close>

definition aborts :: "(durable \<Rightarrow> bool) \<Rightarrow> durable \<Rightarrow> ('w, serve_error, 'a) async \<Rightarrow> bool" where
  "aborts H v p \<longleftrightarrow> (\<forall>s. view s = v \<longrightarrow> wp p (\<lambda>r t. False) (\<lambda>e t. (calm s \<longrightarrow> calm t) \<and> H (view t)) s)"

lemma progress_returns: "H v \<Longrightarrow> runs v p a \<Longrightarrow> progress H v p a v"
  unfolding progress_def returns_def by (auto elim!: wp_mono)

lemma progress_advances: "advances m v p a w \<Longrightarrow> (\<And>u. halted m v u \<Longrightarrow> H u) \<Longrightarrow> progress H v p a w"
  unfolding progress_def advances_def by (auto elim!: wp_mono)

lemma progress_andThen:
  assumes "progress H v p a w" and "progress H w (f a) b x"
  shows "progress H v (andThen p f) b x"
  unfolding progress_def
proof (intro allI impI)
  fix s
  assume "view s = v"
  then have p: "wp p (\<lambda>r t. r = a \<and> view t = w \<and> (calm s \<longrightarrow> calm t)) (\<lambda>e t. \<not> calm s \<and> H (view t)) s"
    using assms(1) by (simp add: progress_def)
  show "wp (andThen p f) (\<lambda>r t. r = b \<and> view t = x \<and> (calm s \<longrightarrow> calm t)) (\<lambda>e t. \<not> calm s \<and> H (view t)) s"
  proof (rule wp_seq [OF p])
    fix r t
    assume r: "r = a \<and> view t = w \<and> (calm s \<longrightarrow> calm t)"
    then have "wp (f r) (\<lambda>r u. r = b \<and> view u = x \<and> (calm t \<longrightarrow> calm u)) (\<lambda>e u. \<not> calm t \<and> H (view u)) t"
      using assms(2) by (simp add: progress_def)
    then show "wp (f r) (\<lambda>r t. r = b \<and> view t = x \<and> (calm s \<longrightarrow> calm t)) (\<lambda>e t. \<not> calm s \<and> H (view t)) t"
      by (rule wp_mono) (use r in auto)
  qed simp
qed

lemma aborts_fails: "H v \<Longrightarrow> fails view calm v p \<Longrightarrow> aborts H v p"
  unfolding aborts_def fails_def by (auto elim!: wp_mono)

lemma aborts_here: "aborts H v p \<Longrightarrow> aborts H v (andThen p f)"
  unfolding aborts_def by (auto intro: wp_seq)

lemma aborts_later:
  assumes "runs v p a" and "H v" and "aborts H v (f a)"
  shows "aborts H v (andThen p f)"
  unfolding aborts_def
proof (intro allI impI)
  fix s
  assume "view s = v"
  then have p: "wp p (\<lambda>r t. r = a \<and> view t = v \<and> (calm s \<longrightarrow> calm t)) (\<lambda>e t. view t = v \<and> \<not> calm s) s"
    using assms(1) by (simp add: returns_def)
  show "wp (andThen p f) (\<lambda>r t. False) (\<lambda>e t. (calm s \<longrightarrow> calm t) \<and> H (view t)) s"
  proof (rule wp_seq [OF p])
    fix r t
    assume r: "r = a \<and> view t = v \<and> (calm s \<longrightarrow> calm t)"
    then have "wp (f r) (\<lambda>r t. False) (\<lambda>e u. (calm t \<longrightarrow> calm u) \<and> H (view u)) t"
      using assms(3) by (simp add: aborts_def)
    then show "wp (f r) (\<lambda>r t. False) (\<lambda>e t. (calm s \<longrightarrow> calm t) \<and> H (view t)) t"
      by (rule wp_mono) (use r in auto)
  qed (use assms(2) in auto)
qed

lemma aborts_after:
  assumes "progress H0 v0 p a v" and "aborts H v (f a)"
  shows "aborts (\<lambda>u. H0 u \<or> H u) v0 (andThen p f)"
  unfolding aborts_def
proof (intro allI impI)
  fix s
  assume "view s = v0"
  then have p: "wp p (\<lambda>r t. r = a \<and> view t = v \<and> (calm s \<longrightarrow> calm t)) (\<lambda>e t. \<not> calm s \<and> H0 (view t)) s"
    using assms(1) by (simp add: progress_def)
  show "wp (andThen p f) (\<lambda>r t. False) (\<lambda>e t. (calm s \<longrightarrow> calm t) \<and> (H0 (view t) \<or> H (view t))) s"
  proof (rule wp_seq [OF p])
    fix r t
    assume r: "r = a \<and> view t = v \<and> (calm s \<longrightarrow> calm t)"
    then have "wp (f r) (\<lambda>r t. False) (\<lambda>e u. (calm t \<longrightarrow> calm u) \<and> H (view u)) t"
      using assms(2) by (simp add: aborts_def)
    then show "wp (f r) (\<lambda>r t. False) (\<lambda>e t. (calm s \<longrightarrow> calm t) \<and> (H0 (view t) \<or> H (view t))) t"
      by (rule wp_mono) (use r in auto)
  qed auto
qed

lemma assertHeadMatchesState_returns:
  assumes "head_matches opts sigs v st prev"
  shows "runs w (assertHeadMatchesState opts (du_blobs v (head_path opts)) st) prev"
proof (cases "st_last st")
  case None
  then have "du_blobs v (head_path opts) = None" "prev = None" using assms by (simp_all add: head_matches_def)
  then show ?thesis unfolding assertHeadMatchesState_def None option.case
    by (intro returns_andThen [OF returns_refuse returns_ret]) simp_all
next
  case (Some pos)
  then obtain h where h: "head_valid h" "sh_origin h = sourceId opts" "sh_sequence h = po_sequence pos" "sh_entry h = po_entryDigest pos"
      "du_blobs v (head_path opts) = Some \<lparr>sb_bytes = head_bytes sigs h, sb_contentType = MEDIA_HEAD\<rparr>"
      "prev = Some (digest_of opts (head_bytes sigs h), sh_issuedAt h)"
    using assms by (auto simp: head_matches_def)
  show ?thesis unfolding assertHeadMatchesState_def Some option.case h(5) stored_blob.select_convs
    apply (rule returns_andThen [OF returns_refuse], simp)
    apply (unfold head_bytes_def, rule returns_andThen [OF parseHeadEnvelope_returns [OF h(1)]])
    apply (unfold prod.case, rule returns_andThen [OF assertSignerEnvelope_returns], simp)
    apply (rule returns_andThen [OF returns_refuse], simp add: h(2-4) text_of_def)
    apply (rule returns_ret, simp add: h(6) head_bytes_def text_of_def)
    done
qed

end

context durable_ports
begin

abbreviation append_loop :: "append_command \<Rightarrow> int \<Rightarrow> string option \<Rightarrow> mint_context \<Rightarrow> nat \<Rightarrow> ('w, serve_error, source_receipt) async" where
  "append_loop command ms failure m n \<equiv>
     appendLoop opts command ms (mc_refreshBy m) failure (mc_announcement m) (mc_record m) (mc_fingerprint m) n"

lemma record_progress:
  assumes "prepared opts command ms failure m" and "typed v" and "record_fits command m v"
  shows "progress (record_stage command m v) v
    (case mc_record m of None \<Rightarrow> ret ()
     | Some r \<Rightarrow> putImmutableExact opts (rr_path r) (fst (the (ac_record command))) (rr_contentType r) ''record'') ()
    (with_record command m v)"
proof (cases "mc_record m")
  case None
  then show ?thesis by (simp add: with_record_def, intro progress_returns returns_ret) (simp_all add: record_stage_def)
next
  case (Some r)
  have own: "own_path opts (rr_path r)" using prepared_record [OF assms(1) Some] digest_hex by simp
  have fits: "compatible (rr_path r) (record_bytes command) (rr_contentType r) v" using assms(3) Some by (simp add: record_fits_def)
  have stages: "record_stage command m v v" "record_stage command m v (claimed (rr_path r) (rr_contentType r) v)"
      "record_stage command m v (stored_at (rr_path r) (record_bytes command) (rr_contentType r) v)"
    using Some by (simp_all add: record_stage_def with_record_def)
  show ?thesis unfolding progress_def Some option.case
  proof (intro allI impI)
    fix s
    assume "view s = v"
    then show "wp (putImmutableExact opts (rr_path r) (fst (the (ac_record command))) (rr_contentType r) ''record'')
        (\<lambda>ra t. ra = () \<and> view t = with_record command m v \<and> (calm s \<longrightarrow> calm t)) (\<lambda>e t. \<not> calm s \<and> record_stage command m v (view t)) s"
      by (rule wp_mono [OF putImmutableExact_wp [OF own assms(2)]])
        (use Some fits stages in \<open>auto simp: with_record_def\<close>)
  qed
qed

text \<open>A replay returns the stored receipt and writes nothing.\<close>

lemma append_replayed:
  assumes r: "progress H w (recover opts) report v" and h: "H v" and "stands m v" and "idle opts sigs v" and "replayed m receipt"
  shows "progress H w (append_loop command ms failure m (Suc n)) receipt v"
proof -
  obtain e where e: "object_member (st_announcements (mc_state m)) (announcement_id m) = Own e"
      "pb_fingerprint e = mc_fingerprint m" "receipt = pb_receipt e"
    using assms(5) by (auto simp: replayed_def)
  have v: "state_ok opts (state_of opts v)" "mc_state m = state_of opts v"
    using assms(3,4) by (simp_all add: idle_def poised_def)
  show ?thesis unfolding appendLoop.simps Let_def
    apply (rule progress_andThen, rule r)
    apply (rule progress_andThen, rule progress_returns [where H = H, OF h loadState_returns [OF v(1)]])
    apply (unfold prod.case v(2) [symmetric] e(1) member.case)
    apply (rule progress_returns [where H = H, OF h], simp add: e returns_ret)
    done
qed

text \<open>An admitted append is committed, whatever stage the host fails at.\<close>

lemma append_admitted:
  assumes r: "progress H0 v0 (recover opts) report v"
    and p: "prepared opts command ms failure m" and a: "stands m v" and i: "idle opts sigs v"
    and d: "admitted opts sigs command ms failure m v" and t: "told_apart opts m"
  shows "progress (\<lambda>u. H0 u \<or> record_stage command m v u \<or> halted m (with_record command m v) u) v0
    (append_loop command ms failure m (Suc n)) (planned_receipt opts m) (settled m (with_record command m v))"
proof -
  let ?u = "with_record command m v"
  let ?w = "?u\<lparr>du_intent := Some (planned_intent opts sigs m)\<rparr>"
  define H where "H = (\<lambda>u. H0 u \<or> record_stage command m v u \<or> halted m ?u u)"
  have first: "progress H v0 (recover opts) report v" using r by (auto simp: progress_def H_def elim!: wp_mono)
  note ad = d [unfolded admitted_def]
  have v: "du_intent v = None" "state_ok opts (state_of opts v)" "mc_state m = state_of opts v" "typed v"
      "mc_revision m = map_option stateRev (du_state v)" "head_matches opts sigs v (mc_state m) (mc_previousHead m)"
    using a i by (simp_all add: idle_def poised_def)
  have stamp: "ac_timestamp command = mc_timestamp m" using p by (simp add: prepared_def)
  have H: "H v" "H ?u" by (simp_all add: H_def record_stage_def)
  have w: "awaiting m ?w" by (rule claim_pending [OF p a i d t])
  have same: "settled m ?w = settled m ?u" by (simp only: settle_stages)
  have Hw: "H u" if "halted m ?w u" for u using that by (simp add: H_def halted_def same)
  have no_target: "\<not> (get_field (mc_announcement m) ''action'' = JStr ''withdrawn''
      \<and> (case object_member (st_announcements (mc_state m)) (field_text_of (mc_announcement m) ''retracts'') of
           Own target \<Rightarrow> pb_action target \<noteq> ''available'' | _ \<Rightarrow> True))"
    using ad by (auto simp: targeted_def)
  have record_step: "progress H v (case mc_record m of None \<Rightarrow> ret ()
      | Some r \<Rightarrow> putImmutableExact opts (rr_path r) (fst (the (ac_record command))) (rr_contentType r) ''record'') () ?u"
    using record_progress [OF p v(4)] ad by (auto simp: progress_def H_def elim!: wp_mono)
  have head: "du_blobs ?u (head_path opts) = du_blobs v (head_path opts)"
    using prepared_record(2) [OF p] by (auto simp: with_record_def split: option.splits)
  have advance: "\<not> (case mc_previousHead m of None \<Rightarrow> False | Some (_, issuedAt) \<Rightarrow> \<not> ms_greater (Some ms) (parseHeadTimestamp issuedAt))"
    using ad by (auto split: option.splits)
  have doc: "document (mc_announcement m)" using p by (simp add: prepared_def)
  have claim: "progress H ?u (wo_casIntent opts (sourceId opts) None (Some (planned_intent opts sigs m)))
      (Some (intentRev (planned_intent opts sigs m))) ?w"
    unfolding progress_def
  proof (intro allI impI)
    fix s
    assume "view s = ?u"
    then show "wp (wo_casIntent opts (sourceId opts) None (Some (planned_intent opts sigs m)))
        (\<lambda>r t. r = Some (intentRev (planned_intent opts sigs m)) \<and> view t = ?w \<and> (calm s \<longrightarrow> calm t)) (\<lambda>e t. \<not> calm s \<and> H (view t)) s"
      by (rule wp_mono [OF casIntent_law]) (use H v(1) with_record_reads(6) [OF p, of v] w same in \<open>auto simp: H_def halted_def\<close>)
  qed
  have commit: "progress H ?w (commitIntent opts (intentRev (planned_intent opts sigs m)) (planned_intent opts sigs m))
      (planned_receipt opts m) (settled m ?u)"
    using progress_advances [OF commitIntent_advances [OF w] Hw] by (simp only: same)
  show ?thesis unfolding appendLoop.simps Let_def H_def [symmetric]
    apply (rule progress_andThen, rule first)
    apply (rule progress_andThen, rule progress_returns [where H = H, OF H(1) loadState_returns [OF v(2)]])
    apply (unfold prod.case v(3) [symmetric] v(5) [symmetric])
    apply (subst ad [THEN conjunct1], unfold member.case)
    apply (rule progress_andThen, rule progress_returns [where H = H, OF H(1)], use ad in \<open>simp add: returns_ret\<close>)
    apply (rule progress_andThen, rule progress_returns [where H = H, OF H(1)], unfold if_not_P [OF no_target], rule returns_ret, rule refl)
    apply (rule progress_andThen, rule record_step)
    apply (rule progress_andThen, rule progress_returns [where H = H, OF H(2) fault_law])
    apply (rule progress_andThen, rule progress_returns [where H = H, OF H(2) get_law [OF own_paths(1)]])
    apply (unfold head, rule progress_andThen, rule progress_returns [where H = H, OF H(2) assertHeadMatchesState_returns [OF v(6)]])
    apply (rule progress_andThen, rule progress_returns [where H = H, OF H(2) returns_refuse], rule advance)
    apply (unfold stamp, rule progress_andThen, rule progress_returns [where H = H, OF H(2) mint_returns], rule doc,
      use v(2,3) in simp, use ad in simp)
    apply (rule progress_andThen, rule claim)
    apply (unfold option.case)
    apply (rule progress_andThen, rule progress_returns [where H = H, OF Hw fault_law], simp add: halted_def w)
    apply (rule commit)
    done
qed

end

context durable_ports
begin

lemma record_wp:
  assumes "prepared opts command ms failure m" and "typed v" and "view s = v"
  shows "wp (case mc_record m of None \<Rightarrow> ret ()
      | Some r \<Rightarrow> putImmutableExact opts (rr_path r) (record_bytes command) (rr_contentType r) ''record'')
    (\<lambda>r t. record_fits command m v \<and> view t = with_record command m v \<and> (calm s \<longrightarrow> calm t))
    (\<lambda>e t. (calm s \<longrightarrow> calm t) \<and> only_record m v (view t)) s"
proof (cases "mc_record m")
  case None
  then show ?thesis using assms(3) by (simp add: record_fits_def with_record_def, intro wp_ret) simp
next
  case (Some r)
  have own: "own_path opts (rr_path r)" using prepared_record [OF assms(1) Some] digest_hex by simp
  show ?thesis unfolding Some option.case
    by (rule wp_mono [OF putImmutableExact_wp [OF own assms(2,3)]])
      (auto simp: Some record_fits_def with_record_def only_record_def)
qed

lemma idle_only_record:
  assumes "prepared opts command ms failure m" and "idle opts sigs v" and "only_record m v u"
  shows "idle opts sigs u"
proof (cases "u = v")
  case False
  then obtain r where r: "mc_record m = Some r" "off_path (rr_path r) v u" "typed u" using assms(3) by (auto simp: only_record_def)
  then show ?thesis using prepared_record(2) [OF assms(1) r(1)] idle_off_path assms(2) by metis
qed (use assms(2) in simp)

lemma aborts_record:
  assumes "prepared opts command ms failure m" and "typed v"
    and "record_fits command m v \<Longrightarrow> aborts (only_record m v) (with_record command m v) (f ())"
  shows "aborts (only_record m v) v (andThen (case mc_record m of None \<Rightarrow> ret ()
      | Some r \<Rightarrow> putImmutableExact opts (rr_path r) (record_bytes command) (rr_contentType r) ''record'') f)"
  unfolding aborts_def
proof (intro allI impI)
  fix s
  assume s: "view s = v"
  show "wp (andThen (case mc_record m of None \<Rightarrow> ret ()
      | Some r \<Rightarrow> putImmutableExact opts (rr_path r) (record_bytes command) (rr_contentType r) ''record'') f)
      (\<lambda>r t. False) (\<lambda>e t. (calm s \<longrightarrow> calm t) \<and> only_record m v (view t)) s"
  proof (rule wp_seq [OF record_wp [OF assms(1,2) s]])
    fix r t
    assume r: "record_fits command m v \<and> view t = with_record command m v \<and> (calm s \<longrightarrow> calm t)"
    then have "wp (f ()) (\<lambda>r t. False) (\<lambda>e u. (calm t \<longrightarrow> calm u) \<and> only_record m v (view u)) t"
      using assms(3) by (simp add: aborts_def)
    then have "wp (f ()) (\<lambda>r t. False) (\<lambda>e t. (calm s \<longrightarrow> calm t) \<and> only_record m v (view t)) t"
      by (rule wp_mono) (use r in auto)
    then show "wp (f r) (\<lambda>r t. False) (\<lambda>e t. (calm s \<longrightarrow> calm t) \<and> only_record m v (view t)) t" by simp
  qed
qed

text \<open>Every other append is refused and publishes nothing.\<close>

lemma append_refused:
  assumes r: "progress H0 v0 (recover opts) report v"
    and p: "prepared opts command ms failure m" and a: "stands m v" and i: "idle opts sigs v"
    and new: "\<not> (\<exists>receipt. replayed m receipt)" and d: "\<not> admitted opts sigs command ms failure m v"
  shows "aborts (\<lambda>u. H0 u \<or> only_record m v u) v0 (append_loop command ms failure m (Suc n))"
proof -
  let ?u = "with_record command m v"
  define H where "H = only_record m v"
  have v: "du_intent v = None" "state_ok opts (state_of opts v)" "mc_state m = state_of opts v" "typed v"
      "mc_revision m = map_option stateRev (du_state v)" "head_matches opts sigs v (mc_state m) (mc_previousHead m)"
    using a i by (simp_all add: idle_def poised_def)
  have H: "H v" "H ?u"
    using with_record_reads(7) [OF p v(4)] by (auto simp: H_def only_record_def with_record_def off_path_def split: option.splits)
  have stamp: "ac_timestamp command = mc_timestamp m" and doc: "document (mc_announcement m)" using p by (simp_all add: prepared_def)
  have head: "du_blobs ?u (head_path opts) = du_blobs v (head_path opts)"
    using prepared_record(2) [OF p] by (auto simp: with_record_def split: option.splits)
  note throws = aborts_fails [where H = H, OF H(1) fails_throw]
  have window: "aborts H v (refuseMintedWindow x)" for x unfolding refuseMintedWindow_def by (rule throws)
  have late: "\<not> (case mc_previousHead m of None \<Rightarrow> True | Some (_, issuedAt) \<Rightarrow> ms_greater (Some ms) (parseHeadTimestamp issuedAt))
      \<or> \<not> plan_ok opts sigs m"
    if "object_member (st_announcements (mc_state m)) (announcement_id m) = Absent" "failure = None" "targeted m" "record_fits command m v"
    using d that by (auto simp: admitted_def)
  have target: "(get_field (mc_announcement m) ''action'' = JStr ''withdrawn''
      \<and> (case object_member (st_announcements (mc_state m)) (field_text_of (mc_announcement m) ''retracts'') of
           Own target \<Rightarrow> pb_action target \<noteq> ''available'' | _ \<Rightarrow> True)) = (\<not> targeted m)"
    by (auto simp: targeted_def split: member.splits)
  have stale: "aborts H ?u (andThen (refuse (case mc_previousHead m of None \<Rightarrow> False
        | Some (_, issuedAt) \<Rightarrow> \<not> ms_greater (Some ms) (parseHeadTimestamp issuedAt)) msg) (\<lambda>_. andThen (mint m) f))"
    if "object_member (st_announcements (mc_state m)) (announcement_id m) = Absent" "failure = None" "targeted m" "record_fits command m v"
    for msg f
  proof (cases "case mc_previousHead m of None \<Rightarrow> False | Some (_, issuedAt) \<Rightarrow> \<not> ms_greater (Some ms) (parseHeadTimestamp issuedAt)")
    case True
    show ?thesis by (rule aborts_here, rule aborts_fails [where H = H, OF H(2) fails_refuse], rule True)
  next
    case False
    then have "\<not> plan_ok opts sigs m" using late [OF that] by (auto split: option.splits)
    then show ?thesis
      by (intro aborts_later [where H = H, OF returns_refuse [OF False] H(2)] aborts_here aborts_fails [where H = H, OF H(2)] mint_fails [OF doc])
  qed
  show ?thesis unfolding appendLoop.simps Let_def H_def [symmetric]
    apply (rule aborts_after [OF r])
    apply (rule aborts_later [where H = H, OF loadState_returns [OF v(2)] H(1)])
    apply (unfold prod.case v(3) [symmetric] v(5) [symmetric] target stamp)
    apply (cases "object_member (st_announcements (mc_state m)) (announcement_id m)"; simp only: member.case)
    subgoal premises absent
      apply (cases failure; simp only: option.case)
      subgoal premises none
        apply (rule aborts_later [where H = H, OF returns_ret [OF refl] H(1)])
        apply (cases "targeted m"; simp only: simp_thms if_True if_False)
        subgoal premises targeted
          apply (rule aborts_later [where H = H, OF returns_ret [OF refl] H(1)])
          apply (unfold H_def, rule aborts_record [OF p v(4)], fold H_def)
          apply (rule aborts_later [where H = H, OF fault_law H(2)])
          apply (rule aborts_later [where H = H, OF get_law [OF own_paths(1)] H(2)])
          apply (unfold head, rule aborts_later [where H = H, OF assertHeadMatchesState_returns [OF v(6)] H(2)])
          apply (rule stale [OF absent none targeted], assumption)
          done
        apply (rule aborts_here, rule throws)
        done
      apply (rule aborts_here, rule window)
      done
     apply (use new throws in \<open>auto simp: replayed_def\<close>)
    done
qed

end

section \<open>The arguments of an append\<close>

definition command_ms :: "append_command \<Rightarrow> int" where
  "command_ms command = (case parseHeadTimestamp (ac_timestamp command) of Some ms \<Rightarrow> ms | None \<Rightarrow> 0)"

definition command_refreshBy :: "rat \<Rightarrow> append_command \<Rightarrow> string" where
  "command_refreshBy refreshWithinMs command =
     (case isoText (of_int (command_ms command) + refreshWithinMs) of Inr t \<Rightarrow> t | Inl _ \<Rightarrow> [])"

definition command_failure :: "rat \<Rightarrow> int \<Rightarrow> append_command \<Rightarrow> string option" where
  "command_failure refreshWithinMs now command =
     checkRefreshWindow (window_head (ac_timestamp command) (command_refreshBy refreshWithinMs command)) now MAX_AHEAD"

definition command_announcement :: "append_command \<Rightarrow> json" where
  "command_announcement command = norm_json (announcement_object (ac_announcement command))"

definition command_record :: "'w writer_options \<Rightarrow> append_command \<Rightarrow> record_receipt option" where
  "command_record opts command =
     (if get_field (command_announcement command) ''action'' = JStr ''available''
      then map_option (\<lambda>(bytes, contentType).
        let mediaType = get_field (get_field (command_announcement command) ''record'') ''mediaType''
        in \<lparr>rr_digest = digest_of opts bytes, rr_path = recordPath (digest_of opts bytes),
             rr_contentType = (case contentType of
                 Some t \<Rightarrow> t
               | None \<Rightarrow> if mediaType = JUndef \<or> mediaType = JNull then DEFAULT_RECORD_CONTENT_TYPE else text_of mediaType)\<rparr>)
        (ac_record command)
      else None)"

definition command_fingerprint :: "'w writer_options \<Rightarrow> append_command \<Rightarrow> string" where
  "command_fingerprint opts command =
     digest_of opts (seal_text (fingerprint_object (wo_source opts) (JStr (ac_timestamp command)) (command_announcement command)
       (map_option rr_contentType (command_record opts command))))"

definition append_context ::
  "'w writer_options \<Rightarrow> rat \<Rightarrow> append_command \<Rightarrow> string option \<Rightarrow> source_state \<Rightarrow> (string \<times> string) option \<Rightarrow> mint_context" where
  "append_context opts refreshWithinMs command revision state previous =
     \<lparr>mc_timestamp = ac_timestamp command, mc_refreshBy = command_refreshBy refreshWithinMs command,
      mc_announcement = command_announcement command, mc_record = command_record opts command,
      mc_fingerprint = command_fingerprint opts command, mc_revision = revision, mc_state = state, mc_previousHead = previous\<rparr>"

lemma append_context_fields [simp]:
  "mc_timestamp (append_context opts r command revision st previous) = ac_timestamp command"
  "mc_refreshBy (append_context opts r command revision st previous) = command_refreshBy r command"
  "mc_announcement (append_context opts r command revision st previous) = command_announcement command"
  "mc_record (append_context opts r command revision st previous) = command_record opts command"
  "mc_fingerprint (append_context opts r command revision st previous) = command_fingerprint opts command"
  "mc_revision (append_context opts r command revision st previous) = revision"
  "mc_state (append_context opts r command revision st previous) = st"
  "mc_previousHead (append_context opts r command revision st previous) = previous"
  by (simp_all add: append_context_def)

text \<open>What the commands of this theory are over: the announcement is a JSON value without repeated keys.\<close>

definition wellformed :: "append_command \<Rightarrow> bool" where
  "wellformed command \<longleftrightarrow> json_ok (announcement_object (ac_announcement command))"

lemma read_path_two: "read_path v [k, l] = Inr w \<Longrightarrow> get_field (get_field v k) l = w"
  by (auto simp: read_path_def read_field_def bind_result_Inr_iff split: if_splits)

lemma frozen_announcement:
  assumes "json_ok v" and "freezeJson v = Inr a"
  shows "document a" "a = norm_json v"
proof -
  have "sealable v" using assms(2) by (auto simp: freezeJson_def bind_result_Inr_iff sealBytes_iff)
  then have "document v" using assms(1) by (simp add: document_def)
  then show "document a" "a = norm_json v" using assms(2) by auto
qed

lemma window_passes:
  assumes "checkRefreshWindow (window_head issuedAt refreshBy) now MAX_AHEAD = None"
  shows "ms_greater (parseHeadTimestamp refreshBy) (parseHeadTimestamp issuedAt)" "refreshByWithinCeiling issuedAt refreshBy MAX_AHEAD"
  using assms by (auto simp: window_iff window_head_def MAX_AHEAD_def ms_greater_iff refreshByWithinCeiling_def ms_within_iff)

context durable_ports
begin

text \<open>From the world \<open>s\<close> the program \<open>p\<close> behaves as \<open>q\<close>, or the host fails before \<open>q\<close> begins.\<close>

definition defers :: "'w \<Rightarrow> ('w, serve_error, 'a) async \<Rightarrow> ('w, serve_error, 'a) async \<Rightarrow> bool" where
  "defers s p q \<longleftrightarrow>
     (\<exists>t. view t = view s \<and> (calm s \<longrightarrow> calm t) \<and> (p s = q t \<or> \<not> calm s \<and> (\<exists>e. p s = (Inl e, t))))"

lemma defers_refl: "defers s p p"
  unfolding defers_def by blast

lemma defers_step:
  assumes "wp p (\<lambda>r t. r = a \<and> view t = view s \<and> (calm s \<longrightarrow> calm t)) (\<lambda>e t. view t = view s \<and> \<not> calm s) s"
    and "\<And>t. defers t (f a) q"
  shows "defers s (andThen p f) q"
proof (cases "p s")
  case (Pair r t)
  show ?thesis
  proof (cases r)
    case (Inl e)
    then show ?thesis using assms(1) Pair unfolding defers_def by (intro exI [of _ t]) (auto simp: wp_def andThen_def)
  next
    case (Inr x)
    then have t: "x = a" "view t = view s" "calm s \<longrightarrow> calm t" using assms(1) Pair by (auto simp: wp_def)
    obtain u where u: "view u = view t" "calm t \<longrightarrow> calm u" "f a t = q u \<or> \<not> calm t \<and> (\<exists>e. f a t = (Inl e, u))"
      using assms(2) [of t] unfolding defers_def by (elim exE conjE)
    then show ?thesis using t Inr Pair unfolding defers_def by (intro exI [of _ u]) (auto simp: andThen_def)
  qed
qed

lemma defers_wp:
  assumes "defers s p q" and "\<And>t. view t = view s \<Longrightarrow> (calm s \<longrightarrow> calm t) \<Longrightarrow> wp q Q E t"
    and "\<And>e t. view t = view s \<Longrightarrow> \<not> calm s \<Longrightarrow> E e t"
  shows "wp p Q E s"
proof -
  obtain t where t: "view t = view s" "calm s \<longrightarrow> calm t" "p s = q t \<or> \<not> calm s \<and> (\<exists>e. p s = (Inl e, t))"
    using assms(1) unfolding defers_def by (elim exE conjE)
  from t(3) show ?thesis
  proof
    assume "p s = q t"
    then show ?thesis using assms(2) [OF t(1,2)] by (simp add: wp_def)
  qed (use t(1) assms(3) in \<open>auto simp: wp_def\<close>)
qed

lemma defers_progress:
  assumes "defers s p q" and "H v" and "view s = v" and "progress H v q a w"
  shows "wp p (\<lambda>r t. r = a \<and> view t = w \<and> (calm s \<longrightarrow> calm t)) (\<lambda>e t. \<not> calm s \<and> H (view t)) s"
proof (rule defers_wp [OF assms(1)])
  fix t
  assume t: "view t = view s" "calm s \<longrightarrow> calm t"
  then have "wp q (\<lambda>r u. r = a \<and> view u = w \<and> (calm t \<longrightarrow> calm u)) (\<lambda>e u. \<not> calm t \<and> H (view u)) t"
    using assms(3,4) by (simp add: progress_def)
  then show "wp q (\<lambda>r t. r = a \<and> view t = w \<and> (calm s \<longrightarrow> calm t)) (\<lambda>e t. \<not> calm s \<and> H (view t)) t"
    by (rule wp_mono) (use t(2) in auto)
qed (use assms(2,3) in simp)

lemma defers_aborts:
  assumes "defers s p q" and "H v" and "view s = v" and "aborts H v q"
  shows "wp p (\<lambda>r t. False) (\<lambda>e t. (calm s \<longrightarrow> calm t) \<and> H (view t)) s"
proof (rule defers_wp [OF assms(1)])
  fix t
  assume t: "view t = view s" "calm s \<longrightarrow> calm t"
  then have "wp q (\<lambda>r t. False) (\<lambda>e u. (calm t \<longrightarrow> calm u) \<and> H (view u)) t"
    using assms(3,4) by (simp add: aborts_def)
  then show "wp q (\<lambda>r t. False) (\<lambda>e t. (calm s \<longrightarrow> calm t) \<and> H (view t)) t"
    by (rule wp_mono) (use t(2) in auto)
qed (use assms(2,3) in simp)

end

context durable_ports
begin

lemma fails_refuse_if:
  assumes "r \<noteq> Inr False"
  shows "fails view calm v (refuse_if r msg)"
proof (cases r)
  case (Inl e)
  then show ?thesis unfolding refuse_if_def by (intro fails_here fails_lifted)
next
  case (Inr b)
  then have "b" using assms by simp
  then show ?thesis unfolding refuse_if_def by (intro fails_later [OF returns_lifted [OF Inr]] fails_refuse)
qed

text \<open>An append refuses its arguments, or it enters the loop with prepared ones.\<close>

lemma recordOf_cases:
  "(\<forall>v. fails view calm v (recordOf opts (command_announcement command) (ac_record command)))
   \<or> (\<forall>v. runs v (recordOf opts (command_announcement command) (ac_record command)) (command_record opts command))
      \<and> (if get_field (command_announcement command) ''action'' = JStr ''available''
         then \<exists>r. command_record opts command = Some r \<and> rr_digest r = digest_of opts (record_bytes command)
                \<and> rr_path r = recordPath (rr_digest r)
                \<and> get_field (get_field (command_announcement command) ''record'') ''digest'' = JStr (rr_digest r)
         else command_record opts command = None)"
proof (cases "get_field (command_announcement command) ''action'' = JStr ''available''")
  case True
  let ?a = "command_announcement command"
  show ?thesis
  proof (cases "ac_record command")
    case None
    have "fails view calm v (recordOf opts ?a (ac_record command))" for v
      unfolding recordOf_def if_P [OF True] None option.case by (rule fails_throw)
    then show ?thesis by (intro disjI1 allI)
  next
    case (Some given)
    obtain bytes contentType where given: "given = (bytes, contentType)" by (cases given)
    let ?d = "digest_of opts bytes" and ?mt = "get_field (get_field ?a ''record'') ''mediaType''"
    let ?r = "\<lparr>rr_digest = ?d, rr_path = recordPath ?d, rr_contentType = (case contentType of Some t \<Rightarrow> t
          | None \<Rightarrow> if ?mt = JUndef \<or> ?mt = JNull then DEFAULT_RECORD_CONTENT_TYPE else text_of ?mt)\<rparr>"
    have rec: "command_record opts command = Some ?r" by (simp add: command_record_def True Some given Let_def)
    have body: "recordOf opts ?a (ac_record command) = andThen (refuse_if (differs (read_path ?a [''record'', ''digest'']) (JStr ?d))
          ''available announcement record digest does not match the exact record bytes'') (\<lambda>_.
        andThen (refuse (?mt \<noteq> JUndef \<and> contentType \<noteq> None \<and> ?mt \<noteq> JStr (the contentType))
          ''available announcement mediaType conflicts with the record content type'') (\<lambda>_. ret (Some ?r)))"
      unfolding recordOf_def if_P [OF True] Some given option.case prod.case Let_def ..
    show ?thesis
    proof (cases "read_path ?a [''record'', ''digest''] = Inr (JStr ?d)")
      case False
      then have "differs (read_path ?a [''record'', ''digest'']) (JStr ?d) \<noteq> Inr False"
        by (cases "read_path ?a [''record'', ''digest'']") (simp_all add: differs_def)
      then have "fails view calm v (recordOf opts ?a (ac_record command))" for v
        unfolding body by (rule fails_here [OF fails_refuse_if])
      then show ?thesis by (intro disjI1 allI)
    next
      case read: True
      then have ok: "differs (read_path ?a [''record'', ''digest'']) (JStr ?d) = Inr False" by (simp add: differs_def)
      show ?thesis
      proof (cases "?mt \<noteq> JUndef \<and> contentType \<noteq> None \<and> ?mt \<noteq> JStr (the contentType)")
        case conflict: True
        have "fails view calm v (recordOf opts ?a (ac_record command))" for v
          unfolding body by (rule fails_later, rule returns_refuse_if, rule ok, rule fails_here, rule fails_refuse, rule conflict)
        then show ?thesis by (intro disjI1 allI)
      next
        case agree: False
        have "runs v (recordOf opts ?a (ac_record command)) (Some ?r)" for v
          unfolding body
          by (rule returns_andThen, rule returns_refuse_if, rule ok, rule returns_andThen, rule returns_refuse, rule agree,
              rule returns_ret, rule refl)
        then show ?thesis by (intro disjI2) (simp add: rec True Some given read_path_two [OF read])
      qed
    qed
  qed
next
  case False
  show ?thesis
  proof (cases "ac_record command = None")
    case True
    have "runs v (recordOf opts (command_announcement command) (ac_record command)) None" for v
      unfolding recordOf_def if_not_P [OF False] by (rule returns_andThen, rule returns_refuse, use True in simp, rule returns_ret, rule refl)
    then show ?thesis using False by (intro disjI2) (simp add: command_record_def)
  next
    case given: False
    have "fails view calm v (recordOf opts (command_announcement command) (ac_record command))" for v
      unfolding recordOf_def if_not_P [OF False] by (rule fails_here [OF fails_refuse [OF given]])
    then show ?thesis by (intro disjI1 allI)
  qed
qed

abbreviation aimed :: "rat \<Rightarrow> append_command \<Rightarrow> durable \<Rightarrow> (string \<times> string) option \<Rightarrow> mint_context" where
  "aimed r command v previous \<equiv> append_context opts r command (map_option stateRev (du_state v)) (state_of opts v) previous"

text \<open>The loop that an append with the refresh duration \<open>r\<close> enters when the clock reads \<open>n\<close>.\<close>

abbreviation entered :: "rat \<Rightarrow> append_command \<Rightarrow> int \<Rightarrow> ('w, serve_error, source_receipt) async" where
  "entered r command n \<equiv>
     appendLoop opts command (command_ms command) (command_refreshBy r command) (command_failure r n command)
       (command_announcement command) (command_record opts command) (command_fingerprint opts command) MAX_CAS_ATTEMPTS"

abbreviation ready :: "rat \<Rightarrow> append_command \<Rightarrow> int \<Rightarrow> bool" where
  "ready r command n \<equiv> (\<forall>revision st previous. prepared opts command (command_ms command) (command_failure r n command)
     (append_context opts r command revision st previous))"

definition enters :: "rat \<Rightarrow> append_command \<Rightarrow> (int \<Rightarrow> ('w, serve_error, source_receipt) async) \<Rightarrow> bool" where
  "enters r command p \<longleftrightarrow>
     (\<forall>n v. fails view calm v (p n)) \<or> (\<forall>n. ready r command n \<and> (\<forall>s. defers s (p n) (entered r command n)))"

lemma enters_fails: "(\<And>v. fails view calm v p) \<Longrightarrow> enters r command (\<lambda>n. andThen p (f n))"
  unfolding enters_def by (intro disjI1 allI fails_here)

lemma enters_step:
  assumes "\<And>v. runs v p a" and "enters r command (\<lambda>n. f n a)"
  shows "enters r command (\<lambda>n. andThen p (f n))"
  using assms(2) unfolding enters_def
proof
  assume "\<forall>n v. fails view calm v (f n a)"
  then have "fails view calm v (andThen p (f n))" for n v by (intro fails_later [OF assms(1)]) simp
  then show "(\<forall>n v. fails view calm v (andThen p (f n)))
      \<or> (\<forall>n. ready r command n \<and> (\<forall>s. defers s (andThen p (f n)) (entered r command n)))"
    by (intro disjI1 allI)
next
  assume a: "\<forall>n. ready r command n \<and> (\<forall>s. defers s (f n a) (entered r command n))"
  have "defers s (andThen p (f n)) (entered r command n)" for s n
    by (rule defers_step, rule assms(1) [unfolded returns_def, rule_format, OF refl], rule a [rule_format, THEN conjunct2, rule_format])
  then show "(\<forall>n v. fails view calm v (andThen p (f n)))
      \<or> (\<forall>n. ready r command n \<and> (\<forall>s. defers s (andThen p (f n)) (entered r command n)))"
    using a by (intro disjI2 allI conjI) simp_all
qed

lemma enters_lifted:
  assumes "\<And>a. x = Inr a \<Longrightarrow> enters r command (\<lambda>n. f n a)"
  shows "enters r command (\<lambda>n. andThen (lifted x) (f n))"
proof (cases x)
  case (Inl e)
  then show ?thesis by (intro enters_fails fails_lifted)
next
  case (Inr a)
  then show ?thesis by (intro enters_step [OF returns_lifted] assms)
qed

lemma enters_refuse: "(\<not> b \<Longrightarrow> enters r command (\<lambda>n. f n ())) \<Longrightarrow> enters r command (\<lambda>n. andThen (refuse b msg) (f n))"
  by (cases b) (auto intro: enters_fails [OF fails_refuse] enters_step [OF returns_refuse])

text \<open>The part of an append after it has read the clock.\<close>

definition append_rest :: "append_command \<Rightarrow> int \<Rightarrow> string \<Rightarrow> int \<Rightarrow> ('w, serve_error, source_receipt) async" where
  "append_rest command ms refreshBy n =
     andThen (lifted (freezeJson (announcement_object (ac_announcement command)))) (\<lambda>announcement.
     andThen (if get_field announcement ''action'' = JStr ''available''
       then andThen (lifted (sealBytes (let facts = get_field announcement ''facts''
              in if facts = JUndef \<or> facts = JNull then JObj [] else facts))) (\<lambda>bytes.
            refuse (length bytes > factsCardBytes) ''available announcement facts exceed the published-source byte ceiling'')
       else ret ()) (\<lambda>_.
     andThen (recordOf opts announcement (ac_record command)) (\<lambda>record_part.
     andThen (lifted (seal_digest opts (fingerprint_object (wo_source opts) (JStr (ac_timestamp command)) announcement
         (map_option rr_contentType record_part)))) (\<lambda>fingerprint.
       appendLoop opts command ms refreshBy (checkRefreshWindow (window_head (ac_timestamp command) refreshBy) n MAX_AHEAD)
         announcement record_part fingerprint MAX_CAS_ATTEMPTS))))"

lemma ready_prepared:
  assumes "document (command_announcement command)" and "parseHeadTimestamp (ac_timestamp command) = Some ms"
    and "isoText (of_int ms + r) = Inr refreshBy"
    and "if get_field (command_announcement command) ''action'' = JStr ''available''
         then \<exists>r. command_record opts command = Some r \<and> rr_digest r = digest_of opts (record_bytes command)
                \<and> rr_path r = recordPath (rr_digest r)
                \<and> get_field (get_field (command_announcement command) ''record'') ''digest'' = JStr (rr_digest r)
         else command_record opts command = None"
  shows "ready r command n"
proof -
  have "norm_json (command_announcement command) = command_announcement command" by (simp add: command_announcement_def)
  moreover have "command_ms command = ms" "command_refreshBy r command = refreshBy"
    using assms(2,3) by (simp_all add: command_ms_def command_refreshBy_def)
  ultimately show ?thesis using assms window_passes [of "ac_timestamp command" refreshBy n]
    by (simp add: prepared_def command_fingerprint_def command_failure_def)
qed

lemma append_rest_enters:
  assumes "wellformed command" and Some: "parseHeadTimestamp (ac_timestamp command) = Some ms" and iso: "isoText (of_int ms + r) = Inr refreshBy"
  shows "enters r command (append_rest command ms refreshBy)"
proof -
  have ms: "command_ms command = ms" using Some by (simp add: command_ms_def)
  have refresh: "refreshBy = command_refreshBy r command" using iso ms by (simp add: command_refreshBy_def)
  have failure: "checkRefreshWindow (window_head (ac_timestamp command) refreshBy) n MAX_AHEAD = command_failure r n command" for n
    by (simp add: command_failure_def refresh)
  have loop: "enters r command (\<lambda>n. andThen (recordOf opts a (ac_record command)) (\<lambda>rec.
      andThen (lifted (seal_digest opts (fingerprint_object (wo_source opts) (JStr (ac_timestamp command)) a
        (map_option rr_contentType rec)))) (\<lambda>fp.
      appendLoop opts command ms refreshBy (checkRefreshWindow (window_head (ac_timestamp command) refreshBy) n MAX_AHEAD)
        a rec fp MAX_CAS_ATTEMPTS)))"
    if frozen: "freezeJson (announcement_object (ac_announcement command)) = Inr a" for a
  proof -
    have a: "a = command_announcement command" and doc: "document a"
      using frozen_announcement [OF _ frozen] assms(1) by (simp_all add: wellformed_def command_announcement_def)
    let ?o = "fingerprint_object (wo_source opts) (JStr (ac_timestamp command)) (command_announcement command)
        (map_option rr_contentType (command_record opts command))"
    have "document ?o" using doc a by (simp add: fingerprint_object_def document_Obj)
    then have fp: "seal_digest opts ?o = Inr (command_fingerprint opts command)" by (simp add: seal_digest_def command_fingerprint_def)
    show ?thesis using recordOf_cases [of command]
    proof
      assume "\<forall>v. fails view calm v (recordOf opts (command_announcement command) (ac_record command))"
      then show ?thesis unfolding a by (intro enters_fails) (erule spec)
    next
      assume rec: "(\<forall>v. runs v (recordOf opts (command_announcement command) (ac_record command)) (command_record opts command))
        \<and> (if get_field (command_announcement command) ''action'' = JStr ''available''
           then \<exists>r. command_record opts command = Some r \<and> rr_digest r = digest_of opts (record_bytes command)
                \<and> rr_path r = recordPath (rr_digest r)
                \<and> get_field (get_field (command_announcement command) ''record'') ''digest'' = JStr (rr_digest r)
           else command_record opts command = None)"
      have "ready r command n" for n by (rule ready_prepared [OF doc [unfolded a] Some iso rec [THEN conjunct2]])
      then have "enters r command (entered r command)" by (simp add: enters_def defers_refl del: appendLoop.simps)
      then show ?thesis unfolding a failure unfolding refresh ms [symmetric]
        by (intro enters_step [OF rec [THEN conjunct1, rule_format]] enters_step [OF returns_lifted [OF fp]])
    qed
  qed
  show ?thesis unfolding append_rest_def
    apply (rule enters_lifted)
    subgoal premises p for a
    proof (cases "get_field a ''action'' = JStr ''available''")
      case True
      have assoc: "andThen (andThen x g) h = andThen x (\<lambda>y. andThen (g y) h)" for x :: "('w, serve_error, 'x) async" and g h
        by (rule ext) (simp add: andThen_def split: prod.splits sum.splits)
      show ?thesis unfolding if_P [OF True] assoc
        by (rule enters_lifted, rule enters_refuse, rule loop, rule p)
    next
      case False
      show ?thesis unfolding if_not_P [OF False]
        by (rule enters_step, rule returns_ret, rule refl, rule loop, rule p)
    qed
    done
qed

lemma lifted_andThen: "andThen (lifted (Inr a)) f = f a"
  by (rule ext) (simp add: andThen_def lifted_def)

text \<open>The arguments with which an available announcement reaches the loop.\<close>

definition publishable :: "rat \<Rightarrow> append_command \<Rightarrow> bool" where
  "publishable r command \<longleftrightarrow>
     (\<exists>ms refreshBy. parseHeadTimestamp (ac_timestamp command) = Some ms \<and> isoText (of_int ms + r) = Inr refreshBy)
     \<and> sealable (announcement_object (ac_announcement command))
     \<and> get_field (command_announcement command) ''action'' = JStr ''available''
     \<and> get_field (command_announcement command) ''facts'' = JUndef
     \<and> (\<exists>bytes. ac_record command = Some (bytes, None)
          \<and> read_path (command_announcement command) [''record'', ''digest''] = Inr (JStr (digest_of opts bytes)))"

lemma append_accepts:
  assumes "wellformed command" and "publishable r command"
  shows "ready r command n" and "defers s (append_source opts r command) (entered r command (clock s))"
proof -
  let ?a = "command_announcement command"
  obtain ms refreshBy bytes where Some: "parseHeadTimestamp (ac_timestamp command) = Some ms" and iso: "isoText (of_int ms + r) = Inr refreshBy"
    and seal: "sealable (announcement_object (ac_announcement command))" and act: "get_field ?a ''action'' = JStr ''available''"
    and facts: "get_field ?a ''facts'' = JUndef" and rec: "ac_record command = Some (bytes, None)"
    and read: "read_path ?a [''record'', ''digest''] = Inr (JStr (digest_of opts bytes))"
    using assms(2) unfolding publishable_def by (elim exE conjE)
  have doc0: "document (announcement_object (ac_announcement command))"
    using assms(1) seal by (simp add: document_def wellformed_def)
  then have frozen: "freezeJson (announcement_object (ac_announcement command)) = Inr ?a" by (simp add: command_announcement_def)
  have doc: "document ?a" using frozen_announcement(1) [OF _ frozen] assms(1) by (simp add: wellformed_def)
  have field: "get_field (get_field ?a ''record'') ''digest'' = JStr (digest_of opts bytes)" by (rule read_path_two [OF read])
  have cond: "if get_field ?a ''action'' = JStr ''available''
         then \<exists>r. command_record opts command = Some r \<and> rr_digest r = digest_of opts (record_bytes command)
                \<and> rr_path r = recordPath (rr_digest r) \<and> get_field (get_field ?a ''record'') ''digest'' = JStr (rr_digest r)
         else command_record opts command = None"
    by (simp add: act rec field command_record_def Let_def)
  show ready: "ready r command n" for n by (rule ready_prepared [OF doc Some iso cond])
  have "differs (read_path ?a [''record'', ''digest'']) (JStr (digest_of opts bytes)) = Inr False" by (simp add: read differs_def)
  then have record_runs: "runs v (recordOf opts ?a (ac_record command)) (command_record opts command)" for v
    unfolding recordOf_def if_P [OF act] rec option.case prod.case Let_def
    by (intro returns_andThen [OF returns_refuse_if] returns_andThen [OF returns_refuse] returns_ret) (auto simp: command_record_def act rec Let_def)
  let ?o = "fingerprint_object (wo_source opts) (JStr (ac_timestamp command)) ?a (map_option rr_contentType (command_record opts command))"
  have "document ?o" using doc by (simp add: fingerprint_object_def document_Obj)
  then have fp: "seal_digest opts ?o = Inr (command_fingerprint opts command)" by (simp add: seal_digest_def command_fingerprint_def)
  have empty: "sealBytes (JObj []) = Inr (seal_text (JObj []))" "length (seal_text (JObj [])) \<le> factsCardBytes" by code_simp+
  have card: "runs v (andThen (lifted (sealBytes (JObj []))) (\<lambda>bytes. refuse (factsCardBytes < length bytes) msg)) ()" for v msg
    by (rule returns_andThen [OF returns_lifted [OF empty(1)]], rule returns_refuse) (use empty(2) in simp)
  have ms: "command_ms command = ms" "command_refreshBy r command = refreshBy"
    using Some iso by (simp_all add: command_ms_def command_refreshBy_def)
  have rest: "defers t (append_rest command ms refreshBy n) (entered r command n)" for t n
    unfolding append_rest_def frozen lifted_andThen if_P [OF act] facts Let_def if_P [OF disjI1 [OF refl]]
      command_failure_def ms
    by (rule defers_step, rule card [unfolded returns_def, rule_format, OF refl],
        rule defers_step, rule record_runs [unfolded returns_def, rule_format, OF refl],
        unfold fp lifted_andThen, rule defers_refl)
  have "append_source opts r command = andThen (wo_now opts) (append_rest command ms refreshBy)"
    unfolding append_source_def Some option.case Let_def append_rest_def iso by (simp add: lifted_andThen)
  then show "defers s (append_source opts r command) (entered r command (clock s))"
    using rest by (simp only:) (rule defers_step [OF now_law [OF refl]])
qed

text \<open>An append throws without an effect in every world, or in every world it enters the loop.\<close>

lemma append_source_enters:
  assumes "wellformed command"
  shows "(\<forall>v. fails view calm v (append_source opts r command))
    \<or> (\<forall>n. ready r command n) \<and> (\<forall>s. defers s (append_source opts r command) (entered r command (clock s)))"
proof (cases "parseHeadTimestamp (ac_timestamp command)")
  case None
  then show ?thesis by (simp add: append_source_def fails_throw)
next
  case (Some ms)
  show ?thesis
  proof (cases "isoText (of_int ms + r)")
    case (Inl e)
    have "fails view calm v (append_source opts r command)" for v
      unfolding append_source_def Some option.case by (rule fails_here, rule fails_lifted, rule Inl)
    then show ?thesis by blast
  next
    case (Inr refreshBy)
    have body: "append_source opts r command = andThen (wo_now opts) (append_rest command ms refreshBy)"
      unfolding append_source_def Some option.case Let_def append_rest_def Inr by (simp add: lifted_andThen)
    from append_rest_enters [OF assms Some Inr] show ?thesis unfolding enters_def
    proof
      assume f: "\<forall>n v. fails view calm v (append_rest command ms refreshBy n)"
      have "fails view calm v (append_source opts r command)" for v
        unfolding fails_def body
      proof (intro allI impI)
        fix s
        assume s: "view s = v"
        show "wp (andThen (wo_now opts) (append_rest command ms refreshBy)) (\<lambda>r t. False) (\<lambda>e t. view t = v \<and> (calm s \<longrightarrow> calm t)) s"
        proof (rule wp_seq [OF now_law [OF s]])
          fix n t
          assume t: "n = clock s \<and> view t = v \<and> (calm s \<longrightarrow> calm t)"
          then have "wp (append_rest command ms refreshBy n) (\<lambda>r t. False) (\<lambda>e u. view u = v \<and> (calm t \<longrightarrow> calm u)) t"
            using f [rule_format, of v n, unfolded fails_def, rule_format, of t] by simp
          then show "wp (append_rest command ms refreshBy n) (\<lambda>r t. False) (\<lambda>e t. view t = v \<and> (calm s \<longrightarrow> calm t)) t"
            by (rule wp_mono) (use t in auto)
        qed simp
      qed
      then show ?thesis by blast
    next
      assume d: "\<forall>n. ready r command n \<and> (\<forall>s. defers s (append_rest command ms refreshBy n) (entered r command n))"
      have "defers s (append_source opts r command) (entered r command (clock s))" for s
        unfolding body using d by (intro defers_step [OF now_law [OF refl]]) simp
      then show ?thesis using d by blast
    qed
  qed
qed

end

end
