(* ===== verification/Writer_Safety.thy ===== *)
theory Writer_Safety
  imports Writer_Append
begin

text \<open>
  What the durable source writer promises, for every store with the contract of \<open>durable_ports\<close>: every call keeps
  the durable data \<open>healthy\<close>, a calm recovery ends idle, the published head never dangles, and a command that a
  calm host would commit is committed exactly once, with the same receipt and the same bytes, however often the
  host failed before.
\<close>

section \<open>Healthy data\<close>

definition healthy :: "'w writer_options \<Rightarrow> signatures \<Rightarrow> (source_state \<Rightarrow> string) \<Rightarrow> durable \<Rightarrow> bool" where
  "healthy opts sigs stateRev v \<longleftrightarrow> idle opts sigs v \<or> (\<exists>m. pending opts sigs stateRev m v)"

text \<open>The state once the pending append, if there is one, has been committed.\<close>

definition state_after :: "'w writer_options \<Rightarrow> durable \<Rightarrow> source_state" where
  "state_after opts v = (case du_intent v of None \<Rightarrow> state_of opts v | Some i \<Rightarrow> ai_nextState i)"

text \<open>The digests of that state and of its successor by the command differ.\<close>

definition distinguished :: "'w writer_options \<Rightarrow> rat \<Rightarrow> append_command \<Rightarrow> durable \<Rightarrow> bool" where
  "distinguished opts r command v \<longleftrightarrow> told_apart opts (append_context opts r command None (state_after opts v) None)"

lemma told_apart_context:
  "told_apart opts (append_context opts r command revision st previous) = told_apart opts (append_context opts r command None st None)"
  by (simp add: told_apart_def planned_state_def planned_receipt_def planned_digest_def planned_entry_def planned_sequence_def)

lemma record_stage_trans:
  "record_stage command m v u \<Longrightarrow> record_stage command m u w \<Longrightarrow> record_stage command m v w"
  by (cases "mc_record m") (auto simp: record_stage_def with_record_def claimed_def stored_at_def)

section \<open>Repeated attempts\<close>

text \<open>The data after any number of calls, each in some world that holds the data the call before it left.\<close>

inductive retries :: "('w \<Rightarrow> 'v) \<Rightarrow> ('w \<Rightarrow> 'w) set \<Rightarrow> 'v \<Rightarrow> 'v \<Rightarrow> bool" for view calls v where
  retries_none: "retries view calls v v"
| retries_more: "retries view calls v u \<Longrightarrow> view s = u \<Longrightarrow> call \<in> calls \<Longrightarrow> retries view calls v (view (call s))"

lemma retries_invariant:
  assumes "retries view calls v w" and "S v" and "\<And>call s. call \<in> calls \<Longrightarrow> S (view s) \<Longrightarrow> S (view (call s))"
  shows "S w"
  using assms(1,2) by induction (auto intro: assms(3))

context durable_ports
begin

abbreviation sound :: "durable \<Rightarrow> bool" where
  "sound \<equiv> healthy opts sigs stateRev"

lemma wp_end: "wp p (\<lambda>r t. H (view t)) (\<lambda>e t. H (view t)) s \<Longrightarrow> H (view (snd (p s)))"
  by (cases "p s"; cases "fst (p s)") (auto simp: wp_def)

lemma wp_ends: "wp p Q E s \<Longrightarrow> (\<And>r t. Q r t \<Longrightarrow> H (view t)) \<Longrightarrow> (\<And>e t. E e t \<Longrightarrow> H (view t)) \<Longrightarrow> H (view (snd (p s)))"
  by (rule wp_end, erule wp_mono) simp_all

lemma progress_end:
  assumes "progress H v p a w" and "H w" and "view s = v"
  shows "H (view (snd (p s)))"
proof (rule wp_end)
  show "wp p (\<lambda>r t. H (view t)) (\<lambda>e t. H (view t)) s"
    by (rule wp_mono [OF assms(1) [unfolded progress_def, rule_format, OF assms(3)]]) (use assms(2) in auto)
qed

lemma progress_mono: "progress H v p a w \<Longrightarrow> (\<And>u. H u \<Longrightarrow> H' u) \<Longrightarrow> progress H' v p a w"
  unfolding progress_def by (auto elim!: wp_mono)

lemma aborts_end:
  assumes "aborts H v p" and "view s = v"
  shows "H (view (snd (p s)))"
proof (rule wp_end)
  show "wp p (\<lambda>r t. H (view t)) (\<lambda>e t. H (view t)) s"
    by (rule wp_mono [OF assms(1) [unfolded aborts_def, rule_format, OF assms(2)]]) auto
qed

lemma aborts_mono: "aborts H v p \<Longrightarrow> (\<And>u. H u \<Longrightarrow> H' u) \<Longrightarrow> aborts H' v p"
  unfolding aborts_def by (auto elim!: wp_mono)

lemma idle_poised:
  assumes "idle opts sigs v"
  obtains previous where "stands (aimed r command v previous) v"
  using assms by (auto simp: idle_def poised_def)

lemma halted_sound:
  assumes "awaiting m v" and "halted m v u"
  shows "sound u"
  using assms awaiting_settles by (auto simp: halted_def healthy_def)

lemma recover_sound:
  assumes "sound v"
  obtains H report w where "progress H v (recover opts) report w" "idle opts sigs w" "state_of opts w = state_after opts v"
    "\<forall>u. H u \<longrightarrow> sound u" "H v"
proof (cases "idle opts sigs v")
  case True
  then have intent: "du_intent v = None" by (simp add: idle_def)
  have "progress (\<lambda>u. u = v) v (recover opts) Idle v" by (rule progress_returns [OF refl recover_idle [OF intent]])
  then show ?thesis by (rule that) (use True intent in \<open>auto simp: state_after_def healthy_def\<close>)
next
  case False
  then obtain m where m: "awaiting m v" using assms by (auto simp: healthy_def)
  have "progress (halted m v) v (recover opts) (Recovered (planned_receipt opts m)) (settled m v)"
    by (rule progress_advances [OF recover_pending [OF m]])
  then show ?thesis
    by (rule that)
      (use awaiting_settles [OF m] pending_facts(7) [OF m] halted_sound [OF m] m in
        \<open>auto simp: state_after_def state_of_def halted_def\<close>)
qed

lemma entered_loop:
  "entered r command n = append_loop command (command_ms command) (command_failure r n command) (aimed r command v previous) (Suc 31)"
  by (simp add: MAX_CAS_ATTEMPTS_def del: appendLoop.simps)

text \<open>An append, however it ends, leaves sound data.\<close>

lemma append_sound:
  assumes "sound v" and "wellformed command" and "distinguished opts r command v" and "view s = v"
  shows "sound (view (snd (append_source opts r command s)))"
proof -
  obtain H report w where rec: "progress H v (recover opts) report w" "idle opts sigs w" "state_of opts w = state_after opts v"
    "\<forall>u. H u \<longrightarrow> sound u" "H v" by (rule recover_sound [OF assms(1)])
  obtain previous where at: "stands (aimed r command w previous) w" by (rule idle_poised [OF rec(2)])
  let ?m = "aimed r command w previous"
  have apart: "told_apart opts ?m" using assms(3) rec(3) by (subst told_apart_context) (simp add: distinguished_def)
  let ?f = "command_failure r (clock s) command" and ?a = "append_source opts r command"
  consider "\<forall>u. fails view calm u ?a" | "ready r command (clock s)" "defers s ?a (entered r command (clock s))"
    using append_source_enters [OF assms(2), of r] by auto
  then show ?thesis
  proof cases
    case 1
    show ?thesis
      by (rule wp_ends [where H = sound, OF 1 [rule_format, of v, unfolded fails_def, rule_format, OF assms(4)]]) (use assms(1) in auto)
  next
    case 2
    have p: "prepared opts command (command_ms command) ?f ?m" using 2(1) by blast
    note defers = 2(2) [unfolded entered_loop [where r = r and command = command and v = w and previous = previous and n = "clock s"]]
    note progress = defers_progress [where H = sound, OF defers assms(1,4)] and aborts = defers_aborts [where H = sound, OF defers assms(1,4)]
    consider (replay) receipt where "replayed ?m receipt" | (admit) "admitted opts sigs command (command_ms command) ?f ?m w"
      | (refuse) "\<not> (\<exists>receipt. replayed ?m receipt)" "\<not> admitted opts sigs command (command_ms command) ?f ?m w"
      by blast
    then show ?thesis
    proof cases
      case replay
      have w: "sound w" using rec(2) by (simp add: healthy_def)
      have loop: "progress sound v (append_loop command (command_ms command) ?f ?m (Suc 31)) receipt w"
        by (rule append_replayed [where H = sound, OF progress_mono [OF rec(1) rec(4) [rule_format]] w at rec(2) replay])
      show ?thesis by (rule wp_ends [where H = sound, OF progress [OF loop]]) (use w in auto)
    next
      case admit
      let ?w = "(with_record command ?m w)\<lparr>du_intent := Some (planned_intent opts sigs ?m)\<rparr>"
      have claim: "awaiting ?m ?w" by (rule claim_pending [OF p at rec(2) admit apart])
      have same: "settled ?m ?w = settled ?m (with_record command ?m w)" by (simp only: settle_stages)
      have typed: "typed w" and fits: "record_fits command ?m w" using rec(2) admit by (simp_all add: idle_def admitted_def)
      have stage: "sound u" if "record_stage command ?m w u" for u
        using record_stages [OF p typed fits that] idle_off_path rec(2) by (cases "u = w") (auto simp: healthy_def)
      have halt: "sound u" if "halted ?m (with_record command ?m w) u" for u
        by (rule halted_sound [OF claim]) (use that same in \<open>simp add: halted_def\<close>)
      have loop: "progress sound v (append_loop command (command_ms command) ?f ?m (Suc 31)) (planned_receipt opts ?m)
          (settled ?m (with_record command ?m w))"
        by (rule progress_mono [OF append_admitted [OF rec(1) p at rec(2) admit apart]]) (use rec(4) stage halt in blast)
      have "sound (settled ?m (with_record command ?m w))" by (rule halt) (simp add: halted_def)
      then show ?thesis by (intro wp_ends [where H = sound, OF progress [OF loop]]) auto
    next
      case refuse
      have only: "sound u" if "only_record ?m w u" for u using idle_only_record [OF p rec(2) that] by (simp add: healthy_def)
      have loop: "aborts sound v (append_loop command (command_ms command) ?f ?m (Suc 31))"
        by (rule aborts_mono [OF append_refused [OF rec(1) p at rec(2) refuse]]) (use rec(4) only in blast)
      show ?thesis by (rule wp_ends [where H = sound, OF aborts [OF loop]]) auto
    qed
  qed
qed

text \<open>A calm recovery of sound data returns and leaves the source idle.\<close>

lemma recover_calm:
  assumes "sound v" and "view s = v" and "calm s"
  shows "\<exists>report t. recover opts s = (Inr report, t) \<and> idle opts sigs (view t) \<and> state_of opts (view t) = state_after opts v \<and> calm t"
proof -
  obtain H report w where rec: "progress H v (recover opts) report w" "idle opts sigs w" "state_of opts w = state_after opts v"
    "\<forall>u. H u \<longrightarrow> sound u" "H v" by (rule recover_sound [OF assms(1)])
  then have "wp (recover opts) (\<lambda>r t. r = report \<and> view t = w \<and> (calm s \<longrightarrow> calm t)) (\<lambda>e t. \<not> calm s \<and> H (view t)) s"
    using assms(2) by (simp add: progress_def)
  then show ?thesis using assms(3) rec(2,3) by (cases "recover opts s"; cases "fst (recover opts s)") (auto simp: wp_def)
qed

lemma recover_end: "sound v \<Longrightarrow> view s = v \<Longrightarrow> sound (view (snd (recover opts s)))"
proof -
  assume v: "sound v" "view s = v"
  obtain H report w where rec: "progress H v (recover opts) report w" "idle opts sigs w" "state_of opts w = state_after opts v"
    "\<forall>u. H u \<longrightarrow> sound u" "H v" by (rule recover_sound [OF v(1)])
  show ?thesis
    by (rule progress_end [where H = sound, OF progress_mono [OF rec(1) rec(4) [rule_format]]]) (use rec(2) v(2) in \<open>auto simp: healthy_def\<close>)
qed

section \<open>The same outcome after any number of failed attempts\<close>

text \<open>\<open>S\<close> holds of the data between attempts, and from all of it the call reaches the same end unless it is excused.\<close>

lemma retries_converge:
  assumes call: "\<And>s. S (view s) \<Longrightarrow> wp p (\<lambda>r t. r = a \<and> view t = w) (\<lambda>e t. S (view t) \<and> excused s) s"
    and other: "\<And>s. S (view s) \<Longrightarrow> S (view (snd (q s)))" and start: "S v" and final: "S w"
    and first: "view s0 = v" "p s0 = (Inr b, t0)"
    and tries: "retries view {\<lambda>s. snd (p s), \<lambda>s. snd (q s)} v u" and s: "view s = u"
  shows "wp p (\<lambda>r t. r = b \<and> view t = view t0) (\<lambda>e t. excused s) s"
proof -
  have "wp p (\<lambda>r t. r = a \<and> view t = w) (\<lambda>e t. S (view t) \<and> excused s0) s0" using call start first(1) by simp
  then have b: "b = a" "view t0 = w" using first by (simp_all add: wp_def)
  have "S u" using tries start
  proof (rule retries_invariant)
    fix f s
    assume f: "f \<in> {\<lambda>s. snd (p s), \<lambda>s. snd (q s)}" and s: "S (view s)"
    have "S (view (snd (p s)))" by (rule wp_end, rule wp_mono [OF call [OF s]]) (use final in auto)
    then show "S (view (f s))" using f other [OF s] by auto
  qed
  then have "wp p (\<lambda>r t. r = a \<and> view t = w) (\<lambda>e t. S (view t) \<and> excused s) s" using call s by simp
  then show ?thesis by (rule wp_mono) (use b in auto)
qed

text \<open>A head whose window no consumer accepts is refused before anything is written.\<close>

lemma append_out_of_window:
  assumes r: "progress H0 v0 (recover opts) report v" and a: "stands m v" and i: "idle opts sigs v"
    and new: "object_member (st_announcements (mc_state m)) (announcement_id m) = Absent"
  shows "aborts (\<lambda>u. H0 u \<or> u = v) v0 (append_loop command ms (Some f) m (Suc n))"
proof -
  have v: "state_ok opts (state_of opts v)" "mc_state m = state_of opts v" using a i by (simp_all add: idle_def poised_def)
  show ?thesis unfolding appendLoop.simps Let_def
    apply (rule aborts_after [OF r])
    apply (rule aborts_later [where H = "\<lambda>u. u = v", OF loadState_returns [OF v(1)] refl])
    apply (unfold prod.case v(2) [symmetric] new member.case option.case refuseMintedWindow_def)
    apply (rule aborts_here, rule aborts_fails [where H = "\<lambda>u. u = v", OF refl fails_throw])
    done
qed

end

context durable_ports
begin

lemma settled_replay:
  assumes "mc_fingerprint m = command_fingerprint opts command" and "mc_announcement m = command_announcement command"
    and "state_of opts w = planned_state opts m"
  shows "replayed (aimed r command w previous) (planned_receipt opts m)"
proof -
  let ?e = "\<lparr>pb_action = field_text_of (mc_announcement m) ''action'', pb_fingerprint = mc_fingerprint m, pb_receipt = planned_receipt opts m\<rparr>"
  have "object_member (st_announcements (planned_state opts m)) (announcement_id m) = Own ?e"
    unfolding object_member_def by (simp only: planned_state_fields option.case)
  then show ?thesis unfolding replayed_def append_context_fields assms(2) [symmetric] assms(3)
    by (intro exI [of _ ?e]) (simp add: assms(1))
qed

text \<open>From every stage of an admitted append the same command reaches the same end.\<close>

lemma admitted_converges:
  assumes p: "ready r command n0" "command_failure r n0 command = None" and at: "stands (aimed r command v previous) v" and i: "idle opts sigs v"
    and d: "admitted opts sigs command (command_ms command) None (aimed r command v previous) v"
    and t: "told_apart opts (aimed r command v previous)"
    and S: "S = (\<lambda>u. record_stage command (aimed r command v previous) v u
        \<or> halted (aimed r command v previous) (with_record command (aimed r command v previous) v) u)" and u: "S u"
  shows "progress S u (entered r command n) (planned_receipt opts (aimed r command v previous))
      (settled (aimed r command v previous) (with_record command (aimed r command v previous) v))
      \<or> command_failure r n command \<noteq> None \<and> aborts S u (entered r command n)"
    and "\<exists>report x. S x \<and> progress S u (recover opts) report x"
proof -
  let ?m = "aimed r command v previous"
  let ?v = "with_record command ?m v"
  let ?W = "settled ?m ?v"
  let ?ok = "progress S u (entered r command n) (planned_receipt opts ?m) ?W"
  have prep: "prepared opts command (command_ms command) None ?m" using p by (metis (no_types))
  have claim: "awaiting ?m (?v\<lparr>du_intent := Some (planned_intent opts sigs ?m)\<rparr>)" by (rule claim_pending [OF prep at i d t])
  have W: "idle opts sigs ?W" using awaiting_settles [OF claim] by (simp only: settle_stages)
  obtain previous' where atW: "stands (aimed r command ?W previous') ?W" by (rule idle_poised [OF W])
  have replay: "replayed (aimed r command ?W previous') (planned_receipt opts ?m)"
    by (rule settled_replay) (simp_all add: state_of_def)
  have SW: "S ?W" by (simp add: S halted_def)
  have again: "progress S x (entered r command n) (planned_receipt opts ?m) ?W" if "progress S x (recover opts) report ?W" for x report
    unfolding entered_loop [where r = r and command = command and v = ?W and previous = previous']
    by (rule append_replayed [where H = S, OF that SW atW W replay])
  consider (stage) "record_stage command ?m v u" | (pending) "awaiting ?m u" "settled ?m u = ?W" | (final) "u = ?W"
    using u by (auto simp: S halted_def)
  then have "(?ok \<or> command_failure r n command \<noteq> None \<and> aborts S u (entered r command n))
      \<and> (\<exists>report x. S x \<and> progress S u (recover opts) report x)"
  proof cases
    case stage
    have typed: "typed v" and fits: "record_fits command ?m v" using i d by (simp_all add: idle_def admitted_def)
    note st = record_stages [OF prep typed fits stage]
    have iu: "idle opts sigs u" using st(1,4) idle_off_path i by (cases "u = v") auto
    have atu: "stands ?m u"
    proof (cases "u = v")
      case False
      then obtain d where "off_path (recordPath d) v u" using st(4) by blast
      then show ?thesis using at by (subst poised_off_path)
    qed (use at in simp)
    have du: "admitted opts sigs command (command_ms command) None ?m u" using d st(2) by (simp add: admitted_def)
    have rec: "progress (\<lambda>x. x = u) u (recover opts) Idle u"
      by (rule progress_returns [OF refl recover_idle]) (use iu in \<open>simp add: idle_def\<close>)
    have "?ok \<or> command_failure r n command \<noteq> None \<and> aborts S u (entered r command n)"
    proof (cases "command_failure r n command")
      case None
      have "progress S u (append_loop command (command_ms command) None ?m (Suc 31)) (planned_receipt opts ?m)
          (settled ?m (with_record command ?m u))"
        by (rule progress_mono [OF append_admitted [OF rec prep atu iu du t]])
          (use u record_stage_trans [OF stage] st(3) in \<open>auto simp: S\<close>)
      then have "progress S u (entered r command n) (planned_receipt opts ?m) (settled ?m (with_record command ?m u))"
        by (simp only: None entered_loop [where r = r and command = command and v = v and previous = previous and n = n, unfolded None])
      then have ?ok unfolding st(3) .
      then show ?thesis ..
    next
      case (Some f)
      have "object_member (st_announcements (mc_state ?m)) (announcement_id ?m) = Absent" using d by (simp add: admitted_def)
      then have "aborts (\<lambda>x. x = u \<or> x = u) u (append_loop command (command_ms command) (Some f) ?m (Suc 31))"
        by (rule append_out_of_window [OF rec atu iu])
      then have "aborts (\<lambda>x. x = u \<or> x = u) u (entered r command n)"
        by (simp only: Some entered_loop [where r = r and command = command and v = v and previous = previous and n = n, unfolded Some])
      then have "aborts S u (entered r command n)" by (rule aborts_mono) (use u in auto)
      then show ?thesis using Some by blast
    qed
    moreover have "progress S u (recover opts) Idle u" by (rule progress_mono [OF rec]) (use u in simp)
    ultimately show ?thesis using u by blast
  next
    case pending
    have rec: "progress S u (recover opts) (Recovered (planned_receipt opts ?m)) ?W"
      using progress_advances [where H = S, OF recover_pending [OF pending(1)]] pending(2) by (simp add: S halted_def)
    show ?thesis using again [OF rec] rec SW by blast
  next
    case final
    have rec: "progress S u (recover opts) Idle ?W"
      unfolding final by (rule progress_returns [where H = S, OF SW recover_idle]) simp
    show ?thesis using again [OF rec] rec SW by blast
  qed
  then show "?ok \<or> command_failure r n command \<noteq> None \<and> aborts S u (entered r command n)"
      "\<exists>report x. S x \<and> progress S u (recover opts) report x"
    by (rule conjunct1, rule conjunct2)
qed

text \<open>
  If the command returns from idle data, then after any number of failed attempts and recoveries, whatever the clock
  read, it returns the same receipt and leaves the same data, unless the host fails again or the clock puts the head
  outside its window.
\<close>

lemma append_transparent:
  assumes i: "idle opts sigs v" and c: "wellformed command" and d: "distinguished opts r command v"
    and first: "view s0 = v" "append_source opts r command s0 = (Inr receipt, t0)"
    and tries: "retries view {\<lambda>s. snd (append_source opts r command s), \<lambda>s. snd (recover opts s)} v u" and s: "view s = u"
  shows "wp (append_source opts r command) (\<lambda>rc t. rc = receipt \<and> view t = view t0)
    (\<lambda>e t. \<not> calm s \<or> command_failure r (clock s) command \<noteq> None) s"
proof -
  let ?a = "append_source opts r command"
  have "\<not> fails view calm v ?a" using first by (auto simp: fails_def wp_def)
  then have enter: "\<And>n. ready r command n" "\<And>s. defers s ?a (entered r command (clock s))"
    using append_source_enters [OF c, of r] by blast+
  obtain previous where at: "stands (aimed r command v previous) v" by (rule idle_poised [OF i])
  let ?m = "aimed r command v previous" and ?f = "command_failure r (clock s0) command"
  let ?excused = "\<lambda>s. \<not> calm s \<or> command_failure r (clock s) command \<noteq> None"
  have intent: "du_intent v = None" using i by (simp add: idle_def)
  have prep: "prepared opts command (command_ms command) ?f ?m" using enter(1) by blast
  have rec: "progress (\<lambda>x. x = v) v (recover opts) Idle v" by (rule progress_returns [OF refl recover_idle [OF intent]])
  consider (replay) rc where "replayed ?m rc"
    | (admit) "admitted opts sigs command (command_ms command) ?f ?m v"
    | (refuse) "\<not> (\<exists>rc. replayed ?m rc)" "\<not> admitted opts sigs command (command_ms command) ?f ?m v"
    by blast
  then show ?thesis
  proof cases
    case replay
    have loop: "progress (\<lambda>x. x = v) v (entered r command n) rc v" for n
      unfolding entered_loop [where r = r and command = command and v = v and previous = previous]
      by (rule append_replayed [where H = "\<lambda>x. x = v", OF rec refl at i replay])
    show ?thesis
    proof (rule retries_converge [where S = "\<lambda>x. x = v" and excused = ?excused and w = v and a = rc, OF _ _ refl refl first tries s])
      show "wp ?a (\<lambda>r t. r = rc \<and> view t = v) (\<lambda>e t. view t = v \<and> ?excused s) s" if "view s = v" for s
        by (rule wp_mono [OF defers_progress [where H = "\<lambda>x. x = v", OF enter(2) refl that loop]]) simp_all
      show "view (snd (recover opts s)) = v" if "view s = v" for s
        by (rule progress_end [where H = "\<lambda>x. x = v", OF rec refl that])
    qed
  next
    case admit
    have t: "told_apart opts ?m" using d intent by (subst told_apart_context) (simp add: distinguished_def state_after_def)
    have f: "?f = None" using admit by (simp add: admitted_def)
    define S where "S = (\<lambda>u. record_stage command ?m v u \<or> halted ?m (with_record command ?m v) u)"
    let ?W = "settled ?m (with_record command ?m v)"
    have ends: "S v" "S ?W" by (simp_all add: S_def record_stage_def halted_def)
    note conv = admitted_converges [OF enter(1) f at i admit [unfolded f] t S_def]
    show ?thesis
    proof (rule retries_converge [where S = S and excused = ?excused and w = ?W and a = "planned_receipt opts ?m", OF _ _ ends first tries s])
      fix s
      assume S: "S (view s)"
      from conv(1) [OF S, of "clock s"]
      show "wp ?a (\<lambda>r t. r = planned_receipt opts ?m \<and> view t = ?W) (\<lambda>e t. S (view t) \<and> ?excused s) s"
      proof
        assume loop: "progress S (view s) (entered r command (clock s)) (planned_receipt opts ?m) ?W"
        show ?thesis by (rule wp_mono [OF defers_progress [where H = S, OF enter(2) S refl loop]]) simp_all
      next
        assume loop: "command_failure r (clock s) command \<noteq> None \<and> aborts S (view s) (entered r command (clock s))"
        show ?thesis
          by (rule wp_mono [OF defers_aborts [where H = S, OF enter(2) S refl loop [THEN conjunct2]]]) (use loop in simp_all)
      qed
      from conv(2) [OF S] obtain report x where x: "S x" "progress S (view s) (recover opts) report x" by blast
      show "S (view (snd (recover opts s)))" by (rule progress_end [where H = S, OF x(2,1) refl])
    qed
  next
    case refuse
    have ab: "aborts (\<lambda>x. x = v \<or> only_record ?m v x) v (entered r command (clock s0))"
      unfolding entered_loop [where r = r and command = command and v = v and previous = previous]
      by (rule append_refused [OF rec prep at i refuse])
    have "wp ?a (\<lambda>r t. False) (\<lambda>e t. (calm s0 \<longrightarrow> calm t) \<and> (view t = v \<or> only_record ?m v (view t))) s0"
      by (rule defers_aborts [where H = "\<lambda>x. x = v \<or> only_record ?m v x", OF enter(2) _ first(1) ab]) simp
    then show ?thesis using first by (simp add: wp_def)
  qed
qed

end

context durable_ports
begin

text \<open>A published head is this source's own, and the whole archive below it is published.\<close>

lemma head_archived:
  assumes "sound v" and "du_blobs v (head_path opts) = Some blob"
  shows "\<exists>h. head_valid h \<and> sh_origin h = sourceId opts \<and> blob = \<lparr>sb_bytes = head_bytes sigs h, sb_contentType = MEDIA_HEAD\<rparr>
    \<and> archive_chain opts v (nat_of_digits (sh_sequence h)) (Some (sh_entry h))"
proof -
  have committed: ?thesis if "head_matches opts sigs v st previous" and "archived opts v st" for st previous
    using that assms(2) by (cases "st_last st") (auto simp: head_matches_def last_number_def)
  from assms(1) consider "idle opts sigs v" | m where "awaiting m v" by (auto simp: healthy_def)
  then show ?thesis
  proof cases
    case 1
    then show ?thesis using committed by (auto simp: idle_def)
  next
    case (2 m)
    note p = 2 [unfolded pending_def]
    show ?thesis
    proof (cases "head_matches opts sigs v (mc_state m) (mc_previousHead m)")
      case True
      then show ?thesis using committed p by blast
    next
      case False
      then have new: "blob = new_head opts sigs m" "page_present opts sigs m v" using p assms(2) by auto
      have chain: "archived opts v (mc_state m)" "nat_of_digits (planned_sequence m) = Suc (last_number (mc_state m))"
        using p by simp_all
      show ?thesis
        by (intro exI [of _ "planned_head opts m"] conjI)
          (use new(1) planned_chain [OF chain pending_facts(2) [OF 2] new(2)] planned_head_valid [OF pending_facts(1) [OF 2]] in
            \<open>simp_all del: archive_chain.simps\<close>)
    qed
  qed
qed


text \<open>A calm host commits an admissible command, whatever the clock, within the window of its head.\<close>

lemma append_commits:
  assumes "idle opts sigs v" and "wellformed command" and "publishable r command" and "view s = v" and "calm s"
    and "stands (aimed r command v previous) v" and "told_apart opts (aimed r command v previous)"
    and "admitted opts sigs command (command_ms command) (command_failure r (clock s) command) (aimed r command v previous) v"
  shows "\<exists>t. append_source opts r command s = (Inr (planned_receipt opts (aimed r command v previous)), t)
    \<and> view t = settled (aimed r command v previous) (with_record command (aimed r command v previous) v)"
proof -
  let ?m = "aimed r command v previous" and ?f = "command_failure r (clock s) command"
  have p: "prepared opts command (command_ms command) ?f ?m" using append_accepts(1) [OF assms(2,3)] by blast
  have intent: "du_intent v = None" using assms(1) by (simp add: idle_def)
  have rec: "progress (\<lambda>x. True) v (recover opts) Idle v" by (rule progress_returns [OF TrueI recover_idle [OF intent]])
  have loop: "progress (\<lambda>x. True) v (entered r command (clock s)) (planned_receipt opts ?m) (settled ?m (with_record command ?m v))"
    unfolding entered_loop [where r = r and command = command and v = v and previous = previous]
    by (rule progress_mono [OF append_admitted [OF rec p assms(6,1,8,7)]]) simp
  have "wp (append_source opts r command) (\<lambda>rc t. rc = planned_receipt opts ?m \<and> view t = settled ?m (with_record command ?m v))
      (\<lambda>e t. \<not> calm s) s"
    by (rule wp_mono [OF defers_progress [where H = "\<lambda>x. True", OF append_accepts(2) [OF assms(2,3)] TrueI assms(4) loop]]) simp_all
  then show ?thesis using assms(5) by (cases "append_source opts r command s"; cases "fst (append_source opts r command s)") (auto simp: wp_def)
qed

end

end
