(* ===== verification/Workspace_Source.thy ===== *)
theory Workspace_Source
  imports Writer_Safety
begin

text \<open>
  The source of a benchmark workspace: benchmark-product/core/src/run/publication-source.ts composes the
  durable writer from the file-system blob store of discovery/transport-http/src/fs-blob-store.ts, a
  compare-and-swap store for the state and the intent, and the workspace's report key.

  \<^item> The world is a \<open>disk\<close>: files by their path segments, the two documents, the clock, and \<open>dk_ticks\<close>, the
    number of host operations that still succeed (\<open>None\<close>: all of them). Every operation that touches the
    disk may fail before its effect or after it; a temporary file is never visible. Directories and symbolic links
    are not modelled, and neither is a power loss that keeps the rename of \<open>writeAtomically\<close> and loses the data of
    the temporary file, which the code does not sync.
  \<^item> The state and intent files hold their documents as values; the code writes and reads them with
    \<open>JSON.stringify\<close> and \<open>JSON.parse\<close>. A sidecar that is not the UTF-8 text of code units below 256
    reads as the empty content type.
  \<^item> Ed25519 and SHA-256 are parameters, with what the code relies on of them as the assumptions of the
    locale \<open>workspace_source\<close>, which satisfies \<open>durable_ports\<close>.
\<close>

section \<open>The file-system blob store\<close>

type_synonym fpath = "string list"

record disk =
  dk_files :: "fpath \<rightharpoonup> bytes"
  dk_state :: "source_state option"
  dk_intent :: "append_intent option"
  dk_clock :: int
  dk_ticks :: "nat option"

definition tick :: "(disk, serve_error, unit) async" where
  "tick d =
     (case dk_ticks d of
        None \<Rightarrow> (Inr (), d)
      | Some 0 \<Rightarrow> (Inl (Failure ''host failure''), d)
      | Some (Suc n) \<Rightarrow> (Inr (), d\<lparr>dk_ticks := Some n\<rparr>))"

text \<open>An operation with an effect: the host may fail before it and after it.\<close>

definition effect :: "(disk \<Rightarrow> disk) \<Rightarrow> (disk, serve_error, unit) async" where
  "effect f = andThen tick (\<lambda>_. andThen (modify f) (\<lambda>_. tick))"

definition CONTENT_TYPE_SUFFIX :: string where
  "CONTENT_TYPE_SUFFIX = ''.content-type''"

definition DIGEST_PATH_PREFIX :: string where
  "DIGEST_PATH_PREFIX = ''/records/''"

fun split_path :: "string \<Rightarrow> string list" where
  "split_path [] = [[]]"
| "split_path (c # cs) =
     (if c = CHR ''/'' then [] # split_path cs
      else case split_path cs of [] \<Rightarrow> [[c]] | s # ss \<Rightarrow> (c # s) # ss)"

definition path_step :: "fpath \<Rightarrow> string \<Rightarrow> fpath" where
  "path_step target segment =
     (if segment = [] \<or> segment = ''.'' then target
      else if segment = ''..'' then butlast target
      else target @ [segment])"

definition resolveWithinRoot :: "fpath \<Rightarrow> string \<Rightarrow> (exn, fpath) result" where
  "resolveWithinRoot rootDir path =
     (let resolved = foldl path_step rootDir (split_path (CHR ''.'' # (if startsWith path ''/'' then path else CHR ''/'' # path)))
      in if resolved = rootDir \<or> rootDir \<noteq> [] \<and> take (length rootDir) resolved = rootDir then Inr resolved else Inl ''UnsafeBlobPathError'')"

definition sidecar :: "fpath \<Rightarrow> fpath" where
  "sidecar target = butlast target @ [last target @ CONTENT_TYPE_SUFFIX]"

definition readIfPresent :: "fpath \<Rightarrow> (disk, serve_error, bytes option) async" where
  "readIfPresent target = andThen tick (\<lambda>_. read_state (\<lambda>d. dk_files d target))"

definition write_file :: "fpath \<Rightarrow> bytes \<Rightarrow> disk \<Rightarrow> disk" where
  "write_file target bytes d = d\<lparr>dk_files := (dk_files d)(target \<mapsto> bytes)\<rparr>"

definition writeAtomically :: "fpath \<Rightarrow> bytes \<Rightarrow> (disk, serve_error, unit) async" where
  "writeAtomically target bytes = effect (write_file target bytes)"

definition createOrConfirm :: "fpath \<Rightarrow> bytes \<Rightarrow> string \<Rightarrow> (disk, serve_error, unit) async" where
  "createOrConfirm target bytes conflictPath =
     andThen (read_state (\<lambda>d. dk_files d target = None)) (\<lambda>absent.
       if absent then effect (write_file target bytes)
       else andThen (readIfPresent target) (\<lambda>existing.
         if existing \<noteq> Some bytes then throw (Failure (''ContentAddressedConflictError '' @ conflictPath)) else ret ()))"

definition fs_putImmutable :: "fpath \<Rightarrow> string \<Rightarrow> bytes \<Rightarrow> string \<Rightarrow> (disk, serve_error, unit) async" where
  "fs_putImmutable rootDir path bytes contentType =
     andThen (lifted (resolveWithinRoot rootDir path)) (\<lambda>target.
     andThen (createOrConfirm (sidecar target) (utf8_encode contentType) path) (\<lambda>_.
       createOrConfirm target bytes path))"

definition fs_put :: "fpath \<Rightarrow> string \<Rightarrow> bytes \<Rightarrow> string \<Rightarrow> (disk, serve_error, unit) async" where
  "fs_put rootDir path bytes contentType =
     andThen (lifted (resolveWithinRoot rootDir path)) (\<lambda>target.
       if startsWith path DIGEST_PATH_PREFIX then fs_putImmutable rootDir path bytes contentType
       else andThen (writeAtomically (sidecar target) (utf8_encode contentType)) (\<lambda>_. writeAtomically target bytes))"

definition decode_text :: "bytes \<Rightarrow> string" where
  "decode_text t = (case utf8_decode t of Some c \<Rightarrow> c | None \<Rightarrow> [])"

definition declared_type :: "bytes option \<Rightarrow> string" where
  "declared_type declared = (case declared of None \<Rightarrow> DEFAULT_RECORD_CONTENT_TYPE | Some t \<Rightarrow> decode_text t)"

definition fs_get :: "fpath \<Rightarrow> string \<Rightarrow> (disk, serve_error, stored_blob option) async" where
  "fs_get rootDir path =
     andThen (lifted (resolveWithinRoot rootDir path)) (\<lambda>target.
     andThen (readIfPresent target) (\<lambda>bytes.
       case bytes of
         None \<Rightarrow> ret None
       | Some b \<Rightarrow> andThen (readIfPresent (sidecar target)) (\<lambda>declared.
           ret (Some \<lparr>sb_bytes = b, sb_contentType = declared_type declared\<rparr>))))"

section \<open>The state and intent documents\<close>

definition revision :: "(bytes \<Rightarrow> string) \<Rightarrow> json option \<Rightarrow> string" where
  "revision sha v = sha (utf8_encode (case v of None \<Rightarrow> ''undefined'' | Some j \<Rightarrow> json_text j))"

definition cas_read :: "(disk \<Rightarrow> 'a option) \<Rightarrow> ('a \<Rightarrow> string) \<Rightarrow> (disk, serve_error, (string \<times> 'a) option) async" where
  "cas_read slot revisionOf = andThen tick (\<lambda>_. read_state (\<lambda>d. map_option (\<lambda>v. (revisionOf v, v)) (slot d)))"

definition compareAndSwap ::
  "(disk \<Rightarrow> 'a option) \<Rightarrow> ('a option \<Rightarrow> disk \<Rightarrow> disk) \<Rightarrow> ('a \<Rightarrow> string) \<Rightarrow> string \<Rightarrow> string option \<Rightarrow> 'a option
     \<Rightarrow> (disk, serve_error, string option) async" where
  "compareAndSwap slot store revisionOf undefinedRevision expected new =
     andThen tick (\<lambda>_.
     andThen (read_state slot) (\<lambda>current.
       if map_option revisionOf current \<noteq> expected then ret None
       else andThen (effect (store new)) (\<lambda>_.
         ret (Some (case new of None \<Rightarrow> undefinedRevision | Some v \<Rightarrow> revisionOf v)))))"

section \<open>The workspace source\<close>

record signing_key =
  ky_keyId :: string
  ky_sign :: "bytes \<Rightarrow> bytes"
  ky_verify :: "bytes \<Rightarrow> bytes \<Rightarrow> bool"

definition sourceSigner :: "signing_key \<Rightarrow> disk dsse_signer" where
  "sourceSigner key = \<lparr>sg_scope = DISCOVERY_SIGNING_SCOPE, sg_sign = (\<lambda>pae. ret [(Some (ky_keyId key), ky_sign key pae)])\<rparr>"

definition state_revision :: "(bytes \<Rightarrow> string) \<Rightarrow> source_state \<Rightarrow> string" where
  "state_revision sha st = revision sha (Some (state_object st))"

definition intent_revision :: "(bytes \<Rightarrow> string) \<Rightarrow> append_intent \<Rightarrow> string" where
  "intent_revision sha i = revision sha (Some (intent_object i))"

definition workspace_options :: "(bytes \<Rightarrow> string) \<Rightarrow> fpath \<Rightarrow> signing_key \<Rightarrow> string \<Rightarrow> disk writer_options" where
  "workspace_options sha rootDir key sourceName =
     \<lparr>wo_sha256Hex = sha, wo_source = (ky_keyId key, sourceName), wo_keyId = ky_keyId key, wo_signer = sourceSigner key,
      wo_verify = (\<lambda>pae sig. ret (ky_verify key pae sig)),
      wo_get = fs_get rootDir, wo_put = fs_put rootDir, wo_putImmutable = fs_putImmutable rootDir,
      wo_readState = (\<lambda>_. cas_read dk_state (state_revision sha)),
      wo_casState = (\<lambda>_ expected next. compareAndSwap dk_state (\<lambda>v d. d\<lparr>dk_state := v\<rparr>) (state_revision sha) (revision sha None)
        expected (Some next)),
      wo_readIntent = (\<lambda>_. cas_read dk_intent (intent_revision sha)),
      wo_casIntent = (\<lambda>_ expected next. compareAndSwap dk_intent (\<lambda>v d. d\<lparr>dk_intent := v\<rparr>) (intent_revision sha) (revision sha None)
        expected next),
      wo_fault = (\<lambda>_. ret ()), wo_refreshWithinMs = None, wo_now = read_state dk_clock\<rparr>"

section \<open>Paths of the source\<close>

definition plain :: "string \<Rightarrow> bool" where
  "plain segment \<longleftrightarrow> segment \<noteq> [] \<and> CHR ''/'' \<notin> set segment \<and> CHR ''.'' \<notin> set segment"

abbreviation path_of :: "string list \<Rightarrow> string" where
  "path_of segments \<equiv> concat (map (\<lambda>segment. CHR ''/'' # segment) segments)"

definition blob_file :: "fpath \<Rightarrow> string \<Rightarrow> fpath" where
  "blob_file rootDir path = rootDir @ tl (split_path path)"

lemma split_path_segment: "CHR ''/'' \<notin> set s \<Longrightarrow> split_path (s @ CHR ''/'' # p) = s # split_path p" "CHR ''/'' \<notin> set s \<Longrightarrow> split_path s = [s]"
  by (induction s) auto

lemma split_path_of: "list_all plain (s # ss) \<Longrightarrow> CHR ''/'' \<notin> set c \<Longrightarrow> split_path (c @ path_of (s # ss)) = c # s # ss"
proof (induction ss arbitrary: s c)
  case Nil
  then show ?case using split_path_segment(1) [of c s] split_path_segment(2) [of s] by (simp add: plain_def)
next
  case (Cons t ts)
  then have "split_path (s @ path_of (t # ts)) = s # t # ts" by (simp add: plain_def)
  then show ?case using split_path_segment(1) [of c "s @ path_of (t # ts)"] Cons.prems(2) by simp
qed

lemma steps_plain: "list_all plain ss \<Longrightarrow> foldl path_step rootDir ss = rootDir @ ss"
proof (induction ss arbitrary: rootDir)
  case (Cons s ss)
  then have "path_step rootDir s = rootDir @ [s]" by (auto simp: plain_def path_step_def)
  then show ?case using Cons by simp
qed simp

lemma resolve_plain:
  assumes "list_all plain ss" and "ss \<noteq> []" and "rootDir \<noteq> []"
  shows "resolveWithinRoot rootDir (path_of ss) = Inr (rootDir @ ss)" and "blob_file rootDir (path_of ss) = rootDir @ ss"
proof -
  obtain t ts where ss: "ss = t # ts" using assms(2) by (cases ss) auto
  have split: "split_path (CHR ''.'' # path_of ss) = [CHR ''.''] # ss" "split_path (path_of ss) = [] # ss"
    using split_path_of [of t ts "[CHR ''.'']"] split_path_of [of t ts "[]"] assms(1) by (simp_all add: ss)
  have start: "startsWith (path_of ss) ''/''" by (simp add: ss startsWith_def)
  have "path_step rootDir [CHR ''.''] = rootDir" by (simp add: path_step_def)
  then show "resolveWithinRoot rootDir (path_of ss) = Inr (rootDir @ ss)"
    unfolding resolveWithinRoot_def using assms by (simp only: start split steps_plain foldl_Cons if_True Let_def) simp
  show "blob_file rootDir (path_of ss) = rootDir @ ss" by (simp add: blob_file_def split)
qed

text \<open>A relative path with a dot-dot segment that leaves the root is refused; the paths the writer uses are plain.\<close>

lemma digits_plain: "list_all is_digit q \<Longrightarrow> q \<noteq> [] \<Longrightarrow> plain q"
  by (auto simp: plain_def list_all_iff)

lemma name_plain: "isSourceName name \<Longrightarrow> plain name"
  by (auto simp: plain_def isSourceName_def list_all_iff)

lemma hex_plain: "RecordDigestSchema d \<Longrightarrow> plain (drop 7 d)"
  by (auto simp: plain_def RecordDigestSchema_def list_all_iff)

lemma own_path_plain:
  assumes "own_path opts p" and "isSourceName (snd (wo_source opts))"
  obtains ss where "list_all plain ss" "ss \<noteq> []" "p = path_of ss"
proof -
  let ?n = "snd (wo_source opts)"
  have word: "plain ''sources''" "plain ''head''" "plain ''entries''" "plain ''records''" by (simp_all add: plain_def)
  from assms(1) consider "p = path_of [''sources'', ?n, ''head'']"
    | q where "SequenceSchema q" "p = path_of [''sources'', ?n, ''entries'', q]"
    | d where "RecordDigestSchema d" "p = path_of [''records'', drop 7 d]"
    by (auto simp: own_path_def headPath_def archivePagePath_def recordPath_def numeral_nat)
  then show ?thesis
  proof cases
    case 2
    then have "plain q" by (auto simp: SequenceSchema_def intro: digits_plain)
    then show ?thesis using that 2(2) word name_plain [OF assms(2)] by (metis list.distinct(1) list.pred_inject)
  next
    case 3
    then show ?thesis using that hex_plain [OF 3(1)] word by (metis list.distinct(1) list.pred_inject)
  qed (use that word name_plain [OF assms(2)] in \<open>metis list.distinct(1) list.pred_inject\<close>)
qed

lemma own_path_file:
  assumes "own_path opts p" and "isSourceName (snd (wo_source opts))" and "rootDir \<noteq> []"
  shows "resolveWithinRoot rootDir p = Inr (blob_file rootDir p)" and "path_of (drop (length rootDir) (blob_file rootDir p)) = p"
    and "blob_file rootDir p \<noteq> []" and "plain (last (blob_file rootDir p))"
proof -
  obtain ss where ss: "list_all plain ss" "ss \<noteq> []" "p = path_of ss" by (rule own_path_plain [OF assms(1,2)])
  show "resolveWithinRoot rootDir p = Inr (blob_file rootDir p)" "path_of (drop (length rootDir) (blob_file rootDir p)) = p" "blob_file rootDir p \<noteq> []"
    using resolve_plain [OF ss(1,2) assms(3)] ss(2,3) by simp_all
  have "last ss \<in> set ss" using ss(2) by simp
  then show "plain (last (blob_file rootDir p))" using ss resolve_plain [OF ss(1,2) assms(3)] by (simp add: list_all_iff)
qed

lemma blob_files:
  assumes "own_path opts p" and "own_path opts q" and "isSourceName (snd (wo_source opts))" and "rootDir \<noteq> []"
  shows "blob_file rootDir p = blob_file rootDir q \<longleftrightarrow> p = q" and "sidecar (blob_file rootDir p) = sidecar (blob_file rootDir q) \<longleftrightarrow> p = q"
    and "sidecar (blob_file rootDir p) \<noteq> blob_file rootDir q"
proof -
  note p = own_path_file [OF assms(1,3,4)] and q = own_path_file [OF assms(2,3,4)]
  show inj: "blob_file rootDir p = blob_file rootDir q \<longleftrightarrow> p = q" using p(2) q(2) by metis
  have "sidecar f = sidecar g \<longleftrightarrow> f = g" if "f \<noteq> []" "g \<noteq> []" for f g
    using that by (cases f rule: rev_cases; cases g rule: rev_cases) (auto simp: sidecar_def)
  then show "sidecar (blob_file rootDir p) = sidecar (blob_file rootDir q) \<longleftrightarrow> p = q" using p(3) q(3) inj by simp
  have "\<not> plain (last (sidecar (blob_file rootDir p)))" by (simp add: sidecar_def plain_def CONTENT_TYPE_SUFFIX_def)
  then show "sidecar (blob_file rootDir p) \<noteq> blob_file rootDir q" using q(4) by metis
qed

section \<open>The ports of the workspace\<close>

text \<open>What the writer can see of a disk: the files of its own paths, their sidecars, and the two documents.\<close>

definition disk_view :: "disk writer_options \<Rightarrow> fpath \<Rightarrow> disk \<Rightarrow> durable" where
  "disk_view opts rootDir d =
     \<lparr>du_blobs = (\<lambda>p. if own_path opts p
        then map_option (\<lambda>b. \<lparr>sb_bytes = b, sb_contentType = declared_type (dk_files d (sidecar (blob_file rootDir p)))\<rparr>) (dk_files d (blob_file rootDir p))
        else None),
      du_claimed = (\<lambda>p. if own_path opts p then dk_files d (sidecar (blob_file rootDir p)) else None),
      du_state = dk_state d, du_intent = dk_intent d\<rparr>"

definition calm_disk :: "disk \<Rightarrow> bool" where
  "calm_disk d \<longleftrightarrow> dk_ticks d = None"

lemma disk_view_host [simp]:
  "disk_view opts rootDir (d\<lparr>dk_ticks := x\<rparr>) = disk_view opts rootDir d" "disk_view opts rootDir (d\<lparr>dk_clock := n\<rparr>) = disk_view opts rootDir d"
  by (simp_all add: disk_view_def cong: if_cong)

lemma disk_view_slots [simp]:
  "disk_view opts rootDir (d\<lparr>dk_state := x\<rparr>) = (disk_view opts rootDir d)\<lparr>du_state := x\<rparr>"
  "disk_view opts rootDir (d\<lparr>dk_intent := y\<rparr>) = (disk_view opts rootDir d)\<lparr>du_intent := y\<rparr>"
  "du_state (disk_view opts rootDir d) = dk_state d" "du_intent (disk_view opts rootDir d) = dk_intent d"
  by (simp_all add: disk_view_def cong: if_cong)

text \<open>The disk \<open>d\<close> with some number of ticks left; with no limit if it had none.\<close>

definition ticked :: "disk \<Rightarrow> disk \<Rightarrow> bool" where
  "ticked d t \<longleftrightarrow> (\<exists>x. t = d\<lparr>dk_ticks := x\<rparr> \<and> (calm_disk d \<longrightarrow> x = None))"

lemma ticked_facts:
  assumes "ticked d t"
  shows "disk_view opts rootDir t = disk_view opts rootDir d" and "dk_files t = dk_files d" and "dk_state t = dk_state d"
    and "dk_intent t = dk_intent d" and "dk_clock t = dk_clock d" and "calm_disk d \<longrightarrow> calm_disk t"
  using assms by (auto simp: ticked_def calm_disk_def)

lemma ticked_trans: "ticked d t \<Longrightarrow> ticked t u \<Longrightarrow> ticked d u"
  by (auto simp: ticked_def calm_disk_def)

lemma wp_tick: "(\<And>t. ticked d t \<Longrightarrow> Q () t) \<Longrightarrow> (\<And>e t. \<not> calm_disk d \<Longrightarrow> ticked d t \<Longrightarrow> E e t) \<Longrightarrow> wp tick Q E d"
proof (cases "dk_ticks d")
  case None
  assume "\<And>t. ticked d t \<Longrightarrow> Q () t"
  then show ?thesis using None by (cases d) (simp add: wp_def tick_def ticked_def)
next
  case (Some n)
  assume "\<And>t. ticked d t \<Longrightarrow> Q () t" and "\<And>e t. \<not> calm_disk d \<Longrightarrow> ticked d t \<Longrightarrow> E e t"
  moreover have "ticked d d" "ticked d (d\<lparr>dk_ticks := x\<rparr>)" for x using Some by (cases d; auto simp: ticked_def calm_disk_def)+
  ultimately show ?thesis using Some by (cases n) (simp_all add: wp_def tick_def calm_disk_def)
qed

text \<open>An effect that neither looks at the ticks nor changes them.\<close>

definition quiet :: "(disk \<Rightarrow> disk) \<Rightarrow> bool" where
  "quiet f \<longleftrightarrow> (\<forall>d x. f (d\<lparr>dk_ticks := x\<rparr>) = (f d)\<lparr>dk_ticks := x\<rparr>)"

lemma wp_effect:
  assumes f: "quiet f" and Q: "\<And>t. ticked (f d) t \<Longrightarrow> (calm_disk d \<longrightarrow> calm_disk t) \<Longrightarrow> Q () t"
    and E: "\<And>e t. \<not> calm_disk d \<Longrightarrow> ticked d t \<or> disk_view opts rootDir t = disk_view opts rootDir (f d) \<Longrightarrow> E e t"
  shows "wp (effect f) Q E d"
proof -
  have same: "dk_ticks (f d) = dk_ticks d"
    using arg_cong [OF f [unfolded quiet_def, rule_format, of "dk_ticks d" d], of dk_ticks] by (cases d) simp
  have f_ticks: "f (d\<lparr>dk_ticks := x\<rparr>) = (f d)\<lparr>dk_ticks := x\<rparr>" for x using f by (simp add: quiet_def)
  have moved: "ticked (f d) u" "calm_disk d \<longrightarrow> calm_disk u" "calm_disk d \<longrightarrow> calm_disk (f t)" if "ticked d t" "ticked (f t) u" for t u
    using that by (auto simp: ticked_def calm_disk_def f_ticks same)
  show ?thesis unfolding effect_def
  proof (rule wp_andThen, rule wp_tick)
    fix t assume t: "ticked d t"
    show "wp (andThen (modify f) (\<lambda>_. tick)) Q E t"
    proof (intro wp_andThen wp_modify wp_tick)
      fix u assume u: "ticked (f t) u"
      show "Q () u" by (rule Q [OF moved(1,2) [OF t u]])
    next
      fix e u assume "\<not> calm_disk (f t)" and u: "ticked (f t) u"
      then have "\<not> calm_disk d" using moved(3) [OF t u] by blast
      then show "E e u" by (rule E) (use ticked_facts(1) [OF moved(1) [OF t u]] in simp)
    qed
  qed (use E in blast)
qed

lemma quiet_effects [simp]: "quiet (write_file f b)" "quiet (\<lambda>d. d\<lparr>dk_state := x\<rparr>)" "quiet (\<lambda>d. d\<lparr>dk_intent := y\<rparr>)"
  by (simp_all add: quiet_def write_file_def)

text \<open>What writing a file of the source, or its sidecar, makes of the view.\<close>

lemma view_writes:
  assumes "own_path opts p" and "isSourceName (snd (wo_source opts))" and "rootDir \<noteq> []" and v: "v = disk_view opts rootDir d"
  shows "du_blobs v p = None \<or> du_claimed v p = Some (utf8_encode c) \<Longrightarrow>
      disk_view opts rootDir (write_file (sidecar (blob_file rootDir p)) (utf8_encode c) d) = claimed p c v"
    and "du_claimed v p = Some (utf8_encode c) \<Longrightarrow> disk_view opts rootDir (write_file (blob_file rootDir p) b d) = stored_at p b c v"
proof -
  have files: "blob_file rootDir q = blob_file rootDir p \<longleftrightarrow> q = p" "sidecar (blob_file rootDir q) = sidecar (blob_file rootDir p) \<longleftrightarrow> q = p"
      "sidecar (blob_file rootDir q) \<noteq> blob_file rootDir p" "blob_file rootDir q \<noteq> sidecar (blob_file rootDir p)" if "own_path opts q" for q
    using blob_files [OF that assms(1-3)] blob_files(3) [OF assms(1) that assms(2,3)] by auto
  show "disk_view opts rootDir (write_file (sidecar (blob_file rootDir p)) (utf8_encode c) d) = claimed p c v"
    if "du_blobs v p = None \<or> du_claimed v p = Some (utf8_encode c)"
    using that assms(1) by (intro durable_eqI ext) (auto simp: files v disk_view_def write_file_def fun_upd_idem split: if_splits)
  show "disk_view opts rootDir (write_file (blob_file rootDir p) b d) = stored_at p b c v" if "du_claimed v p = Some (utf8_encode c)"
    using that assms(1)
    by (intro durable_eqI ext) (auto simp: files v disk_view_def write_file_def stored_at_def declared_type_def decode_text_def split: if_splits)
qed

lemma createOrConfirm_absent:
  assumes "dk_files d target = None" and "\<And>t. ticked (write_file target bytes d) t \<Longrightarrow> (calm_disk d \<longrightarrow> calm_disk t) \<Longrightarrow> Q () t"
    and "\<And>e t. \<not> calm_disk d \<Longrightarrow> ticked d t \<or> disk_view opts rootDir t = disk_view opts rootDir (write_file target bytes d) \<Longrightarrow> E e t"
  shows "wp (createOrConfirm target bytes path) Q E d"
  unfolding createOrConfirm_def
  by (intro wp_andThen wp_read_state) (simp add: assms(1), rule wp_effect [where opts = opts and rootDir = rootDir], use assms in simp_all)

lemma createOrConfirm_present:
  assumes "dk_files d target = Some present" and "\<And>t. present = bytes \<Longrightarrow> ticked d t \<Longrightarrow> Q () t"
    and "\<And>e t. \<not> calm_disk d \<or> present \<noteq> bytes \<Longrightarrow> ticked d t \<Longrightarrow> E e t"
  shows "wp (createOrConfirm target bytes path) Q E d"
  unfolding createOrConfirm_def readIfPresent_def
  by (intro wp_andThen wp_read_state) (auto simp: assms(1) ticked_facts(2) intro!: wp_andThen wp_tick wp_read_state wp_throw wp_ret assms(2,3))

section \<open>The workspace satisfies the contract of the writer's stores\<close>

text \<open>What the source relies on of SHA-256 in hexadecimal and of an Ed25519 key pair.\<close>

definition sha256_hex :: "(bytes \<Rightarrow> string) \<Rightarrow> bool" where
  "sha256_hex sha \<longleftrightarrow> (\<forall>b. RecordDigestSchema (recordDigest sha b))"

definition key_pair :: "signing_key \<Rightarrow> bool" where
  "key_pair key \<longleftrightarrow> (\<forall>pae. ky_verify key pae (ky_sign key pae))"

definition key_signatures :: "signing_key \<Rightarrow> signatures" where
  "key_signatures key pae = [(Some (ky_keyId key), ky_sign key pae)]"

lemma workspace_fields [simp]:
  "wo_sha256Hex (workspace_options sha rootDir key n) = sha" "wo_source (workspace_options sha rootDir key n) = (ky_keyId key, n)"
  "wo_keyId (workspace_options sha rootDir key n) = ky_keyId key" "wo_signer (workspace_options sha rootDir key n) = sourceSigner key"
  "wo_get (workspace_options sha rootDir key n) = fs_get rootDir" "wo_put (workspace_options sha rootDir key n) = fs_put rootDir"
  "wo_putImmutable (workspace_options sha rootDir key n) = fs_putImmutable rootDir"
  "wo_verify (workspace_options sha rootDir key n) pae sig = ret (ky_verify key pae sig)"
  "wo_readState (workspace_options sha rootDir key n) i = cas_read dk_state (state_revision sha)"
  "wo_readIntent (workspace_options sha rootDir key n) i = cas_read dk_intent (intent_revision sha)"
  "wo_casState (workspace_options sha rootDir key n) i x st =
     compareAndSwap dk_state (\<lambda>v d. d\<lparr>dk_state := v\<rparr>) (state_revision sha) (revision sha None) x (Some st)"
  "wo_casIntent (workspace_options sha rootDir key n) i x it =
     compareAndSwap dk_intent (\<lambda>v d. d\<lparr>dk_intent := v\<rparr>) (intent_revision sha) (revision sha None) x it"
  "wo_fault (workspace_options sha rootDir key n) boundary = ret ()" "wo_now (workspace_options sha rootDir key n) = read_state dk_clock"
  by (simp_all add: workspace_options_def)

lemma wp_lifted_Inr: "r = Inr a \<Longrightarrow> Q a d \<Longrightarrow> wp (lifted r) Q E d"
  by (simp add: wp_def lifted_def)

lemma wp_readIfPresent:
  "(\<And>t. ticked d t \<Longrightarrow> Q (dk_files d target) t) \<Longrightarrow> (\<And>e t. \<not> calm_disk d \<Longrightarrow> ticked d t \<Longrightarrow> E e t) \<Longrightarrow> wp (readIfPresent target) Q E d"
  unfolding readIfPresent_def by (intro wp_andThen wp_tick wp_read_state) (auto simp: ticked_facts(2))

lemma compareAndSwap_law:
  assumes "quiet (store new)" and "\<And>t. ticked d t \<Longrightarrow> slot t = slot d \<and> disk_view opts rootDir (store new t) = disk_view opts rootDir (store new d)"
  shows "wp (compareAndSwap slot store revisionOf undefinedRevision expected new)
    (\<lambda>r t. (if expected = map_option revisionOf (slot d)
        then r \<noteq> None \<and> (\<forall>x. new = Some x \<longrightarrow> r = Some (revisionOf x)) \<and> disk_view opts rootDir t = disk_view opts rootDir (store new d)
        else r = None \<and> disk_view opts rootDir t = disk_view opts rootDir d) \<and> (calm_disk d \<longrightarrow> calm_disk t))
    (\<lambda>e t. \<not> calm_disk d \<and> (disk_view opts rootDir t = disk_view opts rootDir d
        \<or> expected = map_option revisionOf (slot d) \<and> disk_view opts rootDir t = disk_view opts rootDir (store new d))) d"
  unfolding compareAndSwap_def
proof (rule wp_andThen, rule wp_tick)
  fix t assume t: "ticked d t"
  note same = ticked_facts(1,6) [OF t] assms(2) [OF t]
  show "wp (andThen (read_state slot) (\<lambda>current. if map_option revisionOf current \<noteq> expected then ret None
        else andThen (effect (store new)) (\<lambda>_. ret (Some (case new of None \<Rightarrow> undefinedRevision | Some v \<Rightarrow> revisionOf v)))))
      (\<lambda>r t. (if expected = map_option revisionOf (slot d)
        then r \<noteq> None \<and> (\<forall>x. new = Some x \<longrightarrow> r = Some (revisionOf x)) \<and> disk_view opts rootDir t = disk_view opts rootDir (store new d)
        else r = None \<and> disk_view opts rootDir t = disk_view opts rootDir d) \<and> (calm_disk d \<longrightarrow> calm_disk t))
      (\<lambda>e t. \<not> calm_disk d \<and> (disk_view opts rootDir t = disk_view opts rootDir d
        \<or> expected = map_option revisionOf (slot d) \<and> disk_view opts rootDir t = disk_view opts rootDir (store new d))) t"
    by (intro wp_andThen wp_read_state wp_if wp_ret wp_effect [where opts = opts and rootDir = rootDir])
      (use same assms(1) ticked_facts(1) in auto)
qed (auto simp: ticked_facts(1))

locale workspace_source =
  fixes sha :: "bytes \<Rightarrow> string" and rootDir :: fpath and key :: signing_key and sourceName :: string
  assumes sha: "sha256_hex sha" and pair: "key_pair key" and name: "isSourceName sourceName" and rootDir: "rootDir \<noteq> []"
begin

abbreviation options :: "disk writer_options" where
  "options \<equiv> workspace_options sha rootDir key sourceName"

abbreviation seen :: "disk \<Rightarrow> durable" where
  "seen \<equiv> disk_view options rootDir"

lemma named: "isSourceName (snd (wo_source options))"
  using name by simp

lemmas own_file = own_path_file [OF _ named rootDir]

lemma get_works:
  assumes "own_path options p"
  shows "returns seen calm_disk v (fs_get rootDir p) (du_blobs v p)"
  unfolding returns_def
proof (intro allI impI)
  fix s assume s: "seen s = v"
  let ?f = "blob_file rootDir p"
  have blob: "du_blobs v p = map_option (\<lambda>b. \<lparr>sb_bytes = b, sb_contentType = declared_type (dk_files s (sidecar ?f))\<rparr>) (dk_files s ?f)"
    using assms by (simp add: s [symmetric] disk_view_def)
  have step: "seen u = v \<and> (calm_disk s \<longrightarrow> calm_disk u) \<and> dk_files u = dk_files s" if "ticked s u" for u
    using that s by (simp add: ticked_facts)
  show "wp (fs_get rootDir p) (\<lambda>r t. r = du_blobs v p \<and> seen t = v \<and> (calm_disk s \<longrightarrow> calm_disk t)) (\<lambda>e t. seen t = v \<and> \<not> calm_disk s) s"
    unfolding fs_get_def
    by (intro wp_andThen wp_lifted_Inr [OF own_file(1) [OF assms]] wp_readIfPresent wp_case_option wp_ret)
      (auto simp: blob dest: step ticked_trans)
qed

lemma put_works:
  assumes p: "p = head_path options" and v: "typed v" "seen s = v" and c: "du_claimed v p = None \<or> du_claimed v p = Some (utf8_encode c)"
  shows "wp (fs_put rootDir p b c) (\<lambda>r t. seen t = stored_at p b c v \<and> (calm_disk s \<longrightarrow> calm_disk t))
        (\<lambda>e t. \<not> calm_disk s \<and> seen t \<in> {v, claimed p c v, stored_at p b c v}) s"
proof -
  have own: "own_path options p" and "\<not> startsWith p DIGEST_PATH_PREFIX"
    using p by (simp_all add: headPath_def startsWith_def DIGEST_PATH_PREFIX_def own_path_def)
  have blank: "du_blobs v p = None \<or> du_claimed v p = Some (utf8_encode c)" using v(1) c by (cases "du_blobs v p") (auto simp: typed_def)
  let ?f = "blob_file rootDir p"
  let ?side = "write_file (sidecar ?f) (utf8_encode c)"
  have side: "seen (?side s) = claimed p c v" by (rule view_writes(1) [OF own named rootDir v(2) [symmetric] blank])
  have both: "seen (write_file ?f b t) = stored_at p b c v" if "ticked (?side s) t" for t
    using view_writes(2) [OF own named rootDir refl, of t c b] ticked_facts(1) [OF that, of options rootDir]
    by (simp add: side claimed_def stored_at_def)
  show ?thesis unfolding fs_put_def writeAtomically_def
    apply (rule wp_andThen, rule wp_lifted_Inr [OF own_file(1) [OF own]])
    apply (subst if_not_P, fact)
    apply (rule wp_andThen, rule wp_effect [where opts = options and rootDir = rootDir], simp)
     apply (rule wp_effect [where opts = options and rootDir = rootDir], simp)
      apply (use both ticked_facts(1) v(2) in \<open>auto simp: side\<close>)
    done
qed

lemma putImmutable_works:
  assumes own: "own_path options p" and v: "typed v" "seen s = v"
  shows "wp (fs_putImmutable rootDir p b c) (\<lambda>r t. compatible p b c v \<and> seen t = stored_at p b c v \<and> (calm_disk s \<longrightarrow> calm_disk t))
        (\<lambda>e t. off_path p v (seen t) \<and> typed (seen t) \<and> (calm_disk s \<longrightarrow> calm_disk t)
          \<and> (compatible p b c v \<longrightarrow> \<not> calm_disk s \<and> seen t \<in> {v, claimed p c v, stored_at p b c v})) s"
    (is "wp _ ?Q ?E s")
proof -
  let ?f = "blob_file rootDir p" and ?t = "utf8_encode c"
  let ?side = "write_file (sidecar ?f) ?t"
  have look: "du_claimed v p = dk_files s (sidecar ?f)" "(du_blobs v p = None) = (dk_files s ?f = None)"
      "map_option sb_bytes (du_blobs v p) = dk_files s ?f"
    using own by (auto simp: v(2) [symmetric] disk_view_def option.map_comp comp_def option.map_ident)
  have blob: "du_blobs v p = Some \<lparr>sb_bytes = x, sb_contentType = c\<rparr>" if x: "dk_files s ?f = Some x" "dk_files s (sidecar ?f) = Some ?t" for x
  proof -
    obtain y where y: "du_blobs v p = Some y" "sb_bytes y = x" using x look(3) by (cases "du_blobs v p") auto
    then have "utf8_encode (sb_contentType y) = ?t" using v(1) x(2) look(1) by (auto simp: typed_def)
    then show ?thesis using y by (cases y) (simp add: utf8_encode_inj)
  qed
  have fits: "off_path p v u \<and> typed u" if "u \<in> {v, claimed p c v, stored_at p b c v}" "du_claimed v p = None \<or> du_claimed v p = Some ?t" for u
    using that v(1) typed_writes(1,2) [of v] by (auto simp: off_path_def)
  have finish: "wp (createOrConfirm ?f b p) ?Q ?E t"
    if t: "seen t = claimed p c v" "dk_files t ?f = dk_files s ?f" "calm_disk s \<longrightarrow> calm_disk t"
      and side: "du_claimed v p = None \<or> du_claimed v p = Some ?t" for t
  proof (cases "dk_files t ?f")
    case None
    have whole: "seen (write_file ?f b t) = stored_at p b c v"
      using view_writes(2) [OF own named rootDir refl, of t c b] by (simp add: t(1) claimed_def stored_at_def)
    have "compatible p b c v" using None t(2) look(2) side by (simp add: compatible_def)
    then show ?thesis
      by (intro createOrConfirm_absent [where opts = options and rootDir = rootDir, OF None])
        (use t whole fits [OF _ side] ticked_facts(1) in auto)
  next
    case (Some x)
    have sd: "dk_files s (sidecar ?f) = Some ?t"
      using side v(1) look Some t(2) by (cases "du_blobs v p") (auto simp: typed_def)
    note stored = blob [OF Some [unfolded t(2)] sd]
    have same: "claimed p c v = v" "x = b \<Longrightarrow> stored_at p b c v = v"
      using sd look(1) stored by (auto simp: claimed_def stored_at_def fun_upd_idem)
    have "compatible p b c v \<longleftrightarrow> x = b" using stored sd look(1) by (auto simp: compatible_def)
    then show ?thesis
      by (intro createOrConfirm_present [OF Some]) (use t same fits [OF _ side, of v] ticked_facts(1,6) in auto)
  qed
  show ?thesis unfolding fs_putImmutable_def
  proof (rule wp_andThen, rule wp_lifted_Inr [OF own_file(1) [OF own]], rule wp_andThen)
    show "wp (createOrConfirm (sidecar ?f) ?t p) (\<lambda>_. wp (createOrConfirm ?f b p) ?Q ?E) ?E s"
    proof (cases "dk_files s (sidecar ?f)")
      case None
      then have blank: "du_claimed v p = None" "du_blobs v p = None" using look v(1) by (auto simp: typed_def)
      have side: "seen (?side s) = claimed p c v" by (rule view_writes(1) [OF own named rootDir v(2) [symmetric]]) (simp add: blank)
      show ?thesis
      proof (rule createOrConfirm_absent [where opts = options and rootDir = rootDir, OF None])
        fix t assume t: "ticked (?side s) t" "calm_disk s \<longrightarrow> calm_disk t"
        have "dk_files t ?f = dk_files s ?f"
          using ticked_facts(2) [OF t(1)] blob_files(3) [OF own own named rootDir] by (simp add: write_file_def)
        then show "wp (createOrConfirm ?f b p) ?Q ?E t" by (intro finish) (simp_all add: ticked_facts(1) [OF t(1)] side t(2) blank)
      qed (use blank side fits ticked_facts(1) v(2) in auto)
    next
      case (Some y)
      have same: "claimed p c v = v" if "y = ?t" using Some look(1) that by (simp add: claimed_def fun_upd_idem)
      show ?thesis
      proof (rule createOrConfirm_present [OF Some])
        fix t assume y: "y = ?t" and t: "ticked s t"
        show "wp (createOrConfirm ?f b p) ?Q ?E t"
          by (rule finish) (use ticked_facts(1,2,6) [OF t] same [OF y] v(2) look(1) Some y in simp_all)
      qed (use Some look(1) v ticked_facts(1,6) in \<open>auto simp: off_path_def compatible_def\<close>)
    qed
  qed
qed

end

sublocale workspace_source \<subseteq> ports: durable_ports options seen calm_disk "ky_verify key" "key_signatures key" "state_revision sha"
  "intent_revision sha" dk_clock
proof
  show "returns seen calm_disk v (sg_sign (wo_signer options) pae) (key_signatures key pae)" for v pae
    by (simp add: sourceSigner_def key_signatures_def returns_ret)
  show "returns seen calm_disk v (wo_verify options pae sig) (ky_verify key pae sig)" for v pae sig by (simp add: returns_ret)
  show "RecordDigestSchema (digest_of options b)" for b using sha by (simp add: digest_of_def sha256_hex_def)
  show "k = Some (wo_keyId options) \<and> ky_verify key pae sig" if "(k, sig) \<in> set (key_signatures key pae)" for k sig pae
    using that pair by (simp add: key_signatures_def key_pair_def)
  show "returns seen calm_disk v (wo_readState options i) (map_option (\<lambda>st. (state_revision sha st, st)) (du_state v))" for v i
    by (auto simp: returns_def cas_read_def ticked_facts intro!: wp_andThen wp_tick wp_read_state)
  show "returns seen calm_disk v (wo_readIntent options i) (map_option (\<lambda>it. (intent_revision sha it, it)) (du_intent v))" for v i
    by (auto simp: returns_def cas_read_def ticked_facts intro!: wp_andThen wp_tick wp_read_state)
  show "wp (wo_casState options i expected next)
        (\<lambda>r t. (if expected = map_option (state_revision sha) (du_state v)
            then r \<noteq> None \<and> seen t = v\<lparr>du_state := Some next\<rparr> else r = None \<and> seen t = v) \<and> (calm_disk s \<longrightarrow> calm_disk t))
        (\<lambda>e t. \<not> calm_disk s \<and> (seen t = v \<or> expected = map_option (state_revision sha) (du_state v) \<and> seen t = v\<lparr>du_state := Some next\<rparr>)) s"
    if "seen s = v" for s v i expected "next"
    using compareAndSwap_law [where store = "\<lambda>v d. d\<lparr>dk_state := v\<rparr>" and slot = dk_state and d = s and new = "Some next"
        and opts = options and rootDir = rootDir and revisionOf = "state_revision sha" and undefinedRevision = "revision sha None" and expected = expected] that
    by (auto simp: ticked_facts elim!: wp_mono split: if_splits)
  show "wp (wo_casIntent options i expected new)
        (\<lambda>r t. (if expected = map_option (intent_revision sha) (du_intent v)
            then r \<noteq> None \<and> (\<forall>it. new = Some it \<longrightarrow> r = Some (intent_revision sha it)) \<and> seen t = v\<lparr>du_intent := new\<rparr>
            else r = None \<and> seen t = v) \<and> (calm_disk s \<longrightarrow> calm_disk t))
        (\<lambda>e t. \<not> calm_disk s \<and> (seen t = v \<or> expected = map_option (intent_revision sha) (du_intent v) \<and> seen t = v\<lparr>du_intent := new\<rparr>)) s"
    if "seen s = v" for s v i expected new
    using compareAndSwap_law [where store = "\<lambda>v d. d\<lparr>dk_intent := v\<rparr>" and slot = dk_intent and d = s and new = new
        and opts = options and rootDir = rootDir and revisionOf = "intent_revision sha" and undefinedRevision = "revision sha None" and expected = expected] that
    by (auto simp: ticked_facts elim!: wp_mono split: if_splits)
  show "wp (wo_now options) (\<lambda>n t. n = dk_clock s \<and> seen t = v \<and> (calm_disk s \<longrightarrow> calm_disk t)) (\<lambda>e t. seen t = v \<and> \<not> calm_disk s) s"
    if "seen s = v" for s v using that by (auto intro: wp_read_state)
  show "wp (wo_put options p b c) (\<lambda>r t. seen t = stored_at p b c v \<and> (calm_disk s \<longrightarrow> calm_disk t))
      (\<lambda>e t. \<not> calm_disk s \<and> seen t \<in> {v, claimed p c v, stored_at p b c v}) s"
    if "p = head_path options" "typed v" "seen s = v" "du_claimed v p = None \<or> du_claimed v p = Some (utf8_encode c)" for p v s b c
    unfolding workspace_fields by (rule put_works [OF that])
  show "wp (wo_putImmutable options p b c) (\<lambda>r t. compatible p b c v \<and> seen t = stored_at p b c v \<and> (calm_disk s \<longrightarrow> calm_disk t))
      (\<lambda>e t. off_path p v (seen t) \<and> typed (seen t) \<and> (calm_disk s \<longrightarrow> calm_disk t)
        \<and> (compatible p b c v \<longrightarrow> \<not> calm_disk s \<and> seen t \<in> {v, claimed p c v, stored_at p b c v})) s"
    if "own_path options p" "typed v" "seen s = v" for p v s b c
    unfolding workspace_fields by (rule putImmutable_works [OF that])
qed (auto simp: sourceSigner_def key_signatures_def returns_ret get_works)

section \<open>The disks of a source\<close>

definition fresh_disk :: "int \<Rightarrow> nat option \<Rightarrow> disk" where
  "fresh_disk now ticks = \<lparr>dk_files = Map.empty, dk_state = None, dk_intent = None, dk_clock = now, dk_ticks = ticks\<rparr>"

text \<open>
  The disks that a sequence of appends and recoveries leads to from an empty one. Between calls the process may
  restart, the clock may move either way, the host may get any number of operations, and files that are not the
  source's may change. Each call may end anywhere.
\<close>

inductive reachable :: "(bytes \<Rightarrow> string) \<Rightarrow> fpath \<Rightarrow> signing_key \<Rightarrow> string \<Rightarrow> disk \<Rightarrow> bool" for sha rootDir key sourceName where
  reachable_fresh: "reachable sha rootDir key sourceName (fresh_disk now ticks)"
| reachable_host: "reachable sha rootDir key sourceName d \<Longrightarrow>
    disk_view (workspace_options sha rootDir key sourceName) rootDir e = disk_view (workspace_options sha rootDir key sourceName) rootDir d \<Longrightarrow>
    reachable sha rootDir key sourceName e"
| reachable_append: "reachable sha rootDir key sourceName d \<Longrightarrow> wellformed command \<Longrightarrow>
    distinguished (workspace_options sha rootDir key sourceName) r command (disk_view (workspace_options sha rootDir key sourceName) rootDir d) \<Longrightarrow>
    reachable sha rootDir key sourceName (snd (append_source (workspace_options sha rootDir key sourceName) r command d))"
| reachable_recover: "reachable sha rootDir key sourceName d \<Longrightarrow>
    reachable sha rootDir key sourceName (snd (recover (workspace_options sha rootDir key sourceName) d))"

context workspace_source
begin

lemma fresh_idle: "idle options (key_signatures key) (seen (fresh_disk now ticks))"
  by (auto simp: idle_def fresh_disk_def disk_view_def typed_def state_of_def makeInitialState_def head_matches_def head_declared_def
      free_after_def last_number_def state_ok_def)

lemma reachable_sound: "reachable sha rootDir key sourceName d \<Longrightarrow> ports.sound (seen d)"
proof (induction rule: reachable.induct)
  case (reachable_fresh now ticks)
  then show ?case using fresh_idle by (simp add: healthy_def)
next
  case (reachable_append d command r)
  then show ?case using ports.append_sound by blast
next
  case (reachable_recover d)
  then show ?case using ports.recover_end by blast
qed simp

lemma reachable_idle: "reachable sha rootDir key sourceName d \<Longrightarrow> dk_intent d = None \<Longrightarrow> idle options (key_signatures key) (seen d)"
  using reachable_sound [of d] by (auto simp: healthy_def pending_def)

lemma recovers:
  assumes "reachable sha rootDir key sourceName d" and "calm_disk d"
  shows "\<exists>report t. recover options d = (Inr report, t) \<and> dk_intent t = None \<and> idle options (key_signatures key) (seen t)
    \<and> state_of options (seen t) = state_after options (seen d)"
  using ports.recover_calm [OF reachable_sound [OF assms(1)] refl assms(2)] by (auto simp: idle_def)

lemma appends_once:
  assumes "reachable sha rootDir key sourceName d" and "dk_intent d = None" and "wellformed command"
    and "distinguished options r command (seen d)" and "append_source options r command d = (Inr receipt, t)"
    and "retries seen {\<lambda>e. snd (append_source options r command e), \<lambda>e. snd (recover options e)} (seen d) (seen e)"
    and "calm_disk e" and "command_failure r (dk_clock e) command = None"
  shows "\<exists>u. append_source options r command e = (Inr receipt, u) \<and> seen u = seen t"
proof -
  have "wp (append_source options r command) (\<lambda>rc u. rc = receipt \<and> seen u = seen t)
      (\<lambda>x u. \<not> calm_disk e \<or> command_failure r (dk_clock e) command \<noteq> None) e"
    by (rule ports.append_transparent [OF reachable_idle [OF assms(1,2)] assms(3,4) refl assms(5,6) refl])
  then show ?thesis using assms(7,8)
    by (cases "append_source options r command e"; cases "fst (append_source options r command e)") (auto simp: wp_def)
qed

lemma head_has_archive:
  assumes "reachable sha rootDir key sourceName d" and "dk_files d (blob_file rootDir (headPath sourceName)) = Some b"
  shows "\<exists>h. head_valid h \<and> sh_origin h = sourceId options \<and> b = head_bytes (key_signatures key) h
    \<and> archive_chain options (seen d) (nat_of_digits (sh_sequence h)) (Some (sh_entry h))"
proof -
  obtain blob where "du_blobs (seen d) (head_path options) = Some blob" "sb_bytes blob = b"
    using assms(2) by (simp add: disk_view_def own_path_def)
  then show ?thesis using ports.head_archived [OF reachable_sound [OF assms(1)], of blob] by auto
qed

end

end
