(* ===== verification/Workspace_Safety.thy ===== *)
theory Workspace_Safety
  imports Workspace_Source
begin

text \<open>
  What the publication source of a workspace promises, over every disk that appends, recoveries and host failures
  can lead to: recovery always ends the interrupted append, a served head always has its whole archive behind it,
  a command takes effect exactly once however often it had to be retried, and the blob store writes below its root.
  The hypotheses \<open>sha256_hex\<close> and \<open>key_pair\<close> are what the code relies on of SHA-256 and Ed25519; \<open>distinguished\<close>
  (part of \<open>reachable\<close> for every append) says that the digests of the two states of the append differ.
\<close>

section \<open>Sizes of sealed documents\<close>

text \<open>An upper bound of the length of a canonical text, without printing it.\<close>

fun text_weight :: "json \<Rightarrow> nat" where
  "text_weight (JArr xs) = 2 + sum_list (map (\<lambda>x. Suc (text_weight x)) xs)"
| "text_weight (JObj kvs) = 2 + sum_list (map (\<lambda>kv. 6 * length (fst kv) + 4 + text_weight (snd kv)) kvs)"
| "text_weight (JStr s) = 6 * length s + 2"
| "text_weight (JNum t) = length t"
| "text_weight _ = 9"

lemma joinWith_length: "length (joinWith [c] xs) \<le> sum_list (map (\<lambda>x. Suc (length x)) xs)"
  by (induction "[c]" xs rule: joinWith.induct) auto

lemma json_quote_length: "length (json_quote s) \<le> 6 * length s + 2"
proof -
  have "length (esc_char c) \<le> 6" for c by (simp add: esc_char_def Let_def)
  then have "length (concat (map esc_char s)) \<le> 6 * length s" by (induction s) (simp_all add: le_imp_less_Suc add_le_mono)
  then show ?thesis by (simp add: json_quote_def)
qed

lemma serialize_length: "length (serializeCanonicalJson v) \<le> text_weight v"
proof (induction v rule: serializeCanonicalJson.induct)
  case (1 xs)
  have "sum_list (map (\<lambda>x. Suc (length (serializeCanonicalJson x))) xs) \<le> sum_list (map (\<lambda>x. Suc (text_weight x)) xs)"
    by (rule sum_list_mono) (use 1 in auto)
  then show ?case using joinWith_length [of "CHR '',''" "map serializeCanonicalJson xs"] by (simp add: o_def)
next
  case (2 kvs)
  let ?f = "\<lambda>kv. json_quote (fst kv) @ '':'' @ serializeCanonicalJson (snd kv)" and ?w = "\<lambda>kv. 6 * length (fst kv) + 4 + text_weight (snd kv)"
  have "length (joinWith '','' (map ?f (sorted_members kvs))) \<le> sum_list (map (\<lambda>x. Suc (length x)) (map ?f (sorted_members kvs)))"
    by (rule joinWith_length)
  also have "\<dots> \<le> sum_list (map ?w (sorted_members kvs))"
    unfolding map_map
  proof (rule sum_list_mono)
    fix kv
    assume "kv \<in> set (sorted_members kvs)"
    from 2 [OF this] show "((\<lambda>x. Suc (length x)) \<circ> ?f) kv \<le> ?w kv" using json_quote_length [of "fst kv"] by simp
  qed
  also have "\<dots> = sum_list (map ?w kvs)"
    by (simp only: sum_mset_sum_list [symmetric] mset_map sorted_members_def keyed_props.mset_js_sort)
  finally show ?case by simp
qed (use json_quote_length in simp_all)

lemma seal_text_length: "length (seal_text v) \<le> 2 * text_weight v"
proof -
  have "length (utf8_encode s) \<le> 2 * length s" for s by (induction s) (auto simp: utf8_encode_def utf8_char_def Let_def)
  from this [of "serializeCanonicalJson v"] show ?thesis using serialize_length [of v] by (simp add: seal_text_def)
qed

text \<open>A sealed document determines its normal form.\<close>

lemma seal_text_eqD: "seal_text v = seal_text w \<Longrightarrow> document v \<Longrightarrow> document w \<Longrightarrow> norm_json v = norm_json w"
  by (metis decode_document sum.inject(2))

lemma btoa_length: "length (btoa b) \<le> 2 * length b + 4"
proof (induction b rule: btoa.induct)
  case (4 a b c rest)
  then have "length (btoa rest) \<le> 2 * length rest + 4" by blast
  then show ?case by (simp add: Let_def)
qed (simp_all add: Let_def)

section \<open>A concrete source\<close>

abbreviation sample_initial :: source_state where
  "sample_initial \<equiv> makeInitialState (''did:key:zA'', ''t'') ''did:key:zA''"

text \<open>A digest that tells the initial state from everything else.\<close>

definition sample_sha :: "bytes \<Rightarrow> string" where
  "sample_sha b = replicate 63 CHR ''0'' @ [if b = seal_text (state_object sample_initial) then CHR ''1'' else CHR ''0'']"

definition sample_key :: signing_key where
  "sample_key = \<lparr>ky_keyId = ''did:key:zA'', ky_sign = (\<lambda>pae. ''s''), ky_verify = (\<lambda>pae sig. sig = ''s'')\<rparr>"

definition sample_command :: append_command where
  "sample_command = \<lparr>ac_announcement = Available ''a'' \<lparr>ref_kind = ''k'', ref_digest = recordDigest sample_sha ''x'', ref_mediaType = None\<rparr> None None,
     ac_timestamp = ''2026-01-01T00:00:00Z'', ac_record = Some (''x'', None)\<rparr>"

lemma sample_ports: "sha256_hex sample_sha" "key_pair sample_key" "isSourceName ''t''" "[''w''] \<noteq> []"
  by (simp_all add: sha256_hex_def recordDigest_def RecordDigestSchema_def sample_sha_def key_pair_def sample_key_def isSourceName_def list_all_iff)

interpretation sample: workspace_source sample_sha "[''w'']" sample_key "''t''"
  by unfold_locales (rule sample_ports)+

abbreviation sample_options :: "disk writer_options" where
  "sample_options \<equiv> workspace_options sample_sha [''w''] sample_key ''t''"

abbreviation sample_now :: int where
  "sample_now \<equiv> 1767225600000"

abbreviation sample_disk :: "nat option \<Rightarrow> disk" where
  "sample_disk ticks \<equiv> fresh_disk sample_now ticks"

abbreviation sample_context :: mint_context where
  "sample_context \<equiv> append_context sample_options 1000 sample_command None sample_initial None"

lemma sample_wellformed: "wellformed sample_command"
  unfolding wellformed_def by code_simp

lemma sample_announcement: "command_announcement sample_command =
    JObj [(''action'', JStr ''available''), (''announcementId'', JStr ''a''),
      (''record'', JObj [(''digest'', JStr (''sha256:'' @ replicate 64 CHR ''0'')), (''kind'', JStr ''k'')])]"
  unfolding command_announcement_def by code_simp

lemma sample_digest: "digest_of sample_options b = ''sha256:'' @ sample_sha b"
  by (simp add: digest_of_def recordDigest_def)

lemma sample_refreshBy: "command_refreshBy 1000 sample_command = ''2026-01-01T00:00:01.000Z''"
    "parseHeadTimestamp (ac_timestamp sample_command) = Some sample_now" "isoText (of_int sample_now + 1000) = Inr ''2026-01-01T00:00:01.000Z''"
  by code_simp+

lemma sample_sealable: "sealable (announcement_object (ac_announcement sample_command))"
  by code_simp

lemma sample_window: "command_failure 1000 sample_now sample_command = None"
  by code_simp

lemma sample_record: "sample_sha ''x'' = replicate 64 CHR ''0''"
  by code_simp

lemma sample_states: "document (state_object sample_initial)" "document (state_object (planned_state sample_options sample_context))"
    "seal_text (state_object sample_initial) \<noteq> seal_text (state_object (planned_state sample_options sample_context))"
proof -
  have "state_ok sample_options sample_initial" "state_ok sample_options (planned_state sample_options sample_context)"
    by (simp_all add: state_ok_def makeInitialState_def planned_state_def sample_key_def)
  then show doc: "document (state_object sample_initial)" "document (state_object (planned_state sample_options sample_context))"
    by (auto intro: state_document)
  obtain p where last: "get_field (state_object sample_initial) ''last'' = JNull"
      "get_field (state_object (planned_state sample_options sample_context)) ''last'' = position_object p"
    by (simp add: state_object_def makeInitialState_def planned_state_def)
  show "seal_text (state_object sample_initial) \<noteq> seal_text (state_object (planned_state sample_options sample_context))"
  proof
    assume "seal_text (state_object sample_initial) = seal_text (state_object (planned_state sample_options sample_context))"
    from arg_cong [OF seal_text_eqD [OF this doc], of "\<lambda>v. get_field v ''last''"] have "norm_json (position_object p) = JNull"
      using last doc by (simp add: norm_get_field document_def)
    then show False by (simp add: norm_shape position_object_def)
  qed
qed

lemma sample_parse:
  "parseAnnouncementEntry (entry_json (''did:key:zA'', ''t'') ''0000000000000001'' None ''2026-01-01T00:00:00Z''
     (JObj [(''action'', JStr ''available''), (''announcementId'', JStr ''a''),
       (''record'', JObj [(''digest'', JStr (''sha256:'' @ replicate 64 CHR ''0'')), (''kind'', JStr ''k'')])]))
   = Inr (entry_json (''did:key:zA'', ''t'') ''0000000000000001'' None ''2026-01-01T00:00:00Z''
     (JObj [(''action'', JStr ''available''), (''announcementId'', JStr ''a''),
       (''record'', JObj [(''digest'', JStr (''sha256:'' @ replicate 64 CHR ''0'')), (''kind'', JStr ''k'')])]))"
  by code_simp

lemma sample_plan: "planned_sequence sample_context = ''0000000000000001''"
    "plan_ok sample_options (key_signatures sample_key) sample_context"
proof -
  have genesis: "expectedSequenceOf None = Inr ''0000000000000001''" by code_simp
  then show seq: "planned_sequence sample_context = ''0000000000000001''" by (simp add: planned_sequence_def makeInitialState_def)
  let ?e = "planned_entry sample_options sample_context" and ?sigs = "key_signatures sample_key"
  have entry: "?e = entry_json (''did:key:zA'', ''t'') ''0000000000000001'' None ''2026-01-01T00:00:00Z'' (command_announcement sample_command)"
    unfolding planned_entry_def seq by (simp add: makeInitialState_def sample_key_def) (simp add: sample_command_def)
  have "parseAnnouncementEntry ?e = Inr ?e" unfolding entry sample_announcement by (rule sample_parse)
  moreover have weight: "text_weight ?e \<le> 3000"
    by (simp add: entry entry_json_def source_object_def sample_announcement nullable_def RECORD_DISCOVERY_VERSION_def)
  moreover have "length (btoa (seal_text ?e)) \<le> 12004"
    using btoa_length [of "seal_text ?e"] seal_text_length [of ?e] weight by simp
  then have "text_weight (planned_page sample_options ?sigs sample_context) \<le> 100000" using weight
    unfolding planned_page_def seq
    by (simp add: page_object_def nullable_def makeInitialState_def envelope_object_def signature_object_def signed_envelope_def
        key_signatures_def wire_signatures_def sample_key_def MEDIA_ENTRY_def RECORD_DISCOVERY_VERSION_def)
  ultimately show "plan_ok sample_options ?sigs sample_context"
    using seal_text_length [of ?e] seal_text_length [of "planned_page sample_options ?sigs sample_context"] genesis
    by (simp add: plan_ok_def makeInitialState_def entrySealedBytes_def archivePageBytes_def)
qed

lemma sample_publishable: "sample.ports.publishable 1000 sample_command"
  unfolding sample.ports.publishable_def
  using sample_refreshBy(2,3) sample_sealable
  by (simp add: sample_announcement sample_digest read_path_def read_field_def sample_record [symmetric]) (simp add: sample_command_def)

lemma sample_distinguished: "distinguished sample_options 1000 sample_command (sample.seen (sample_disk ticks))"
proof -
  have "stateDigest sample_options sample_initial \<noteq> stateDigest sample_options (planned_state sample_options sample_context)"
    using sample_states by (simp add: stateDigest_def seal_digest_def sample_digest sample_sha_def)
  moreover have "state_after sample_options (sample.seen (sample_disk ticks)) = sample_initial"
    by (simp add: state_after_def state_of_def fresh_disk_def sample_key_def)
  ultimately show ?thesis by (simp add: distinguished_def told_apart_def)
qed

lemma sample_commits:
  obtains t where "append_source sample_options 1000 sample_command (sample_disk None) = (Inr (planned_receipt sample_options sample_context), t)"
    and "sample.seen t = settle sample_options (key_signatures sample_key) sample_context
      (with_record sample_command sample_context (sample.seen (sample_disk None)))"
proof -
  let ?v = "sample.seen (sample_disk None)"
  have state: "state_of sample_options ?v = sample_initial" "du_state ?v = None"
      "state_after sample_options ?v = state_of sample_options ?v" "du_blobs ?v p = None" "du_claimed ?v p = None" for p
    by (simp_all add: state_of_def fresh_disk_def sample_key_def state_after_def disk_view_def)
  have aim: "sample.ports.aimed 1000 sample_command ?v None = sample_context" by (simp add: state [unfolded disk_view_slots])
  have clock: "dk_clock (sample_disk None) = sample_now" by (simp add: fresh_disk_def)
  have admit: "admitted sample_options (key_signatures sample_key) sample_command (command_ms sample_command)
      (command_failure 1000 sample_now sample_command) sample_context ?v"
    using sample_plan(2) sample_window
    by (simp add: admitted_def targeted_def sample_announcement text_of_def makeInitialState_def object_member_def OBJECT_PROTOTYPE_def
        record_fits_def compatible_def state split: option.splits)
  have "\<exists>t. append_source sample_options 1000 sample_command (sample_disk None)
      = (Inr (planned_receipt sample_options (sample.ports.aimed 1000 sample_command ?v None)), t)
      \<and> sample.seen t = settle sample_options (key_signatures sample_key) (sample.ports.aimed 1000 sample_command ?v None)
          (with_record sample_command (sample.ports.aimed 1000 sample_command ?v None) ?v)"
  proof (rule sample.ports.append_commits [OF sample.fresh_idle sample_wellformed sample_publishable refl])
    show "calm_disk (sample_disk None)" by (simp add: calm_disk_def fresh_disk_def)
    show "poised sample_options (key_signatures sample_key) (state_revision sample_sha) (sample.ports.aimed 1000 sample_command ?v None) ?v"
      by (simp add: poised_def head_matches_def state makeInitialState_def)
    show "told_apart sample_options (sample.ports.aimed 1000 sample_command ?v None)"
      using sample_distinguished [of None] unfolding aim by (simp add: distinguished_def state)
    show "admitted sample_options (key_signatures sample_key) sample_command (command_ms sample_command)
      (command_failure 1000 (dk_clock (sample_disk None)) sample_command) (sample.ports.aimed 1000 sample_command ?v None) ?v"
      using admit unfolding aim by (simp add: clock)
  qed
  then show ?thesis using that unfolding aim by blast
qed

text \<open>An attempt whose host fails after the ninth operation, and the disk it leaves once the host works again.\<close>

abbreviation sample_crashed :: disk where
  "sample_crashed \<equiv> (snd (append_source sample_options 1000 sample_command (sample_disk (Some 9))))\<lparr>dk_clock := sample_now, dk_ticks := None\<rparr>"

lemma sample_crash_reachable: "reachable sample_sha [''w''] sample_key ''t'' sample_crashed" "calm_disk sample_crashed"
proof -
  have "reachable sample_sha [''w''] sample_key ''t'' (snd (append_source sample_options 1000 sample_command (sample_disk (Some 9))))"
    by (rule reachable_append [OF reachable_fresh sample_wellformed sample_distinguished])
  then show "reachable sample_sha [''w''] sample_key ''t'' sample_crashed" by (rule reachable_host) simp
  show "calm_disk sample_crashed" by (simp add: calm_disk_def)
qed

section \<open>Writes of the blob store\<close>

text \<open>A program that leaves the file \<open>other\<close> as it is, whatever happens.\<close>

definition keeps_outside :: "fpath \<Rightarrow> bytes option \<Rightarrow> (disk, serve_error, 'a) async \<Rightarrow> bool" where
  "keeps_outside other content p \<longleftrightarrow>
     (\<forall>d. dk_files d other = content \<longrightarrow> wp p (\<lambda>r t. dk_files t other = content) (\<lambda>e t. dk_files t other = content) d)"

lemma keeps_tick: "keeps_outside other content tick"
  by (auto simp: keeps_outside_def ticked_facts(2) intro!: wp_tick)

lemma keeps_andThen:
  "keeps_outside other content p \<Longrightarrow> (\<And>a. keeps_outside other content (f a)) \<Longrightarrow> keeps_outside other content (andThen p f)"
  unfolding keeps_outside_def by (blast intro: wp_seq)

lemma keeps_pure:
  "keeps_outside other content (ret a)" "keeps_outside other content (throw x)" "keeps_outside other content (read_state g)"
  "keeps_outside other content (lifted v)"
  by (auto simp: keeps_outside_def wp_def ret_def throw_def read_state_def lifted_def split: sum.splits)

lemma keeps_effect: "target \<noteq> other \<Longrightarrow> keeps_outside other content (effect (write_file target bytes))"
  unfolding effect_def
  by (intro keeps_andThen keeps_tick) (auto simp: keeps_outside_def wp_def modify_def write_file_def)

lemma keeps_createOrConfirm: "target \<noteq> other \<Longrightarrow> keeps_outside other content (createOrConfirm target bytes path)"
  unfolding createOrConfirm_def readIfPresent_def
  by (intro keeps_andThen) (auto intro!: keeps_andThen keeps_pure keeps_effect keeps_tick)

lemma resolved_below:
  assumes "resolveWithinRoot rootDir path = Inr target" and "target \<noteq> rootDir" and "take (length rootDir) other \<noteq> rootDir"
  shows "target \<noteq> other" and "sidecar target \<noteq> other"
proof -
  have "take (length rootDir) target = rootDir" using assms(1,2) by (auto simp: resolveWithinRoot_def Let_def split: if_splits)
  then obtain rest where rest: "target = rootDir @ rest" "rest \<noteq> []" using assms(2) by (metis append_Nil2 append_take_drop_id)
  then show "target \<noteq> other" "sidecar target \<noteq> other" using assms(3) by (auto simp: sidecar_def butlast_append)
qed

lemma keeps_lifted_andThen:
  "(\<And>a. v = Inr a \<Longrightarrow> keeps_outside other content (f a)) \<Longrightarrow> keeps_outside other content (andThen (lifted v) f)"
  by (cases v) (auto simp: keeps_outside_def wp_def andThen_def lifted_def)

lemma keeps_end: "keeps_outside other (dk_files d other) p \<Longrightarrow> dk_files (snd (p d)) other = dk_files d other"
  unfolding keeps_outside_def by (auto intro: wp_outcome)

lemma putImmutable_keeps:
  assumes "resolveWithinRoot rootDir path \<noteq> Inr rootDir" and "take (length rootDir) other \<noteq> rootDir"
  shows "keeps_outside other content (fs_putImmutable rootDir path bytes contentType)"
  unfolding fs_putImmutable_def
  by (intro keeps_lifted_andThen keeps_andThen keeps_createOrConfirm) (use assms resolved_below in blast)+

lemma put_keeps:
  assumes "resolveWithinRoot rootDir path \<noteq> Inr rootDir" and "take (length rootDir) other \<noteq> rootDir"
  shows "keeps_outside other content (fs_put rootDir path bytes contentType)"
  unfolding fs_put_def writeAtomically_def
proof (rule keeps_lifted_andThen)
  fix target
  assume "resolveWithinRoot rootDir path = Inr target"
  then have "target \<noteq> other" "sidecar target \<noteq> other" using assms resolved_below by blast+
  then show "keeps_outside other content (if startsWith path DIGEST_PATH_PREFIX then fs_putImmutable rootDir path bytes contentType
      else andThen (effect (write_file (sidecar target) (utf8_encode contentType))) (\<lambda>_. effect (write_file target bytes)))"
    using putImmutable_keeps [OF assms] by (auto intro: keeps_andThen keeps_effect)
qed

lemmas put_outside = keeps_end [OF put_keeps]
lemmas putImmutable_outside = keeps_end [OF putImmutable_keeps]

section \<open>Properties\<close>

text \<open>
  C2: However the appends and recoveries so far were interrupted, one recovery on a working host returns, clears the
  intent and leaves the source idle, in the state that the interrupted append was to reach: no failure wedges the source.
\<close>

theorem recovery_completes:
  assumes "sha256_hex sha" and "key_pair key" and "isSourceName sourceName" and "rootDir \<noteq> []"
    and "reachable sha rootDir key sourceName d" and "calm_disk d"
  shows "\<exists>report t. recover (workspace_options sha rootDir key sourceName) d = (Inr report, t) \<and> dk_intent t = None
    \<and> idle (workspace_options sha rootDir key sourceName) (key_signatures key) (disk_view (workspace_options sha rootDir key sourceName) rootDir t)
    \<and> state_of (workspace_options sha rootDir key sourceName) (disk_view (workspace_options sha rootDir key sourceName) rootDir t)
       = state_after (workspace_options sha rootDir key sourceName) (disk_view (workspace_options sha rootDir key sourceName) rootDir d)"
  by (rule workspace_source.recovers [OF workspace_source.intro [OF assms(1-4)] assms(5,6)])

theorem recovery_completes_witness:
  "\<exists>report t. recover sample_options sample_crashed = (Inr report, t) \<and> dk_intent t = None
    \<and> state_of sample_options (sample.seen t) = state_after sample_options (sample.seen sample_crashed)"
  using recovery_completes [OF sample_ports sample_crash_reachable] by blast

text \<open>
  C3: A head file that is served is always the sealed and signed head of this source, and the archive has a page for
  every sequence number from the head's down to genesis, each carrying the entry that the next page, or the head,
  cites by digest: a reader who follows a head never meets a missing page.
\<close>

theorem head_never_dangles:
  assumes "sha256_hex sha" and "key_pair key" and "isSourceName sourceName" and "rootDir \<noteq> []"
    and "reachable sha rootDir key sourceName d" and "dk_files d (blob_file rootDir (headPath sourceName)) = Some b"
  shows "\<exists>h. head_valid h \<and> sh_origin h = sourceId (workspace_options sha rootDir key sourceName) \<and> b = head_bytes (key_signatures key) h
    \<and> archive_chain (workspace_options sha rootDir key sourceName) (disk_view (workspace_options sha rootDir key sourceName) rootDir d)
        (nat_of_digits (sh_sequence h)) (Some (sh_entry h))"
  by (rule workspace_source.head_has_archive [OF workspace_source.intro [OF assms(1-4)] assms(5,6)])

theorem head_never_dangles_witness:
  "\<exists>t h. append_source sample_options 1000 sample_command (sample_disk None) = (Inr (planned_receipt sample_options sample_context), t)
    \<and> dk_files t (blob_file [''w''] (headPath ''t'')) = Some (head_bytes (key_signatures sample_key) h)
    \<and> archive_chain sample_options (sample.seen t) (nat_of_digits (sh_sequence h)) (Some (sh_entry h))"
proof -
  obtain t where t: "append_source sample_options 1000 sample_command (sample_disk None) = (Inr (planned_receipt sample_options sample_context), t)"
    "sample.seen t = settle sample_options (key_signatures sample_key) sample_context
      (with_record sample_command sample_context (sample.seen (sample_disk None)))" by (rule sample_commits)
  have "reachable sample_sha [''w''] sample_key ''t'' (snd (append_source sample_options 1000 sample_command (sample_disk None)))"
    by (rule reachable_append [OF reachable_fresh sample_wellformed sample_distinguished])
  then have reach: "reachable sample_sha [''w''] sample_key ''t'' t" using t(1) by simp
  have "du_blobs (sample.seen t) (head_path sample_options) \<noteq> None" unfolding t(2) by simp
  then obtain b where b: "dk_files t (blob_file [''w''] (headPath ''t'')) = Some b" by (auto simp: disk_view_def split: if_splits)
  show ?thesis using head_never_dangles [OF sample_ports reach b] t(1) b by blast
qed

text \<open>
  C1: A command takes effect exactly once. If it returns a receipt on an idle source, then after any number of failed or
  successful attempts of the same command, and recoveries between them, on hosts that failed anywhere and with any clock, it
  returns the same receipt on a working host whose clock is inside the head's window, and it leaves the same files,
  state and intent as the one uninterrupted append.
\<close>

theorem append_exactly_once:
  assumes "sha256_hex sha" and "key_pair key" and "isSourceName sourceName" and "rootDir \<noteq> []"
    and "reachable sha rootDir key sourceName d" and "dk_intent d = None" and "wellformed command"
    and "distinguished (workspace_options sha rootDir key sourceName) r command (disk_view (workspace_options sha rootDir key sourceName) rootDir d)"
    and "append_source (workspace_options sha rootDir key sourceName) r command d = (Inr receipt, t)"
    and "retries (disk_view (workspace_options sha rootDir key sourceName) rootDir)
      {\<lambda>e. snd (append_source (workspace_options sha rootDir key sourceName) r command e),
       \<lambda>e. snd (recover (workspace_options sha rootDir key sourceName) e)}
      (disk_view (workspace_options sha rootDir key sourceName) rootDir d) (disk_view (workspace_options sha rootDir key sourceName) rootDir e)"
    and "calm_disk e" and "command_failure r (dk_clock e) command = None"
  shows "\<exists>u. append_source (workspace_options sha rootDir key sourceName) r command e = (Inr receipt, u)
    \<and> disk_view (workspace_options sha rootDir key sourceName) rootDir u = disk_view (workspace_options sha rootDir key sourceName) rootDir t"
  by (rule workspace_source.appends_once [OF workspace_source.intro [OF assms(1-4)] assms(5-12)])

theorem append_exactly_once_witness:
  "\<exists>receipt t u. append_source sample_options 1000 sample_command (sample_disk None) = (Inr receipt, t)
    \<and> append_source sample_options 1000 sample_command sample_crashed = (Inr receipt, u) \<and> sample.seen u = sample.seen t"
proof -
  obtain t where t: "append_source sample_options 1000 sample_command (sample_disk None) = (Inr (planned_receipt sample_options sample_context), t)"
    by (rule sample_commits)
  have "retries sample.seen {\<lambda>e. snd (append_source sample_options 1000 sample_command e), \<lambda>e. snd (recover sample_options e)}
      (sample.seen (sample_disk None)) (sample.seen (snd (append_source sample_options 1000 sample_command (sample_disk (Some 9)))))"
    by (rule retries_more [where call = "\<lambda>e. snd (append_source sample_options 1000 sample_command e)" and s = "sample_disk (Some 9)",
          OF retries_none]) (simp_all add: fresh_disk_def disk_view_def cong: if_cong)
  then have tries: "retries sample.seen {\<lambda>e. snd (append_source sample_options 1000 sample_command e), \<lambda>e. snd (recover sample_options e)}
      (sample.seen (sample_disk None)) (sample.seen sample_crashed)" by simp
  have intent: "dk_intent (sample_disk None) = None" by (simp add: fresh_disk_def)
  have window: "command_failure 1000 (dk_clock sample_crashed) sample_command = None" using sample_window by simp
  show ?thesis
    using append_exactly_once [OF sample_ports reachable_fresh intent sample_wellformed sample_distinguished t tries
        sample_crash_reachable(2) window] t by blast
qed

text \<open>
  C20: Neither write of the blob store touches a file outside its root, on any path (dot-dot segments and repeated
  separators included), at any failure and on every error: a path either is refused or resolves below the root. The one
  path excluded is that of the root itself.
\<close>

theorem blob_writes_confined:
  assumes "resolveWithinRoot rootDir path \<noteq> Inr rootDir" and "take (length rootDir) other \<noteq> rootDir"
  shows "dk_files (snd (fs_put rootDir path bytes contentType d)) other = dk_files d other
    \<and> dk_files (snd (fs_putImmutable rootDir path bytes contentType d)) other = dk_files d other"
  using put_outside [OF assms] putImmutable_outside [OF assms] by blast

theorem blob_writes_confined_witness:
  "resolveWithinRoot [''srv'', ''w''] ''/records/../../w/a'' = Inr [''srv'', ''w'', ''a'']
    \<and> dk_files (snd (fs_put [''srv'', ''w''] ''/records/../../w/a'' ''x'' ''text/plain'' (sample_disk None))) [''srv'', ''a''] = None"
proof -
  have "resolveWithinRoot [''srv'', ''w''] ''/records/../../w/a'' = Inr [''srv'', ''w'', ''a'']" by code_simp
  then show ?thesis using blob_writes_confined [of "[''srv'', ''w'']" "''/records/../../w/a''" "[''srv'', ''a'']" "''x''" "''text/plain''" "sample_disk None"]
    by (simp add: fresh_disk_def)
qed

text \<open>
  On the path of the root the check passes, and the sidecar is written beside the root, not below it.
\<close>

theorem root_sidecar_escapes:
  "dk_files (snd (fs_put [''srv'', ''w''] ''/'' b c (sample_disk None))) [''srv'', ''w.content-type''] = Some (utf8_encode c)"
proof -
  have "resolveWithinRoot [''srv'', ''w''] ''/'' = Inr [''srv'', ''w'']" "\<not> startsWith ''/'' DIGEST_PATH_PREFIX"
    "sidecar [''srv'', ''w''] = [''srv'', ''w.content-type'']" by code_simp+
  then show ?thesis
    by (simp add: fs_put_def andThen_def lifted_def writeAtomically_def effect_def tick_def modify_def write_file_def fresh_disk_def)
qed

end
