(* ===== verification/Spec2Isabelle.thy ===== *)
theory Spec2Isabelle
  imports Attempt_Fold Requirements_Merge Predicate_Evaluation Curation Broadcast_Lock Safe_Broadcaster
    Source_Verification Workspace_Safety
begin

text \<open>
  A verification library of the Jinn monorepo: the protocol logic of its TypeScript packages, translated
  into executable HOL definitions, with the theorems that make it correct.

  \<^bold>\<open>The program.\<close> Jinn keeps records of work. Sources publish \<^emph>\<open>announcement entries\<close> in signed,
  hash-linked chains that consumers verify (packages/discovery). A Task is carried out in Attempts whose
  state is folded from signed observations; its requirements are merged into a Submission and its result
  is judged by verdict rules and state predicates (packages/task-execution). Curation counts what was
  delivered and judged (packages/task-supply/curation). The marketplace venue settles on chain through a
  Safe, with one broadcast stack for nonces, fees, locks and retries (packages/marketplace).

  \<^bold>\<open>The prelude.\<close>
  \<^item> Js_Runtime, Js_Number, Js_Json, Js_Parse, Js_Async: what the code uses of its language. Strings over the code units
    below 256 with code-unit order, stable \<open>sort\<close>, \<open>Map\<close> in insertion order, decimal texts, JSON values and
    their canonical text, UTF-8 and \<open>JSON.parse\<close>, thrown errors as the left side of a sum, and asynchronous code as a state and
    error monad with a weakest-precondition calculus (\<open>wp_rules\<close>). The locale \<open>keyed_comparator\<close> is the interface
    of every comparator; each theory that sorts interprets it.

  \<^bold>\<open>Task execution.\<close>
  \<^item> Attempt_Fold: task-execution/protocol/src/fold.ts and observation types. \<open>foldObservations\<close> sorts, dedupes,
    refuses conflicts, pins the authoritative source and derives the Attempt. The theorems: the result
    depends on the set of observations only, foreign producers change it by engagements at most, it refines a
    declarative summary, exactly when it throws, and which terminal wins. All but the refinement are for sources
    without U+001F, the separator of the dedupe key, which the schema does not exclude.
  \<^item> Calendar_Time, Iso_Time: trust/core/src/rfc3339.ts and discovery/protocol/src/timestamps.ts, and
    \<open>Date.prototype.toISOString\<close>. Exact instants are a total preorder; epoch milliseconds are a monotone
    coarsening of it, and printing them is undone by reading.
  \<^item> Requirements_Merge: requirements.ts. A merge keeps and only tightens what the Task requires, measured by
    number values, tier positions and equality up to key order (\<open>tightened\<close>); not so for the \<open>constraint\<close> class.
  \<^item> Exact_Decimal, Verdict_Rule: evaluation-spec/verdict-rule.ts and decimal.ts in task-execution/profiles.
    Thresholds are decided by exact rational values, with the absolute value of a tolerance; which delivered verdicts
    are consistent.
  \<^item> State_Predicate, Predicate_Evaluation: evaluation-spec/state-predicate. The verdict of an evaluated
    block on every branch, the reads it depends on and that none is requested twice, soundness of approval constraints.

  \<^bold>\<open>Task supply.\<close>
  \<^item> Curation: task-supply/curation/src. The projection depends on the set of announcements only, can be
    resumed from stored rows, counts what it says, and rejects exactly the malformed and equivocating logs.

  \<^bold>\<open>Broadcasting.\<close> (marketplace/venue-base/src/broadcast and marketplace/binding/src/venue/safe-revert.ts)
  \<^item> Broadcast_Errors: decoding inner reverts and classifying errors. The work list of \<open>extractRevertData\<close> is
    cut at eight candidates, as in the code.
  \<^item> Broadcast_Fees: \<open>bumpFees\<close> is the least integral fee over the replacement floor, for snapshots of one kind.
  \<^item> Submission_Ledger: the table operations behind the interface locale \<open>submission_ledger\<close>.
  \<^item> Broadcast_Lock: the lease lock as a state machine (\<open>lock_step\<close>, \<open>lock_reach\<close>) of several processes on one
    table: exclusion of live leases, first in first out per process, progress.
  \<^item> Safe_Broadcaster: the retry loop with reconciliation, cost cap, receipts and stuck-nonce eviction.
    \<open>attemptLoop\<close> recurses on the attempts left, which the code bounds by \<open>maxAttempts\<close>.

  \<^bold>\<open>Record discovery.\<close> (discovery/protocol/src and discovery/client/src)
  \<^item> Sealing, Dsse: sealing.ts, hashing.ts, dsse.ts, grammar.ts. Sealed bytes are canonical, signed bytes
    determine the document, base64 is read strictly, sequences count up. SHA-256 is a parameter.
  \<^item> Text_Encoding: the payload type of an envelope over all 16-bit code units. \<open>TextEncoder\<close> is injective on strings
    without lone surrogates and collides on others.
  \<^item> Source_Chain: entry.ts, verify/chain-rules.ts. The global rules and the linkage walk. The walk is a total
    function: each step was checked to lower the sequence number by one, so it visits no entry twice, refused or not.
    A digest commits to its history.
  \<^item> Source_Verification: verify/source-chain.ts, source-head.ts, refresh-bound.ts, client/high-water-mark.ts. What an
    accepted chain has established, that marks never regress, that incremental and full verification
    agree, and which sound chains a returning consumer refuses. The locales \<open>mark_reader\<close> and \<open>mark_store\<close>
    are the store interface; \<open>memory\<close> interprets them on the in-memory store.
  \<^item> Discovery_Records: the zod schemas of entry.ts and head.ts. What can be sealed, members beyond the declared ones
    included, reads back up to key order and is accepted as before.
  \<^item> Head_Maintenance: discovery/serve/src/head.ts and entry-signing.ts. Refreshed heads increase, and stay fresh for
    requested durations of at least a millisecond; a shorter one mints a window that consumers refuse.

  \<^bold>\<open>Publishing.\<close> (discovery/serve/src/source-writer.ts, discovery/transport-http/src/fs-blob-store.ts and
  benchmark-product/core/src/run/publication-source.ts)
  \<^item> Source_Writer: every operation of the durable source writer, over its ports as a record of operations in
    the asynchronous monad. The retry loops recurse on the attempts left, \<open>MAX_CAS_ATTEMPTS\<close> as in the code.
  \<^item> Writer_Intent: what a minted intent holds and that the ownership checks accept it. The locale \<open>signing_ports\<close>
    is the contract of the signer.
  \<^item> Writer_Recovery, Writer_Append, Writer_Safety: crash safety for every store with the contract of the
    locale \<open>durable_ports\<close>. \<open>idle\<close> and \<open>pending\<close> are the invariant of the durable data, \<open>settle\<close> the
    abstract commit; each stage of a commit and each crash inside a blob write has the same settled data.
  \<^item> Workspace_Source: the file-system blob store, the compare-and-swap documents and the composition of a
    workspace's source, on a disk that may fail before or after every operation. \<open>workspace_source\<close> satisfies
    \<open>durable_ports\<close>, so the lemmas above hold of it. \<open>reachable\<close> are the disks any sequence of interrupted calls leads to.
  \<^item> Workspace_Safety: a command takes effect exactly once, recovery always completes, a served head never
    dangles, and the store writes below its root only.

  \<^bold>\<open>Parameters.\<close> Code outside the repository is an argument of the definitions that use it: SHA-256, Ed25519, the
  ABI decoder and the chain client of viem, key resolution, signature checks and freshness policies, and
  the clock. Hypotheses about them are stated where they are used; nothing is assumed globally.

  \<^bold>\<open>Bounds.\<close> No definition uses fuel. Loops are structural or carry a termination proof: the JSON printer
  by the weight of its stack, the linkage walk by the sequence number, the broadcast loop and the loops of the
  source writer by their attempts. That the attempts are enough for a single writer is part of the theorems on recovery.

  \<^bold>\<open>Not modelled.\<close> Code units above 255 (so no surrogates) outside Text_Encoding, numbers other than through their printed text
  (durations are rationals, added without the rounding of doubles), network
  transports, the serialized curation document, two writers of one source at the same time (the workspace holds a
  lock), the JSON text of the writer's state and intent files, directories, symbolic links below the store's root and
  temporary files (a write is one effect, so a power loss that keeps a rename and loses the unsynced data is not
  covered), high-water mark stores other than the in-memory one, clocks of the broadcast lock that differ or move back,
  a submission ledger that throws, the two nonce reads of an eviction in the other order than the one written (they
  run in one \<open>Promise.all\<close>), members of a head or entry beyond the declared ones in the typed records (the theorems on
  sealing and parsing have them), the well-known document and the entry anchors, item and facts verification, and the other packages: trust bindings,
  evidence, benchmarking, environments, policies, the operator daemon, indexer and user interfaces, and the
  Solidity contracts. They are I/O and composition, record schemas, or would be further components of this library:
  item verification first, then trust bindings and posting.
\<close>

end
